(* ===== verification/Kernel_Prelude.thy ===== *)
theory Kernel_Prelude
  imports Main "HOL-Library.Word"
begin

text \<open>
  Shared vocabulary of the development: the error codes of \<open>kern/include/kern/errno.h\<close>,
  the outcome of a kernel function (a value, an error code, or a panic), the sequencing
  combinators that play the part of \<open>if (result) return result;\<close>, a weakest-precondition
  calculus for them, and lemmas on lists.
\<close>

section \<open>Rule collections\<close>

named_theorems wp_rules \<open>equations that push \<open>wp\<close> through the combinators\<close>
named_theorems outcome_simps \<open>equations that run a computation symbolically\<close>

section \<open>Error codes\<close>

datatype errno =
    EINVAL | EFAULT | ENAMETOOLONG | ENOMEM | EIO | ENOENT | ENOTDIR | EISDIR | EEXIST
  | EXDEV | EAGAIN | ESPIPE | EUNIMP | ENXIO | ENODEV | EBUSY | EIOCTL | ENOTEMPTY
  | ERANGE | ENOSPC | EMFILE | ENFILE | ENOSYS | ENOEXEC | E2BIG | EBADF

section \<open>Outcomes of kernel functions\<close>

text \<open>
  A C function of the kernel that returns an error code ends in one of three ways:
  it returns 0 (\<open>Ok\<close>, with what it hands back), it returns an error code (\<open>Err\<close>; the
  side effects made so far stay), or it does not return: an \<open>assert\<close> fails, \<open>panic\<close> is
  called, or the code reads or writes memory it may not (\<open>Panic\<close>, with a message).
  Both returning cases carry the state after the call.
\<close>

datatype ('a, 's) outcome = Ok 'a 's | Err errno 's | Panic string

type_synonym ('a, 's) kmon = "'s \<Rightarrow> ('a, 's) outcome"

abbreviation ret :: "'a \<Rightarrow> ('a, 's) kmon" where
  "ret a \<equiv> Ok a"

abbreviation fail :: "errno \<Rightarrow> ('a, 's) kmon" where
  "fail e \<equiv> Err e"

definition panic :: "string \<Rightarrow> ('a, 's) kmon" where
  "panic msg = (\<lambda>s. Panic msg)"

definition bind :: "('a, 's) kmon \<Rightarrow> ('a \<Rightarrow> ('b, 's) kmon) \<Rightarrow> ('b, 's) kmon" where
  "bind m f = (\<lambda>s. case m s of Ok a s' \<Rightarrow> f a s' | Err e s' \<Rightarrow> Err e s' | Panic p \<Rightarrow> Panic p)"

definition seqm :: "('a, 's) kmon \<Rightarrow> ('b, 's) kmon \<Rightarrow> ('b, 's) kmon" where
  "seqm m k = bind m (\<lambda>_. k)"

text \<open>\<open>attempt m\<close> is \<open>result = m();\<close> where the caller looks at the code itself.\<close>

definition attempt :: "('a, 's) kmon \<Rightarrow> (errno + 'a, 's) kmon" where
  "attempt m = (\<lambda>s. case m s of Ok a s' \<Rightarrow> Ok (Inr a) s' | Err e s' \<Rightarrow> Ok (Inl e) s' | Panic p \<Rightarrow> Panic p)"

definition assertk :: "bool \<Rightarrow> string \<Rightarrow> (unit, 's) kmon" where
  "assertk b msg = (if b then ret () else panic msg)"

definition gets :: "('s \<Rightarrow> 'a) \<Rightarrow> ('a, 's) kmon" where
  "gets f = (\<lambda>s. Ok (f s) s)"

definition modify :: "('s \<Rightarrow> 's) \<Rightarrow> (unit, 's) kmon" where
  "modify f = (\<lambda>s. Ok () (f s))"

definition whenk :: "bool \<Rightarrow> (unit, 's) kmon \<Rightarrow> (unit, 's) kmon" where
  "whenk b m = (if b then m else ret ())"

text \<open>\<open>zoom get put m\<close> runs an operation on a part of the state.\<close>

definition zoom :: "('s \<Rightarrow> 't) \<Rightarrow> ('t \<Rightarrow> 's \<Rightarrow> 's) \<Rightarrow> ('a, 't) kmon \<Rightarrow> ('a, 's) kmon" where
  "zoom get put m = (\<lambda>s. case m (get s) of
      Ok a t \<Rightarrow> Ok a (put t s) | Err e t \<Rightarrow> Err e (put t s) | Panic p \<Rightarrow> Panic p)"

text \<open>\<open>deref get put m\<close> runs an operation through a pointer that may be NULL.\<close>

definition deref :: "('s \<Rightarrow> 't option) \<Rightarrow> ('t \<Rightarrow> 's \<Rightarrow> 's) \<Rightarrow> ('a, 't) kmon \<Rightarrow> ('a, 's) kmon" where
  "deref get put m = (\<lambda>s. case get s of
      None \<Rightarrow> Panic ''NULL pointer''
    | Some t \<Rightarrow> (case m t of Ok a t' \<Rightarrow> Ok a (put t' s) | Err e t' \<Rightarrow> Err e (put t' s) | Panic p \<Rightarrow> Panic p))"

text \<open>\<open>must m\<close> is \<open>result = m(); assert(result==0);\<close>.\<close>

definition must :: "('a, 's) kmon \<Rightarrow> ('a, 's) kmon" where
  "must m = (\<lambda>s. case m s of Ok a s' \<Rightarrow> Ok a s' | Err e s' \<Rightarrow> Panic ''result==0'' | Panic p \<Rightarrow> Panic p)"

text \<open>\<open>foreach xs f\<close> is a \<open>for\<close> loop over known values that stops at the first error.\<close>

primrec foreach :: "'x list \<Rightarrow> ('x \<Rightarrow> (unit, 's) kmon) \<Rightarrow> (unit, 's) kmon" where
  "foreach [] f = ret ()"
| "foreach (x # xs) f = bind (f x) (\<lambda>_. foreach xs f)"

text \<open>\<open>repeatm n m\<close> runs \<open>m\<close> \<open>n\<close> times and collects what it returns.\<close>

primrec repeatm :: "nat \<Rightarrow> ('a, 's) kmon \<Rightarrow> ('a list, 's) kmon" where
  "repeatm 0 m = ret []"
| "repeatm (Suc n) m = bind m (\<lambda>x. bind (repeatm n m) (\<lambda>xs. ret (x # xs)))"

text \<open>\<open>first_some xs f\<close> is a \<open>for\<close> loop that returns from inside its body once \<open>f\<close> finds something.\<close>

primrec first_some :: "'x list \<Rightarrow> ('x \<Rightarrow> ('r option, 's) kmon) \<Rightarrow> ('r option, 's) kmon" where
  "first_some [] f = ret None"
| "first_some (x # xs) f =
     bind (f x) (\<lambda>r. case r of Some y \<Rightarrow> ret (Some y) | None \<Rightarrow> first_some xs f)"

text \<open>Equations that run a computation from a given state.\<close>

lemma panic_apply [simp]: "panic msg s = Panic msg"
  and gets_apply [simp]: "gets f s = Ok (f s) s"
  and modify_apply [simp]: "modify g s = Ok () (g s)"
  by (simp_all add: panic_def gets_def modify_def)

lemma bind_Ok: "m s = Ok a s' \<Longrightarrow> bind m f s = f a s'"
  and bind_Err: "m s = Err e s' \<Longrightarrow> bind m f s = Err e s'"
  and bind_Panic: "m s = Panic p \<Longrightarrow> bind m f s = Panic p"
  by (simp_all add: bind_def)

lemma bind_ret [simp]: "bind (ret a) f = f a"
  by (simp add: bind_def fun_eq_iff)

lemma bind_gets [simp]: "bind (gets g) f s = f (g s) s"
  by (simp add: bind_def)

lemma bind_modify [simp]: "bind (modify g) f s = f () (g s)"
  by (simp add: bind_def)

lemma bind_panic [simp]: "bind (panic p) f = panic p"
  by (simp add: bind_def fun_eq_iff)

lemma bind_fail [simp]: "bind (fail e) f = fail e"
  by (simp add: bind_def fun_eq_iff)

lemma bind_ret_right [simp]: "bind m ret = m"
  by (simp add: bind_def fun_eq_iff split: outcome.split)

lemma bind_assoc: "bind (bind m f) g = bind m (\<lambda>a. bind (f a) g)"
  by (auto simp: bind_def fun_eq_iff split: outcome.splits)

lemma bind_if [simp]: "bind (if b then m else m') f = (if b then bind m f else bind m' f)"
  by simp

lemma assertk_True [simp]: "assertk True msg = ret ()"
  and assertk_False [simp]: "assertk False msg = panic msg"
  by (simp_all add: assertk_def)

lemma assertk_apply: "assertk b msg s = (if b then Ok () s else Panic msg)"
  by (simp add: assertk_def)

lemma whenk_True [simp]: "whenk True m = m"
  and whenk_False [simp]: "whenk False m = ret ()"
  by (simp_all add: whenk_def)

lemma bind_assertk: "bind (assertk b msg) f s = (if b then f () s else Panic msg)"
  by (simp add: assertk_def)

lemmas bind_eqs [outcome_simps] = bind_def seqm_def attempt_def zoom_def assertk_def whenk_def

lemma bind_eq_Ok:
  "bind m f s = Ok b s'' \<longleftrightarrow> (\<exists>a s'. m s = Ok a s' \<and> f a s' = Ok b s'')"
  by (simp add: bind_def split: outcome.splits)

lemma bind_OkE:
  assumes "bind m f s = Ok b s''"
  obtains a s' where "m s = Ok a s'" "f a s' = Ok b s''"
  using assms by (auto simp: bind_eq_Ok)

lemma bind_cong [fundef_cong]:
  "m s = m' s' \<Longrightarrow> (\<And>a t. m' s' = Ok a t \<Longrightarrow> f a t = f' a t) \<Longrightarrow> bind m f s = bind m' f' s'"
  by (simp add: bind_def split: outcome.splits)

lemma foreach_append: "foreach (xs @ ys) f = bind (foreach xs f) (\<lambda>_. foreach ys f)"
  by (induction xs) (simp_all add: bind_assoc)

section \<open>Weakest preconditions\<close>

text \<open>
  \<open>wp m Q E s\<close>: run from \<open>s\<close>, \<open>m\<close> does not panic, and it ends in \<open>Q\<close> when it succeeds and
  in \<open>E\<close> when it returns an error. It is a total-correctness statement: a computation that
  panics satisfies no \<open>wp\<close>.
\<close>

definition wp :: "('a, 's) kmon \<Rightarrow> ('a \<Rightarrow> 's \<Rightarrow> bool) \<Rightarrow> (errno \<Rightarrow> 's \<Rightarrow> bool) \<Rightarrow> 's \<Rightarrow> bool" where
  "wp m Q E s = (case m s of Ok a s' \<Rightarrow> Q a s' | Err e s' \<Rightarrow> E e s' | Panic p \<Rightarrow> False)"

lemma wp_ret [wp_rules]: "wp (ret a) Q E = Q a"
  by (simp add: wp_def fun_eq_iff)

lemma wp_fail [wp_rules]: "wp (fail e) Q E = E e"
  by (simp add: wp_def fun_eq_iff)

lemma wp_panic [wp_rules]: "wp (panic p) Q E s = False"
  by (simp add: wp_def)

lemma wp_gets [wp_rules]: "wp (gets g) Q E s = Q (g s) s"
  by (simp add: wp_def)

lemma wp_modify [wp_rules]: "wp (modify h) Q E s = Q () (h s)"
  by (simp add: wp_def)

lemma wp_bind [wp_rules]: "wp (bind m f) Q E = wp m (\<lambda>a. wp (f a) Q E) E"
  by (simp add: wp_def bind_def fun_eq_iff split: outcome.splits)

lemma wp_seqm [wp_rules]: "wp (seqm m k) Q E s = wp m (\<lambda>_. wp k Q E) E s"
  by (simp add: seqm_def wp_bind)

lemma wp_attempt [wp_rules]:
  "wp (attempt m) Q E s = wp m (\<lambda>a. Q (Inr a)) (\<lambda>e. Q (Inl e)) s"
  by (simp add: wp_def attempt_def split: outcome.splits)

lemma wp_assertk [wp_rules]: "wp (assertk b msg) Q E s = (b \<and> Q () s)"
  by (simp add: assertk_def wp_ret wp_panic)

lemma wp_whenk [wp_rules]: "wp (whenk b m) Q E s = (if b then wp m Q E s else Q () s)"
  by (simp add: whenk_def wp_ret)

lemma wp_if [wp_rules]: "wp (if b then m else m') Q E s = (if b then wp m Q E s else wp m' Q E s)"
  by simp

lemma wp_zoom [wp_rules]:
  "wp (zoom get put m) Q E s = wp m (\<lambda>a t. Q a (put t s)) (\<lambda>e t. E e (put t s)) (get s)"
  by (simp add: wp_def zoom_def split: outcome.splits)

lemma wp_deref [wp_rules]:
  "wp (deref get put m) Q E s = (case get s of None \<Rightarrow> False
     | Some t \<Rightarrow> wp m (\<lambda>a t'. Q a (put t' s)) (\<lambda>e t'. E e (put t' s)) t)"
  by (simp add: wp_def deref_def split: outcome.splits option.splits)

lemma wp_must [wp_rules]: "wp (must m) Q E s = wp m Q (\<lambda>_ _. False) s"
  by (simp add: wp_def must_def split: outcome.splits)

lemma wp_run: "m s = m' s \<Longrightarrow> wp m Q E s = wp m' Q E s"
  by (simp add: wp_def)

lemma wp_mono:
  assumes "wp m Q E s"
    and "\<And>a s'. m s = Ok a s' \<Longrightarrow> Q a s' \<Longrightarrow> Q' a s'"
    and "\<And>e s'. m s = Err e s' \<Longrightarrow> E e s' \<Longrightarrow> E' e s'"
  shows "wp m Q' E' s"
  using assms by (auto simp: wp_def split: outcome.splits)

lemma wp_Ok: "m s = Ok a s' \<Longrightarrow> wp m Q E s = Q a s'"
  and wp_Err: "m s = Err e s' \<Longrightarrow> wp m Q E s = E e s'"
  by (simp_all add: wp_def)

lemma wp_OkD: "wp m Q E s \<Longrightarrow> m s = Ok a s' \<Longrightarrow> Q a s'"
  and wp_ErrD: "wp m Q E s \<Longrightarrow> m s = Err e s' \<Longrightarrow> E e s'"
  and wp_no_panic: "wp m Q E s \<Longrightarrow> m s \<noteq> Panic p"
  by (auto simp: wp_def)

lemma wp_cases:
  assumes "wp m Q E s"
  obtains a s' where "m s = Ok a s'" "Q a s'" | e s' where "m s = Err e s'" "E e s'"
  using assms by (auto simp: wp_def split: outcome.splits)

text \<open>The loop rule: an invariant indexed by the part of the range already done.\<close>

lemma wp_foreach:
  assumes "I [] s"
    and "\<And>ys x zs t. xs = ys @ x # zs \<Longrightarrow> I ys t \<Longrightarrow> wp (f x) (\<lambda>_. I (ys @ [x])) E t"
  shows "wp (foreach xs f) (\<lambda>_. I xs) E s"
proof -
  have "wp (foreach zs f) (\<lambda>_. I xs) E t" if "xs = ys @ zs" "I ys t" for ys zs t
    using that
  proof (induction zs arbitrary: ys t)
    case Nil
    then show ?case by (simp add: wp_ret)
  next
    case (Cons z zs)
    from assms(2)[OF Cons.prems] have "wp (f z) (\<lambda>_. I (ys @ [z])) E t" .
    then have "wp (f z) (\<lambda>_. wp (foreach zs f) (\<lambda>_. I xs) E) E t"
      by (rule wp_mono) (rule Cons.IH[of "ys @ [z]"], simp add: Cons.prems(1))
    then show ?case by (simp add: wp_bind)
  qed
  from this[of "[]" xs s] assms(1) show ?thesis by simp
qed

section \<open>Lists\<close>

text \<open>\<open>splice xs i ys\<close> overwrites \<open>xs\<close> from index \<open>i\<close> on with \<open>ys\<close>: what \<open>memmove\<close> does.\<close>

definition splice_at :: "'a list \<Rightarrow> nat \<Rightarrow> 'a list \<Rightarrow> 'a list" where
  "splice_at xs i ys = take i xs @ ys @ drop (i + length ys) xs"

lemma length_splice_at [simp]: "i + length ys \<le> length xs \<Longrightarrow> length (splice_at xs i ys) = length xs"
  by (simp add: splice_at_def)

lemma splice_at_Nil [simp]: "i \<le> length xs \<Longrightarrow> splice_at xs i [] = xs"
  by (simp add: splice_at_def)

lemma nth_splice_at:
  assumes "i + length ys \<le> length xs" "j < length xs"
  shows "splice_at xs i ys ! j = (if i \<le> j \<and> j < i + length ys then ys ! (j - i) else xs ! j)"
  using assms by (auto simp: splice_at_def nth_append)

lemma take_splice_at [simp]: "i \<le> length xs \<Longrightarrow> take i (splice_at xs i ys) = take i xs"
  by (simp add: splice_at_def)

lemma slice_splice_at:
  "i \<le> length xs \<Longrightarrow> take (length ys) (drop i (splice_at xs i ys)) = ys"
  by (simp add: splice_at_def)

lemma splice_at_append:
  "i + length ys + length zs \<le> length xs \<Longrightarrow>
   splice_at (splice_at xs i ys) (i + length ys) zs = splice_at xs i (ys @ zs)"
  by (simp add: splice_at_def ac_simps)

text \<open>\<open>find_ix P k xs\<close>: the first element that satisfies \<open>P\<close>, with its index counted from \<open>k\<close>.\<close>

primrec find_ix :: "('a \<Rightarrow> bool) \<Rightarrow> nat \<Rightarrow> 'a list \<Rightarrow> (nat \<times> 'a) option" where
  "find_ix P k [] = None"
| "find_ix P k (x # xs) = (if P x then Some (k, x) else find_ix P (Suc k) xs)"

lemma find_ix_None: "find_ix P k xs = None \<longleftrightarrow> (\<forall>x \<in> set xs. \<not> P x)"
  by (induction xs arbitrary: k) auto

lemma find_ix_Some:
  assumes "find_ix P k xs = Some (i, x)"
  shows "k \<le> i" "i - k < length xs" "xs ! (i - k) = x" "P x" "\<forall>j < i - k. \<not> P (xs ! j)"
proof -
  have "k \<le> i \<and> i - k < length xs \<and> xs ! (i - k) = x \<and> P x \<and> (\<forall>j < i - k. \<not> P (xs ! j))"
    using assms
  proof (induction xs arbitrary: k)
    case (Cons y ys)
    then show ?case
      by (fastforce split: if_splits simp: nth_Cons' Suc_diff_le)
  qed simp
  then show "k \<le> i" "i - k < length xs" "xs ! (i - k) = x" "P x" "\<forall>j < i - k. \<not> P (xs ! j)"
    by blast+
qed

section \<open>Blocks of pointer cells\<close>

text \<open>
  A \<open>void **\<close> variable is \<open>None\<close> when it is NULL and otherwise the block it points to: a
  list of cells, \<open>None\<close> where nothing has been stored since \<open>kmalloc\<close> returned the block.
  The number of usable cells follows the 32-bit product \<open>n * sizeof(void *)\<close>.
\<close>

type_synonym 'a block = "'a option list option"

definition kmalloc_cells :: "int \<Rightarrow> 'a option list" where
  "kmalloc_cells n = replicate (nat ((n * 4) mod 2 ^ 32 div 4)) None"

definition cell_at :: "'a block \<Rightarrow> nat \<Rightarrow> 'a option option" where
  "cell_at v i = (case v of None \<Rightarrow> None | Some c \<Rightarrow> if i < length c then Some (c ! i) else None)"

definition cell_put :: "'a block \<Rightarrow> nat \<Rightarrow> 'a \<Rightarrow> 'a option list option" where
  "cell_put v i x = (case v of None \<Rightarrow> None
      | Some c \<Rightarrow> if i < length c then Some (c[i := Some x]) else None)"

lemma length_kmalloc_cells [simp]:
  assumes "0 \<le> n" "n < 2 ^ 30"
  shows "length (kmalloc_cells n) = nat n"
proof -
  have "n * 4 mod 2 ^ 32 = n * 4"
    using assms by (intro mod_pos_pos_trivial) auto
  then show ?thesis by (simp add: kmalloc_cells_def)
qed

lemma cell_at_Some [simp]: "i < length c \<Longrightarrow> cell_at (Some c) i = Some (c ! i)"
  by (simp add: cell_at_def)

lemma cell_put_Some [simp]: "i < length c \<Longrightarrow> cell_put (Some c) i x = Some (c[i := Some x])"
  by (simp add: cell_put_def)

lemma cell_at_None [simp]: "cell_at None i = None"
  and cell_put_None [simp]: "cell_put None i x = None"
  by (simp_all add: cell_at_def cell_put_def)

end
