(* ===== verification/Kernel_Bitmap.thy ===== *)
theory Kernel_Bitmap
  imports Kernel_Prelude
begin

text \<open>
  The bit array of \<open>kern/lib/bitmap.c\<close>, used by SFS for its free-block map. Bytes are 8-bit
  words; the \<open>u_int32_t\<close> counters are naturals with their wrap-around written out.
\<close>

unbundle bit_operations_syntax

section \<open>The code\<close>

record bitmap =
  b_nbits :: nat
  b_v :: "8 word list"

definition BITS_PER_WORD :: nat where "BITS_PER_WORD = 8"

definition WORD_ALLBITS :: "8 word" where "WORD_ALLBITS = 0xff"

text \<open>\<open>DIVROUNDUP(nbits, BITS_PER_WORD)\<close> in 32-bit arithmetic.\<close>

definition bitmap_words :: "nat \<Rightarrow> nat" where
  "bitmap_words nbits = ((nbits + BITS_PER_WORD - 1) mod 2 ^ 32) div BITS_PER_WORD"

text \<open>The loop that marks the leftover bits of the last byte.\<close>

primrec bitmap_markover :: "nat list \<Rightarrow> 8 word \<Rightarrow> 8 word" where
  "bitmap_markover [] w = w"
| "bitmap_markover (j # js) w = bitmap_markover js (w OR push_bit j 1)"

definition bitmap_create :: "bool \<Rightarrow> bool \<Rightarrow> nat \<Rightarrow> (bitmap option, 's) kmon" where
  "bitmap_create mem_ok mem_ok' nbits =
     (let words = bitmap_words nbits in
      if \<not> mem_ok then ret None
      else if \<not> mem_ok' then ret None
      else let v = replicate words 0 in
        if nbits div BITS_PER_WORD < words then
          (let ix = words - 1; overbits = (nbits + 2 ^ 32 - (ix * BITS_PER_WORD) mod 2 ^ 32) mod 2 ^ 32 in
           bind (assertk (nbits div BITS_PER_WORD = words - 1) ''nbits / BITS_PER_WORD == words-1'') (\<lambda>_.
           bind (assertk (overbits > 0 \<and> overbits < BITS_PER_WORD)
                  ''overbits > 0 && overbits < BITS_PER_WORD'') (\<lambda>_.
           ret (Some \<lparr>b_nbits = nbits,
                      b_v = v[ix := bitmap_markover [overbits..<BITS_PER_WORD] (v ! ix)]\<rparr>))))
        else ret (Some \<lparr>b_nbits = nbits, b_v = v\<rparr>))"

definition bitmap_getdata :: "bitmap \<Rightarrow> 8 word list" where
  "bitmap_getdata b = b_v b"

text \<open>The body of the outer loop of \<open>bitmap_alloc\<close>, run for each index in turn.\<close>

primrec bitmap_alloc_loop :: "nat list \<Rightarrow> (nat, bitmap) kmon" where
  "bitmap_alloc_loop [] = fail ENOSPC"
| "bitmap_alloc_loop (ix # ixs) = (\<lambda>b.
     if \<not> ix < length (b_v b) then Panic ''read out of bounds''
     else if b_v b ! ix \<noteq> WORD_ALLBITS then
       (case find (\<lambda>offset. (b_v b ! ix) AND push_bit offset 1 = 0) [0..<BITS_PER_WORD] of
          Some offset \<Rightarrow>
            (let index = (ix * BITS_PER_WORD + offset) mod 2 ^ 32 in
             if index < b_nbits b
             then Ok index (b\<lparr>b_v := (b_v b)[ix := (b_v b ! ix) OR push_bit offset 1]\<rparr>)
             else Panic ''*index < b->nbits'')
        | None \<Rightarrow> Panic ''0'')
     else bitmap_alloc_loop ixs b)"

definition bitmap_alloc :: "(nat, bitmap) kmon" where
  "bitmap_alloc b = bitmap_alloc_loop [0..<bitmap_words (b_nbits b)] b"

definition bitmap_translate :: "nat \<Rightarrow> nat \<times> 8 word" where
  "bitmap_translate bitno = (bitno div BITS_PER_WORD, push_bit (bitno mod BITS_PER_WORD) 1)"

definition bitmap_mark :: "nat \<Rightarrow> (unit, bitmap) kmon" where
  "bitmap_mark index b =
     (if \<not> index < b_nbits b then Panic ''index < b->nbits''
      else let (ix, mask) = bitmap_translate index in
        if \<not> ix < length (b_v b) then Panic ''access out of bounds''
        else if (b_v b ! ix) AND mask \<noteq> 0 then Panic ''(b->v[ix] & mask)==0''
        else Ok () (b\<lparr>b_v := (b_v b)[ix := (b_v b ! ix) OR mask]\<rparr>))"

definition bitmap_unmark :: "nat \<Rightarrow> (unit, bitmap) kmon" where
  "bitmap_unmark index b =
     (if \<not> index < b_nbits b then Panic ''index < b->nbits''
      else let (ix, mask) = bitmap_translate index in
        if \<not> ix < length (b_v b) then Panic ''access out of bounds''
        else if (b_v b ! ix) AND mask = 0 then Panic ''(b->v[ix] & mask)!=0''
        else Ok () (b\<lparr>b_v := (b_v b)[ix := (b_v b ! ix) AND NOT mask]\<rparr>))"

text \<open>\<open>bitmap_isset\<close> does not check its index; a read past the data is an error of its own.\<close>

definition bitmap_isset :: "nat \<Rightarrow> (bool, bitmap) kmon" where
  "bitmap_isset index b =
     (let (ix, mask) = bitmap_translate index in
      if \<not> ix < length (b_v b) then Panic ''read out of bounds''
      else Ok ((b_v b ! ix) AND mask \<noteq> 0) b)"

section \<open>The set of used bits\<close>

definition bitmap_used :: "bitmap \<Rightarrow> nat \<Rightarrow> bool" where
  "bitmap_used b i = bit (b_v b ! (i div 8)) (i mod 8)"

text \<open>
  The data is exactly long enough, and the bits past the end are marked, so that
  \<open>bitmap_alloc\<close> never returns one of them.
\<close>

definition bitmap_inv :: "bitmap \<Rightarrow> bool" where
  "bitmap_inv b \<longleftrightarrow> b_nbits b < 2 ^ 32 - 7 \<and> length (b_v b) = (b_nbits b + 7) div 8 \<and>
     (\<forall>i < 8 * length (b_v b). b_nbits b \<le> i \<longrightarrow> bitmap_used b i)"

definition bitmap_free :: "bitmap \<Rightarrow> nat set" where
  "bitmap_free b = {i. i < b_nbits b \<and> \<not> bitmap_used b i}"

subsection \<open>One byte\<close>

lemma and_mask_eq_0: "k < 8 \<Longrightarrow> (w AND 2 ^ k = (0 :: 8 word)) \<longleftrightarrow> \<not> bit w k"
  by (auto simp: bit_eq_iff[where 'a = "8 word"] bit_and_iff bit_exp_iff)

lemma bit_or_mask: "k < 8 \<Longrightarrow> bit (w OR 2 ^ k :: 8 word) j \<longleftrightarrow> bit w j \<or> j = k"
  by (auto simp: bit_or_iff bit_exp_iff)

lemma bit_and_not_mask:
  "k < 8 \<Longrightarrow> j < 8 \<Longrightarrow> bit (w AND NOT (2 ^ k) :: 8 word) j \<longleftrightarrow> bit w j \<and> j \<noteq> k"
  by (auto simp: bit_and_iff bit_not_iff bit_exp_iff)

lemma bit_ff: "bit (0xff :: 8 word) j \<longleftrightarrow> j < 8"
proof -
  have eq: "(0xff :: 8 word) = mask 8" by (simp add: mask_eq_exp_minus_1)
  show ?thesis unfolding eq bit_mask_iff by simp
qed

lemma all_bits_ff: "(w :: 8 word) = 0xff \<longleftrightarrow> (\<forall>j < 8. bit w j)"
proof
  assume all: "\<forall>j < 8. bit w j"
  show "w = 0xff"
  proof (rule bit_word_eqI)
    fix n assume "n < LENGTH(8)"
    then have "n < 8" by simp
    with all bit_ff[of n] show "bit w n \<longleftrightarrow> bit (0xff :: 8 word) n" by blast
  qed
qed (use bit_ff in blast)

lemma bit_markover:
  "(\<forall>j \<in> set js. j < 8) \<Longrightarrow> bit (bitmap_markover js w) k \<longleftrightarrow> bit w k \<or> k \<in> set js"
  by (induction js arbitrary: w) (auto simp: bit_or_mask)

lemmas bitmap_consts = BITS_PER_WORD_def WORD_ALLBITS_def

lemma find_mask:
  "find (\<lambda>k. (w :: 8 word) AND 2 ^ k = 0) [0..<8] = find (\<lambda>k. \<not> bit w k) [0..<8]"
  by (rule find_cong) (simp_all add: and_mask_eq_0)

lemma find_upt_Some:
  assumes "find P [0..<n] = Some k"
  shows "k < n" "P k" "\<forall>j < k. \<not> P j"
  using assms by (auto simp: find_Some_iff)

subsection \<open>The whole array\<close>

lemma bitmap_words_inv: "b_nbits b < 2 ^ 32 - 7 \<Longrightarrow> bitmap_words (b_nbits b) = (b_nbits b + 7) div 8"
  by (simp add: bitmap_words_def BITS_PER_WORD_def)

lemma bitmap_invD:
  assumes "bitmap_inv b" "i < b_nbits b"
  shows "i div 8 < length (b_v b)" "i < 8 * length (b_v b)"
  using assms by (auto simp: bitmap_inv_def)

lemma bitmap_used_update:
  assumes "ix < length (b_v b)" "i < 8 * length (b_v b)"
  shows "bitmap_used (b\<lparr>b_v := (b_v b)[ix := w]\<rparr>) i
       = (if i div 8 = ix then bit w (i mod 8) else bitmap_used b i)"
  using assms by (auto simp: bitmap_used_def)

lemma bitmap_set_bit:
  assumes "bitmap_inv b" "ix < length (b_v b)" "k < 8" "i < b_nbits b"
  shows "bitmap_used (b\<lparr>b_v := (b_v b)[ix := (b_v b ! ix) OR 2 ^ k]\<rparr>) i
       = (bitmap_used b i \<or> i = ix * 8 + k)"
proof -
  have "i = ix * 8 + k \<longleftrightarrow> i div 8 = ix \<and> i mod 8 = k" using assms(3) by auto
  then show ?thesis
    using bitmap_used_update[OF assms(2)] bitmap_invD[OF assms(1,4)] assms(3)
    by (auto simp: bit_or_mask bitmap_used_def)
qed

lemma bitmap_set_inv:
  assumes "bitmap_inv b" "ix < length (b_v b)" "k < 8"
  shows "bitmap_inv (b\<lparr>b_v := (b_v b)[ix := (b_v b ! ix) OR 2 ^ k]\<rparr>)"
  using assms bitmap_used_update[OF assms(2), of _ "(b_v b ! ix) OR 2 ^ k"]
  by (auto simp: bitmap_inv_def bit_or_mask bitmap_used_def)

lemma bitmap_clear_bit:
  assumes "bitmap_inv b" "j < b_nbits b" "i < b_nbits b"
  shows "bitmap_used (b\<lparr>b_v := (b_v b)[j div 8 := (b_v b ! (j div 8)) AND NOT (2 ^ (j mod 8))]\<rparr>) i
       = (bitmap_used b i \<and> i \<noteq> j)"
proof -
  have "i = j \<longleftrightarrow> i div 8 = j div 8 \<and> i mod 8 = j mod 8"
    by (metis div_mult_mod_eq)
  then show ?thesis
    using bitmap_used_update bitmap_invD[OF assms(1,2)] bitmap_invD[OF assms(1,3)]
    by (auto simp: bit_and_not_mask bitmap_used_def)
qed

lemma bitmap_clear_inv:
  assumes "bitmap_inv b" "j < b_nbits b"
  shows "bitmap_inv (b\<lparr>b_v := (b_v b)[j div 8 := (b_v b ! (j div 8)) AND NOT (2 ^ (j mod 8))]\<rparr>)"
proof -
  have "bitmap_used (b\<lparr>b_v := (b_v b)[j div 8 := (b_v b ! (j div 8)) AND NOT (2 ^ (j mod 8))]\<rparr>) i"
    if "i < 8 * length (b_v b)" "b_nbits b \<le> i" for i
  proof -
    have "bitmap_used b i" using that assms(1) by (auto simp: bitmap_inv_def)
    moreover have "i div 8 = j div 8 \<Longrightarrow> i mod 8 \<noteq> j mod 8"
      using that(2) assms(2) by (metis div_mult_mod_eq not_le)
    ultimately show ?thesis
      using bitmap_used_update[OF bitmap_invD(1)[OF assms] that(1)]
      by (auto simp: bit_and_not_mask bitmap_used_def)
  qed
  then show ?thesis using assms(1) by (simp add: bitmap_inv_def)
qed

subsection \<open>The operations on the set of used bits\<close>

lemma bitmap_isset_used:
  "bitmap_inv b \<Longrightarrow> i < b_nbits b \<Longrightarrow> bitmap_isset i b = Ok (bitmap_used b i) b"
  using bitmap_invD(1)[of b i]
  by (simp add: bitmap_isset_def bitmap_translate_def BITS_PER_WORD_def and_mask_eq_0 bitmap_used_def)

lemma wp_bitmap_mark:
  assumes "bitmap_inv b" "i < b_nbits b" "\<not> bitmap_used b i"
  shows "wp (bitmap_mark i) (\<lambda>_ b'. bitmap_inv b' \<and> b_nbits b' = b_nbits b \<and>
      (\<forall>j < b_nbits b. bitmap_used b' j = (bitmap_used b j \<or> j = i))) (\<lambda>_ _. False) b"
  using bitmap_invD(1)[OF assms(1,2)] assms bitmap_set_inv[OF assms(1), of "i div 8" "i mod 8"]
    bitmap_set_bit[OF assms(1), of "i div 8" "i mod 8"]
  by (simp add: wp_def bitmap_mark_def bitmap_translate_def BITS_PER_WORD_def and_mask_eq_0 bitmap_used_def)

lemma wp_bitmap_unmark:
  assumes "bitmap_inv b" "i < b_nbits b" "bitmap_used b i"
  shows "wp (bitmap_unmark i) (\<lambda>_ b'. bitmap_inv b' \<and> b_nbits b' = b_nbits b \<and>
      (\<forall>j < b_nbits b. bitmap_used b' j = (bitmap_used b j \<and> j \<noteq> i))) (\<lambda>_ _. False) b"
proof -
  let ?b = "b\<lparr>b_v := (b_v b)[i div 8 := (b_v b ! (i div 8)) AND NOT (2 ^ (i mod 8))]\<rparr>"
  have "bitmap_unmark i b = Ok () ?b"
    using bitmap_invD(1)[OF assms(1,2)] assms(2,3)
    by (simp add: bitmap_unmark_def bitmap_translate_def BITS_PER_WORD_def and_mask_eq_0 bitmap_used_def)
  then show ?thesis
    using bitmap_clear_inv[OF assms(1,2)] bitmap_clear_bit[OF assms(1,2)] by (simp add: wp_def)
qed

lemma bitmap_double_mark: "bitmap_inv b \<Longrightarrow> i < b_nbits b \<Longrightarrow> bitmap_used b i \<Longrightarrow> \<exists>p. bitmap_mark i b = Panic p"
  and bitmap_double_unmark: "bitmap_inv b \<Longrightarrow> i < b_nbits b \<Longrightarrow> \<not> bitmap_used b i \<Longrightarrow> \<exists>p. bitmap_unmark i b = Panic p"
  by (auto simp: bitmap_mark_def bitmap_unmark_def bitmap_translate_def BITS_PER_WORD_def
      and_mask_eq_0 bitmap_used_def)

definition bitmap_alloc_post :: "bitmap \<Rightarrow> nat \<Rightarrow> bitmap \<Rightarrow> bool" where
  "bitmap_alloc_post b i b' \<longleftrightarrow> bitmap_inv b' \<and> b_nbits b' = b_nbits b \<and> i < b_nbits b \<and>
     \<not> bitmap_used b i \<and> (\<forall>j < i. bitmap_used b j) \<and>
     (\<forall>j < b_nbits b. bitmap_used b' j = (bitmap_used b j \<or> j = i))"

lemma bitmap_word_full:
  "b_v b ! m = 0xff \<Longrightarrow> \<forall>i < 8 * m. bitmap_used b i \<Longrightarrow> i < 8 * Suc m \<Longrightarrow> bitmap_used b i"
proof -
  assume ff: "b_v b ! m = 0xff" and less: "\<forall>i < 8 * m. bitmap_used b i" and i: "i < 8 * Suc m"
  show "bitmap_used b i"
  proof (cases "i < 8 * m")
    case False
    with i have "i div 8 = m" by (intro div_nat_eqI) auto
    with ff bit_ff[of "i mod 8"] show ?thesis by (simp only: bitmap_used_def)
  qed (use less in blast)
qed

lemma wp_bitmap_alloc_loop:
  assumes "bitmap_inv b" "m \<le> length (b_v b)" "\<forall>i < 8 * m. bitmap_used b i"
  shows "wp (bitmap_alloc_loop [m..<length (b_v b)]) (bitmap_alloc_post b)
      (\<lambda>e b'. e = ENOSPC \<and> b' = b \<and> (\<forall>j < b_nbits b. bitmap_used b j)) b"
  using assms(2,3)
proof (induction "length (b_v b) - m" arbitrary: m)
  case 0
  then have "m = length (b_v b)" by simp
  with 0 show ?case using bitmap_invD(2)[OF assms(1)] by (simp add: wp_def)
next
  case (Suc n)
  then have m: "m < length (b_v b)" by simp
  have up: "[m..<length (b_v b)] = m # [Suc m..<length (b_v b)]" using m by (rule upt_conv_Cons)
  show ?case
  proof (cases "b_v b ! m = 0xff")
    case True
    then have "\<forall>i < 8 * Suc m. bitmap_used b i" using bitmap_word_full Suc.prems(2) by blast
    with Suc.hyps m True show ?thesis unfolding up by (simp add: wp_def WORD_ALLBITS_def)
  next
    case False
    then have "find (\<lambda>k. \<not> bit (b_v b ! m) k) [0..<8] \<noteq> None"
      by (auto simp: all_bits_ff find_None_iff)
    then obtain k where k: "find (\<lambda>k. \<not> bit (b_v b ! m) k) [0..<8] = Some k" by blast
    note kk = find_upt_Some[OF k]
    let ?i = "m * 8 + k"
    have free: "\<not> bitmap_used b ?i" using kk(1,2) by (simp add: bitmap_used_def)
    have i: "?i < b_nbits b"
      using free assms(1) m kk(1) by (auto simp: bitmap_inv_def not_less[symmetric] dest!: spec[of _ ?i])
    have least: "bitmap_used b j" if "j < ?i" for j
    proof (cases "j < 8 * m")
      case False
      with that kk(1) have d: "j div 8 = m" by (intro div_nat_eqI) auto
      then have "j mod 8 < k" using that mult_div_mod_eq[of 8 j] by simp
      with d kk(3) show ?thesis by (simp add: bitmap_used_def)
    qed (use Suc.prems(2) in blast)
    have small: "?i mod 4294967296 = ?i" using i assms(1) by (simp add: bitmap_inv_def)
    show ?thesis
      using m False k i free least small kk(1) bitmap_set_inv[OF assms(1) m kk(1)]
        bitmap_set_bit[OF assms(1) m kk(1)]
      unfolding up
      by (simp add: wp_def bitmap_consts find_mask bitmap_alloc_post_def)
  qed
qed

lemma wp_bitmap_alloc:
  assumes "bitmap_inv b"
  shows "wp bitmap_alloc (bitmap_alloc_post b)
      (\<lambda>e b'. e = ENOSPC \<and> b' = b \<and> (\<forall>j < b_nbits b. bitmap_used b j)) b"
  using wp_bitmap_alloc_loop[OF assms, of 0] assms
  by (simp add: wp_def bitmap_alloc_def bitmap_words_inv bitmap_inv_def)

subsection \<open>Creation\<close>

lemma bitmap_create_ok:
  assumes "n < 2 ^ 32 - 7"
  obtains b where "bitmap_create True True n s = Ok (Some b) s" "bitmap_inv b" "b_nbits b = n"
    "\<forall>i < n. \<not> bitmap_used b i"
proof (cases "n mod 8 = 0")
  case True
  then have w: "bitmap_words n = n div 8" using assms by (auto simp: bitmap_words_def BITS_PER_WORD_def)
  let ?b = "\<lparr>b_nbits = n, b_v = replicate (n div 8) 0\<rparr>"
  have "bitmap_create True True n s = Ok (Some ?b) s"
    by (simp add: bitmap_create_def Let_def w BITS_PER_WORD_def)
  moreover have "bitmap_inv ?b" "\<forall>i < n. \<not> bitmap_used ?b i"
    using True assms by (auto simp: bitmap_inv_def bitmap_used_def)
  ultimately show thesis by (intro that) auto
next
  case False
  define w r where "w = n div 8" and "r = n mod 8"
  then have n: "n = 8 * w + r" and r: "0 < r" "r < 8" using False by simp_all
  have nw: "n div 8 = w" by (simp add: w_def)
  have len: "(n + 7) div 8 = Suc w" using n r by (intro div_nat_eqI) auto
  then have w: "bitmap_words n = Suc w" using assms by (simp add: bitmap_words_def BITS_PER_WORD_def)
  have "(w * 8) mod 2 ^ 32 = w * 8" "r mod 2 ^ 32 = r" using assms n r by auto
  then have o: "(n + 2 ^ 32 - (w * 8) mod 2 ^ 32) mod 2 ^ 32 = r" using n by simp
  let ?b = "\<lparr>b_nbits = n, b_v = (replicate (Suc w) 0)[w := bitmap_markover [r..<8] 0]\<rparr>"
  have "bitmap_create True True n s = Ok (Some ?b) s"
    using nw o r by (simp add: bitmap_create_def Let_def w BITS_PER_WORD_def del: replicate_Suc)
  moreover have used: "bitmap_used ?b i \<longleftrightarrow> n \<le> i" if "i < 8 * Suc w" for i
  proof -
    define iw ir where "iw = i div 8" and "ir = i mod 8"
    then have i: "i = 8 * iw + ir" "ir < 8" by simp_all
    have "bitmap_used ?b i \<longleftrightarrow> iw = w \<and> r \<le> ir"
      using i(2) that i(1) unfolding bitmap_used_def iw_def[symmetric] ir_def[symmetric]
      by (auto simp: nth_list_update bit_markover simp del: replicate_Suc)
    also have "\<dots> \<longleftrightarrow> n \<le> i"
    proof (cases "iw = w")
      case False
      moreover have "iw < Suc w"
        unfolding iw_def using that by (intro less_mult_imp_div_less) (simp add: mult.commute)
      ultimately have "Suc iw \<le> w" by simp
      with i n r False show ?thesis by linarith
    qed (use i n in auto)
    finally show ?thesis .
  qed
  have "bitmap_inv ?b" using assms used len by (simp add: bitmap_inv_def del: replicate_Suc)
  moreover have "\<forall>i < n. \<not> bitmap_used ?b i" using used n r by (simp del: replicate_Suc)
  ultimately show thesis by (intro that) auto
qed

section \<open>The interface\<close>

text \<open>
  An allocator of numbered units, as SFS uses the bitmap for its disk blocks.
\<close>

locale unit_allocator =
  fixes inv :: "'c \<Rightarrow> bool"
    and units :: "'c \<Rightarrow> nat"
    and used :: "'c \<Rightarrow> nat \<Rightarrow> bool"
    and alloc :: "(nat, 'c) kmon"
    and mark :: "nat \<Rightarrow> (unit, 'c) kmon"
    and release :: "nat \<Rightarrow> (unit, 'c) kmon"
    and isset :: "nat \<Rightarrow> (bool, 'c) kmon"
  assumes alloc: "inv c \<Longrightarrow>
      wp alloc (\<lambda>i c'. inv c' \<and> units c' = units c \<and> i < units c \<and> \<not> used c i \<and>
          (\<forall>j < units c. used c' j = (used c j \<or> j = i)))
        (\<lambda>e c'. e = ENOSPC \<and> c' = c \<and> (\<forall>j < units c. used c j)) c"
    and mark: "inv c \<Longrightarrow> i < units c \<Longrightarrow> \<not> used c i \<Longrightarrow>
      wp (mark i) (\<lambda>_ c'. inv c' \<and> units c' = units c \<and>
          (\<forall>j < units c. used c' j = (used c j \<or> j = i))) (\<lambda>_ _. False) c"
    and release: "inv c \<Longrightarrow> i < units c \<Longrightarrow> used c i \<Longrightarrow>
      wp (release i) (\<lambda>_ c'. inv c' \<and> units c' = units c \<and>
          (\<forall>j < units c. used c' j = (used c j \<and> j \<noteq> i))) (\<lambda>_ _. False) c"
    and isset: "inv c \<Longrightarrow> i < units c \<Longrightarrow> isset i c = Ok (used c i) c"
begin

definition free_units :: "'c \<Rightarrow> nat set" where
  "free_units c = {i. i < units c \<and> \<not> used c i}"

lemma finite_free [simp]: "finite (free_units c)"
  by (simp add: free_units_def)

text \<open>An allocation takes one unit off the free set; with an empty free set it fails.\<close>

lemma alloc_cases:
  assumes "inv c"
  obtains (ok) i c' where "alloc c = Ok i c'" "inv c'" "units c' = units c" "i \<in> free_units c"
      "free_units c' = free_units c - {i}"
    | (full) "alloc c = Err ENOSPC c" "free_units c = {}"
  using wp_cases[OF alloc[OF assms]]
proof cases
  case (1 i c')
  then show thesis by (intro ok[of i c']) (auto simp: free_units_def)
next
  case (2 e c')
  then show thesis by (intro full) (auto simp: free_units_def)
qed

text \<open>Successive allocations give distinct units, and succeed as long as units are free.\<close>

lemma repeat_alloc:
  assumes "inv c" "n \<le> card (free_units c)"
  shows "\<exists>is c'. repeatm n alloc c = Ok is c' \<and> inv c' \<and> length is = n \<and> distinct is \<and>
           set is \<subseteq> free_units c \<and> free_units c' = free_units c - set is"
  using assms
proof (induction n arbitrary: c)
  case (Suc n)
  then have ne: "free_units c \<noteq> {}" by auto
  from Suc.prems(1) show ?case
  proof (cases rule: alloc_cases)
    case (ok i d)
    have "n \<le> card (free_units d)" using Suc.prems(2) ok by (simp add: card_Diff_singleton)
    from Suc.IH[OF ok(2) this] obtain js c' where "repeatm n alloc d = Ok js c'" "inv c'"
      "length js = n" "distinct js" "set js \<subseteq> free_units d" "free_units c' = free_units d - set js"
      by blast
    with ok show ?thesis by (auto simp: bind_def)
  qed (use ne in auto)
qed simp

text \<open>Giving a unit back makes it free again and touches no other unit.\<close>

lemma release_alloc:
  assumes "inv c" "alloc c = Ok i c'"
  obtains d where "release i c' = Ok () d" "inv d" "\<forall>j < units c. used d j = used c j"
proof -
  have c': "inv c'" "units c' = units c" "i < units c" "\<not> used c i"
      "\<forall>j < units c. used c' j = (used c j \<or> j = i)"
    using wp_OkD[OF alloc[OF assms(1)] assms(2)] by auto
  then have "used c' i" "i < units c'" by auto
  from wp_cases[OF release[OF c'(1) this(2,1)]] obtain d where
    "release i c' = Ok () d" "inv d" "\<forall>j < units c'. used d j = (used c' j \<and> j \<noteq> i)"
    by (metis old.unit.exhaust)
  then show thesis using c'(2,4,5) by (intro that[of d]) auto
qed

end

interpretation bm: unit_allocator bitmap_inv b_nbits bitmap_used bitmap_alloc bitmap_mark
  bitmap_unmark bitmap_isset
proof unfold_locales
  fix b assume "bitmap_inv b"
  then show "wp bitmap_alloc (\<lambda>i c'. bitmap_inv c' \<and> b_nbits c' = b_nbits b \<and> i < b_nbits b \<and>
      \<not> bitmap_used b i \<and> (\<forall>j < b_nbits b. bitmap_used c' j = (bitmap_used b j \<or> j = i)))
      (\<lambda>e c'. e = ENOSPC \<and> c' = b \<and> (\<forall>j < b_nbits b. bitmap_used b j)) b"
    by (rule wp_mono[OF wp_bitmap_alloc]) (simp_all add: bitmap_alloc_post_def)
qed (fact wp_bitmap_mark wp_bitmap_unmark bitmap_isset_used)+

text \<open>
  C8: \<open>bitmap_alloc\<close> on a well-formed bitmap never trips its assertions. It returns the lowest
  clear bit below \<open>nbits\<close> and sets exactly that bit, or it returns \<open>ENOSPC\<close>, changes nothing, and
  every bit is set.
\<close>

theorem bitmap_alloc_lowest_free:
  assumes "bitmap_inv b"
  shows "(\<exists>i b'. bitmap_alloc b = Ok i b' \<and> bitmap_inv b' \<and> i < b_nbits b \<and> \<not> bitmap_used b i \<and>
            (\<forall>j < i. bitmap_used b j) \<and>
            (\<forall>j < b_nbits b. bitmap_used b' j = (bitmap_used b j \<or> j = i)))
       \<or> (bitmap_alloc b = Err ENOSPC b \<and> (\<forall>j < b_nbits b. bitmap_used b j))"
  using wp_bitmap_alloc[OF assms]
  by (cases rule: wp_cases) (unfold bitmap_alloc_post_def, blast+)

theorem bitmap_alloc_lowest_free_witness:
  "\<exists>i b'. bitmap_alloc \<lparr>b_nbits = 16, b_v = [0xff, 0]\<rparr> = Ok i b' \<and> i < 16 \<and>
     (\<forall>j < i. bitmap_used \<lparr>b_nbits = 16, b_v = [0xff, 0]\<rparr> j)"
proof -
  let ?b = "\<lparr>b_nbits = 16, b_v = [0xff, 0]\<rparr>"
  have inv: "bitmap_inv ?b" by (simp add: bitmap_inv_def)
  have "\<not> bitmap_used ?b 8" by (simp add: bitmap_used_def)
  with bitmap_alloc_lowest_free[OF inv] show ?thesis by auto
qed

text \<open>
  C9: \<open>bitmap_create\<close> with memory available gives a well-formed bitmap of the requested size in
  which every bit below \<open>nbits\<close> is clear, so all of them can be handed out by \<open>bitmap_alloc\<close>:
  \<open>nbits\<close> successive allocations return pairwise distinct bits below \<open>nbits\<close> and the next one
  returns \<open>ENOSPC\<close>.
\<close>

theorem bitmap_create_alloc_all:
  assumes "n < 2 ^ 32 - 7"
  shows "\<exists>b is b'. bitmap_create True True n s = Ok (Some b) s \<and> bitmap_inv b \<and>
      repeatm n bitmap_alloc b = Ok is b' \<and> distinct is \<and> set is = {..<n} \<and>
      bitmap_alloc b' = Err ENOSPC b'"
proof -
  obtain b where b: "bitmap_create True True n s = Ok (Some b) s" "bitmap_inv b" "b_nbits b = n"
      "\<forall>i < n. \<not> bitmap_used b i"
    using bitmap_create_ok[OF assms] .
  have free: "bm.free_units b = {..<n}" using b(3,4) by (auto simp: bm.free_units_def)
  then obtain "is" b' where r: "repeatm n bitmap_alloc b = Ok is b'" "bitmap_inv b'" "length is = n"
      "distinct is" "set is \<subseteq> {..<n}" "bm.free_units b' = {..<n} - set is"
    using bm.repeat_alloc[OF b(2), of n] by auto
  have all: "set is = {..<n}"
    using r(3,4,5) by (intro card_subset_eq) (simp_all add: distinct_card)
  with r(2,6) have "bitmap_alloc b' = Err ENOSPC b'"
    by (cases rule: bm.alloc_cases[OF r(2)]) auto
  with b r all show ?thesis by blast
qed

theorem bitmap_create_alloc_all_witness:
  "\<exists>b is b'. bitmap_create True True 13 () = Ok (Some b) () \<and> bitmap_inv b \<and>
      repeatm 13 bitmap_alloc b = Ok is b' \<and> distinct is \<and> set is = {..<13} \<and>
      bitmap_alloc b' = Err ENOSPC b'"
  using bitmap_create_alloc_all[of 13 "()"] by simp

end
