(* ===== verification/Kernel_Array.thy ===== *)
theory Kernel_Array
  imports Kernel_Prelude
begin

text \<open>
  The resizeable pointer array of \<open>kern/lib/array.c\<close>: its representation and operations, the
  representation invariant, the list it stands for, and the interface (locale
  \<open>growable_seq\<close>) under which the thread system and the file systems use it.

  The boolean argument of an operation says whether the \<open>kmalloc\<close> it may perform succeeds.
  A C \<open>int\<close> is an \<open>int\<close>; the growth loop returns \<open>None\<close> where the C addition would overflow.
\<close>

section \<open>The code\<close>

record 'a array =
  a_num :: int
  a_max :: int
  a_v :: "'a block"

definition array_create :: "bool \<Rightarrow> 'a array option" where
  "array_create mem_ok =
     (if mem_ok then Some \<lparr>a_num = 0, a_max = 0, a_v = None\<rparr> else None)"

definition array_getnum :: "'a array \<Rightarrow> int" where
  "array_getnum a = a_num a"

definition array_getguy :: "int \<Rightarrow> ('a, 'a array) kmon" where
  "array_getguy index a =
     (if \<not> a_num a \<le> a_max a then Panic ''a->num <= a->max''
      else if \<not> (0 \<le> index \<and> index < a_num a) then Panic ''index >=0 && index < a->num''
      else case cell_at (a_v a) (nat index) of
             Some (Some ptr) \<Rightarrow> Ok ptr a
           | _ \<Rightarrow> Panic ''read of a cell that holds no pointer'')"

text \<open>The loop \<open>while (nguys > newmax) newmax = (newmax+1)*2;\<close>.\<close>

function array_newmax :: "int \<Rightarrow> int \<Rightarrow> int option" where
  "array_newmax nguys newmax =
     (if newmax < 0 then None
      else if nguys > newmax then
        (if (newmax + 1) * 2 \<ge> 2 ^ 31 then None else array_newmax nguys ((newmax + 1) * 2))
      else Some newmax)"
  by pat_completeness auto
termination
  by (relation "measure (\<lambda>(nguys, newmax). nat (nguys - newmax))") auto

declare array_newmax.simps [simp del]

text \<open>The loop \<open>for (i=0; i<a->num; i++) newv[i] = a->v[i];\<close>, with \<open>k\<close> iterations left.\<close>

primrec array_copy :: "nat \<Rightarrow> nat \<Rightarrow> 'a block \<Rightarrow> 'a option list \<Rightarrow> 'a block" where
  "array_copy 0 i v newv = Some newv"
| "array_copy (Suc k) i v newv =
     (case cell_at v i of
        None \<Rightarrow> None
      | Some x \<Rightarrow> if i < length newv then array_copy k (Suc i) v (newv[i := x]) else None)"

definition array_preallocate :: "bool \<Rightarrow> int \<Rightarrow> (unit, 'a array) kmon" where
  "array_preallocate mem_ok nguys a =
     (if \<not> (0 \<le> a_num a \<and> a_num a \<le> a_max a) then Panic ''a->num >=0 && a->num <= a->max''
      else case array_newmax nguys (a_max a) of
        None \<Rightarrow> Panic ''integer overflow''
      | Some newmax \<Rightarrow>
          if \<not> mem_ok then Err ENOMEM a
          else case array_copy (nat (a_num a)) 0 (a_v a) (kmalloc_cells newmax) of
                 None \<Rightarrow> Panic ''copy out of bounds''
               | Some newv \<Rightarrow> Ok () (a\<lparr>a_max := newmax, a_v := Some newv\<rparr>))"

definition array_setsize :: "bool \<Rightarrow> int \<Rightarrow> (unit, 'a array) kmon" where
  "array_setsize mem_ok nguys a =
     (if \<not> (0 \<le> a_num a \<and> a_num a \<le> a_max a) then Panic ''a->num >=0 && a->num <= a->max''
      else if nguys > a_max a then
        bind (array_preallocate mem_ok nguys) (\<lambda>_. modify (a_num_update (\<lambda>_. nguys))) a
      else if nguys = 0 \<and> a_max a > 16 then
        (if a_v a = None then Panic ''a->v!=NULL''
         else Ok () (a\<lparr>a_num := nguys, a_max := 0, a_v := None\<rparr>))
      else Ok () (a\<lparr>a_num := nguys\<rparr>))"

definition array_setguy :: "int \<Rightarrow> 'a \<Rightarrow> (unit, 'a array) kmon" where
  "array_setguy index ptr a =
     (if \<not> a_num a \<le> a_max a then Panic ''a->num <= a->max''
      else if \<not> (0 \<le> index \<and> index < a_num a) then Panic ''index >=0 && index < a->num''
      else case cell_put (a_v a) (nat index) ptr of
             None \<Rightarrow> Panic ''write out of bounds''
           | Some c \<Rightarrow> Ok () (a\<lparr>a_v := Some c\<rparr>))"

definition array_add :: "bool \<Rightarrow> 'a \<Rightarrow> (unit, 'a array) kmon" where
  "array_add mem_ok guy a =
     (let ix = a_num a in
      bind (array_setsize mem_ok (ix + 1))
        (\<lambda>_ a'. case cell_put (a_v a') (nat ix) guy of
                  None \<Rightarrow> Panic ''write out of bounds''
                | Some c \<Rightarrow> Ok () (a'\<lparr>a_v := Some c\<rparr>)) a)"

definition array_remove :: "int \<Rightarrow> (unit, 'a array) kmon" where
  "array_remove index a =
     (if \<not> a_num a \<le> a_max a then Panic ''a->num <= a->max''
      else if \<not> (0 \<le> index \<and> index < a_num a) then Panic ''index >=0 && index < a->num''
      else let i = nat index; nmove = nat (a_num a - (index + 1)) in
        case a_v a of
          None \<Rightarrow> Panic ''memmove from NULL''
        | Some c \<Rightarrow>
            if i + 1 + nmove \<le> length c
            then Ok () (a\<lparr>a_v := Some (splice_at c i (take nmove (drop (i + 1) c))),
                          a_num := a_num a - 1\<rparr>)
            else Panic ''memmove out of bounds'')"

section \<open>The representation invariant and the list it stands for\<close>

definition array_cells :: "'a array \<Rightarrow> 'a option list" where
  "array_cells a = (case a_v a of None \<Rightarrow> [] | Some c \<Rightarrow> c)"

definition array_inv :: "'a array \<Rightarrow> bool" where
  "array_inv a \<longleftrightarrow>
     0 \<le> a_num a \<and> a_num a \<le> a_max a \<and> a_max a < 2 ^ 30 \<and>
     length (array_cells a) = nat (a_max a) \<and>
     list_all (\<lambda>x. x \<noteq> None) (take (nat (a_num a)) (array_cells a))"

definition array_list :: "'a array \<Rightarrow> 'a list" where
  "array_list a = map the (take (nat (a_num a)) (array_cells a))"

definition array_cap :: "'a array \<Rightarrow> nat" where
  "array_cap a = nat (a_max a)"

text \<open>Largest size for which the growth loop cannot overflow.\<close>

abbreviation array_limit :: int where
  "array_limit \<equiv> 2 ^ 29"

subsection \<open>The growth loop\<close>

lemma array_newmax_bounds:
  assumes "0 \<le> m" "m < 2 ^ 30" "n < array_limit"
  shows "\<exists>m'. array_newmax n m = Some m' \<and> n \<le> m' \<and> m \<le> m' \<and> m' < 2 ^ 30"
  using assms
proof (induction n m rule: array_newmax.induct)
  case (1 n m)
  show ?case
  proof (cases "n > m")
    case True
    then have "(m + 1) * 2 < 2 ^ 30" using "1.prems" by simp
    with 1 True show ?thesis
      by (subst array_newmax.simps) auto
  next
    case False
    with "1.prems" show ?thesis by (subst array_newmax.simps) auto
  qed
qed

lemma array_newmax_id: "0 \<le> m \<Longrightarrow> n \<le> m \<Longrightarrow> array_newmax n m = Some m"
  by (subst array_newmax.simps) simp

lemma array_copy_Some:
  assumes "i + k \<le> length c" "i + k \<le> length newv"
  shows "array_copy k i (Some c) newv = Some (splice_at newv i (take k (drop i c)))"
  using assms
proof (induction k arbitrary: i newv)
  case 0
  then show ?case by simp
next
  case (Suc k)
  have "splice_at (newv[i := c ! i]) (Suc i) (take k (drop (Suc i) c))
      = splice_at newv i (take (Suc k) (drop i c))"
    using Suc.prems
    by (auto simp: splice_at_def Cons_nth_drop_Suc[symmetric] take_Suc_conv_app_nth)
  with Suc show ?case by simp
qed

lemma array_cells_upd [simp]:
  "array_cells (a\<lparr>a_v := Some c\<rparr>) = c"
  "array_cells (a\<lparr>a_v := None\<rparr>) = []"
  "array_cells (a\<lparr>a_num := n\<rparr>) = array_cells a"
  "array_cells (a\<lparr>a_max := n\<rparr>) = array_cells a"
  by (simp_all add: array_cells_def)

subsection \<open>Each operation keeps the invariant and acts on the list\<close>

lemma array_invD:
  assumes "array_inv a"
  shows "0 \<le> a_num a" "a_num a \<le> a_max a" "a_max a < 2 ^ 30"
    "length (array_cells a) = nat (a_max a)"
    "\<forall>i < nat (a_num a). \<exists>x. array_cells a ! i = Some x"
  using assms by (auto simp: array_inv_def list_all_length)

lemma array_invI:
  assumes "0 \<le> a_num a" "a_num a \<le> a_max a" "a_max a < 2 ^ 30"
    "length (array_cells a) = nat (a_max a)"
    "\<And>i. i < nat (a_num a) \<Longrightarrow> array_cells a ! i \<noteq> None"
  shows "array_inv a"
  using assms by (auto simp: array_inv_def list_all_length)

lemma length_array_list: "array_inv a \<Longrightarrow> length (array_list a) = nat (a_num a)"
  using array_invD[of a] by (simp add: array_list_def)

lemma array_list_nth:
  "array_inv a \<Longrightarrow> i < nat (a_num a) \<Longrightarrow> array_list a ! i = the (array_cells a ! i)"
  using array_invD[of a] by (simp add: array_list_def)

lemma array_v_cells: "array_inv a \<Longrightarrow> 0 < a_max a \<Longrightarrow> a_v a = Some (array_cells a)"
  by (auto simp: array_inv_def array_cells_def split: option.splits)

lemma array_cell_at:
  "array_inv a \<Longrightarrow> i < nat (a_num a) \<Longrightarrow> cell_at (a_v a) i = Some (Some (array_list a ! i))"
  using array_v_cells[of a] array_invD[of a] by (auto simp: array_list_nth)

lemma array_len_cap: "array_inv a \<Longrightarrow> length (array_list a) \<le> array_cap a"
  using array_invD[of a] by (simp add: length_array_list array_cap_def nat_mono)

lemma array_create_inv:
  "array_create mem_ok = Some a \<Longrightarrow> array_inv a \<and> array_list a = [] \<and> array_cap a = 0"
  by (auto simp: array_create_def array_inv_def array_list_def array_cells_def array_cap_def
      split: if_splits)

lemma array_getnum_len: "array_inv a \<Longrightarrow> array_getnum a = int (length (array_list a))"
  by (simp add: array_getnum_def length_array_list array_inv_def)

lemma array_getguy_nth:
  assumes "array_inv a" "0 \<le> i" "i < int (length (array_list a))"
  shows "array_getguy i a = Ok (array_list a ! nat i) a"
  using assms by (simp add: array_getguy_def array_cell_at length_array_list array_invD)

lemma array_getguy_range:
  assumes "array_inv a" "\<not> (0 \<le> i \<and> i < int (length (array_list a)))"
  shows "\<exists>p. array_getguy i a = Panic p"
  using assms by (auto simp: array_getguy_def length_array_list array_invD)

lemma array_preallocate_copy:
  assumes "array_inv a" "a_max a \<le> m" "m < 2 ^ 30"
  shows "\<exists>c. array_copy (nat (a_num a)) 0 (a_v a) (kmalloc_cells m) = Some c \<and> length c = nat m
           \<and> take (nat (a_num a)) c = take (nat (a_num a)) (array_cells a)"
proof (cases "a_num a = 0")
  case True
  then show ?thesis using assms(2,3) array_invD(1,2)[OF assms(1)] by simp
next
  case False
  note inv = array_invD(1-4)[OF assms(1)]
  have "a_v a = Some (array_cells a)"
    using inv(1,2) False by (intro array_v_cells[OF assms(1)]) simp
  then show ?thesis
    using inv assms(2,3) by (simp add: array_copy_Some splice_at_def)
qed

lemma wp_array_preallocate:
  assumes "array_inv a" "n < array_limit"
  shows "wp (array_preallocate ok n)
          (\<lambda>_ a'. ok \<and> array_inv a' \<and> array_list a' = array_list a \<and> a_num a' = a_num a \<and>
                  nat n \<le> array_cap a' \<and> array_cap a \<le> array_cap a')
          (\<lambda>e a'. \<not> ok \<and> e = ENOMEM \<and> a' = a) a"
proof -
  note inv = array_invD[OF assms(1)]
  obtain m where m: "array_newmax n (a_max a) = Some m" "n \<le> m" "a_max a \<le> m" "m < 2 ^ 30"
    using array_newmax_bounds[of "a_max a" n] inv(1,2,3) assms(2) by force
  obtain c where c: "array_copy (nat (a_num a)) 0 (a_v a) (kmalloc_cells m) = Some c"
      "length c = nat m" "take (nat (a_num a)) c = take (nat (a_num a)) (array_cells a)"
    using array_preallocate_copy[OF assms(1) m(3,4)] by blast
  let ?a' = "a\<lparr>a_max := m, a_v := Some c\<rparr>"
  have "array_inv ?a'"
    using assms(1) c(2,3) m(3,4) inv(1,2) by (simp add: array_inv_def)
  moreover have "array_list ?a' = array_list a"
    by (simp add: array_list_def c(3))
  ultimately show ?thesis
    using inv(1,2) m c(1) by (simp add: wp_def array_preallocate_def array_cap_def nat_mono)
qed

text \<open>
  Growing exposes cells that nothing has been stored in; \<open>array_setsize\<close> alone therefore keeps
  only the sizes in order when it grows, and \<open>array_add\<close> stores the missing cell.
\<close>

lemma array_store_last:
  assumes "array_inv b" "a_num b + 1 \<le> a_max b"
  obtains c where "cell_put (a_v b) (nat (a_num b)) x = Some c"
    "array_inv (b\<lparr>a_num := a_num b + 1, a_v := Some c\<rparr>)"
    "array_list (b\<lparr>a_num := a_num b + 1, a_v := Some c\<rparr>) = array_list b @ [x]"
proof -
  note ib = array_invD[OF assms(1)]
  let ?n = "nat (a_num b)" and ?c = "array_cells b"
  have v: "a_v b = Some ?c" using assms ib(1) by (intro array_v_cells) auto
  have len: "?n < length ?c" using ib(1,4) assms(2) by linarith
  have tk: "take (nat (a_num b + 1)) (?c[?n := Some x]) = take ?n ?c @ [Some x]"
    using len ib(1) by (simp add: take_Suc_conv_app_nth nat_add_distrib)
  have "list_all (\<lambda>y. y \<noteq> None) (take ?n ?c)"
    using assms(1) by (simp add: array_inv_def)
  then show thesis
    using len v ib(1,3,4) assms(2) tk
    by (intro that[of "?c[?n := Some x]"]) (simp_all add: array_inv_def array_list_def)
qed

lemma array_add_grow:
  assumes "array_inv a" "a_num a + 1 > a_max a"
  shows "wp (array_add ok x) Q E a = wp (array_preallocate ok (a_num a + 1))
        (\<lambda>_ b. case cell_put (a_v b) (nat (a_num a)) x of None \<Rightarrow> False
           | Some c \<Rightarrow> Q () (b\<lparr>a_num := a_num a + 1, a_v := Some c\<rparr>)) E a"
  using array_invD(1,2)[OF assms(1)] assms(2)
  by (simp add: wp_def array_add_def array_setsize_def Let_def bind_def
      split: outcome.splits option.splits)

lemma wp_array_add:
  assumes "array_inv a" "int (length (array_list a)) + 1 < array_limit"
  shows "wp (array_add ok x)
          (\<lambda>_ a'. array_inv a' \<and> array_list a' = array_list a @ [x] \<and> array_cap a \<le> array_cap a')
          (\<lambda>e a'. \<not> ok \<and> array_cap a = length (array_list a) \<and> e = ENOMEM \<and> a' = a) a"
proof (cases "a_num a + 1 > a_max a")
  case False
  then have "a_num a + 1 \<le> a_max a" by simp
  from array_store_last[OF assms(1) this, of x] obtain c where
    "cell_put (a_v a) (nat (a_num a)) x = Some c"
    "array_inv (a\<lparr>a_num := a_num a + 1, a_v := Some c\<rparr>)"
    "array_list (a\<lparr>a_num := a_num a + 1, a_v := Some c\<rparr>) = array_list a @ [x]" .
  with False array_invD(1,2)[OF assms(1)] show ?thesis
    by (simp add: wp_def array_add_def array_setsize_def bind_def Let_def array_cap_def)
next
  case True
  then have full: "array_cap a = length (array_list a)"
    using array_invD(1,2)[OF assms(1)] by (simp add: array_cap_def length_array_list[OF assms(1)])
  have num: "a_num a + 1 < array_limit"
    using assms(2) array_invD(1)[OF assms(1)] by (simp add: length_array_list[OF assms(1)])
  show ?thesis
    unfolding array_add_grow[OF assms(1) True]
  proof (rule wp_mono[OF wp_array_preallocate[OF assms(1) num, of ok]], goal_cases)
    case (1 u b)
    then have b: "array_inv b" "a_num b + 1 \<le> a_max b" and eq: "a_num b = a_num a"
        "array_list b = array_list a" "array_cap a \<le> array_cap b"
      using array_invD(1)[OF assms(1)] by (simp_all add: array_cap_def) linarith
    from array_store_last[OF b, of x] obtain c where
      "cell_put (a_v b) (nat (a_num b)) x = Some c"
      "array_inv (b\<lparr>a_num := a_num b + 1, a_v := Some c\<rparr>)"
      "array_list (b\<lparr>a_num := a_num b + 1, a_v := Some c\<rparr>) = array_list b @ [x]" .
    with eq show ?case by (simp add: array_cap_def)
  next
    case 2
    then show ?case using full by simp
  qed
qed

text \<open>A full array needs memory for the next element.\<close>

lemma array_add_full:
  assumes "array_inv a" "array_cap a = length (array_list a)" "int (length (array_list a)) + 1 < array_limit"
  shows "array_add False x a = Err ENOMEM a"
proof -
  note inv = array_invD(1-3)[OF assms(1)]
  have full: "a_num a = a_max a"
    using assms(2) inv by (simp add: array_cap_def length_array_list[OF assms(1)])
  have "a_num a + 1 < array_limit"
    using assms(3) inv(1) by (simp add: length_array_list[OF assms(1)])
  then obtain m where "array_newmax (a_num a + 1) (a_max a) = Some m"
    using array_newmax_bounds[of "a_max a" "a_num a + 1"] inv by auto
  then show ?thesis
    using full inv by (simp add: array_add_def array_setsize_def array_preallocate_def bind_def Let_def)
qed

lemma wp_array_setguy:
  assumes "array_inv a" "0 \<le> i" "i < int (length (array_list a))"
  shows "wp (array_setguy i x)
          (\<lambda>_ a'. array_inv a' \<and> array_list a' = (array_list a)[nat i := x] \<and> array_cap a' = array_cap a)
          (\<lambda>e a'. False) a"
proof -
  note inv = array_invD(1-4)[OF assms(1)]
  let ?c = "array_cells a"
  have i: "nat i < nat (a_num a)" "i < a_num a"
    using assms(2,3) inv(1) by (simp_all add: length_array_list[OF assms(1)])
  then have v: "a_v a = Some ?c" using inv(1,2) by (intro array_v_cells[OF assms(1)]) simp
  have len: "nat i < length ?c" using i inv by linarith
  have "list_all (\<lambda>y. y \<noteq> None) (take (nat (a_num a)) (?c[nat i := Some x]))"
    using assms(1) len by (auto simp: array_inv_def list_all_length nth_list_update)
  then have "array_inv (a\<lparr>a_v := Some (?c[nat i := Some x])\<rparr>)"
    using inv by (simp add: array_inv_def)
  moreover have "array_list (a\<lparr>a_v := Some (?c[nat i := Some x])\<rparr>) = (array_list a)[nat i := x]"
    by (simp add: array_list_def take_update_swap map_update)
  ultimately show ?thesis
    using assms(2) i(2) inv(2) v len by (simp add: wp_def array_setguy_def array_cap_def)
qed

lemma take_splice_remove:
  assumes "i < n" "n \<le> length c"
  shows "take (n - 1) (splice_at c i (take (n - (i + 1)) (drop (i + 1) c)))
       = take i c @ drop (Suc i) (take n c)"
  using assms by (auto simp: splice_at_def drop_take)

lemma wp_array_remove:
  assumes "array_inv a" "0 \<le> i" "i < int (length (array_list a))"
  shows "wp (array_remove i)
          (\<lambda>_ a'. array_inv a' \<and> array_cap a' = array_cap a \<and>
                  array_list a' = take (nat i) (array_list a) @ drop (Suc (nat i)) (array_list a))
          (\<lambda>e a'. False) a"
proof -
  note inv = array_invD(1-4)[OF assms(1)]
  let ?c = "array_cells a" and ?n = "nat (a_num a)"
  let ?c' = "splice_at ?c (nat i) (take (?n - (nat i + 1)) (drop (nat i + 1) ?c))"
  have i: "nat i < ?n" "i < a_num a"
    using assms(2,3) inv(1) by (simp_all add: length_array_list[OF assms(1)])
  then have v: "a_v a = Some ?c" using inv(1,2) by (intro array_v_cells[OF assms(1)]) simp
  have len: "?n \<le> length ?c" using i inv by linarith
  have tk: "take (?n - 1) ?c' = take (nat i) (take ?n ?c) @ drop (Suc (nat i)) (take ?n ?c)"
    using take_splice_remove[OF i(1) len] i(1) by simp
  have lc: "length ?c' = length ?c" using i(1) len by (intro length_splice_at) (simp; linarith)
  have "list_all (\<lambda>y. y \<noteq> None) (take ?n ?c)" using assms(1) by (simp add: array_inv_def)
  then have "list_all (\<lambda>y. y \<noteq> None) (take (?n - 1) ?c')"
    unfolding tk by (auto simp: list_all_iff simp del: take_take dest: in_set_takeD in_set_dropD)
  then have "array_inv (a\<lparr>a_v := Some ?c', a_num := a_num a - 1\<rparr>)"
    using inv i lc by (simp add: array_inv_def nat_diff_distrib)
  moreover have "array_list (a\<lparr>a_v := Some ?c', a_num := a_num a - 1\<rparr>)
      = take (nat i) (array_list a) @ drop (Suc (nat i)) (array_list a)"
    using tk i by (simp add: array_list_def nat_diff_distrib take_map drop_map flip: map_append)
  moreover have "nat (a_num a - (i + 1)) = ?n - (nat i + 1)" using assms(2) i inv(1) by simp
  ultimately show ?thesis
    using assms(2) i inv(2) v len by (simp add: wp_def array_remove_def array_cap_def Let_def)
qed

lemma wp_array_setsize_shrink:
  assumes "array_inv a" "0 \<le> n" "n \<le> int (length (array_list a))"
  shows "wp (array_setsize ok n)
          (\<lambda>_ a'. array_inv a' \<and> array_list a' = take (nat n) (array_list a) \<and>
                  array_cap a' = (if n = 0 \<and> array_cap a > 16 then 0 else array_cap a))
          (\<lambda>e a'. False) a"
proof -
  note inv = array_invD(1-4)[OF assms(1)]
  have n: "n \<le> a_num a" "n \<le> a_max a"
    using assms(3) inv(1,2) by (simp_all add: length_array_list[OF assms(1)])
  show ?thesis
  proof (cases "n = 0 \<and> a_max a > 16")
    case True
    then have "16 < nat (a_max a)" by linarith
    with True show ?thesis
      using inv array_v_cells[OF assms(1)] n
      by (simp add: wp_def array_setsize_def array_inv_def array_list_def array_cap_def)
  next
    case False
    have "list_all (\<lambda>y. y \<noteq> None) (take (nat n) (array_cells a))"
      using assms(1) n by (auto simp: array_inv_def list_all_length)
    with False inv n assms(2) show ?thesis
      by (auto simp: wp_def array_setsize_def array_inv_def array_list_def array_cap_def
          take_map min_def)
  qed
qed

section \<open>The interface\<close>

text \<open>
  What the clients of an array rely on: it stands for a list, the operations act on that list,
  and an addition within the capacity reserved earlier needs no memory.
\<close>

locale growable_seq =
  fixes inv :: "'c \<Rightarrow> bool"
    and abs :: "'c \<Rightarrow> 'a list"
    and cap :: "'c \<Rightarrow> nat"
    and getnum :: "'c \<Rightarrow> int"
    and getguy :: "int \<Rightarrow> ('a, 'c) kmon"
    and setguy :: "int \<Rightarrow> 'a \<Rightarrow> (unit, 'c) kmon"
    and add :: "bool \<Rightarrow> 'a \<Rightarrow> (unit, 'c) kmon"
    and remove :: "int \<Rightarrow> (unit, 'c) kmon"
    and reserve :: "bool \<Rightarrow> int \<Rightarrow> (unit, 'c) kmon"
    and limit :: int
  assumes getnum: "inv c \<Longrightarrow> getnum c = int (length (abs c))"
    and getguy: "inv c \<Longrightarrow> 0 \<le> i \<Longrightarrow> i < int (length (abs c)) \<Longrightarrow> getguy i c = Ok (abs c ! nat i) c"
    and setguy: "inv c \<Longrightarrow> 0 \<le> i \<Longrightarrow> i < int (length (abs c)) \<Longrightarrow>
        wp (setguy i x) (\<lambda>_ c'. inv c' \<and> abs c' = (abs c)[nat i := x] \<and> cap c' = cap c) (\<lambda>_ _. False) c"
    and add: "inv c \<Longrightarrow> int (length (abs c)) + 1 < limit \<Longrightarrow>
        wp (add ok x) (\<lambda>_ c'. inv c' \<and> abs c' = abs c @ [x] \<and> cap c \<le> cap c')
          (\<lambda>e c'. \<not> ok \<and> cap c = length (abs c) \<and> e = ENOMEM \<and> c' = c) c"
    and remove: "inv c \<Longrightarrow> 0 \<le> i \<Longrightarrow> i < int (length (abs c)) \<Longrightarrow>
        wp (remove i) (\<lambda>_ c'. inv c' \<and> cap c' = cap c \<and>
            abs c' = take (nat i) (abs c) @ drop (Suc (nat i)) (abs c)) (\<lambda>_ _. False) c"
    and reserve: "inv c \<Longrightarrow> n < limit \<Longrightarrow>
        wp (reserve ok n) (\<lambda>_ c'. ok \<and> inv c' \<and> abs c' = abs c \<and> nat n \<le> cap c' \<and> cap c \<le> cap c')
          (\<lambda>e c'. \<not> ok \<and> e = ENOMEM \<and> c' = c) c"
    and len_cap: "inv c \<Longrightarrow> length (abs c) \<le> cap c"
begin

text \<open>An addition within the reserved capacity succeeds, whatever \<open>kmalloc\<close> does.\<close>

lemma addE:
  assumes "inv c" "ok \<or> length (abs c) < cap c" "int (length (abs c)) + 1 < limit"
  obtains c' where "add ok x c = Ok () c'" "inv c'" "abs c' = abs c @ [x]" "cap c \<le> cap c'"
  using wp_cases[OF add[OF assms(1,3), of ok x]] assms(2)
  by (metis (full_types) less_irrefl old.unit.exhaust)

lemma removeE:
  assumes "inv c" "i < length (abs c)"
  obtains c' where "remove (int i) c = Ok () c'" "inv c'" "cap c' = cap c"
    "abs c' = take i (abs c) @ drop (Suc i) (abs c)"
proof -
  have "wp (remove (int i)) (\<lambda>_ c'. inv c' \<and> cap c' = cap c \<and>
      abs c' = take i (abs c) @ drop (Suc i) (abs c)) (\<lambda>_ _. False) c"
    using remove[OF assms(1), of "int i"] assms(2) by simp
  then show thesis by (rule wp_cases) (auto intro: that)
qed

text \<open>
  A search loop \<open>for (i=0; i<array_getnum(a); i++) ...getguy(a, i)...\<close> that returns from its
  body returns the first hit of the list.
\<close>

lemma search_from:
  assumes "inv c" "k \<le> length (abs c)"
  shows "first_some [k..<length (abs c)]
      (\<lambda>i. bind (getguy (int i)) (\<lambda>x. ret (if P x then Some (i, x) else None))) c
    = Ok (find_ix P k (drop k (abs c))) c"
  using assms(2)
proof (induction "length (abs c) - k" arbitrary: k)
  case 0
  then show ?case by simp
next
  case (Suc n)
  then have k: "k < length (abs c)" by simp
  have up: "[k..<length (abs c)] = k # [Suc k..<length (abs c)]" using k by (rule upt_conv_Cons)
  have dr: "drop k (abs c) = abs c ! k # drop (Suc k) (abs c)" using k by (simp add: Cons_nth_drop_Suc)
  have get: "getguy (int k) c = Ok (abs c ! k) c" using getguy[OF assms(1), of "int k"] k by simp
  have "n = length (abs c) - Suc k" using Suc.hyps(2) by simp
  from Suc.hyps(1)[OF this] k show ?case
    unfolding up dr by (simp add: bind_def get)
qed

end

interpretation arr: growable_seq array_inv array_list array_cap array_getnum array_getguy
  array_setguy array_add array_remove array_preallocate array_limit
proof unfold_locales
  fix a :: "'a array" and n :: int and ok
  assume "array_inv a" "n < array_limit"
  then show "wp (array_preallocate ok n) (\<lambda>_ c'. ok \<and> array_inv c' \<and> array_list c' = array_list a \<and>
      nat n \<le> array_cap c' \<and> array_cap a \<le> array_cap c') (\<lambda>e c'. \<not> ok \<and> e = ENOMEM \<and> c' = a) a"
    by (rule wp_mono[OF wp_array_preallocate]) auto
qed (fact array_getnum_len array_getguy_nth wp_array_setguy wp_array_add wp_array_remove
    array_len_cap)+

section \<open>Arrays refine lists\<close>

text \<open>A client's sequence of calls, and the same sequence on a list.\<close>

datatype 'a array_op = Add bool 'a | Remove int | Setguy int 'a | Reserve bool int

fun array_step :: "'a array_op \<Rightarrow> (unit, 'a array) kmon" where
  "array_step (Add ok x) = array_add ok x"
| "array_step (Remove i) = array_remove i"
| "array_step (Setguy i x) = array_setguy i x"
| "array_step (Reserve ok n) = array_preallocate ok n"

fun list_step :: "'a array_op \<Rightarrow> 'a list \<Rightarrow> 'a list" where
  "list_step (Add ok x) xs = xs @ [x]"
| "list_step (Remove i) xs = take (nat i) xs @ drop (Suc (nat i)) xs"
| "list_step (Setguy i x) xs = xs[nat i := x]"
| "list_step (Reserve ok n) xs = xs"

fun array_op_ok :: "'a array_op \<Rightarrow> 'a list \<Rightarrow> bool" where
  "array_op_ok (Add ok x) xs = ok"
| "array_op_ok (Remove i) xs = (0 \<le> i \<and> i < int (length xs))"
| "array_op_ok (Setguy i x) xs = (0 \<le> i \<and> i < int (length xs))"
| "array_op_ok (Reserve ok n) xs = (ok \<and> n < array_limit)"

fun array_ops_ok :: "'a array_op list \<Rightarrow> 'a list \<Rightarrow> bool" where
  "array_ops_ok [] xs = True"
| "array_ops_ok (p # ps) xs = (array_op_ok p xs \<and> array_ops_ok ps (list_step p xs))"

lemma array_step_refines:
  assumes "array_inv a" "array_op_ok p (array_list a)" "int (length (array_list a)) + 1 < array_limit"
  obtains a' where "array_step p a = Ok () a'" "array_inv a'" "array_list a' = list_step p (array_list a)"
proof -
  have "wp (array_step p) (\<lambda>_ a'. array_inv a' \<and> array_list a' = list_step p (array_list a))
      (\<lambda>_ _. False) a"
  proof (cases p)
    case (Add ok x)
    then show ?thesis using assms by (auto intro: wp_mono[OF arr.add])
  next
    case (Remove i)
    then show ?thesis using assms by (auto intro: wp_mono[OF arr.remove])
  next
    case (Setguy i x)
    then show ?thesis using assms by (auto intro: wp_mono[OF arr.setguy])
  next
    case (Reserve ok n)
    then show ?thesis using assms by (auto intro: wp_mono[OF arr.reserve])
  qed
  then show thesis by (rule wp_cases) (auto intro: that)
qed

lemma length_list_step: "length (list_step p xs) \<le> Suc (length xs)"
  by (cases p) auto

lemma array_run_refines:
  assumes "array_inv a" "array_ops_ok ps (array_list a)"
    "int (length (array_list a)) + int (length ps) < array_limit"
  shows "\<exists>a'. foreach ps array_step a = Ok () a' \<and> array_inv a' \<and>
           array_list a' = fold list_step ps (array_list a)"
  using assms
proof (induction ps arbitrary: a)
  case (Cons p ps)
  from Cons.prems have "array_op_ok p (array_list a)" "int (length (array_list a)) + 1 < array_limit"
    by auto
  from array_step_refines[OF Cons.prems(1) this] obtain b where b: "array_step p a = Ok () b"
      "array_inv b" "array_list b = list_step p (array_list a)" .
  have "int (length (array_list b)) + int (length ps) < array_limit"
    using Cons.prems(3) length_list_step[of p "array_list a"] b(3) by simp
  with Cons.IH[OF b(2)] Cons.prems(2) b show ?case by (simp add: bind_def)
qed simp



end
