(* ===== verification/Kernel_Queue.thy ===== *)
theory Kernel_Queue
  imports Kernel_Prelude
begin

text \<open>
  The ring-buffer queue of \<open>kern/lib/queue.c\<close>. Sizes and indices are never negative and are
  kept as naturals; the doubling loop of \<open>q_grow\<close> stops with \<open>None\<close> where the C value would
  leave the positive 32-bit integers, which is where its assertion fails. \<open>q_addtail\<close> and
  \<open>q_grow\<close> call each other: the model bounds the depth of these calls, and
  \<open>wp_q_addtail_d\<close> shows that the bound chosen is never reached on a well-formed queue.
\<close>

section \<open>The code\<close>

record 'a queue =
  q_size :: nat
  q_nextwrite :: nat
  q_nextread :: nat
  q_data :: "'a option list"

text \<open>The loop \<open>while (nsize < targetsize) { nsize *= 2; assert(nsize > 0); }\<close>.\<close>

function q_newsize :: "nat \<Rightarrow> nat \<Rightarrow> nat option" where
  "q_newsize targetsize nsize =
     (if nsize < targetsize then
        (if nsize * 2 = 0 \<or> nsize * 2 \<ge> 2 ^ 31 then None else q_newsize targetsize (nsize * 2))
      else Some nsize)"
  by pat_completeness auto
termination
  by (relation "measure (\<lambda>(t, n). t - n)") auto

declare q_newsize.simps [simp del]

text \<open>
  The loop \<open>for (i=onr; i!=onw; i = (i+1)%osize)\<close> that moves the old entries over. It takes
  at most \<open>osize\<close> rounds; more rounds mean that it never ends.
\<close>

primrec q_copy :: "('a \<Rightarrow> (unit, 'a queue) kmon) \<Rightarrow> 'a option list \<Rightarrow> nat \<Rightarrow> nat \<Rightarrow> nat \<Rightarrow> nat
    \<Rightarrow> (unit, 'a queue) kmon" where
  "q_copy addtail olddata osize onw 0 i = (if i = onw then ret () else panic ''no end of loop'')"
| "q_copy addtail olddata osize onw (Suc k) i =
     (if i = onw then ret ()
      else case cell_at (Some olddata) i of
        Some (Some ptr) \<Rightarrow>
          bind (attempt (addtail ptr)) (\<lambda>result.
          bind (assertk (result = Inr ()) ''result==0'') (\<lambda>_.
          q_copy addtail olddata osize onw k ((i + 1) mod osize)))
      | _ \<Rightarrow> panic ''read of a cell that holds no pointer'')"

definition q_grow :: "('a \<Rightarrow> (unit, 'a queue) kmon) \<Rightarrow> bool \<Rightarrow> nat \<Rightarrow> (unit, 'a queue) kmon" where
  "q_grow addtail mem_ok targetsize q =
     (case q_newsize targetsize (q_size q) of
        None \<Rightarrow> Panic ''nsize > 0''
      | Some nsize \<Rightarrow>
          if \<not> mem_ok then Err ENOMEM q
          else q_copy addtail (q_data q) (q_size q) (q_nextwrite q) (q_size q) (q_nextread q)
                 \<lparr>q_size = nsize, q_nextwrite = 0, q_nextread = 0,
                  q_data = kmalloc_cells (int nsize)\<rparr>)"

definition q_create :: "bool \<Rightarrow> bool \<Rightarrow> nat \<Rightarrow> 'a queue option" where
  "q_create mem_ok mem_ok' sz =
     (if mem_ok \<and> mem_ok' then
        Some \<lparr>q_size = sz, q_nextwrite = 0, q_nextread = 0, q_data = kmalloc_cells (int sz)\<rparr>
      else None)"

definition q_empty :: "'a queue \<Rightarrow> bool" where
  "q_empty q \<longleftrightarrow> q_nextwrite q = q_nextread q"

text \<open>The last lines of \<open>q_addtail\<close>: store the pointer and advance.\<close>

definition q_store :: "'a \<Rightarrow> (unit, 'a queue) kmon" where
  "q_store ptr q =
     (if q_nextwrite q < length (q_data q)
      then Ok () (q\<lparr>q_data := (q_data q)[q_nextwrite q := Some ptr],
                    q_nextwrite := (q_nextwrite q + 1) mod q_size q\<rparr>)
      else Panic ''write out of bounds'')"

primrec q_addtail_d :: "nat \<Rightarrow> bool \<Rightarrow> 'a \<Rightarrow> (unit, 'a queue) kmon" where
  "q_addtail_d 0 mem_ok ptr = panic ''recursion too deep''"
| "q_addtail_d (Suc d) mem_ok ptr = (\<lambda>q.
     if \<not> q_size q > 0 then Panic ''q->size > 0''
     else if (q_nextwrite q + 1) mod q_size q = q_nextread q
     then bind (q_grow (q_addtail_d d mem_ok) mem_ok (q_size q + 1)) (\<lambda>_. q_store ptr) q
     else q_store ptr q)"

definition q_addtail :: "bool \<Rightarrow> 'a \<Rightarrow> (unit, 'a queue) kmon" where
  "q_addtail = q_addtail_d 2"

definition q_preallocate :: "bool \<Rightarrow> nat \<Rightarrow> (unit, 'a queue) kmon" where
  "q_preallocate mem_ok sz q =
     (if \<not> q_size q > 0 then Panic ''q->size > 0''
      else if sz > q_size q then q_grow (q_addtail mem_ok) mem_ok sz q
      else Ok () q)"

definition q_remhead :: "('a, 'a queue) kmon" where
  "q_remhead q =
     (if \<not> q_size q > 0 then Panic ''q->size > 0''
      else if q_empty q then Panic ''!q_empty(q)''
      else case cell_at (Some (q_data q)) (q_nextread q) of
             Some (Some ptr) \<Rightarrow> Ok ptr (q\<lparr>q_nextread := (q_nextread q + 1) mod q_size q\<rparr>)
           | _ \<Rightarrow> Panic ''read of a cell that holds no pointer'')"

definition q_destroy :: "(unit, 'a queue) kmon" where
  "q_destroy q = assertk (q_empty q) ''q_empty(q)'' q"

definition q_getstart :: "'a queue \<Rightarrow> nat" where "q_getstart q = q_nextread q"

definition q_getend :: "'a queue \<Rightarrow> nat" where "q_getend q = q_nextwrite q"

definition q_getsize :: "'a queue \<Rightarrow> nat" where "q_getsize q = q_size q"

definition q_getguy :: "int \<Rightarrow> ('a, 'a queue) kmon" where
  "q_getguy index q =
     (if \<not> (0 \<le> index \<and> index < int (q_size q)) then Panic ''index>=0 && index<q->size''
      else case cell_at (Some (q_data q)) (nat index) of
             Some (Some ptr) \<Rightarrow> Ok ptr q
           | _ \<Rightarrow> Panic ''read of a cell that holds no pointer'')"

section \<open>The sequence a queue stands for\<close>

definition q_len :: "'a queue \<Rightarrow> nat" where
  "q_len q = (q_nextwrite q + q_size q - q_nextread q) mod q_size q"

definition q_ix :: "'a queue \<Rightarrow> nat \<Rightarrow> nat" where
  "q_ix q k = (q_nextread q + k) mod q_size q"

definition q_list :: "'a queue \<Rightarrow> 'a list" where
  "q_list q = map (\<lambda>k. the (q_data q ! q_ix q k)) [0..<q_len q]"

definition q_cap :: "'a queue \<Rightarrow> nat" where
  "q_cap q = q_size q - 1"

definition q_inv :: "'a queue \<Rightarrow> bool" where
  "q_inv q \<longleftrightarrow> 0 < q_size q \<and> q_size q < 2 ^ 30 \<and> q_nextwrite q < q_size q \<and>
     q_nextread q < q_size q \<and> length (q_data q) = q_size q \<and>
     (\<forall>k < q_len q. q_data q ! q_ix q k \<noteq> None)"

lemma q_invD:
  assumes "q_inv q"
  shows "0 < q_size q" "q_size q < 2 ^ 30" "q_nextwrite q < q_size q" "q_nextread q < q_size q"
    "length (q_data q) = q_size q" "q_len q < q_size q"
  using assms by (auto simp: q_inv_def q_len_def)

lemma q_inv_cell: "q_inv q \<Longrightarrow> k < q_len q \<Longrightarrow> q_data q ! q_ix q k \<noteq> None"
  by (auto simp: q_inv_def)

lemma mod_if_less: "a < 2 * (n::nat) \<Longrightarrow> a mod n = (if a < n then a else a - n)"
  by (simp add: le_mod_geq)

lemma q_len_cases:
  assumes "q_inv q"
  shows "q_len q = (if q_nextread q \<le> q_nextwrite q then q_nextwrite q - q_nextread q
                    else q_nextwrite q + q_size q - q_nextread q)"
  using q_invD(1,3,4)[OF assms] by (simp add: q_len_def mod_if_less)

lemma length_q_list [simp]: "length (q_list q) = q_len q"
  by (simp add: q_list_def)

lemma q_list_nth: "k < q_len q \<Longrightarrow> q_list q ! k = the (q_data q ! q_ix q k)"
  by (simp add: q_list_def)

lemma q_ix_less: "q_inv q \<Longrightarrow> q_ix q k < q_size q"
  using q_invD(1)[of q] by (simp add: q_ix_def)

lemma q_ix_len: "q_inv q \<Longrightarrow> q_ix q (q_len q) = q_nextwrite q"
  using q_invD[of q] q_len_cases[of q] by (auto simp: q_ix_def mod_if_less)

lemma q_ix_inj:
  assumes "q_inv q" "j < q_size q" "k < q_size q" "q_ix q j = q_ix q k"
  shows "j = k"
  using assms q_invD[OF assms(1)] by (auto simp: q_ix_def mod_if_less split: if_splits)

lemma q_empty_iff: "q_inv q \<Longrightarrow> q_empty q \<longleftrightarrow> q_list q = []"
  using q_invD[of q] q_len_cases[of q]
  by (auto simp: q_empty_def q_list_def split: if_splits)

lemma q_full_iff:
  "q_inv q \<Longrightarrow> (q_nextwrite q + 1) mod q_size q = q_nextread q \<longleftrightarrow> q_len q = q_cap q"
  using q_invD[of q] q_len_cases[of q]
  by (auto simp: q_cap_def mod_if_less split: if_splits)

subsection \<open>Storing and removing without growth\<close>

lemma q_store_ok:
  assumes "q_inv q" "q_len q < q_cap q"
  obtains q' where "q_store x q = Ok () q'" "q_inv q'" "q_list q' = q_list q @ [x]"
    "q_size q' = q_size q"
proof -
  note inv = q_invD[OF assms(1)]
  let ?q = "q\<lparr>q_data := (q_data q)[q_nextwrite q := Some x],
              q_nextwrite := Suc (q_nextwrite q) mod q_size q\<rparr>"
  have len: "q_len ?q = Suc (q_len q)"
    using inv(1,3,4) assms(2) q_len_cases[OF assms(1)]
    by (auto simp: q_len_def q_cap_def mod_if_less split: if_splits)
  have ix: "q_ix ?q k = q_ix q k" for k by (simp add: q_ix_def)
  have cell: "(q_data q)[q_nextwrite q := Some x] ! q_ix q k =
      (if k = q_len q then Some x else q_data q ! q_ix q k)"
    if "k \<le> q_len q" for k
  proof (cases "k = q_len q")
    case True
    then show ?thesis using inv(3,5) by (simp add: q_ix_len[OF assms(1)])
  next
    case False
    with that have "q_ix q k \<noteq> q_nextwrite q"
      using q_ix_inj[OF assms(1), of k "q_len q"] inv(6) q_ix_len[OF assms(1)] by force
    with False show ?thesis by simp
  qed
  have "q_inv ?q"
    using inv assms(1) unfolding q_inv_def by (auto simp: len ix cell less_Suc_eq_le)
  moreover have "q_list ?q = q_list q @ [x]"
    by (rule nth_equalityI) (auto simp: len ix cell less_Suc_eq q_list_nth nth_append)
  ultimately show thesis using inv(3,5) by (intro that[of ?q]) (auto simp: q_store_def)
qed

lemma q_remhead_ok:
  assumes "q_inv q" "q_list q \<noteq> []"
  obtains q' where "q_remhead q = Ok (hd (q_list q)) q'" "q_inv q'" "q_list q' = tl (q_list q)"
    "q_size q' = q_size q"
proof -
  note inv = q_invD[OF assms(1)]
  let ?q = "q\<lparr>q_nextread := Suc (q_nextread q) mod q_size q\<rparr>"
  have pos: "0 < q_len q" using assms(2) by (simp flip: length_greater_0_conv)
  have len: "Suc (q_len ?q) = q_len q"
    using inv(1,3,4) pos q_len_cases[OF assms(1)]
    by (auto simp: q_len_def mod_if_less split: if_splits)
  have ix: "q_ix ?q k = q_ix q (Suc k)" for k
    using inv(1) by (simp add: q_ix_def mod_simps)
  have "q_inv ?q"
    using inv assms(1) unfolding q_inv_def by (auto simp: ix simp flip: len)
  moreover have "q_list ?q = tl (q_list q)"
    using len by (intro nth_equalityI) (auto simp: ix q_list_nth nth_tl)
  moreover have "q_ix q 0 = q_nextread q" using inv(4) by (simp add: q_ix_def)
  then have "cell_at (Some (q_data q)) (q_nextread q) = Some (Some (hd (q_list q)))"
    using inv(4,5) pos q_inv_cell[OF assms(1) pos] assms(2)
    by (auto simp: hd_conv_nth q_list_nth)
  ultimately show thesis
    using inv(1) assms by (intro that[of ?q]) (auto simp: q_remhead_def q_empty_iff)
qed

lemma q_remhead_empty: "q_inv q \<Longrightarrow> q_list q = [] \<Longrightarrow> \<exists>p. q_remhead q = Panic p"
  by (simp add: q_remhead_def q_empty_iff)

subsection \<open>Growth\<close>

text \<open>Doubling reaches the target, at most doubles it, and cannot overflow below \<open>2 ^ 29\<close>.\<close>

lemma q_newsize_bounds:
  assumes "0 < n" "n < 2 ^ 30" "t < 2 ^ 29"
  shows "\<exists>m. q_newsize t n = Some m \<and> t \<le> m \<and> n \<le> m \<and> m < 2 ^ 30"
  using assms
proof (induction t n rule: q_newsize.induct)
  case (1 t n)
  show ?case
  proof (cases "n < t")
    case True
    with 1 show ?thesis by (subst q_newsize.simps) auto
  next
    case False
    with 1 show ?thesis by (subst q_newsize.simps) auto
  qed
qed

lemma q_fresh_inv:
  assumes "0 < n" "n < 2 ^ 30"
  shows "q_inv \<lparr>q_size = n, q_nextwrite = 0, q_nextread = 0, q_data = kmalloc_cells (int n)\<rparr>"
    "q_list \<lparr>q_size = n, q_nextwrite = 0, q_nextread = 0, q_data = kmalloc_cells (int n)\<rparr> = []"
  using assms by (auto simp: q_inv_def q_len_def q_list_def)

lemma q_copy_ok:
  assumes src: "q_inv q0" and add: "\<And>p q. q_inv q \<Longrightarrow> q_len q < q_cap q \<Longrightarrow> addtail p q = q_store p q"
    and "q_inv q" "q_list q = take j (q_list q0)" "q_len q0 \<le> q_cap q" "j \<le> q_len q0" "q_len q0 - j \<le> k"
  shows "\<exists>q'. q_copy addtail (q_data q0) (q_size q0) (q_nextwrite q0) k (q_ix q0 j) q = Ok () q' \<and>
           q_inv q' \<and> q_list q' = q_list q0 \<and> q_size q' = q_size q"
  using assms(3-)
proof (induction k arbitrary: j q)
  case 0
  then have "j = q_len q0" by simp
  with 0 show ?case by (simp add: q_ix_len[OF src])
next
  case (Suc k)
  show ?case
  proof (cases "j = q_len q0")
    case True
    then show ?thesis using Suc.prems by (simp add: q_ix_len[OF src])
  next
    case False
    then have j: "j < q_len q0" using Suc.prems by simp
    have ne: "q_ix q0 j \<noteq> q_nextwrite q0"
      using q_ix_inj[OF src, of j "q_len q0"] q_invD(6)[OF src] j q_ix_len[OF src] by auto
    have cell: "cell_at (Some (q_data q0)) (q_ix q0 j) = Some (Some (q_list q0 ! j))"
      using q_inv_cell[OF src j] q_ix_less[OF src, of j] q_invD(5)[OF src] j
      by (auto simp: q_list_nth)
    have nx: "Suc (q_ix q0 j) mod q_size q0 = q_ix q0 (Suc j)" by (simp add: q_ix_def mod_simps)
    have "q_len q = j" using arg_cong[OF Suc.prems(2), of length] j by simp
    then have room: "q_len q < q_cap q" using j Suc.prems(3) by simp
    obtain q1 where q1: "q_store (q_list q0 ! j) q = Ok () q1" "q_inv q1"
        "q_list q1 = q_list q @ [q_list q0 ! j]" "q_size q1 = q_size q"
      using q_store_ok[OF Suc.prems(1) room] by blast
    have l1: "q_list q1 = take (Suc j) (q_list q0)"
      using q1(3) Suc.prems(2) j by (simp add: take_Suc_conv_app_nth)
    have "q_len q0 \<le> q_cap q1" using Suc.prems(3) q1(4) by (simp add: q_cap_def)
    from Suc.IH[OF q1(2) l1 this] j Suc.prems(5) q1(1,4) show ?thesis
      using ne cell by (auto simp: bind_def attempt_def add[OF Suc.prems(1) room] nx)
  qed
qed

lemma q_grow_ok:
  assumes "q_inv q" "q_size q \<le> t" "t < 2 ^ 29"
    and "\<And>p r. q_inv r \<Longrightarrow> q_len r < q_cap r \<Longrightarrow> addtail p r = q_store p r"
  shows "wp (q_grow addtail ok t)
      (\<lambda>_ q'. ok \<and> q_inv q' \<and> q_list q' = q_list q \<and> t \<le> q_size q' \<and> q_size q \<le> q_size q')
      (\<lambda>e q'. \<not> ok \<and> e = ENOMEM \<and> q' = q) q"
proof -
  note inv = q_invD[OF assms(1)]
  obtain m where m: "q_newsize t (q_size q) = Some m" "t \<le> m" "q_size q \<le> m" "m < 2 ^ 30"
    using q_newsize_bounds[OF inv(1,2) assms(3)] by blast
  let ?r = "\<lparr>q_size = m, q_nextwrite = 0, q_nextread = 0, q_data = kmalloc_cells (int m)\<rparr>"
  have "0 < m" using inv(1) m(3) by simp
  note fresh = q_fresh_inv[OF this m(4)]
  have "q_len q \<le> q_cap ?r" using inv(6) m(3) by (simp add: q_cap_def)
  moreover have "q_ix q 0 = q_nextread q" using inv(4) by (simp add: q_ix_def)
  ultimately obtain q' where "q_copy addtail (q_data q) (q_size q) (q_nextwrite q) (q_size q) (q_nextread q) ?r
      = Ok () q'" "q_inv q'" "q_list q' = q_list q" "q_size q' = m"
    using q_copy_ok[OF assms(1,4) fresh(1), where j = 0 and k = "q_size q"] fresh(2) inv(6) by auto
  then show ?thesis using m by (simp add: wp_def q_grow_def)
qed

subsection \<open>Adding at the tail\<close>

lemma q_addtail_d_room:
  assumes "q_inv q" "q_len q < q_cap q"
  shows "q_addtail_d (Suc d) ok x q = q_store x q"
  using assms q_invD(1)[OF assms(1)] q_full_iff[OF assms(1)] by auto

text \<open>The depth bound of the mutual recursion is never reached.\<close>

lemma wp_q_addtail_d:
  assumes "q_inv q" "length (q_list q) + 2 < 2 ^ 29"
  shows "wp (q_addtail_d (Suc (Suc d)) ok x)
      (\<lambda>_ q'. q_inv q' \<and> q_list q' = q_list q @ [x] \<and> q_cap q \<le> q_cap q' \<and>
        (length (q_list q) < q_cap q \<longrightarrow> q_cap q' = q_cap q))
      (\<lambda>e q'. \<not> ok \<and> q_cap q = length (q_list q) \<and> e = ENOMEM \<and> q' = q) q"
proof (cases "q_len q < q_cap q")
  case True
  from q_store_ok[OF assms(1) True, of x] obtain q' where "q_store x q = Ok () q'" "q_inv q'"
    "q_list q' = q_list q @ [x]" "q_size q' = q_size q" .
  then show ?thesis
    using q_addtail_d_room[OF assms(1) True, of "Suc d" ok x]
    by (simp add: wp_def q_cap_def del: q_addtail_d.simps)
next
  case False
  then have full: "q_len q = q_cap q" using q_invD(6)[OF assms(1)] by (simp add: q_cap_def)
  have t: "q_size q + 1 < 2 ^ 29" using assms(2) full q_invD(1)[OF assms(1)] by (simp add: q_cap_def)
  have eq: "q_addtail_d (Suc (Suc d)) ok x q
      = bind (q_grow (q_addtail_d (Suc d) ok) ok (q_size q + 1)) (\<lambda>_. q_store x) q"
    using q_full_iff[OF assms(1)] full q_invD(1)[OF assms(1)] by simp
  have "wp (bind (q_grow (q_addtail_d (Suc d) ok) ok (q_size q + 1)) (\<lambda>_. q_store x))
      (\<lambda>_ q'. q_inv q' \<and> q_list q' = q_list q @ [x] \<and> q_cap q \<le> q_cap q' \<and>
        (length (q_list q) < q_cap q \<longrightarrow> q_cap q' = q_cap q))
      (\<lambda>e q'. \<not> ok \<and> q_cap q = length (q_list q) \<and> e = ENOMEM \<and> q' = q) q"
    unfolding wp_bind
  proof (rule wp_mono[OF q_grow_ok[OF assms(1) _ t, of _ ok]], goal_cases)
    case (3 u r)
    then have "q_len r = q_len q" by (metis length_q_list)
    with 3 full have room: "q_len r < q_cap r"
      using q_invD(1)[OF assms(1)] by (auto simp: q_cap_def)
    from 3 have "q_inv r" by simp
    from q_store_ok[OF this room, of x] obtain q' where "q_store x r = Ok () q'" "q_inv q'"
      "q_list q' = q_list r @ [x]" "q_size q' = q_size r" .
    with 3 full show ?case by (auto simp: wp_def q_cap_def)
  next
    case (2 p r)
    then show ?case by (rule q_addtail_d_room)
  qed (use full in auto)
  then show ?thesis using eq by (simp add: wp_def del: q_addtail_d.simps)
qed

lemma wp_q_addtail:
  assumes "q_inv q" "length (q_list q) + 2 < 2 ^ 29"
  shows "wp (q_addtail ok x)
      (\<lambda>_ q'. q_inv q' \<and> q_list q' = q_list q @ [x] \<and> q_cap q \<le> q_cap q' \<and>
        (length (q_list q) < q_cap q \<longrightarrow> q_cap q' = q_cap q))
      (\<lambda>e q'. \<not> ok \<and> q_cap q = length (q_list q) \<and> e = ENOMEM \<and> q' = q) q"
  using wp_q_addtail_d[OF assms, of 0] by (simp add: q_addtail_def numeral_2_eq_2 del: q_addtail_d.simps)

lemma q_addtail_room:
  assumes "q_inv q" "q_len q < q_cap q"
  shows "q_addtail ok x q = q_store x q"
  using q_addtail_d_room[OF assms, of 1] by (simp add: q_addtail_def numeral_2_eq_2 del: q_addtail_d.simps)

text \<open>A full queue needs memory for the next entry.\<close>

lemma q_addtail_full:
  assumes "q_inv q" "q_len q = q_cap q" "q_size q + 1 < 2 ^ 29"
  shows "q_addtail False x q = Err ENOMEM q"
proof -
  have "(q_nextwrite q + 1) mod q_size q = q_nextread q"
    using assms(2) q_full_iff[OF assms(1)] by simp
  moreover obtain m where "q_newsize (q_size q + 1) (q_size q) = Some m"
    using q_newsize_bounds[OF q_invD(1,2)[OF assms(1)] assms(3)] by blast
  ultimately show ?thesis
    using q_invD(1)[OF assms(1)] by (simp add: q_addtail_def numeral_2_eq_2 q_grow_def bind_def)
qed

lemma wp_q_preallocate:
  assumes "q_inv q" "n < 2 ^ 29"
  shows "wp (q_preallocate ok n)
      (\<lambda>_ q'. q_inv q' \<and> q_list q' = q_list q \<and> n \<le> Suc (q_cap q') \<and> q_cap q \<le> q_cap q' \<and>
        (n \<le> Suc (q_cap q) \<longrightarrow> q' = q))
      (\<lambda>e q'. \<not> ok \<and> e = ENOMEM \<and> q' = q \<and> Suc (q_cap q) < n) q"
proof (cases "n > q_size q")
  case True
  have "wp (q_grow (q_addtail ok) ok n)
      (\<lambda>_ q'. q_inv q' \<and> q_list q' = q_list q \<and> n \<le> Suc (q_cap q') \<and> q_cap q \<le> q_cap q' \<and>
        (n \<le> Suc (q_cap q) \<longrightarrow> q' = q))
      (\<lambda>e q'. \<not> ok \<and> e = ENOMEM \<and> q' = q \<and> Suc (q_cap q) < n) q"
    using q_invD(1)[OF assms(1)] True
    by (intro wp_mono[OF q_grow_ok[OF assms(1) _ assms(2)]])
      (auto simp: q_cap_def q_addtail_room)
  then show ?thesis using True q_invD(1)[OF assms(1)] by (simp add: wp_def q_preallocate_def)
next
  case False
  then show ?thesis using assms q_invD(1)[OF assms(1)]
    by (simp add: wp_def q_preallocate_def q_cap_def)
qed

section \<open>The interface\<close>

text \<open>
  First-in first-out with a reserved capacity: what the scheduler relies on. \<open>limit\<close> bounds
  the lengths for which the integers of the implementation cannot overflow.
\<close>

locale fifo =
  fixes inv :: "'c \<Rightarrow> bool"
    and abs :: "'c \<Rightarrow> 'a list"
    and cap :: "'c \<Rightarrow> nat"
    and isempty :: "'c \<Rightarrow> bool"
    and enq :: "bool \<Rightarrow> 'a \<Rightarrow> (unit, 'c) kmon"
    and deq :: "('a, 'c) kmon"
    and reserve :: "bool \<Rightarrow> nat \<Rightarrow> (unit, 'c) kmon"
    and limit :: nat
  assumes isempty: "inv c \<Longrightarrow> isempty c \<longleftrightarrow> abs c = []"
    and enq: "inv c \<Longrightarrow> length (abs c) + 2 < limit \<Longrightarrow>
        wp (enq ok x) (\<lambda>_ c'. inv c' \<and> abs c' = abs c @ [x] \<and> cap c \<le> cap c' \<and>
            (length (abs c) < cap c \<longrightarrow> cap c' = cap c))
          (\<lambda>e c'. \<not> ok \<and> cap c = length (abs c) \<and> e = ENOMEM \<and> c' = c) c"
    and deq: "inv c \<Longrightarrow> abs c \<noteq> [] \<Longrightarrow>
        wp deq (\<lambda>x c'. inv c' \<and> x = hd (abs c) \<and> abs c' = tl (abs c) \<and> cap c' = cap c) (\<lambda>_ _. False) c"
    and reserve: "inv c \<Longrightarrow> n < limit \<Longrightarrow>
        wp (reserve ok n) (\<lambda>_ c'. inv c' \<and> abs c' = abs c \<and> n \<le> Suc (cap c') \<and> cap c \<le> cap c' \<and>
            (n \<le> Suc (cap c) \<longrightarrow> c' = c))
          (\<lambda>e c'. \<not> ok \<and> e = ENOMEM \<and> c' = c \<and> Suc (cap c) < n) c"
    and len_cap: "inv c \<Longrightarrow> length (abs c) \<le> cap c"
begin

lemma enqE:
  assumes "inv c" "ok \<or> length (abs c) < cap c" "length (abs c) + 2 < limit"
  obtains c' where "enq ok x c = Ok () c'" "inv c'" "abs c' = abs c @ [x]" "cap c \<le> cap c'"
    "length (abs c) < cap c \<longrightarrow> cap c' = cap c"
  using wp_cases[OF enq[OF assms(1,3), of ok x]] assms(2)
  by (metis (full_types) less_irrefl old.unit.exhaust)

lemma deqE:
  assumes "inv c" "abs c \<noteq> []"
  obtains c' where "deq c = Ok (hd (abs c)) c'" "inv c'" "abs c' = tl (abs c)" "cap c' = cap c"
  using wp_cases[OF deq[OF assms]] by metis

text \<open>Moving entries in while memory is exhausted works as long as the reserved capacity lasts.\<close>

lemma enq_all_room:
  assumes "inv c" "length (abs c) + length xs \<le> cap c" "length (abs c) + length xs + 1 < limit"
  shows "\<exists>c'. foreach xs (enq ok) c = Ok () c' \<and> inv c' \<and> abs c' = abs c @ xs \<and> cap c \<le> cap c'"
  using assms
proof (induction xs arbitrary: c)
  case (Cons x xs)
  then have "ok \<or> length (abs c) < cap c" "length (abs c) + 2 < limit" by auto
  from enqE[OF Cons.prems(1) this] obtain d where
    d: "enq ok x c = Ok () d" "inv d" "abs d = abs c @ [x]" "cap c \<le> cap d" .
  have "length (abs d) + length xs \<le> cap d" "length (abs d) + length xs + 1 < limit"
    using Cons.prems d(3,4) by auto
  from Cons.IH[OF d(2) this] d show ?case by (auto simp: bind_def)
qed simp

text \<open>Entries come out in the order they went in.\<close>

lemma drain_order:
  assumes "inv c" "n \<le> length (abs c)"
  shows "\<exists>c'. repeatm n deq c = Ok (take n (abs c)) c' \<and> inv c' \<and> abs c' = drop n (abs c)"
  using assms
proof (induction n arbitrary: c)
  case (Suc n)
  then have ne: "abs c \<noteq> []" by auto
  from deqE[OF Suc.prems(1) this] obtain d where d: "deq c = Ok (hd (abs c)) d" "inv d"
      "abs d = tl (abs c)" .
  have "n \<le> length (abs d)" using Suc.prems(2) d(3) by simp
  from Suc.IH[OF d(2) this] d ne show ?case
    by (auto simp: bind_def take_Suc drop_Suc)
qed simp

end

interpretation rq: fifo q_inv q_list q_cap q_empty q_addtail q_remhead q_preallocate "2 ^ 29"
proof unfold_locales
  fix q :: "'a queue"
  assume "q_inv q" "q_list q \<noteq> []"
  from q_remhead_ok[OF this] obtain q' where "q_remhead q = Ok (hd (q_list q)) q'" "q_inv q'"
    "q_list q' = tl (q_list q)" "q_size q' = q_size q" .
  then show "wp q_remhead (\<lambda>x c'. q_inv c' \<and> x = hd (q_list q) \<and> q_list c' = tl (q_list q) \<and>
      q_cap c' = q_cap q) (\<lambda>_ _. False) q"
    by (simp add: wp_def q_cap_def)
next
  fix q :: "'a queue"
  assume "q_inv q"
  then show "length (q_list q) \<le> q_cap q" using q_invD(6)[of q] by (simp add: q_cap_def)
qed (fact q_empty_iff wp_q_addtail wp_q_preallocate)+

lemma enq_all_mem:
  assumes "q_inv q" "length (q_list q) + length xs + 1 < 2 ^ 29"
  shows "\<exists>q'. foreach xs (q_addtail True) q = Ok () q' \<and> q_inv q' \<and> q_list q' = q_list q @ xs"
  using assms
proof (induction xs arbitrary: q)
  case (Cons x xs)
  then have "length (q_list q) + 2 < 2 ^ 29" by simp
  from wp_cases[OF wp_q_addtail[OF Cons.prems(1) this, of True x]] obtain r where
    "q_addtail True x q = Ok () r" "q_inv r" "q_list r = q_list q @ [x]" by auto
  with Cons.IH[of r] Cons.prems(2) show ?case by (auto simp: bind_def)
qed simp







end
