(* ===== verification/Thread_System.thy ===== *)
theory Thread_System
  imports Kernel_Array Kernel_Queue
begin

text \<open>
  The thread system: \<open>kern/thread/thread.c\<close>, \<open>kern/thread/scheduler.c\<close>,
  \<open>kern/thread/hardclock.c\<close>, the interrupt level of \<open>kern/arch/mips/mips/spl.c\<close> and the
  register save area of \<open>kern/arch/mips/mips/pcb.c\<close>.

  A thread pointer is a number into the heap of thread structures. What \<open>mips_switch\<close> saves
  on the kernel stack of a thread that is switched out is the frame it will return into; it is
  kept with the thread as a \<open>switchframe\<close>. An operation that switches runs on to the point
  where the next thread is back in its own code.

  \<open>kmem\<close> holds the outcomes of the coming \<open>kmalloc\<close> calls, and \<open>irqs\<close> the interrupts that the
  idle loop will take. The vnode of a current directory and the
  address spaces belong to other components: here they are numbers, with the references held on
  a vnode counted in \<open>vrefs\<close>. \<open>iec\<close> is the interrupt-enable bit of the status register.
\<close>

section \<open>State\<close>

type_synonym tid = nat
type_synonym addr = nat

datatype switchframe =
    SwStart nat nat nat \<comment> \<open>\<open>mips_threadstart\<close>, with data1, data2 and func\<close>
  | SwYield int         \<comment> \<open>in \<open>thread_yield\<close>, with the saved interrupt level\<close>
  | SwSleep             \<comment> \<open>in \<open>thread_sleep\<close>\<close>
  | SwExit              \<comment> \<open>in \<open>thread_exit\<close>\<close>

datatype threadstate = S_RUN | S_READY | S_SLEEP | S_ZOMB

record thread =
  t_frame :: switchframe
  t_ininterrupt :: bool
  t_name :: string
  t_sleepaddr :: addr
  t_stack :: "8 word list option"
  t_vmspace :: "nat option"
  t_cwd :: "nat option"

datatype irq = Timer | Device addr

record tsys =
  threads :: "tid \<Rightarrow> thread option"
  nextid :: nat
  curthread :: "tid option"
  sleepers :: "tid array option"
  zombies :: "tid array option"
  runqueue :: "tid queue option"
  numthreads :: int
  curspl :: int
  iec :: bool
  in_interrupt :: bool
  lbolt_counter :: int
  kmem :: "nat \<Rightarrow> bool"
  irqs :: "irq list"
  vrefs :: "nat \<Rightarrow> int"
  active_as :: "nat option"
  dead_as :: "nat list"

abbreviation (input) NULL :: addr where "NULL \<equiv> 0"

text \<open>The addresses of global variables that threads sleep on.\<close>

definition lbolt_addr :: addr where "lbolt_addr = 1"

section \<open>Memory, pointers and interrupt level\<close>

definition kmalloc_ok :: "(bool, tsys) kmon" where
  "kmalloc_ok s = Ok (kmem s 0) (s\<lparr>kmem := \<lambda>n. kmem s (Suc n)\<rparr>)"

definition t_get :: "tid \<Rightarrow> (thread, tsys) kmon" where
  "t_get t s = (case threads s t of None \<Rightarrow> Panic ''dangling thread pointer'' | Some x \<Rightarrow> Ok x s)"

definition t_put :: "tid \<Rightarrow> (thread \<Rightarrow> thread) \<Rightarrow> (unit, tsys) kmon" where
  "t_put t f s = (case threads s t of None \<Rightarrow> Panic ''dangling thread pointer''
      | Some x \<Rightarrow> Ok () (s\<lparr>threads := (threads s)(t \<mapsto> f x)\<rparr>))"

definition cur :: "(tid, tsys) kmon" where
  "cur s = (case curthread s of None \<Rightarrow> Panic ''curthread is NULL'' | Some t \<Rightarrow> Ok t s)"

definition on_sleepers :: "('a, tid array) kmon \<Rightarrow> ('a, tsys) kmon" where
  "on_sleepers = deref sleepers (\<lambda>a. sleepers_update (\<lambda>_. Some a))"

definition on_zombies :: "('a, tid array) kmon \<Rightarrow> ('a, tsys) kmon" where
  "on_zombies = deref zombies (\<lambda>a. zombies_update (\<lambda>_. Some a))"

definition on_runqueue :: "('a, tid queue) kmon \<Rightarrow> ('a, tsys) kmon" where
  "on_runqueue = deref runqueue (\<lambda>q. runqueue_update (\<lambda>_. Some q))"

definition SPL_HIGH :: int where "SPL_HIGH = 15"

definition splx :: "int \<Rightarrow> (int, tsys) kmon" where
  "splx newspl s = Ok (curspl s)
     (s\<lparr>iec := (if newspl > 0 then False else if newspl = 0 then True else iec s),
        curspl := newspl\<rparr>)"

definition splhigh :: "(int, tsys) kmon" where "splhigh = splx SPL_HIGH"

definition spl0 :: "(int, tsys) kmon" where "spl0 = splx 0"

definition assert_spl :: "(unit, tsys) kmon" where
  "assert_spl s = (if curspl s > 0 then Ok () s else Panic ''curspl>0'')"

section \<open>The scheduler\<close>

definition scheduler_bootstrap :: "(unit, tsys) kmon" where
  "scheduler_bootstrap =
     bind kmalloc_ok (\<lambda>ok1. bind (if ok1 then kmalloc_ok else ret False) (\<lambda>ok2.
       case q_create ok1 ok2 32 of
         None \<Rightarrow> panic ''scheduler: Could not create run queue''
       | Some q \<Rightarrow> modify (runqueue_update (\<lambda>_. Some q))))"

definition scheduler_preallocate :: "int \<Rightarrow> (unit, tsys) kmon" where
  "scheduler_preallocate nthreads =
     bind assert_spl (\<lambda>_. bind kmalloc_ok (\<lambda>ok. on_runqueue (q_preallocate ok (nat nthreads))))"

text \<open>The loop of \<open>scheduler_killall\<close>; it runs once for every queued thread.\<close>

primrec scheduler_killall_loop :: "nat \<Rightarrow> (unit, tsys) kmon" where
  "scheduler_killall_loop 0 =
     bind (on_runqueue (gets q_empty)) (\<lambda>e. if e then ret () else panic ''no end of loop'')"
| "scheduler_killall_loop (Suc k) =
     bind (on_runqueue (gets q_empty)) (\<lambda>e. if e then ret ()
       else bind (on_runqueue q_remhead) (\<lambda>t. bind (t_get t) (\<lambda>_. scheduler_killall_loop k)))"

definition scheduler_killall :: "(unit, tsys) kmon" where
  "scheduler_killall = bind assert_spl (\<lambda>_.
     bind (on_runqueue (gets q_getsize)) (\<lambda>n. scheduler_killall_loop n))"

definition scheduler_shutdown :: "(unit, tsys) kmon" where
  "scheduler_shutdown = bind scheduler_killall (\<lambda>_. bind assert_spl (\<lambda>_.
     bind (on_runqueue q_destroy) (\<lambda>_. modify (runqueue_update (\<lambda>_. None)))))"

definition make_runnable :: "tid \<Rightarrow> (unit, tsys) kmon" where
  "make_runnable t = bind assert_spl (\<lambda>_. bind kmalloc_ok (\<lambda>ok. on_runqueue (q_addtail ok t)))"

section \<open>Waking threads up\<close>

text \<open>
  The loops of \<open>thread_wakeup\<close> and \<open>thread_wakeup_one\<close>, with the number of rounds left. Every
  round either advances \<open>i\<close> or shortens the array, so as many rounds as there are sleepers are
  enough; \<open>back\<close> is the \<open>i--\<close> after a removal, which \<open>thread_wakeup_one\<close> does not have.
\<close>

primrec wakeup_loop :: "int \<Rightarrow> addr \<Rightarrow> nat \<Rightarrow> int \<Rightarrow> (unit, tsys) kmon" where
  "wakeup_loop back adr 0 i =
     bind (on_sleepers (gets array_getnum)) (\<lambda>n. if i < n then panic ''no end of loop'' else ret ())"
| "wakeup_loop back adr (Suc k) i =
     bind (on_sleepers (gets array_getnum)) (\<lambda>n.
     if \<not> i < n then ret ()
     else bind (on_sleepers (array_getguy i)) (\<lambda>t.
          bind (t_get t) (\<lambda>x.
          if t_sleepaddr x = adr then
            bind (on_sleepers (array_remove i)) (\<lambda>_.
            bind (must (make_runnable t)) (\<lambda>_.
            wakeup_loop back adr k (i - back + 1)))
          else wakeup_loop back adr k (i + 1))))"

definition thread_wakeup :: "addr \<Rightarrow> (unit, tsys) kmon" where
  "thread_wakeup adr = bind assert_spl (\<lambda>_.
     bind (on_sleepers (gets array_getnum)) (\<lambda>n. wakeup_loop 1 adr (nat n) 0))"

definition thread_wakeup_one :: "addr \<Rightarrow> (unit, tsys) kmon" where
  "thread_wakeup_one adr = bind assert_spl (\<lambda>_.
     bind (on_sleepers (gets array_getnum)) (\<lambda>n. wakeup_loop 0 adr (nat n) 0))"

definition thread_hassleepers :: "addr \<Rightarrow> (bool, tsys) kmon" where
  "thread_hassleepers adr = bind assert_spl (\<lambda>_.
     bind (on_sleepers (gets array_getnum)) (\<lambda>n.
     bind (first_some [0..<nat n] (\<lambda>i. bind (on_sleepers (array_getguy (int i))) (\<lambda>t.
             bind (t_get t) (\<lambda>x. ret (if t_sleepaddr x = adr then Some () else None)))))
       (\<lambda>r. ret (r \<noteq> None))))"

section \<open>Interrupts and the idle loop\<close>

definition HZ :: int where "HZ = 100"

text \<open>\<open>hardclock\<close>, over the \<open>thread_yield\<close> it ends with.\<close>

definition hardclock_with :: "(unit, tsys) kmon \<Rightarrow> (unit, tsys) kmon" where
  "hardclock_with yield =
     bind (modify (\<lambda>s. s\<lparr>lbolt_counter := lbolt_counter s + 1\<rparr>)) (\<lambda>_.
     bind (gets lbolt_counter) (\<lambda>c.
     bind (if c \<ge> HZ then bind (modify (\<lambda>s. s\<lparr>lbolt_counter := 0\<rparr>)) (\<lambda>_. thread_wakeup lbolt_addr)
           else ret ()) (\<lambda>_. yield)))"

definition mips_interrupt :: "(unit, tsys) kmon \<Rightarrow> (unit, tsys) kmon" where
  "mips_interrupt handler =
     bind (gets in_interrupt) (\<lambda>old_in.
     bind (modify (\<lambda>s. s\<lparr>in_interrupt := True\<rparr>)) (\<lambda>_.
     bind assert_spl (\<lambda>_.
     bind handler (\<lambda>_. modify (\<lambda>s. s\<lparr>in_interrupt := old_in\<rparr>)))))"

text \<open>
  In the idle loop \<open>curthread\<close> is NULL and \<open>thread_yield\<close> comes back from \<open>mi_switch\<close> at once; see
  lemma \<open>thread_yield_idle\<close> below.
\<close>

definition yield_idle :: "(unit, tsys) kmon" where
  "yield_idle = bind splhigh (\<lambda>spl.
     bind (gets sleepers) (\<lambda>sl. bind (assertk (sl \<noteq> None) ''sleepers != NULL'') (\<lambda>_.
     bind assert_spl (\<lambda>_. bind (splx spl) (\<lambda>_. ret ())))))"

definition cpu_idle :: "(unit, tsys) kmon" where
  "cpu_idle = bind assert_spl (\<lambda>_. \<lambda>s.
     case irqs s of
       [] \<Rightarrow> Panic ''idle: no further interrupt''
     | Timer # is \<Rightarrow> mips_interrupt (hardclock_with yield_idle) (s\<lparr>irqs := is\<rparr>)
     | Device adr # is \<Rightarrow> mips_interrupt (thread_wakeup adr) (s\<lparr>irqs := is\<rparr>))"

text \<open>The loop \<open>while (q_empty(runqueue)) cpu_idle();\<close>, which takes one interrupt per round.\<close>

primrec scheduler_loop :: "nat \<Rightarrow> (unit, tsys) kmon" where
  "scheduler_loop 0 =
     bind (on_runqueue (gets q_empty)) (\<lambda>e. if e then panic ''idle: no further interrupt'' else ret ())"
| "scheduler_loop (Suc k) =
     bind (on_runqueue (gets q_empty)) (\<lambda>e. if e then bind cpu_idle (\<lambda>_. scheduler_loop k) else ret ())"

definition scheduler :: "(tid, tsys) kmon" where
  "scheduler = bind assert_spl (\<lambda>_.
     bind (gets (\<lambda>s. length (irqs s))) (\<lambda>n.
     bind (scheduler_loop n) (\<lambda>_. on_runqueue q_remhead)))"

section \<open>Creation and destruction of threads\<close>

definition thread_create :: "string \<Rightarrow> (tid option, tsys) kmon" where
  "thread_create name =
     bind kmalloc_ok (\<lambda>ok. if \<not> ok then ret None
     else bind kmalloc_ok (\<lambda>ok'. if \<not> ok' then ret None
     else (\<lambda>s. Ok (Some (nextid s))
       (s\<lparr>threads := (threads s)(nextid s \<mapsto>
            \<lparr>t_frame = SwExit, t_ininterrupt = False, t_name = name, t_sleepaddr = NULL,
             t_stack = None, t_vmspace = None, t_cwd = None\<rparr>),
          nextid := nextid s + 1\<rparr>))))"

definition thread_destroy :: "tid \<Rightarrow> (unit, tsys) kmon" where
  "thread_destroy t =
     bind (gets curthread) (\<lambda>c. bind (assertk (c \<noteq> Some t) ''thread != curthread'') (\<lambda>_.
     bind (t_get t) (\<lambda>x.
     bind (assertk (t_vmspace x = None) ''thread->t_vmspace==NULL'') (\<lambda>_.
     bind (assertk (t_cwd x = None) ''thread->t_cwd==NULL'') (\<lambda>_.
     modify (\<lambda>s. s\<lparr>threads := (threads s)(t := None)\<rparr>))))))"

definition exorcise :: "(unit, tsys) kmon" where
  "exorcise = bind assert_spl (\<lambda>_.
     bind (on_zombies (gets array_getnum)) (\<lambda>n.
     bind (foreach [0..<nat n] (\<lambda>i. bind (on_zombies (array_getguy (int i))) (\<lambda>z.
             bind (gets curthread) (\<lambda>c. bind (assertk (c \<noteq> Some z) ''z!=curthread'') (\<lambda>_.
             thread_destroy z))))) (\<lambda>_.
     bind kmalloc_ok (\<lambda>ok. must (on_zombies (array_setsize ok 0))))))"

definition thread_killall :: "(unit, tsys) kmon" where
  "thread_killall = bind assert_spl (\<lambda>_.
     bind (on_sleepers (gets array_getnum)) (\<lambda>n.
     bind (foreach [0..<nat n] (\<lambda>i. bind (on_sleepers (array_getguy (int i))) (\<lambda>t.
             bind (t_get t) (\<lambda>_. ret ())))) (\<lambda>_.
     bind kmalloc_ok (\<lambda>ok. must (on_sleepers (array_setsize ok 0))))))"

definition thread_panic :: "(unit, tsys) kmon" where
  "thread_panic = bind assert_spl (\<lambda>_. bind thread_killall (\<lambda>_. scheduler_killall))"

definition thread_bootstrap :: "(tid, tsys) kmon" where
  "thread_bootstrap =
     bind kmalloc_ok (\<lambda>ok. case array_create ok of
       None \<Rightarrow> panic ''Cannot create sleepers array''
     | Some sl \<Rightarrow> bind (modify (sleepers_update (\<lambda>_. Some sl))) (\<lambda>_.
     bind kmalloc_ok (\<lambda>ok'. case array_create ok' of
       None \<Rightarrow> panic ''Cannot create zombies array''
     | Some z \<Rightarrow> bind (modify (zombies_update (\<lambda>_. Some z))) (\<lambda>_.
     bind (thread_create ''<boot/menu>'') (\<lambda>me. case me of
       None \<Rightarrow> panic ''thread_bootstrap: Out of memory''
     | Some me \<Rightarrow> bind (t_put me (t_ininterrupt_update (\<lambda>_. False))) (\<lambda>_.
         bind (modify (\<lambda>s. s\<lparr>curthread := Some me, numthreads := 1\<rparr>)) (\<lambda>_. ret me)))))))"

definition thread_shutdown :: "(unit, tsys) kmon" where
  "thread_shutdown = bind (on_sleepers (ret ())) (\<lambda>_. bind (modify (sleepers_update (\<lambda>_. None))) (\<lambda>_.
     bind (on_zombies (ret ())) (\<lambda>_. modify (zombies_update (\<lambda>_. None)))))"

definition VOP_INCREF :: "nat \<Rightarrow> (unit, tsys) kmon" where
  "VOP_INCREF v = modify (\<lambda>s. s\<lparr>vrefs := (vrefs s)(v := vrefs s v + 1)\<rparr>)"

definition VOP_DECREF :: "nat \<Rightarrow> (unit, tsys) kmon" where
  "VOP_DECREF v = modify (\<lambda>s. s\<lparr>vrefs := (vrefs s)(v := vrefs s v - 1)\<rparr>)"

definition stack_magic :: "8 word list" where
  "stack_magic = [0xae, 0x11, 0xda, 0x33]"

text \<open>The part of \<open>thread_fork\<close> that runs with interrupts off, up to the label \<open>fail\<close>.\<close>

definition thread_fork_enqueue :: "tid \<Rightarrow> (unit, tsys) kmon" where
  "thread_fork_enqueue newguy =
     bind (gets numthreads) (\<lambda>n.
     bind kmalloc_ok (\<lambda>ok. bind (on_sleepers (array_preallocate ok (n + 1))) (\<lambda>_.
     bind kmalloc_ok (\<lambda>ok. bind (on_zombies (array_preallocate ok (n + 1))) (\<lambda>_.
     bind (scheduler_preallocate (n + 1)) (\<lambda>_.
     bind (make_runnable newguy) (\<lambda>_.
     modify (\<lambda>s. s\<lparr>numthreads := numthreads s + 1\<rparr>))))))))"

text \<open>The end of \<open>thread_fork\<close>: success, or the label \<open>fail\<close>.\<close>

definition thread_fork_finish :: "tid \<Rightarrow> int \<Rightarrow> errno + unit \<Rightarrow> (tid, tsys) kmon" where
  "thread_fork_finish newguy spl result =
     bind (splx spl) (\<lambda>_.
     case result of
       Inr _ \<Rightarrow> ret newguy
     | Inl e \<Rightarrow>
         bind (t_get newguy) (\<lambda>x.
         bind (case t_cwd x of None \<Rightarrow> ret () | Some v \<Rightarrow> VOP_DECREF v) (\<lambda>_.
         bind (modify (\<lambda>s. s\<lparr>threads := (threads s)(newguy := None)\<rparr>)) (\<lambda>_. fail e))))"

definition thread_fork :: "string \<Rightarrow> nat \<Rightarrow> nat \<Rightarrow> nat \<Rightarrow> (tid, tsys) kmon" where
  "thread_fork name data1 data2 func =
     bind (thread_create name) (\<lambda>r. case r of None \<Rightarrow> fail ENOMEM | Some newguy \<Rightarrow>
     bind kmalloc_ok (\<lambda>ok.
     if \<not> ok then bind (modify (\<lambda>s. s\<lparr>threads := (threads s)(newguy := None)\<rparr>)) (\<lambda>_. fail ENOMEM)
     else
     bind (t_put newguy (t_stack_update (\<lambda>_. Some stack_magic))) (\<lambda>_.
     bind cur (\<lambda>c. bind (t_get c) (\<lambda>cx.
     bind (case t_cwd cx of None \<Rightarrow> ret ()
           | Some v \<Rightarrow> bind (VOP_INCREF v) (\<lambda>_. t_put newguy (t_cwd_update (\<lambda>_. Some v)))) (\<lambda>_.
     bind (t_put newguy (\<lambda>x. x\<lparr>t_frame := SwStart data1 data2 func, t_ininterrupt := False\<rparr>)) (\<lambda>_.
     bind splhigh (\<lambda>spl.
     bind (attempt (thread_fork_enqueue newguy)) (\<lambda>result.
     thread_fork_finish newguy spl result)))))))))"

section \<open>Switching\<close>

definition check_magic :: "tid \<Rightarrow> (unit, tsys) kmon" where
  "check_magic t = bind (t_get t) (\<lambda>x. case t_stack x of None \<Rightarrow> ret ()
     | Some st \<Rightarrow> assertk (take 4 st = stack_magic) ''stack magic number'')"

definition as_activate_cur :: "(unit, tsys) kmon" where
  "as_activate_cur = bind cur (\<lambda>c. bind (t_get c) (\<lambda>x. case t_vmspace x of None \<Rightarrow> ret ()
     | Some as \<Rightarrow> modify (\<lambda>s. s\<lparr>active_as := Some as\<rparr>)))"

definition md_switch :: "tid \<Rightarrow> tid \<Rightarrow> (unit, tsys) kmon" where
  "md_switch old nu =
     (if old = nu then ret ()
      else bind (gets in_interrupt) (\<lambda>i.
           bind (t_put old (t_ininterrupt_update (\<lambda>_. i))) (\<lambda>_.
           bind (t_get nu) (\<lambda>x. modify (\<lambda>s. s\<lparr>in_interrupt := t_ininterrupt x\<rparr>)))))"

text \<open>What the functions that call \<open>mi_switch\<close> do after it returns.\<close>

primrec resume_frame :: "switchframe \<Rightarrow> (unit, tsys) kmon" where
  "resume_frame (SwYield spl) = bind (splx spl) (\<lambda>_. ret ())"
| "resume_frame SwSleep = bind cur (\<lambda>c. t_put c (t_sleepaddr_update (\<lambda>_. NULL)))"
| "resume_frame SwExit = panic ''Thread came back from the dead!''"
| "resume_frame (SwStart data1 data2 func) = panic ''not a frame of a caller''"

text \<open>\<open>mi_threadstart\<close> up to the call of the thread's function.\<close>

definition mi_threadstart_enter :: "(unit, tsys) kmon" where
  "mi_threadstart_enter = bind as_activate_cur (\<lambda>_. bind spl0 (\<lambda>_. ret ()))"

text \<open>Where the thread switched to goes on: a new one starts, an old one returns from \<open>mi_switch\<close>.\<close>

definition switch_in :: "(unit, tsys) kmon" where
  "switch_in = bind cur (\<lambda>c. bind (t_get c) (\<lambda>x. case t_frame x of
       SwStart data1 data2 func \<Rightarrow> mi_threadstart_enter
     | fr \<Rightarrow> bind exorcise (\<lambda>_. bind as_activate_cur (\<lambda>_. resume_frame fr))))"

definition stash :: "threadstate \<Rightarrow> tid \<Rightarrow> (unit, tsys) kmon" where
  "stash nextstate c =
     (if nextstate = S_READY then must (make_runnable c)
      else if nextstate = S_SLEEP then bind kmalloc_ok (\<lambda>ok. must (on_sleepers (array_add ok c)))
      else bind (assertk (nextstate = S_ZOMB) ''nextstate==S_ZOMB'') (\<lambda>_.
           bind kmalloc_ok (\<lambda>ok. must (on_zombies (array_add ok c)))))"

definition mi_switch :: "threadstate \<Rightarrow> switchframe \<Rightarrow> (unit, tsys) kmon" where
  "mi_switch nextstate frame = bind assert_spl (\<lambda>_.
     bind (gets curthread) (\<lambda>ct. case ct of
       None \<Rightarrow> resume_frame frame
     | Some c \<Rightarrow>
         bind (check_magic c) (\<lambda>_.
         bind (modify (\<lambda>s. s\<lparr>curthread := None\<rparr>)) (\<lambda>_.
         bind (stash nextstate c) (\<lambda>_.
         bind (t_put c (t_frame_update (\<lambda>_. frame))) (\<lambda>_.
         bind scheduler (\<lambda>next.
         bind (modify (\<lambda>s. s\<lparr>curthread := Some next\<rparr>)) (\<lambda>_.
         bind (md_switch c next) (\<lambda>_. switch_in)))))))))"

definition thread_exit :: "(unit, tsys) kmon" where
  "thread_exit =
     bind cur (\<lambda>c. bind (check_magic c) (\<lambda>_.
     bind splhigh (\<lambda>_.
     bind (t_get c) (\<lambda>x.
     bind (case t_vmspace x of None \<Rightarrow> ret ()
           | Some as \<Rightarrow> bind (t_put c (t_vmspace_update (\<lambda>_. None))) (\<lambda>_.
                        modify (\<lambda>s. s\<lparr>dead_as := as # dead_as s\<rparr>))) (\<lambda>_.
     bind (case t_cwd x of None \<Rightarrow> ret ()
           | Some v \<Rightarrow> bind (VOP_DECREF v) (\<lambda>_. t_put c (t_cwd_update (\<lambda>_. None)))) (\<lambda>_.
     bind (gets numthreads) (\<lambda>n. bind (assertk (n > 0) ''numthreads>0'') (\<lambda>_.
     bind (modify (\<lambda>s. s\<lparr>numthreads := numthreads s - 1\<rparr>)) (\<lambda>_.
     mi_switch S_ZOMB SwExit)))))))))"

definition thread_yield :: "(unit, tsys) kmon" where
  "thread_yield = bind splhigh (\<lambda>spl.
     bind (gets sleepers) (\<lambda>sl. bind (assertk (sl \<noteq> None) ''sleepers != NULL'') (\<lambda>_.
     mi_switch S_READY (SwYield spl))))"

definition thread_sleep :: "addr \<Rightarrow> (unit, tsys) kmon" where
  "thread_sleep adr =
     bind (gets in_interrupt) (\<lambda>i. bind (assertk (\<not> i) ''in_interrupt==0'') (\<lambda>_.
     bind cur (\<lambda>c. bind (t_put c (t_sleepaddr_update (\<lambda>_. adr))) (\<lambda>_.
     mi_switch S_SLEEP SwSleep))))"

definition hardclock :: "(unit, tsys) kmon" where
  "hardclock = hardclock_with thread_yield"

lemma thread_yield_idle: "curthread s = None \<Longrightarrow> thread_yield s = yield_idle s"
  by (simp add: thread_yield_def yield_idle_def mi_switch_def bind_def splhigh_def splx_def
      assert_spl_def assertk_def SPL_HIGH_def)

section \<open>The invariant\<close>

text \<open>The threads that are ready, asleep, dead and running.\<close>

definition rdy :: "tsys \<Rightarrow> tid list" where "rdy s = q_list (the (runqueue s))"

definition slp :: "tsys \<Rightarrow> tid list" where "slp s = array_list (the (sleepers s))"

definition zmb :: "tsys \<Rightarrow> tid list" where "zmb s = array_list (the (zombies s))"

definition curl :: "tsys \<Rightarrow> tid list" where
  "curl s = (case curthread s of None \<Rightarrow> [] | Some t \<Rightarrow> [t])"

definition structs_ok :: "tsys \<Rightarrow> bool" where
  "structs_ok s \<longleftrightarrow> (\<exists>sl z q. sleepers s = Some sl \<and> array_inv sl \<and> zombies s = Some z \<and> array_inv z \<and>
     runqueue s = Some q \<and> q_inv q)"

text \<open>A thread structure: its stack, when it has one of its own, carries the magic number.\<close>

definition thread_ok :: "thread \<Rightarrow> bool" where
  "thread_ok x \<longleftrightarrow> (case t_stack x of None \<Rightarrow> True | Some st \<Rightarrow> take 4 st = stack_magic)"

definition frame_of :: "tsys \<Rightarrow> tid \<Rightarrow> switchframe" where
  "frame_of s t = t_frame (the (threads s t))"

text \<open>
  Every thread structure in the heap is in exactly one place: it is the running thread, or it is
  once on the run queue, among the sleepers or among the zombies. \<open>numthreads\<close> counts all but the
  zombies. A sleeper will resume inside \<open>thread_sleep\<close>, a ready thread anywhere but in
  \<open>thread_exit\<close>, and a zombie has given up its address space and directory.
\<close>

definition tinv :: "tsys \<Rightarrow> bool" where
  "tinv s \<longleftrightarrow> structs_ok s \<and>
     distinct (curl s @ rdy s @ slp s @ zmb s) \<and>
     set (curl s @ rdy s @ slp s @ zmb s) = dom (threads s) \<and>
     numthreads s = int (length (curl s @ rdy s @ slp s)) \<and>
     (\<forall>t \<in> dom (threads s). t < nextid s) \<and>
     (\<forall>x \<in> ran (threads s). thread_ok x) \<and>
     (\<forall>t \<in> set (rdy s). frame_of s t \<noteq> SwExit) \<and>
     (\<forall>t \<in> set (slp s). frame_of s t = SwSleep) \<and>
     (\<forall>t \<in> set (zmb s). t_vmspace (the (threads s t)) = None \<and> t_cwd (the (threads s t)) = None)"

text \<open>A machine about to boot.\<close>

definition tsys0 :: tsys where
  "tsys0 = \<lparr>threads = Map.empty, nextid = 1, curthread = None, sleepers = None, zombies = None, runqueue = None,
     numthreads = 0, curspl = SPL_HIGH, iec = False, in_interrupt = False, lbolt_counter = 0, kmem = (\<lambda>_. True),
     irqs = [], vrefs = (\<lambda>_. 0), active_as = None, dead_as = []\<rparr>"

end
