(* ===== verification/C_Arith.thy ===== *)
theory C_Arith
  imports Kernel_Prelude
begin

text \<open>
  C arithmetic of the 32-bit MIPS kernel: \<open>u_int32_t\<close>, \<open>u_int16_t\<close> and \<open>size_t\<close> values are naturals
  that every operation takes back below \<open>2 ^ 32\<close> (\<open>u32\<close>, \<open>u16\<close>), \<open>int\<close> and \<open>off_t\<close> values are
  integers taken back into the signed range (\<open>s32\<close>), and division truncates towards zero. Also the
  big-endian byte order in which the processor stores integers, and byte-addressed memory.
\<close>

type_synonym byte = "8 word"

section \<open>Widths\<close>

definition u32 :: "int \<Rightarrow> nat" where "u32 x = nat (x mod 2 ^ 32)"

definition u16 :: "int \<Rightarrow> nat" where "u16 x = nat (x mod 2 ^ 16)"

definition s32 :: "int \<Rightarrow> int" where "s32 x = (x + 2 ^ 31) mod 2 ^ 32 - 2 ^ 31"

definition cdiv :: "int \<Rightarrow> int \<Rightarrow> int" where
  "cdiv a b = (if a < 0 then - ((- a) div b) else a div b)"

definition crem :: "int \<Rightarrow> int \<Rightarrow> int" where
  "crem a b = a - cdiv a b * b"

lemma u32_id [simp]: "n < 2 ^ 32 \<Longrightarrow> u32 (int n) = n"
  by (simp add: u32_def flip: zmod_int)

lemma u32_nonneg: "0 \<le> x \<Longrightarrow> x < 2 ^ 32 \<Longrightarrow> u32 x = nat x"
  by (simp add: u32_def)

lemma u32_less [simp]: "u32 x < 2 ^ 32"
  by (simp add: u32_def nat_less_iff)

lemma u32_diff [simp]: "n \<le> m \<Longrightarrow> m < 2 ^ 32 \<Longrightarrow> u32 (int m - int n) = m - n"
  by (simp add: u32_def of_nat_diff flip: zmod_int)

lemma u16_id [simp]: "n < 2 ^ 16 \<Longrightarrow> u16 (int n) = n"
  by (simp add: u16_def flip: zmod_int)

lemma u16_less [simp]: "u16 x < 2 ^ 16"
  by (simp add: u16_def nat_less_iff)

lemma s32_id [simp]: "- (2 ^ 31) \<le> x \<Longrightarrow> x < 2 ^ 31 \<Longrightarrow> s32 x = x"
  by (simp add: s32_def)

lemma s32_range: "- (2 ^ 31) \<le> s32 x" "s32 x < 2 ^ 31"
proof -
  have "0 \<le> (x + 2 ^ 31) mod 2 ^ 32" "(x + 2 ^ 31) mod 2 ^ 32 < 2 ^ 32" by simp_all
  then show "- (2 ^ 31) \<le> s32 x" "s32 x < 2 ^ 31" by (simp_all add: s32_def)
qed

lemma cdiv_nonneg [simp]: "0 \<le> a \<Longrightarrow> cdiv a b = a div b"
  by (simp add: cdiv_def)

lemma crem_nonneg [simp]: "0 \<le> a \<Longrightarrow> crem a b = a mod b"
  by (simp add: crem_def minus_div_mult_eq_mod)

section \<open>Big-endian integers\<close>

primrec be_bytes :: "nat \<Rightarrow> nat \<Rightarrow> byte list" where
  "be_bytes 0 x = []"
| "be_bytes (Suc n) x = be_bytes n (x div 256) @ [of_nat (x mod 256)]"

primrec be_value :: "nat \<Rightarrow> byte list \<Rightarrow> nat" where
  "be_value acc [] = acc"
| "be_value acc (b # bs) = be_value (acc * 256 + unat b) bs"

definition be :: "byte list \<Rightarrow> nat" where "be bs = be_value 0 bs"

lemma length_be_bytes [simp]: "length (be_bytes n x) = n"
  by (induction n arbitrary: x) auto

lemma be_value_append: "be_value acc (xs @ ys) = be_value (be_value acc xs) ys"
  by (induction xs arbitrary: acc) auto

lemma be_be_bytes: "be (be_bytes n x) = x mod 256 ^ n"
proof (induction n arbitrary: x)
  case (Suc n)
  have byte: "unat (of_nat (x mod 256) :: byte) = x mod 256"
    by (simp add: unat_of_nat)
  have "be (be_bytes (Suc n) x) = be (be_bytes n (x div 256)) * 256 + x mod 256"
    by (simp only: be_def be_bytes.simps be_value_append be_value.simps byte)
  also have "\<dots> = (x div 256) mod 256 ^ n * 256 + x mod 256" by (simp only: Suc.IH)
  also have "\<dots> = x mod (256 * 256 ^ n)" by (simp only: mod_mult2_eq mult.commute)
  finally show ?case by simp
qed (simp add: be_def)

lemma be_be_bytes_id [simp]: "x < 256 ^ n \<Longrightarrow> be (be_bytes n x) = x"
  by (simp add: be_be_bytes)

lemma unat_byte: "unat (b :: byte) < 256"
  using unsigned_less[of b] by simp

lemma be_value_less: "be_value acc bs < (acc + 1) * 256 ^ length bs"
proof (induction bs arbitrary: acc)
  case (Cons b bs)
  have "unat b < 256" by (rule unat_byte)
  then have "acc * 256 + unat b + 1 \<le> (acc + 1) * 256" by simp
  then have "(acc * 256 + unat b + 1) * 256 ^ length bs \<le> (acc + 1) * 256 * 256 ^ length bs"
    by (rule mult_le_mono1)
  with Cons[of "acc * 256 + unat b"] have "be_value (acc * 256 + unat b) bs < (acc + 1) * 256 * 256 ^ length bs"
    by (rule less_le_trans)
  then show ?case by (simp only: be_value.simps list.size power_Suc mult.assoc power_add) simp
qed simp

lemma be_less: "be bs < 256 ^ length bs"
  using be_value_less[of 0 bs] by (simp add: be_def)

lemma be_bytes_be [simp]: "length bs = n \<Longrightarrow> be_bytes n (be bs) = bs"
proof (induction n arbitrary: bs)
  case (Suc n)
  then obtain ys b where bs: "bs = ys @ [b]" "length ys = n"
    by (cases bs rule: rev_cases) auto
  have b: "unat b < 256" by (rule unat_byte)
  have e: "be bs = be ys * 256 + unat b" by (simp add: bs(1) be_def be_value_append)
  have q: "be bs div 256 = be ys" "be bs mod 256 = unat b" unfolding e using b by simp_all
  have "be_bytes (Suc n) (be bs) = be_bytes n (be ys) @ [b]" by (simp only: be_bytes.simps q) simp
  then show ?case using Suc.IH[OF bs(2)] bs(1) by simp
qed simp

section \<open>Byte-addressed memory\<close>

text \<open>Memory as far as it is mapped; an access to any other address faults.\<close>

type_synonym mem = "nat \<Rightarrow> byte option"

definition mapped :: "mem \<Rightarrow> nat \<Rightarrow> nat \<Rightarrow> bool" where
  "mapped m a n \<longleftrightarrow> (\<forall>i < n. m (a + i) \<noteq> None)"

definition get_bytes :: "mem \<Rightarrow> nat \<Rightarrow> nat \<Rightarrow> byte list" where
  "get_bytes m a n = map (\<lambda>i. the (m (a + i))) [0..<n]"

definition put_bytes :: "mem \<Rightarrow> nat \<Rightarrow> byte list \<Rightarrow> mem" where
  "put_bytes m a xs = (\<lambda>x. if a \<le> x \<and> x < a + length xs then Some (xs ! (x - a)) else m x)"

lemma length_get_bytes [simp]: "length (get_bytes m a n) = n"
  by (simp add: get_bytes_def)

lemma nth_get_bytes [simp]: "i < n \<Longrightarrow> get_bytes m a n ! i = the (m (a + i))"
  by (simp add: get_bytes_def)

lemma get_bytes_0 [simp]: "get_bytes m a 0 = []"
  by (simp add: get_bytes_def)

lemma put_bytes_Nil [simp]: "put_bytes m a [] = m"
  by (rule ext) (auto simp: put_bytes_def)

lemma get_put_bytes [simp]: "get_bytes (put_bytes m a xs) a (length xs) = xs"
  by (rule nth_equalityI) (simp_all add: put_bytes_def)

lemma put_bytes_Cons: "put_bytes (m(a \<mapsto> x)) (Suc a) xs = put_bytes m a (x # xs)"
  by (rule ext) (auto simp: put_bytes_def nth_Cons')

lemma put_bytes_append: "put_bytes (put_bytes m a xs) (a + length xs) ys = put_bytes m a (xs @ ys)"
  by (rule ext) (auto simp: put_bytes_def nth_append)

lemma get_bytes_add: "get_bytes m a (n + k) = get_bytes m a n @ get_bytes m (a + n) k"
  by (rule nth_equalityI) (auto simp: nth_append)

lemma mapped_put_bytes [simp]: "mapped m b n \<Longrightarrow> mapped (put_bytes m a xs) b n"
  by (auto simp: mapped_def put_bytes_def)

lemma mapped_mono: "mapped m a n \<Longrightarrow> k \<le> n \<Longrightarrow> mapped m a k"
  by (simp add: mapped_def)

lemma mapped_add: "mapped m a (n + k) \<longleftrightarrow> mapped m a n \<and> mapped m (a + n) k"
proof
  assume "mapped m a n \<and> mapped m (a + n) k"
  then have *: "\<And>i. i < n \<Longrightarrow> m (a + i) \<noteq> None" "\<And>i. i < k \<Longrightarrow> m (a + n + i) \<noteq> None"
    by (simp_all add: mapped_def)
  have "m (a + i) \<noteq> None" if "i < n + k" for i
  proof (cases "i < n")
    case False
    with that *(2)[of "i - n"] show ?thesis by simp
  qed (rule *(1))
  then show "mapped m a (n + k)" by (simp add: mapped_def)
qed (auto simp: mapped_def add.assoc)

text \<open>
  Copying byte after byte, upwards, up to the first fault: what has been copied, and whether the copy
  went through.
\<close>

primrec copy_to :: "byte list \<Rightarrow> nat \<Rightarrow> mem \<Rightarrow> mem \<times> bool" where
  "copy_to [] a m = (m, True)"
| "copy_to (x # xs) a m = (case m a of None \<Rightarrow> (m, False) | Some _ \<Rightarrow> copy_to xs (a + 1) (m(a \<mapsto> x)))"

primrec copy_from :: "nat \<Rightarrow> nat \<Rightarrow> mem \<Rightarrow> byte list \<times> bool" where
  "copy_from 0 a m = ([], True)"
| "copy_from (Suc n) a m = (case m a of None \<Rightarrow> ([], False)
     | Some x \<Rightarrow> (let (xs, ok) = copy_from n (a + 1) m in (x # xs, ok)))"

lemma mapped_0 [simp]: "mapped m a 0"
  by (simp add: mapped_def)

lemma mapped_Suc: "mapped m a (Suc n) \<longleftrightarrow> m a \<noteq> None \<and> mapped m (a + 1) n"
  unfolding mapped_def by (auto simp: less_Suc_eq_0_disj)

lemma copy_to_mapped: "mapped m a (length xs) \<Longrightarrow> copy_to xs a m = (put_bytes m a xs, True)"
proof (induction xs arbitrary: a m)
  case (Cons x xs)
  then have "mapped (m(a \<mapsto> x)) (Suc a) (length xs)" by (auto simp: mapped_Suc mapped_def)
  with Cons.IH[of "m(a \<mapsto> x)" "Suc a"] Cons.prems show ?case
    by (auto simp: mapped_Suc put_bytes_Cons simp del: fun_upd_apply)
qed simp

lemma copy_to_snd: "snd (copy_to xs a m) \<longleftrightarrow> mapped m a (length xs)"
proof (induction xs arbitrary: a m)
  case (Cons x xs)
  have "mapped (m(a \<mapsto> x)) (Suc a) (length xs) = mapped m (Suc a) (length xs)" by (auto simp: mapped_def)
  with Cons[of "Suc a" "m(a \<mapsto> x)"] show ?case
    by (simp add: mapped_Suc del: fun_upd_apply split: option.split)
qed simp

lemma copy_from_mapped: "mapped m a n \<Longrightarrow> copy_from n a m = (get_bytes m a n, True)"
proof (induction n arbitrary: a)
  case (Suc n)
  have "get_bytes m a (Suc n) = get_bytes m a 1 @ get_bytes m (a + 1) n"
    using get_bytes_add[of m a 1 n] by simp
  moreover have "get_bytes m a 1 = [the (m a)]" by (simp add: get_bytes_def)
  ultimately show ?case using Suc by (auto simp: mapped_Suc)
qed simp

lemma copy_from_snd: "snd (copy_from n a m) \<longleftrightarrow> mapped m a n"
proof (induction n arbitrary: a)
  case (Suc n)
  from Suc[of "Suc a"] show ?case
    by (simp add: mapped_Suc split: option.split prod.split) (metis snd_conv)
qed simp

end
