(* ===== verification/Synch_Model.thy ===== *)
theory Synch_Model
  imports Thread_System C_Arith
begin

text \<open>
  Semaphores, locks and condition variables: \<open>kern/thread/synch.c\<close>, and \<open>clocksleep\<close> of
  \<open>kern/thread/hardclock.c\<close>, on top of the thread system.

  Interrupts are off inside these functions, so that on the one processor nothing else runs until they
  turn interrupts on or call \<open>thread_sleep\<close>. A thread that sleeps inside one of them has it on its
  kernel stack; what it will do when it runs again is its \<open>kframe\<close>. An operation that sleeps
  runs on to the point where the next thread is back in its own code, as \<open>thread_sleep\<close> does.

  A pointer to a semaphore, a lock or a condition variable is its address, which is also the address
  threads sleep on. Addresses are not handed out twice.
\<close>

section \<open>State\<close>

record semaphore =
  sem_name :: string
  sem_count :: int

record lock =
  lock_name :: string
  isHeld :: bool
  holder :: "tid option"

record cv =
  cv_name :: string

datatype kframe =
    In_P addr int              \<comment> \<open>in the loop of \<open>P\<close>, with the saved interrupt level\<close>
  | In_lock_acquire addr int   \<comment> \<open>in the loop of \<open>lock_acquire\<close>\<close>
  | In_cv_wait addr addr       \<comment> \<open>in \<open>cv_wait\<close>, between \<open>lock_release\<close> and \<open>splhigh\<close>\<close>
  | In_cv_sleep addr addr int  \<comment> \<open>in the \<open>thread_sleep\<close> of \<open>cv_wait\<close>\<close>
  | In_clocksleep int int      \<comment> \<open>in the loop of \<open>clocksleep\<close>, with the rounds left after this one\<close>

record ksync =
  kts :: tsys
  sems :: "addr \<Rightarrow> semaphore option"
  locks :: "addr \<Rightarrow> lock option"
  cvs :: "addr \<Rightarrow> cv option"
  knext :: addr
  kframes :: "tid \<Rightarrow> kframe option"

text \<open>
  What an operation hands back besides its effect: whether it has put its caller to sleep, and what it
  has completed.
\<close>

datatype kevent = EvInit addr int | EvP addr | EvV addr | EvAcquire addr | EvRelease addr | EvSignal addr

type_synonym kout = "bool \<times> kevent list"

definition on_ts :: "('a, tsys) kmon \<Rightarrow> ('a, ksync) kmon" where
  "on_ts = zoom kts (\<lambda>t. kts_update (\<lambda>_. t))"

definition here :: "(tid, ksync) kmon" where "here = on_ts cur"

definition sem_get :: "addr \<Rightarrow> (semaphore, ksync) kmon" where
  "sem_get a s = (case sems s a of None \<Rightarrow> Panic ''dangling semaphore pointer'' | Some x \<Rightarrow> Ok x s)"

definition sem_put :: "addr \<Rightarrow> semaphore \<Rightarrow> (unit, ksync) kmon" where
  "sem_put a x = modify (\<lambda>s. s\<lparr>sems := (sems s)(a \<mapsto> x)\<rparr>)"

definition lock_get :: "addr \<Rightarrow> (lock, ksync) kmon" where
  "lock_get a s = (case locks s a of None \<Rightarrow> Panic ''dangling lock pointer'' | Some x \<Rightarrow> Ok x s)"

definition lock_put :: "addr \<Rightarrow> lock \<Rightarrow> (unit, ksync) kmon" where
  "lock_put a x = modify (\<lambda>s. s\<lparr>locks := (locks s)(a \<mapsto> x)\<rparr>)"

definition kpush :: "kframe option \<Rightarrow> (unit, ksync) kmon" where
  "kpush fr = bind here (\<lambda>c. modify (\<lambda>s. s\<lparr>kframes := (kframes s)(c := fr)\<rparr>))"

text \<open>\<open>thread_sleep\<close> inside a function; another thread runs when it is done.\<close>

definition block_in :: "kframe \<Rightarrow> addr \<Rightarrow> (kout, ksync) kmon" where
  "block_in fr a = bind (kpush (Some fr)) (\<lambda>_. bind (on_ts (thread_sleep a)) (\<lambda>_. ret (True, [])))"

text \<open>\<open>splx(spl)\<close> and the return to the caller.\<close>

definition return_from :: "int \<Rightarrow> kevent list \<Rightarrow> (kout, ksync) kmon" where
  "return_from spl evs = bind (on_ts (splx spl)) (\<lambda>_. bind (kpush None) (\<lambda>_. ret (False, evs)))"

section \<open>Semaphores\<close>

definition sem_create :: "string \<Rightarrow> int \<Rightarrow> (addr option, ksync) kmon" where
  "sem_create namearg initial_count =
     bind (on_ts kmalloc_ok) (\<lambda>ok. if \<not> ok then ret None
     else bind (on_ts kmalloc_ok) (\<lambda>ok'. if \<not> ok' then ret None
     else (\<lambda>s. Ok (Some (knext s))
       (s\<lparr>sems := (sems s)(knext s \<mapsto> \<lparr>sem_name = namearg, sem_count = initial_count\<rparr>), knext := knext s + 1\<rparr>))))"

definition sem_destroy :: "addr \<Rightarrow> (unit, ksync) kmon" where
  "sem_destroy sem =
     bind (assertk (sem \<noteq> NULL) ''sem != NULL'') (\<lambda>_.
     bind (on_ts splhigh) (\<lambda>spl.
     bind (on_ts (thread_hassleepers sem)) (\<lambda>h.
     bind (assertk (\<not> h) ''thread_hassleepers(sem)==0'') (\<lambda>_.
     bind (on_ts (splx spl)) (\<lambda>_.
     bind (sem_get sem) (\<lambda>_. modify (\<lambda>s. s\<lparr>sems := (sems s)(sem := None)\<rparr>)))))))"

definition P_loop :: "addr \<Rightarrow> int \<Rightarrow> (kout, ksync) kmon" where
  "P_loop sem spl = bind (sem_get sem) (\<lambda>x.
     if sem_count x = 0 then block_in (In_P sem spl) sem
     else bind (assertk (sem_count x > 0) ''sem->count>0'') (\<lambda>_.
          bind (sem_put sem (x\<lparr>sem_count := sem_count x - 1\<rparr>)) (\<lambda>_. return_from spl [EvP sem])))"

definition P :: "addr \<Rightarrow> (kout, ksync) kmon" where
  "P sem =
     bind (assertk (sem \<noteq> NULL) ''sem != NULL'') (\<lambda>_.
     bind (on_ts (gets in_interrupt)) (\<lambda>i. bind (assertk (\<not> i) ''in_interrupt==0'') (\<lambda>_.
     bind (on_ts splhigh) (\<lambda>spl. P_loop sem spl))))"

definition V :: "addr \<Rightarrow> (kout, ksync) kmon" where
  "V sem =
     bind (assertk (sem \<noteq> NULL) ''sem != NULL'') (\<lambda>_.
     bind (on_ts splhigh) (\<lambda>spl.
     bind (sem_get sem) (\<lambda>x.
     let n = s32 (sem_count x + 1) in
     bind (sem_put sem (x\<lparr>sem_count := n\<rparr>)) (\<lambda>_.
     bind (assertk (n > 0) ''sem->count>0'') (\<lambda>_.
     bind (on_ts (thread_wakeup sem)) (\<lambda>_. return_from spl [EvV sem]))))))"

section \<open>Locks\<close>

definition lock_create :: "string \<Rightarrow> (addr option, ksync) kmon" where
  "lock_create name =
     bind (on_ts kmalloc_ok) (\<lambda>ok. if \<not> ok then ret None
     else bind (on_ts kmalloc_ok) (\<lambda>ok'. if \<not> ok' then ret None
     else (\<lambda>s. Ok (Some (knext s))
       (s\<lparr>locks := (locks s)(knext s \<mapsto> \<lparr>lock_name = name, isHeld = False, holder = None\<rparr>), knext := knext s + 1\<rparr>))))"

definition lock_destroy :: "addr \<Rightarrow> (unit, ksync) kmon" where
  "lock_destroy lock = bind (lock_get lock) (\<lambda>_. modify (\<lambda>s. s\<lparr>locks := (locks s)(lock := None)\<rparr>))"

definition lock_do_i_hold :: "addr \<Rightarrow> (bool, ksync) kmon" where
  "lock_do_i_hold lock = bind (lock_get lock) (\<lambda>x. bind (on_ts (gets curthread)) (\<lambda>c. ret (holder x = c)))"

definition lock_acquire_loop :: "addr \<Rightarrow> int \<Rightarrow> (kout, ksync) kmon" where
  "lock_acquire_loop lock spl = bind (lock_get lock) (\<lambda>x.
     if isHeld x then block_in (In_lock_acquire lock spl) lock
     else bind (on_ts (gets curthread)) (\<lambda>c.
          bind (lock_put lock (x\<lparr>isHeld := True, holder := c\<rparr>)) (\<lambda>_. return_from spl [EvAcquire lock])))"

definition lock_acquire :: "addr \<Rightarrow> (kout, ksync) kmon" where
  "lock_acquire lock =
     bind (assertk (lock \<noteq> NULL) ''lock!=NULL'') (\<lambda>_.
     bind (on_ts splhigh) (\<lambda>spl.
     bind (lock_do_i_hold lock) (\<lambda>h.
     if h then panic ''cannot get the lock'' else lock_acquire_loop lock spl)))"

definition lock_release :: "addr \<Rightarrow> (kout, ksync) kmon" where
  "lock_release lock =
     bind (assertk (lock \<noteq> NULL) ''lock!=NULL'') (\<lambda>_.
     bind (on_ts splhigh) (\<lambda>spl.
     bind (lock_do_i_hold lock) (\<lambda>h.
     if \<not> h then panic ''cannot release lock''
     else bind (lock_get lock) (\<lambda>x.
          bind (lock_put lock (x\<lparr>holder := None, isHeld := False\<rparr>)) (\<lambda>_.
          bind (on_ts (thread_wakeup lock)) (\<lambda>_. return_from spl [EvRelease lock]))))))"

section \<open>Condition variables\<close>

definition cv_create :: "string \<Rightarrow> (addr option, ksync) kmon" where
  "cv_create name =
     bind (on_ts kmalloc_ok) (\<lambda>ok. if \<not> ok then ret None
     else bind (on_ts kmalloc_ok) (\<lambda>ok'. if \<not> ok' then ret None
     else (\<lambda>s. Ok (Some (knext s)) (s\<lparr>cvs := (cvs s)(knext s \<mapsto> \<lparr>cv_name = name\<rparr>), knext := knext s + 1\<rparr>))))"

definition cv_destroy :: "addr \<Rightarrow> (unit, ksync) kmon" where
  "cv_destroy cv = bind (assertk (cv \<noteq> NULL) ''cv != NULL'') (\<lambda>_. \<lambda>s.
     case cvs s cv of None \<Rightarrow> Panic ''dangling cv pointer'' | Some _ \<Rightarrow> Ok () (s\<lparr>cvs := (cvs s)(cv := None)\<rparr>))"

text \<open>
  \<open>cv_wait\<close> up to the return of \<open>lock_release\<close>, which has put the interrupt level back; then from \<open>splhigh\<close> into
  the sleep; and then from the wakeup on.
\<close>

definition cv_wait :: "addr \<Rightarrow> addr \<Rightarrow> (kout, ksync) kmon" where
  "cv_wait cv lock =
     bind (assertk (cv \<noteq> NULL \<and> lock \<noteq> NULL) ''cv != NULL && lock !=NULL'') (\<lambda>_.
     bind (lock_release lock) (\<lambda>r. bind (kpush (Some (In_cv_wait cv lock))) (\<lambda>_. ret r)))"

definition cv_wait_sleep :: "addr \<Rightarrow> addr \<Rightarrow> (kout, ksync) kmon" where
  "cv_wait_sleep cv lock = bind (on_ts splhigh) (\<lambda>spl. block_in (In_cv_sleep cv lock spl) cv)"

definition cv_wait_woken :: "addr \<Rightarrow> int \<Rightarrow> (kout, ksync) kmon" where
  "cv_wait_woken lock spl = bind (on_ts (splx spl)) (\<lambda>_. bind (kpush None) (\<lambda>_. lock_acquire lock))"

definition cv_signal :: "addr \<Rightarrow> addr \<Rightarrow> (kout, ksync) kmon" where
  "cv_signal cv lock =
     bind (lock_do_i_hold lock) (\<lambda>h.
     bind (assertk (cv \<noteq> NULL \<and> h) ''cv != NULL && lock_do_i_hold(lock)'') (\<lambda>_.
     bind (on_ts splhigh) (\<lambda>spl.
     bind (on_ts (thread_wakeup_one cv)) (\<lambda>_. return_from spl [EvSignal cv]))))"

definition cv_broadcast :: "addr \<Rightarrow> addr \<Rightarrow> (kout, ksync) kmon" where
  "cv_broadcast cv lock =
     bind (lock_do_i_hold lock) (\<lambda>h.
     bind (assertk (cv \<noteq> NULL \<and> h) ''cv != NULL && lock_do_i_hold(lock)'') (\<lambda>_.
     bind (on_ts splhigh) (\<lambda>spl.
     bind (on_ts (thread_wakeup cv)) (\<lambda>_. return_from spl [EvSignal cv]))))"

section \<open>Sleeping on the clock\<close>

definition clocksleep_loop :: "int \<Rightarrow> int \<Rightarrow> (kout, ksync) kmon" where
  "clocksleep_loop num_secs s =
     (if num_secs > 0 then block_in (In_clocksleep (num_secs - 1) s) lbolt_addr else return_from s [])"

definition clocksleep :: "int \<Rightarrow> (kout, ksync) kmon" where
  "clocksleep num_secs = bind (on_ts splhigh) (\<lambda>s. clocksleep_loop num_secs s)"

section \<open>Runs\<close>

text \<open>A thread that runs again goes on where it was.\<close>

fun resume :: "kframe \<Rightarrow> (kout, ksync) kmon" where
  "resume (In_P sem spl) = P_loop sem spl"
| "resume (In_lock_acquire lock spl) = lock_acquire_loop lock spl"
| "resume (In_cv_wait cv lock) = cv_wait_sleep cv lock"
| "resume (In_cv_sleep cv lock spl) = cv_wait_woken lock spl"
| "resume (In_clocksleep n spl) = clocksleep_loop n spl"

datatype kcall =
    CallP addr | CallV addr | CallAcquire addr | CallRelease addr | CallWait addr addr | CallSignal addr addr
  | CallBroadcast addr addr | CallClocksleep int | CallSemCreate string int | CallLockCreate string
  | CallCvCreate string | CallSemDestroy addr | CallLockDestroy addr | CallCvDestroy addr

definition quietly :: "('a, ksync) kmon \<Rightarrow> (kout, ksync) kmon" where
  "quietly m = bind m (\<lambda>_. ret (False, []))"

fun kcall_run :: "kcall \<Rightarrow> (kout, ksync) kmon" where
  "kcall_run (CallP a) = P a"
| "kcall_run (CallV a) = V a"
| "kcall_run (CallAcquire l) = lock_acquire l"
| "kcall_run (CallRelease l) = lock_release l"
| "kcall_run (CallWait c l) = cv_wait c l"
| "kcall_run (CallSignal c l) = cv_signal c l"
| "kcall_run (CallBroadcast c l) = cv_broadcast c l"
| "kcall_run (CallClocksleep n) = clocksleep n"
| "kcall_run (CallSemCreate name n) = bind (sem_create name n) (\<lambda>r.
     ret (False, case r of None \<Rightarrow> [] | Some a \<Rightarrow> [EvInit a n]))"
| "kcall_run (CallLockCreate name) = quietly (lock_create name)"
| "kcall_run (CallCvCreate name) = quietly (cv_create name)"
| "kcall_run (CallSemDestroy a) = quietly (sem_destroy a)"
| "kcall_run (CallLockDestroy l) = quietly (lock_destroy l)"
| "kcall_run (CallCvDestroy c) = quietly (cv_destroy c)"

text \<open>
  What callers may do: pass a condition variable where one is asked for (the functions never look into
  it), and create semaphores with a count that is not negative and fits an \<open>int\<close>.
\<close>

fun kcall_ok :: "kcall \<Rightarrow> ksync \<Rightarrow> bool" where
  "kcall_ok (CallWait c l) s \<longleftrightarrow> cvs s c \<noteq> None"
| "kcall_ok (CallSignal c l) s \<longleftrightarrow> cvs s c \<noteq> None"
| "kcall_ok (CallBroadcast c l) s \<longleftrightarrow> cvs s c \<noteq> None"
| "kcall_ok (CallSemCreate name n) s \<longleftrightarrow> 0 \<le> n \<and> n < 2 ^ 31"
| "kcall_ok _ s \<longleftrightarrow> True"

text \<open>
  All that any set of threads can do: the running thread calls one of the functions, goes on in the one it is in,
  is preempted while interrupts are on, forks or exits. \<open>k\<close> counts the switches, and \<open>tr\<close> lists what was
  completed, by whom.
\<close>

definition preemptible :: "ksync \<Rightarrow> tid \<Rightarrow> bool" where
  "preemptible s c \<longleftrightarrow> (case kframes s c of None \<Rightarrow> True | Some (In_cv_wait _ _) \<Rightarrow> True | _ \<Rightarrow> False)"

inductive kstep :: "ksync \<Rightarrow> nat \<Rightarrow> (tid \<times> kevent) list \<Rightarrow> ksync \<Rightarrow> bool" where
  kstep_call: "curthread (kts s) = Some c \<Longrightarrow> nextid (kts s) < 2 ^ 28 \<Longrightarrow> kframes s c = None \<Longrightarrow> kcall_ok op s \<Longrightarrow>
     kcall_run op s = Ok (b, evs) s' \<Longrightarrow> kstep s (of_bool b) (map (Pair c) evs) s'"
| kstep_resume: "curthread (kts s) = Some c \<Longrightarrow> nextid (kts s) < 2 ^ 28 \<Longrightarrow> kframes s c = Some fr \<Longrightarrow>
     resume fr s = Ok (b, evs) s' \<Longrightarrow> kstep s (of_bool b) (map (Pair c) evs) s'"
| kstep_preempt: "curthread (kts s) = Some c \<Longrightarrow> nextid (kts s) < 2 ^ 28 \<Longrightarrow> preemptible s c \<Longrightarrow>
     on_ts thread_yield s = Ok () s' \<Longrightarrow> kstep s 1 [] s'"
| kstep_fork: "curthread (kts s) = Some c \<Longrightarrow> nextid (kts s) < 2 ^ 28 \<Longrightarrow> kframes s c = None \<Longrightarrow>
     on_ts (thread_fork name data1 data2 func) s = Ok t s' \<Longrightarrow> kstep s 0 [] s'"
| kstep_exit: "curthread (kts s) = Some c \<Longrightarrow> nextid (kts s) < 2 ^ 28 \<Longrightarrow> kframes s c = None \<Longrightarrow>
     on_ts thread_exit s = Ok () s' \<Longrightarrow> kstep s 1 [] s'"

inductive krun :: "ksync \<Rightarrow> nat \<Rightarrow> (tid \<times> kevent) list \<Rightarrow> ksync \<Rightarrow> bool" where
  krun_Nil: "krun s 0 [] s"
| krun_Step: "krun s k tr t \<Longrightarrow> kstep t j evs u \<Longrightarrow> krun s (k + j) (tr @ evs) u"

end
