(* ===== verification/Thread_Props.thy ===== *)
theory Thread_Props
  imports Thread_System "HOL-Library.Multiset"
begin

text \<open>
  Correctness of the thread system: each operation on the three lists, the invariant that every
  thread is in exactly one place, and what the memory reserved by \<open>thread_fork\<close> is worth.
\<close>

section \<open>Running the operations\<close>

lemma on_sleepers_read:
  "sleepers s = Some sl \<Longrightarrow> m sl = Ok a sl \<Longrightarrow> on_sleepers m s = Ok a s"
  by (cases s) (simp add: on_sleepers_def deref_def)

lemma on_zombies_read:
  "zombies s = Some z \<Longrightarrow> m z = Ok a z \<Longrightarrow> on_zombies m s = Ok a s"
  by (cases s) (simp add: on_zombies_def deref_def)

lemma on_runqueue_read:
  "runqueue s = Some q \<Longrightarrow> m q = Ok a q \<Longrightarrow> on_runqueue m s = Ok a s"
  by (cases s) (simp add: on_runqueue_def deref_def)

lemma on_sleepers_Ok:
  "sleepers s = Some sl \<Longrightarrow> m sl = Ok a sl' \<Longrightarrow> on_sleepers m s = Ok a (s\<lparr>sleepers := Some sl'\<rparr>)"
  by (simp add: on_sleepers_def deref_def)

lemma on_zombies_Ok:
  "zombies s = Some z \<Longrightarrow> m z = Ok a z' \<Longrightarrow> on_zombies m s = Ok a (s\<lparr>zombies := Some z'\<rparr>)"
  by (simp add: on_zombies_def deref_def)

lemma on_runqueue_Ok:
  "runqueue s = Some q \<Longrightarrow> m q = Ok a q' \<Longrightarrow> on_runqueue m s = Ok a (s\<lparr>runqueue := Some q'\<rparr>)"
  by (simp add: on_runqueue_def deref_def)

lemma assert_spl_ok [simp]: "curspl s > 0 \<Longrightarrow> assert_spl s = Ok () s"
  by (simp add: assert_spl_def)

lemma bind_assert_spl [simp]: "curspl s > 0 \<Longrightarrow> bind assert_spl f s = f () s"
  by (simp add: bind_def)

lemma bind_kmalloc_ok [simp]:
  "bind kmalloc_ok f s = f (kmem s 0) (s\<lparr>kmem := \<lambda>n. kmem s (Suc n)\<rparr>)"
  by (simp add: bind_def kmalloc_ok_def)

lemma t_get_Some [simp]: "threads s t = Some x \<Longrightarrow> t_get t s = Ok x s"
  by (simp add: t_get_def)

lemma bind_t_get [simp]: "threads s t = Some x \<Longrightarrow> bind (t_get t) f s = f x s"
  by (simp add: bind_def)

lemma bind_t_put [simp]:
  "threads s t = Some x \<Longrightarrow> bind (t_put t g) f s = f () (s\<lparr>threads := (threads s)(t \<mapsto> g x)\<rparr>)"
  by (simp add: bind_def t_put_def)

lemma bind_cur [simp]: "curthread s = Some t \<Longrightarrow> bind cur f s = f t s"
  by (simp add: bind_def cur_def)

lemma bind_splx [simp]: "bind (splx n) f s = f (curspl s)
    (s\<lparr>iec := (if n > 0 then False else if n = 0 then True else iec s), curspl := n\<rparr>)"
  by (simp add: bind_def splx_def)

lemma bind_assertk_simp [simp]: "bind (assertk b msg) f s = (if b then f () s else Panic msg)"
  by (simp add: bind_assertk)

text \<open>Bounds on the number of threads that keep every C integer in range.\<close>

abbreviation thread_limit :: nat where "thread_limit \<equiv> 2 ^ 28"

text \<open>\<open>lists_only s s'\<close>: nothing but the run queue, the sleepers and the memory oracle differs.\<close>

definition lists_only :: "tsys \<Rightarrow> tsys \<Rightarrow> bool" where
  "lists_only s s' \<longleftrightarrow> threads s' = threads s \<and> nextid s' = nextid s \<and> curthread s' = curthread s \<and>
     zombies s' = zombies s \<and> numthreads s' = numthreads s \<and> curspl s' = curspl s \<and> iec s' = iec s \<and>
     in_interrupt s' = in_interrupt s \<and> lbolt_counter s' = lbolt_counter s \<and> irqs s' = irqs s \<and>
     vrefs s' = vrefs s \<and> active_as s' = active_as s \<and> dead_as s' = dead_as s"

lemma lists_only_trans: "lists_only s t \<Longrightarrow> lists_only t u \<Longrightarrow> lists_only s u"
  by (simp add: lists_only_def)

lemma lists_only_refl [simp]: "lists_only s s"
  by (simp add: lists_only_def)

lemma make_runnable_ok:
  assumes "runqueue s = Some q" "q_inv q" "curspl s > 0" "length (q_list q) < thread_limit"
    and "kmem s 0 \<or> length (q_list q) < q_cap q"
  obtains s' q' where "make_runnable t s = Ok () s'" "lists_only s s'" "sleepers s' = sleepers s"
    "kmem s' = (\<lambda>n. kmem s (Suc n))" "runqueue s' = Some q'"
    "q_inv q'" "q_list q' = q_list q @ [t]" "q_cap q \<le> q_cap q'"
    "length (q_list q) < q_cap q \<longrightarrow> q_cap q' = q_cap q"
proof -
  have "length (q_list q) + 2 < 2 ^ 29" using assms(4) by simp
  from rq.enqE[OF assms(2,5) this, of t] obtain q' where
    q': "q_addtail (kmem s 0) t q = Ok () q'" "q_inv q'" "q_list q' = q_list q @ [t]" "q_cap q \<le> q_cap q'"
      "length (q_list q) < q_cap q \<longrightarrow> q_cap q' = q_cap q" .
  let ?s = "s\<lparr>kmem := \<lambda>n. kmem s (Suc n)\<rparr>"
  have "on_runqueue (q_addtail (kmem s 0) t) ?s = Ok () (?s\<lparr>runqueue := Some q'\<rparr>)"
    by (rule on_runqueue_Ok[where q = q]) (simp add: assms(1), fact q'(1))
  then show thesis
    using assms(3) q'(2-)
    by (intro that[of "?s\<lparr>runqueue := Some q'\<rparr>" q']) (simp_all add: make_runnable_def lists_only_def)
qed

section \<open>Waking up\<close>

subsection \<open>One round of the loop\<close>

lemma wakeup_loop_end:
  assumes "sleepers s = Some sl" "array_inv sl" "int (length (array_list sl)) \<le> i"
  shows "wakeup_loop b adr k i s = Ok () s"
proof -
  have "on_sleepers (gets array_getnum) s = Ok (array_getnum sl) s"
    by (rule on_sleepers_read[OF assms(1)]) simp
  then show ?thesis
    using assms(2,3) by (cases k) (simp_all add: bind_def arr.getnum)
qed

lemma wakeup_loop_round:
  assumes "sleepers s = Some sl" "array_inv sl" "i < length (array_list sl)"
    and "threads s (array_list sl ! i) = Some x"
  shows "wakeup_loop b adr (Suc k) (int i) s =
    (if t_sleepaddr x = adr then
       bind (on_sleepers (array_remove (int i))) (\<lambda>_.
       bind (must (make_runnable (array_list sl ! i))) (\<lambda>_. wakeup_loop b adr k (int i - b + 1))) s
     else wakeup_loop b adr k (int i + 1) s)"
proof -
  have "on_sleepers (gets array_getnum) s = Ok (array_getnum sl) s"
    by (rule on_sleepers_read[OF assms(1)]) simp
  moreover have "on_sleepers (array_getguy (int i)) s = Ok (array_list sl ! i) s"
    using arr.getguy[OF assms(2), of "int i"] assms(3) by (intro on_sleepers_read[OF assms(1)]) simp
  ultimately show ?thesis
    using assms(2-) by (simp add: bind_def arr.getnum)
qed

declare wakeup_loop.simps [simp del]

lemma wakeup_loop_match:
  assumes "sleepers s = Some sl" "array_inv sl" "i < length (array_list sl)"
    and "threads s (array_list sl ! i) = Some x" "t_sleepaddr x = adr"
    and "runqueue s = Some q" "q_inv q" "curspl s > 0" "length (q_list q) < thread_limit"
    and "kmem s 0 \<or> length (q_list q) < q_cap q"
  obtains s' sl' q' where
    "wakeup_loop b adr (Suc k) (int i) s = wakeup_loop b adr k (int i - b + 1) s'" "lists_only s s'"
    "kmem s' = (\<lambda>n. kmem s (Suc n))" "sleepers s' = Some sl'" "runqueue s' = Some q'"
    "array_inv sl'" "array_list sl' = take i (array_list sl) @ drop (Suc i) (array_list sl)"
    "array_cap sl' = array_cap sl"
    "q_inv q'" "q_list q' = q_list q @ [array_list sl ! i]" "q_cap q \<le> q_cap q'"
proof -
  from arr.removeE[OF assms(2,3)] obtain sl' where sl': "array_remove (int i) sl = Ok () sl'"
    "array_inv sl'" "array_cap sl' = array_cap sl"
    "array_list sl' = take i (array_list sl) @ drop (Suc i) (array_list sl)" .
  let ?s = "s\<lparr>sleepers := Some sl'\<rparr>"
  have "runqueue ?s = Some q" "curspl ?s > 0" "kmem ?s 0 \<or> length (q_list q) < q_cap q"
    using assms(6,8,10) by simp_all
  from make_runnable_ok[OF this(1) assms(7) this(2) assms(9) this(3)] obtain s' q' where
    q': "make_runnable (array_list sl ! i) ?s = Ok () s'" "lists_only ?s s'" "sleepers s' = sleepers ?s"
      "kmem s' = (\<lambda>n. kmem ?s (Suc n))" "runqueue s' = Some q'"
      "q_inv q'" "q_list q' = q_list q @ [array_list sl ! i]" "q_cap q \<le> q_cap q'" .
  have "on_sleepers (array_remove (int i)) s = Ok () ?s"
    by (rule on_sleepers_Ok) (fact assms(1) sl'(1))+
  with assms(5) q'(1)
  have "wakeup_loop b adr (Suc k) (int i) s = wakeup_loop b adr k (int i - b + 1) s'"
    unfolding wakeup_loop_round[OF assms(1-4)] by (simp add: bind_def must_def)
  then show thesis using sl'(2-) q'(2-) by (intro that[of s' sl' q']) (simp_all add: lists_only_def)
qed

subsection \<open>The whole loop\<close>

definition sleeps_on :: "tsys \<Rightarrow> addr \<Rightarrow> tid \<Rightarrow> bool" where
  "sleeps_on s adr t \<longleftrightarrow> t_sleepaddr (the (threads s t)) = adr"

text \<open>Room for \<open>k\<close> more threads on the run queue, or memory to make it.\<close>

definition rq_room :: "tsys \<Rightarrow> nat \<Rightarrow> bool" where
  "rq_room s k \<longleftrightarrow> (\<forall>n. kmem s n) \<or> length (rdy s) + k \<le> q_cap (the (runqueue s))"

definition mem_left :: "tsys \<Rightarrow> tsys \<Rightarrow> bool" where
  "mem_left s s' \<longleftrightarrow> ((\<forall>n. kmem s n) \<longrightarrow> (\<forall>n. kmem s' n))"

lemma mem_left_trans: "mem_left s t \<Longrightarrow> mem_left t u \<Longrightarrow> mem_left s u"
  by (simp add: mem_left_def)

lemma sleeps_on_lists_only: "lists_only s s' \<Longrightarrow> sleeps_on s' adr = sleeps_on s adr"
  by (simp add: lists_only_def sleeps_on_def fun_eq_iff)

text \<open>What the two loops have to do: move \<open>moved\<close> to the run queue and leave \<open>left\<close>.\<close>

definition wake_result :: "tsys \<Rightarrow> tid list \<Rightarrow> tid list \<Rightarrow> tsys \<Rightarrow> bool" where
  "wake_result s moved left s' \<longleftrightarrow> lists_only s s' \<and> mem_left s s' \<and> structs_ok s' \<and>
     slp s' = left \<and> rdy s' = rdy s @ moved \<and>
     array_cap (the (sleepers s')) = array_cap (the (sleepers s)) \<and>
     q_cap (the (runqueue s)) \<le> q_cap (the (runqueue s'))"

lemma structs_okE:
  assumes "structs_ok s"
  obtains sl z q where "sleepers s = Some sl" "array_inv sl" "zombies s = Some z" "array_inv z"
    "runqueue s = Some q" "q_inv q" "slp s = array_list sl" "zmb s = array_list z" "rdy s = q_list q"
  using assms by (auto simp: structs_ok_def slp_def zmb_def rdy_def)

lemma wake_result_step:
  assumes "wake_result s1 m l s2" "lists_only s s1" "mem_left s s1" "rdy s1 = rdy s @ [t]"
    "array_cap (the (sleepers s1)) = array_cap (the (sleepers s))"
    "q_cap (the (runqueue s)) \<le> q_cap (the (runqueue s1))"
  shows "wake_result s (t # m) l s2"
  using assms lists_only_trans[of s s1 s2] mem_left_trans[of s s1 s2] by (simp add: wake_result_def)

text \<open>One matching round, in terms of the lists.\<close>

lemma wakeup_round_match:
  assumes ok: "structs_ok s" and spl: "curspl s > 0" and i: "i < length (slp s)"
    and x: "threads s (slp s ! i) = Some x" "t_sleepaddr x = adr"
    and room: "rq_room s 1" and lim: "length (rdy s) < thread_limit"
  obtains s' where "wakeup_loop b adr (Suc k) (int i) s = wakeup_loop b adr k (int i - b + 1) s'"
    "lists_only s s'" "mem_left s s'" "structs_ok s'" "slp s' = take i (slp s) @ drop (Suc i) (slp s)"
    "rdy s' = rdy s @ [slp s ! i]" "array_cap (the (sleepers s')) = array_cap (the (sleepers s))"
    "q_cap (the (runqueue s)) \<le> q_cap (the (runqueue s'))"
proof -
  from ok obtain sl z q where st: "sleepers s = Some sl" "array_inv sl" "zombies s = Some z" "array_inv z"
    "runqueue s = Some q" "q_inv q" "slp s = array_list sl" "zmb s = array_list z" "rdy s = q_list q"
    by (rule structs_okE)
  have "kmem s 0 \<or> length (q_list q) < q_cap q" using room st by (auto simp: rq_room_def)
  from wakeup_loop_match[OF st(1,2) i[unfolded st(7)] x[unfolded st(7)] st(5,6) spl lim[unfolded st(9)] this]
  obtain s' sl' q' where s':
    "wakeup_loop b adr (Suc k) (int i) s = wakeup_loop b adr k (int i - b + 1) s'" "lists_only s s'"
    "kmem s' = (\<lambda>n. kmem s (Suc n))" "sleepers s' = Some sl'" "runqueue s' = Some q'"
    "array_inv sl'" "array_list sl' = take i (array_list sl) @ drop (Suc i) (array_list sl)"
    "array_cap sl' = array_cap sl"
    "q_inv q'" "q_list q' = q_list q @ [array_list sl ! i]" "q_cap q \<le> q_cap q'" .
  then show thesis
    using st by (intro that[of s'])
      (simp_all add: mem_left_def structs_ok_def lists_only_def slp_def rdy_def)
qed

lemma wakeup_round_skip:
  assumes ok: "structs_ok s" and i: "i < length (slp s)"
    and x: "threads s (slp s ! i) = Some x" "t_sleepaddr x \<noteq> adr"
  shows "wakeup_loop b adr (Suc k) (int i) s = wakeup_loop b adr k (int i + 1) s"
proof -
  from ok obtain sl where "sleepers s = Some sl" "array_inv sl" "slp s = array_list sl"
    by (rule structs_okE)
  with wakeup_loop_round[of s sl i x] i x show ?thesis by simp
qed

lemma wakeup_round_end:
  "structs_ok s \<Longrightarrow> int (length (slp s)) \<le> i \<Longrightarrow> wakeup_loop b adr k i s = Ok () s"
  by (elim structs_okE) (simp add: wakeup_loop_end)

lemma wakeup_all_loop:
  assumes "structs_ok s" "curspl s > 0" "set (slp s) \<subseteq> dom (threads s)"
    and "slp s = pre @ rest" "length rest \<le> k"
    and "rq_room s (length (filter (sleeps_on s adr) rest))"
    and "length (rdy s) + length rest \<le> thread_limit"
  shows "\<exists>s'. wakeup_loop 1 adr k (int (length pre)) s = Ok () s' \<and>
     wake_result s (filter (sleeps_on s adr) rest) (pre @ filter (\<lambda>t. \<not> sleeps_on s adr t) rest) s'"
  using assms
proof (induction rest arbitrary: pre k s)
  case Nil
  then show ?case by (simp add: wakeup_round_end wake_result_def mem_left_def)
next
  case (Cons t rest)
  then obtain k' where k: "k = Suc k'" by (cases k) auto
  have i: "length pre < length (slp s)" and t: "slp s ! length pre = t" using Cons.prems(4) by auto
  obtain x where x: "threads s t = Some x" using Cons.prems(3,4) by auto
  show ?case
  proof (cases "t_sleepaddr x = adr")
    case True
    then have on: "sleeps_on s adr t" by (simp add: sleeps_on_def x)
    have "rq_room s 1" "length (rdy s) < thread_limit"
      using Cons.prems(6,7) on by (auto simp: rq_room_def)
    from wakeup_round_match[OF Cons.prems(1,2) i x[folded t] True this, where b = 1 and k = k']
    obtain s1 where s1: "wakeup_loop 1 adr k (int (length pre)) s = wakeup_loop 1 adr k' (int (length pre)) s1"
      "lists_only s s1" "mem_left s s1" "structs_ok s1" "slp s1 = pre @ rest" "rdy s1 = rdy s @ [t]"
      "array_cap (the (sleepers s1)) = array_cap (the (sleepers s))"
      "q_cap (the (runqueue s)) \<le> q_cap (the (runqueue s1))"
      using Cons.prems(4) by (auto simp: k)
    have on1: "sleeps_on s1 adr = sleeps_on s adr" using s1(2) by (rule sleeps_on_lists_only)
    have "rq_room s1 (length (filter (sleeps_on s1 adr) rest))"
      using Cons.prems(6) on s1(3,6,8) by (auto simp: rq_room_def mem_left_def on1)
    moreover have "curspl s1 > 0" "set (slp s1) \<subseteq> dom (threads s1)"
      using Cons.prems(2-4) s1(2,5) by (auto simp: lists_only_def)
    moreover have "length rest \<le> k'" "length (rdy s1) + length rest \<le> thread_limit"
      using Cons.prems(5,7) s1(6) k by auto
    ultimately obtain s2 where "wakeup_loop 1 adr k' (int (length pre)) s1 = Ok () s2"
        "wake_result s1 (filter (sleeps_on s adr) rest) (pre @ filter (\<lambda>t. \<not> sleeps_on s adr t) rest) s2"
      using Cons.IH[OF s1(4) _ _ s1(5)] unfolding on1 by blast
    then show ?thesis using s1 on wake_result_step[of s1 _ _ s2 s t] by auto
  next
    case False
    then have on: "\<not> sleeps_on s adr t" by (simp add: sleeps_on_def x)
    have "wakeup_loop 1 adr k (int (length pre)) s = wakeup_loop 1 adr k' (int (length (pre @ [t]))) s"
      using wakeup_round_skip[OF Cons.prems(1) i x[folded t] False] by (simp add: k add.commute)
    with Cons.IH[OF Cons.prems(1-3), of "pre @ [t]" k'] Cons.prems(4-) on k show ?thesis by simp
  qed
qed

text \<open>
  Without the \<open>i--\<close> the loop passes over the sleeper that moves into the place of a removed one:
  \<open>wake_skip\<close> lists the threads it wakes and the ones it leaves.
\<close>

fun wake_skip :: "('a \<Rightarrow> bool) \<Rightarrow> 'a list \<Rightarrow> 'a list \<times> 'a list" where
  "wake_skip P [] = ([], [])"
| "wake_skip P [x] = (if P x then ([x], []) else ([], [x]))"
| "wake_skip P (x # y # xs) =
     (if P x then (case wake_skip P xs of (m, l) \<Rightarrow> (x # m, y # l))
      else (case wake_skip P (y # xs) of (m, l) \<Rightarrow> (m, x # l)))"

lemma wake_skip_length: "length (fst (wake_skip P xs)) \<le> length xs"
  by (induction P xs rule: wake_skip.induct) (auto split: prod.splits)

lemma wakeup_one_loop:
  assumes "structs_ok s" "curspl s > 0" "set (slp s) \<subseteq> dom (threads s)"
    and "slp s = pre @ rest" "length rest \<le> k"
    and "rq_room s (length (fst (wake_skip (sleeps_on s adr) rest)))"
    and "length (rdy s) + length rest \<le> thread_limit"
  shows "\<exists>s'. wakeup_loop 0 adr k (int (length pre)) s = Ok () s' \<and>
     wake_result s (fst (wake_skip (sleeps_on s adr) rest)) (pre @ snd (wake_skip (sleeps_on s adr) rest)) s'"
  using assms
proof (induction "length rest" arbitrary: pre rest k s rule: less_induct)
  case less
  show ?case
  proof (cases rest)
    case Nil
    with less.prems show ?thesis by (simp add: wakeup_round_end wake_result_def mem_left_def)
  next
    case (Cons t rest')
    with less.prems(5) obtain k' where k: "k = Suc k'" by (cases k) auto
    have i: "length pre < length (slp s)" and t: "slp s ! length pre = t" using less.prems(4) Cons by auto
    obtain x where x: "threads s t = Some x" using less.prems(3,4) Cons by auto
    show ?thesis
    proof (cases "t_sleepaddr x = adr")
      case False
      then have on: "\<not> sleeps_on s adr t" by (simp add: sleeps_on_def x)
      have sk: "wake_skip (sleeps_on s adr) rest
          = (fst (wake_skip (sleeps_on s adr) rest'), t # snd (wake_skip (sleeps_on s adr) rest'))"
        using on Cons by (cases rest') (auto split: prod.splits)
      have "wakeup_loop 0 adr k (int (length pre)) s = wakeup_loop 0 adr k' (int (length (pre @ [t]))) s"
        using wakeup_round_skip[OF less.prems(1) i x[folded t] False] by (simp add: k add.commute)
      with less.hyps[OF _ less.prems(1-3), of rest' "pre @ [t]" k'] less.prems(4-) sk Cons k
      show ?thesis by simp
    next
      case True
      then have on: "sleeps_on s adr t" by (simp add: sleeps_on_def x)
      define m l where "m = fst (wake_skip (sleeps_on s adr) (tl rest'))"
        and "l = snd (wake_skip (sleeps_on s adr) (tl rest'))"
      have sk: "wake_skip (sleeps_on s adr) rest = (t # m, take 1 rest' @ l)"
        using on Cons by (cases rest') (auto split: prod.splits simp: m_def l_def)
      have "rq_room s 1" "length (rdy s) < thread_limit"
        using less.prems(6,7) sk Cons by (auto simp: rq_room_def)
      from wakeup_round_match[OF less.prems(1,2) i x[folded t] True this, where b = 0 and k = k']
      obtain s1 where s1: "wakeup_loop 0 adr k (int (length pre)) s = wakeup_loop 0 adr k' (int (length pre) + 1) s1"
        "lists_only s s1" "mem_left s s1" "structs_ok s1" "slp s1 = pre @ rest'" "rdy s1 = rdy s @ [t]"
        "array_cap (the (sleepers s1)) = array_cap (the (sleepers s))"
        "q_cap (the (runqueue s)) \<le> q_cap (the (runqueue s1))"
        using less.prems(4) Cons by (auto simp: k)
      have on1: "sleeps_on s1 adr = sleeps_on s adr" using s1(2) by (rule sleeps_on_lists_only)
      have "\<exists>s2. wakeup_loop 0 adr k' (int (length pre) + 1) s1 = Ok () s2 \<and>
          wake_result s1 m (pre @ take 1 rest' @ l) s2"
      proof (cases rest')
        case Nil
        then show ?thesis using s1(4,5) by (simp add: wakeup_round_end wake_result_def mem_left_def m_def l_def)
      next
        case (Cons u us)
        have "rq_room s1 (length (fst (wake_skip (sleeps_on s1 adr) us)))"
          using less.prems(6) sk s1(3,6,8) by (auto simp: rq_room_def mem_left_def on1 Cons m_def)
        moreover have "curspl s1 > 0" "set (slp s1) \<subseteq> dom (threads s1)"
          using less.prems(2-4) s1(2,5) \<open>rest = t # rest'\<close> by (auto simp: lists_only_def)
        moreover have "length us \<le> k'" "length (rdy s1) + length us \<le> thread_limit" "length us < length rest"
          using less.prems(5,7) s1(6) k Cons \<open>rest = t # rest'\<close> by auto
        ultimately show ?thesis
          using less.hyps[OF _ s1(4), of us "pre @ [u]" k'] s1(5) Cons
          by (simp add: on1 m_def l_def add.commute)
      qed
      then show ?thesis using s1 sk wake_result_step[of s1 m "pre @ take 1 rest' @ l" _ s t] by auto
    qed
  qed
qed

lemma thread_wakeup_ok:
  assumes "structs_ok s" "curspl s > 0" "set (slp s) \<subseteq> dom (threads s)"
    and "rq_room s (length (filter (sleeps_on s adr) (slp s)))"
    and "length (rdy s) + length (slp s) \<le> thread_limit"
  obtains s' where "thread_wakeup adr s = Ok () s'"
    "wake_result s (filter (sleeps_on s adr) (slp s)) (filter (\<lambda>t. \<not> sleeps_on s adr t) (slp s)) s'"
proof -
  from assms(1) obtain sl where sl: "sleepers s = Some sl" "array_inv sl" "slp s = array_list sl"
    by (rule structs_okE)
  have "on_sleepers (gets array_getnum) s = Ok (array_getnum sl) s"
    by (rule on_sleepers_read[OF sl(1)]) simp
  then have "thread_wakeup adr s = wakeup_loop 1 adr (length (slp s)) 0 s"
    using assms(2) sl(2,3) by (simp add: thread_wakeup_def bind_def arr.getnum)
  with wakeup_all_loop[OF assms(1-3), of "[]" "slp s" "length (slp s)" adr] assms(4,5) that
  show thesis by auto
qed

lemma thread_wakeup_one_ok:
  assumes "structs_ok s" "curspl s > 0" "set (slp s) \<subseteq> dom (threads s)"
    and "rq_room s (length (fst (wake_skip (sleeps_on s adr) (slp s))))"
    and "length (rdy s) + length (slp s) \<le> thread_limit"
  obtains s' where "thread_wakeup_one adr s = Ok () s'"
    "wake_result s (fst (wake_skip (sleeps_on s adr) (slp s))) (snd (wake_skip (sleeps_on s adr) (slp s))) s'"
proof -
  from assms(1) obtain sl where sl: "sleepers s = Some sl" "array_inv sl" "slp s = array_list sl"
    by (rule structs_okE)
  have "on_sleepers (gets array_getnum) s = Ok (array_getnum sl) s"
    by (rule on_sleepers_read[OF sl(1)]) simp
  then have "thread_wakeup_one adr s = wakeup_loop 0 adr (length (slp s)) 0 s"
    using assms(2) sl(2,3) by (simp add: thread_wakeup_one_def bind_def arr.getnum)
  with wakeup_one_loop[OF assms(1-3), of "[]" "slp s" "length (slp s)" adr] assms(4,5) that
  show thesis by auto
qed

section \<open>The idle loop\<close>

text \<open>
  \<open>idle_rel s s'\<close>: sleepers have moved to the run queue, interrupts have been taken, and nothing
  else that matters to a thread has changed.
\<close>

definition idle_rel :: "tsys \<Rightarrow> tsys \<Rightarrow> bool" where
  "idle_rel s s' \<longleftrightarrow> threads s' = threads s \<and> nextid s' = nextid s \<and> curthread s' = curthread s \<and>
     zombies s' = zombies s \<and> numthreads s' = numthreads s \<and> curspl s' = curspl s \<and>
     vrefs s' = vrefs s \<and> active_as s' = active_as s \<and> dead_as s' = dead_as s \<and>
     mem_left s s' \<and> structs_ok s' \<and>
     (\<exists>m. rdy s' = rdy s @ m \<and> mset (m @ slp s') = mset (slp s)) \<and>
     array_cap (the (sleepers s')) = array_cap (the (sleepers s)) \<and>
     q_cap (the (runqueue s)) \<le> q_cap (the (runqueue s'))"

lemma idle_rel_refl: "structs_ok s \<Longrightarrow> idle_rel s s"
  by (simp add: idle_rel_def mem_left_def)

lemma idle_rel_trans:
  assumes "idle_rel s t" "idle_rel t u"
  shows "idle_rel s u"
proof -
  obtain m n where "rdy t = rdy s @ m" "mset (m @ slp t) = mset (slp s)"
    "rdy u = rdy t @ n" "mset (n @ slp u) = mset (slp t)"
    using assms unfolding idle_rel_def by blast
  then have "rdy u = rdy s @ (m @ n)" "mset ((m @ n) @ slp u) = mset (slp s)" by (simp_all add: add.assoc)
  then have "\<exists>k. rdy u = rdy s @ k \<and> mset (k @ slp u) = mset (slp s)" by blast
  then show ?thesis
    using assms mem_left_trans[of s t u] by (simp add: idle_rel_def del: mset_append)
qed

lemma mset_filter_split: "mset (filter P xs @ filter (\<lambda>x. \<not> P x) xs) = mset xs"
  by (induction xs) auto

lemma wake_skip_mset: "mset (fst (wake_skip P xs) @ snd (wake_skip P xs)) = mset xs"
  by (induction P xs rule: wake_skip.induct) (auto split: prod.splits)

lemma wake_result_idle:
  assumes "wake_result s m l s'" "mset (m @ l) = mset (slp s)"
  shows "idle_rel s s'"
  using assms by (auto simp: wake_result_def idle_rel_def lists_only_def)

text \<open>What the idle loop needs: room on the run queue for every sleeper.\<close>

definition idle_ok :: "tsys \<Rightarrow> bool" where
  "idle_ok s \<longleftrightarrow> structs_ok s \<and> curspl s > 0 \<and> set (slp s) \<subseteq> dom (threads s) \<and> rq_room s (length (slp s)) \<and>
     length (rdy s) + length (slp s) \<le> thread_limit"

lemma idle_rel_ok:
  assumes "idle_ok s" "idle_rel s s'"
  shows "idle_ok s'"
proof -
  obtain m where m: "rdy s' = rdy s @ m" "mset (m @ slp s') = mset (slp s)"
    using assms(2) unfolding idle_rel_def by blast
  then have "length (m @ slp s') = length (slp s)" "set (m @ slp s') = set (slp s)"
    using mset_eq_length mset_eq_setD by blast+
  then show ?thesis
    using assms m(1) unfolding idle_ok_def idle_rel_def rq_room_def mem_left_def by auto
qed

lemma rq_room_mono: "rq_room s k \<Longrightarrow> j \<le> k \<Longrightarrow> rq_room s j"
  by (auto simp: rq_room_def)

lemma thread_wakeup_idle:
  assumes "idle_ok s"
  obtains s' where "thread_wakeup adr s = Ok () s'" "idle_rel s s'" "irqs s' = irqs s"
    "rdy s' = rdy s @ filter (sleeps_on s adr) (slp s)" "lists_only s s'"
proof -
  have "rq_room s (length (filter (sleeps_on s adr) (slp s)))"
    using assms by (auto simp: idle_ok_def intro: rq_room_mono)
  with assms obtain s' where s': "thread_wakeup adr s = Ok () s'"
    "wake_result s (filter (sleeps_on s adr) (slp s)) (filter (\<lambda>t. \<not> sleeps_on s adr t) (slp s)) s'"
    using thread_wakeup_ok[of s adr] unfolding idle_ok_def by blast
  then show thesis
    using wake_result_idle[OF s'(2) mset_filter_split]
    by (intro that[of s']) (simp_all add: wake_result_def lists_only_def)
qed

lemma idle_ok_cong:
  "idle_ok s \<Longrightarrow> threads s' = threads s \<Longrightarrow> sleepers s' = sleepers s \<Longrightarrow> runqueue s' = runqueue s \<Longrightarrow>
   zombies s' = zombies s \<Longrightarrow> curspl s' = curspl s \<Longrightarrow> kmem s' = kmem s \<Longrightarrow> idle_ok s'"
  by (simp add: idle_ok_def structs_ok_def slp_def rdy_def rq_room_def)

lemma idle_rel_upd:
  assumes "structs_ok s"
  shows "idle_rel s (s\<lparr>irqs := is\<rparr>)" "idle_rel s (s\<lparr>in_interrupt := i\<rparr>)"
    "idle_rel s (s\<lparr>lbolt_counter := c\<rparr>)" "idle_rel s (s\<lparr>iec := e\<rparr>)"
  using assms
  by (simp_all add: idle_rel_def mem_left_def structs_ok_def rdy_def slp_def)

lemma idle_rel_okI: "idle_ok s \<Longrightarrow> idle_rel s s' \<Longrightarrow> structs_ok s' \<and> idle_ok s'"
  using idle_rel_ok by (auto simp: idle_rel_def)

lemma yield_idle_ok:
  assumes "idle_ok s"
  obtains s' where "yield_idle s = Ok () s'" "idle_rel s s'" "irqs s' = irqs s" "in_interrupt s' = in_interrupt s"
proof -
  from assms have "sleepers s \<noteq> None" "curspl s > 0" "structs_ok s"
    by (auto simp: idle_ok_def structs_ok_def)
  then show thesis
    using idle_rel_upd(4)[of s False]
    by (intro that[of "s\<lparr>iec := False\<rparr>"]) (simp_all add: yield_idle_def splhigh_def SPL_HIGH_def)
qed

lemma hardclock_idle_ok:
  assumes "idle_ok s"
  obtains s' where "hardclock_with yield_idle s = Ok () s'" "idle_rel s s'" "irqs s' = irqs s"
    "in_interrupt s' = in_interrupt s"
proof -
  have st: "structs_ok s" using assms by (simp add: idle_ok_def)
  let ?c = "lbolt_counter s + 1"
  show thesis
  proof (cases "?c \<ge> HZ")
    case False
    let ?s = "s\<lparr>lbolt_counter := ?c\<rparr>"
    have r: "idle_rel s ?s" by (rule idle_rel_upd[OF st])
    from idle_rel_ok[OF assms r] obtain s' where "yield_idle ?s = Ok () s'" "idle_rel ?s s'"
      "irqs s' = irqs ?s" "in_interrupt s' = in_interrupt ?s" by (rule yield_idle_ok)
    with False idle_rel_trans[OF r] show thesis by (intro that[of s']) (simp_all add: hardclock_with_def)
  next
    case True
    let ?s = "s\<lparr>lbolt_counter := 0\<rparr>"
    have r: "idle_rel s ?s" by (rule idle_rel_upd[OF st])
    from idle_rel_ok[OF assms r] obtain s1 where s1: "thread_wakeup lbolt_addr ?s = Ok () s1" "idle_rel ?s s1"
      "irqs s1 = irqs ?s" "lists_only ?s s1" by (rule thread_wakeup_idle)
    from idle_rel_ok[OF idle_rel_ok[OF assms r] s1(2)] obtain s' where "yield_idle s1 = Ok () s'" "idle_rel s1 s'"
      "irqs s' = irqs s1" "in_interrupt s' = in_interrupt s1" by (rule yield_idle_ok)
    with True s1 idle_rel_trans[OF idle_rel_trans[OF r s1(2)]] show thesis
      by (intro that[of s']) (simp_all add: hardclock_with_def bind_def lists_only_def)
  qed
qed

text \<open>One round of the idle loop takes one interrupt; a device interrupt wakes its sleepers.\<close>

lemma cpu_idle_ok:
  assumes "idle_ok s" "irqs s = i # is"
  obtains s' where "cpu_idle s = Ok () s'" "idle_rel s s'" "irqs s' = is" "in_interrupt s' = in_interrupt s"
    "\<And>adr. i = Device adr \<Longrightarrow> rdy s' = rdy s @ filter (sleeps_on s adr) (slp s)"
proof -
  have st: "structs_ok s" and spl: "curspl s > 0" using assms by (simp_all add: idle_ok_def)
  let ?s = "s\<lparr>irqs := is, in_interrupt := True\<rparr>"
  have "structs_ok (s\<lparr>irqs := is\<rparr>)" using st by (simp add: structs_ok_def)
  then have r: "idle_rel s ?s" using idle_rel_trans[OF idle_rel_upd(1)[OF st] idle_rel_upd(2)] by blast
  note ok = idle_rel_ok[OF assms(1) r]
  define handler where "handler = (case i of Timer \<Rightarrow> hardclock_with yield_idle | Device adr \<Rightarrow> thread_wakeup adr)"
  obtain s1 where s1: "handler ?s = Ok () s1" "idle_rel ?s s1" "irqs s1 = is"
    "\<And>adr. i = Device adr \<Longrightarrow> rdy s1 = rdy s @ filter (sleeps_on s adr) (slp s)"
  proof (cases i)
    case Timer
    with hardclock_idle_ok[OF ok] that show thesis unfolding handler_def by fastforce
  next
    case (Device adr)
    with thread_wakeup_idle[OF ok, of adr] that show thesis
      unfolding handler_def by (fastforce simp: rdy_def slp_def sleeps_on_def[abs_def])
  qed
  have "cpu_idle s = Ok () (s1\<lparr>in_interrupt := in_interrupt s\<rparr>)"
    using spl assms(2) s1(1) by (cases i) (simp_all add: cpu_idle_def mips_interrupt_def bind_def handler_def)
  moreover have "idle_rel s (s1\<lparr>in_interrupt := in_interrupt s\<rparr>)"
    using idle_rel_trans[OF idle_rel_trans[OF r s1(2)] idle_rel_upd(2)] s1(2) by (simp add: idle_rel_def)
  ultimately show thesis
    using s1(3,4) by (intro that[of "s1\<lparr>in_interrupt := in_interrupt s\<rparr>"]) (simp_all add: rdy_def)
qed

section \<open>The scheduler\<close>

text \<open>
  The scheduler gets out of its idle loop: some interrupt to come makes a thread ready, or one is
  ready already.
\<close>

definition can_proceed :: "tsys \<Rightarrow> bool" where
  "can_proceed s \<longleftrightarrow> (\<exists>s'. scheduler_loop (length (irqs s)) s = Ok () s')"

text \<open>
  A sufficient condition: one of the coming device interrupts is for an address somebody sleeps on.
\<close>

definition wakeup_due :: "tsys \<Rightarrow> bool" where
  "wakeup_due s \<longleftrightarrow> rdy s \<noteq> [] \<or> (\<exists>adr. Device adr \<in> set (irqs s) \<and> (\<exists>t \<in> set (slp s). sleeps_on s adr t))"

lemma runqueue_empty:
  assumes "structs_ok s"
  shows "on_runqueue (gets q_empty) s = Ok (rdy s = []) s"
proof -
  from assms obtain q where q: "runqueue s = Some q" "q_inv q" "rdy s = q_list q"
    by (rule structs_okE)
  then show ?thesis by (intro on_runqueue_read[OF q(1)]) (simp add: rq.isempty)
qed

lemma scheduler_loop_Suc:
  assumes "idle_ok s" "rdy s = []" "k < length (irqs s)"
  obtains s1 where "scheduler_loop (Suc k) s = scheduler_loop k s1" "idle_rel s s1" "irqs s1 = tl (irqs s)"
    "in_interrupt s1 = in_interrupt s"
    "\<And>adr. hd (irqs s) = Device adr \<Longrightarrow> rdy s1 = filter (sleeps_on s adr) (slp s)"
proof -
  have st: "structs_ok s" using assms(1) by (simp add: idle_ok_def)
  obtain i "is" where irq: "irqs s = i # is" using assms(3) by (cases "irqs s") auto
  obtain s1 where "cpu_idle s = Ok () s1" "idle_rel s s1" "irqs s1 = is" "in_interrupt s1 = in_interrupt s"
    "\<And>adr. i = Device adr \<Longrightarrow> rdy s1 = rdy s @ filter (sleeps_on s adr) (slp s)"
    using cpu_idle_ok[OF assms(1) irq] by blast
  with irq assms(2) show thesis
    by (intro that[of s1]) (simp_all add: bind_def runqueue_empty[OF st])
qed

lemma scheduler_loop_ready:
  "structs_ok s \<Longrightarrow> rdy s \<noteq> [] \<Longrightarrow> scheduler_loop k s = Ok () s"
  by (cases k) (simp_all add: bind_def runqueue_empty)

text \<open>Leaving the loop: a thread is ready, and nothing else has happened.\<close>

lemma scheduler_loop_ok:
  assumes "idle_ok s" "k \<le> length (irqs s)" "scheduler_loop k s = Ok () s'"
  shows "idle_rel s s' \<and> rdy s' \<noteq> [] \<and> in_interrupt s' = in_interrupt s \<and> (rdy s \<noteq> [] \<longrightarrow> s' = s)"
  using assms
proof (induction k arbitrary: s)
  case 0
  then have "structs_ok s" by (simp add: idle_ok_def)
  with 0 show ?case by (cases "rdy s = []") (auto simp: bind_def runqueue_empty idle_rel_refl)
next
  case (Suc k)
  then have st: "structs_ok s" by (simp add: idle_ok_def)
  show ?case
  proof (cases "rdy s = []")
    case False
    then have "s' = s" using Suc.prems(3) scheduler_loop_ready[OF st False, of "Suc k"] by simp
    with False show ?thesis by (simp add: idle_rel_refl[OF st])
  next
    case True
    from Suc.prems(2) have "k < length (irqs s)" by simp
    from scheduler_loop_Suc[OF Suc.prems(1) True this] obtain s1 where
      s1: "scheduler_loop (Suc k) s = scheduler_loop k s1" "idle_rel s s1" "irqs s1 = tl (irqs s)"
        "in_interrupt s1 = in_interrupt s" by blast
    have "idle_rel s1 s' \<and> rdy s' \<noteq> [] \<and> in_interrupt s' = in_interrupt s1"
      using Suc.IH[OF idle_rel_ok[OF Suc.prems(1) s1(2)]] Suc.prems(2,3) s1(1,3) by simp
    with True s1(2,4) idle_rel_trans show ?thesis by auto
  qed
qed

lemma scheduler_loop_no_err: "scheduler_loop k s \<noteq> Err e s'" if "idle_ok s" "k \<le> length (irqs s)" for k s
  using that
proof (induction k arbitrary: s)
  case 0
  then have "structs_ok s" by (simp add: idle_ok_def)
  then show ?case by (simp add: bind_def runqueue_empty)
next
  case (Suc k)
  then have st: "structs_ok s" by (simp add: idle_ok_def)
  show ?case
  proof (cases "rdy s = []")
    case False
    then show ?thesis using scheduler_loop_ready[OF st False, of "Suc k"] by simp
  next
    case True
    from Suc.prems(2) have "k < length (irqs s)" by simp
    from scheduler_loop_Suc[OF Suc.prems(1) True this] obtain s1 where
      "scheduler_loop (Suc k) s = scheduler_loop k s1" "idle_rel s s1" "irqs s1 = tl (irqs s)" by blast
    with Suc.IH[OF idle_rel_ok[OF Suc.prems(1)], of s1] Suc.prems(2) show ?thesis by simp
  qed
qed

lemma wakeup_due_proceeds:
  assumes "idle_ok s" "wakeup_due s"
  shows "can_proceed s"
proof -
  have "\<exists>s'. scheduler_loop k s = Ok () s'" if "idle_ok s" "wakeup_due s" "k = length (irqs s)" for k
    using that
  proof (induction k arbitrary: s)
    case 0
    then have "rdy s \<noteq> []" "structs_ok s" by (simp_all add: wakeup_due_def idle_ok_def)
    then show ?case using scheduler_loop_ready by blast
  next
    case (Suc k)
    have st: "structs_ok s" using Suc.prems(1) by (simp add: idle_ok_def)
    show ?case
    proof (cases "rdy s = []")
      case False
      then show ?thesis using scheduler_loop_ready[OF st] by blast
    next
      case True
      from Suc.prems(3) have "k < length (irqs s)" by simp
      from scheduler_loop_Suc[OF Suc.prems(1) True this] obtain s1 where
        s1: "scheduler_loop (Suc k) s = scheduler_loop k s1" "idle_rel s s1" "irqs s1 = tl (irqs s)"
          "\<And>adr. hd (irqs s) = Device adr \<Longrightarrow> rdy s1 = filter (sleeps_on s adr) (slp s)" by blast
      have "wakeup_due s1"
      proof (cases "rdy s1 = []")
        case r1: True
        obtain adr t where a: "Device adr \<in> set (irqs s)" "t \<in> set (slp s)" "sleeps_on s adr t"
          using Suc.prems(2) True by (auto simp: wakeup_due_def)
        have "filter (sleeps_on s adr) (slp s) \<noteq> []" using a(2,3) by (auto simp: filter_empty_conv)
        then have "hd (irqs s) \<noteq> Device adr" using s1(4)[of adr] r1 by auto
        then have "Device adr \<in> set (irqs s1)" using a(1) s1(3) by (cases "irqs s") auto
        moreover have "mset (slp s1) = mset (slp s)" using s1(2) r1 by (auto simp: idle_rel_def)
        then have "t \<in> set (slp s1)" using a(2) mset_eq_setD by blast
        moreover have "sleeps_on s1 adr t" using a(3) s1(2) by (simp add: sleeps_on_def idle_rel_def)
        ultimately show ?thesis by (auto simp: wakeup_due_def)
      qed (simp add: wakeup_due_def)
      moreover have "k = length (irqs s1)" using Suc.prems(3) s1(3) by simp
      ultimately show ?thesis
        unfolding s1(1) by (intro Suc.IH[OF idle_rel_ok[OF Suc.prems(1) s1(2)]])
    qed
  qed
  with assms show ?thesis by (simp add: can_proceed_def)
qed

lemma scheduler_ok:
  assumes "idle_ok s" "can_proceed s"
  obtains n s1 s' where "scheduler s = Ok n s'" "idle_rel s s1" "rdy s1 = n # rdy s'"
    "in_interrupt s1 = in_interrupt s" "rdy s \<noteq> [] \<longrightarrow> s1 = s"
    "s' = s1\<lparr>runqueue := runqueue s'\<rparr>" "structs_ok s'"
    "q_cap (the (runqueue s')) = q_cap (the (runqueue s1))"
proof -
  obtain s1 where s1: "scheduler_loop (length (irqs s)) s = Ok () s1" "idle_rel s s1" "rdy s1 \<noteq> []"
    "in_interrupt s1 = in_interrupt s" "rdy s \<noteq> [] \<longrightarrow> s1 = s"
    using scheduler_loop_ok[OF assms(1) order_refl] assms(2) unfolding can_proceed_def by blast
  have "structs_ok s1" using s1(2) by (simp add: idle_rel_def)
  then obtain sl z q where st: "sleepers s1 = Some sl" "array_inv sl" "zombies s1 = Some z" "array_inv z"
    "runqueue s1 = Some q" "q_inv q" "slp s1 = array_list sl" "zmb s1 = array_list z" "rdy s1 = q_list q"
    by (rule structs_okE)
  from rq.deqE[OF st(6) s1(3)[unfolded st(9)]] obtain q' where q': "q_remhead q = Ok (hd (q_list q)) q'"
    "q_inv q'" "q_list q' = tl (q_list q)" "q_cap q' = q_cap q" .
  have "scheduler s = Ok (hd (rdy s1)) (s1\<lparr>runqueue := Some q'\<rparr>)"
    using assms(1) s1(1) on_runqueue_Ok[where m = q_remhead, OF st(5) q'(1)] st(9)
    by (simp add: scheduler_def bind_def idle_ok_def)
  then show thesis
    using s1(2-) st q' by (intro that[of "hd (rdy s1)" "s1\<lparr>runqueue := Some q'\<rparr>" s1])
      (simp_all add: rdy_def structs_ok_def)
qed

lemma scheduler_stuck:
  assumes "idle_ok s" "\<not> can_proceed s"
  shows "\<exists>p. scheduler s = Panic p"
proof -
  have "\<exists>p. scheduler_loop (length (irqs s)) s = Panic p"
    using scheduler_loop_no_err[OF assms(1) order_refl] assms(2) unfolding can_proceed_def
    by (cases "scheduler_loop (length (irqs s)) s") auto
  with assms(1) show ?thesis by (auto simp: scheduler_def bind_def idle_ok_def)
qed

section \<open>Disposing of zombies\<close>

lemma thread_destroy_ok:
  assumes "threads s z = Some x" "t_vmspace x = None" "t_cwd x = None" "curthread s \<noteq> Some z"
  shows "thread_destroy z s = Ok () (s\<lparr>threads := (threads s)(z := None)\<rparr>)"
  using assms by (simp add: thread_destroy_def)

text \<open>The body of the loop of \<open>exorcise\<close>.\<close>

definition exorcise_one :: "nat \<Rightarrow> (unit, tsys) kmon" where
  "exorcise_one i = bind (on_zombies (array_getguy (int i))) (\<lambda>z.
     bind (gets curthread) (\<lambda>c. bind (assertk (c \<noteq> Some z) ''z!=curthread'') (\<lambda>_. thread_destroy z)))"

lemma exorcise_alt:
  "exorcise = bind assert_spl (\<lambda>_. bind (on_zombies (gets array_getnum)) (\<lambda>n.
     bind (foreach [0..<nat n] exorcise_one) (\<lambda>_.
     bind kmalloc_ok (\<lambda>ok. must (on_zombies (array_setsize ok 0))))))"
  by (simp add: exorcise_def exorcise_one_def[abs_def])

lemma exorcise_loop:
  assumes "zombies s = Some z" "array_inv z" "i \<le> length (array_list z)"
    and "\<forall>t \<in> set (drop i (array_list z)). curthread s \<noteq> Some t \<and>
           (\<exists>x. threads s t = Some x \<and> t_vmspace x = None \<and> t_cwd x = None)"
    and "distinct (drop i (array_list z))"
  shows "foreach [i..<length (array_list z)] exorcise_one s
       = Ok () (s\<lparr>threads := (\<lambda>t. if t \<in> set (drop i (array_list z)) then None else threads s t)\<rparr>)"
  using assms
proof (induction "length (array_list z) - i" arbitrary: i s)
  case 0
  then show ?case by simp
next
  case (Suc n)
  then have i: "i < length (array_list z)" by simp
  let ?t = "array_list z ! i"
  have up: "[i..<length (array_list z)] = i # [Suc i..<length (array_list z)]" using i by (rule upt_conv_Cons)
  have dr: "drop i (array_list z) = ?t # drop (Suc i) (array_list z)" using i by (simp add: Cons_nth_drop_Suc)
  have get: "on_zombies (array_getguy (int i)) s = Ok ?t s"
    using arr.getguy[OF Suc.prems(2), of "int i"] i by (intro on_zombies_read[OF Suc.prems(1)]) simp
  from Suc.prems(4) dr obtain x where x: "threads s ?t = Some x" "t_vmspace x = None" "t_cwd x = None"
      "curthread s \<noteq> Some ?t" by auto
  let ?s = "s\<lparr>threads := (threads s)(?t := None)\<rparr>"
  have one: "exorcise_one i s = Ok () ?s"
    using get x thread_destroy_ok[OF x] by (simp add: exorcise_one_def bind_def assertk_def)
  have "n = length (array_list z) - Suc i" using Suc.hyps(2) by simp
  moreover have "\<forall>t \<in> set (drop (Suc i) (array_list z)). curthread ?s \<noteq> Some t \<and>
           (\<exists>x. threads ?s t = Some x \<and> t_vmspace x = None \<and> t_cwd x = None)"
    using Suc.prems(4,5) unfolding dr by auto
  ultimately have "foreach [Suc i..<length (array_list z)] exorcise_one ?s
       = Ok () (?s\<lparr>threads := (\<lambda>t. if t \<in> set (drop (Suc i) (array_list z)) then None else threads ?s t)\<rparr>)"
    using Suc.prems i unfolding dr by (intro Suc.hyps(1)) auto
  moreover have "(\<lambda>t. if t \<in> set (drop (Suc i) (array_list z)) then None else threads ?s t)
      = (\<lambda>t. if t \<in> set (?t # drop (Suc i) (array_list z)) then None else threads s t)"
    by (auto simp: fun_eq_iff)
  ultimately show ?case unfolding up dr by (simp add: bind_def one)
qed

text \<open>\<open>exorcise\<close> frees exactly the zombies, and empties the array that held them.\<close>

lemma exorcise_ok:
  assumes "structs_ok s" "curspl s > 0" "distinct (zmb s)"
    and "\<forall>t \<in> set (zmb s). curthread s \<noteq> Some t \<and>
           (\<exists>x. threads s t = Some x \<and> t_vmspace x = None \<and> t_cwd x = None)"
  obtains z' where "exorcise s = Ok () (s\<lparr>threads := (\<lambda>t. if t \<in> set (zmb s) then None else threads s t),
      kmem := (\<lambda>n. kmem s (Suc n)), zombies := Some z'\<rparr>)"
    "array_inv z'" "array_list z' = []"
    "array_cap z' = (if array_cap (the (zombies s)) > 16 then 0 else array_cap (the (zombies s)))"
proof -
  from assms(1) obtain z where z: "zombies s = Some z" "array_inv z" "zmb s = array_list z"
    by (rule structs_okE)
  let ?s = "s\<lparr>threads := (\<lambda>t. if t \<in> set (zmb s) then None else threads s t)\<rparr>"
  have get: "on_zombies (gets array_getnum) s = Ok (int (length (array_list z))) s"
    using z by (intro on_zombies_read[OF z(1)]) (simp add: arr.getnum)
  have loop: "foreach [0..<length (array_list z)] exorcise_one s = Ok () ?s"
    using exorcise_loop[OF z(1,2), of 0] assms(3,4) z(3) by simp
  from wp_cases[OF wp_array_setsize_shrink[OF z(2), of 0 "kmem s 0"]] obtain z' where
    z': "array_setsize (kmem s 0) 0 z = Ok () z'" "array_inv z'" "array_list z' = []"
      "array_cap z' = (if array_cap z > 16 then 0 else array_cap z)"
    by auto
  have "on_zombies (array_setsize (kmem s 0) 0) (?s\<lparr>kmem := (\<lambda>n. kmem s (Suc n))\<rparr>)
      = Ok () (?s\<lparr>kmem := (\<lambda>n. kmem s (Suc n)), zombies := Some z'\<rparr>)"
    by (rule on_zombies_Ok[where z = z]) (simp add: z(1), fact z'(1))
  then show thesis
    using assms(2) get loop z'(2-) z(1)
    by (intro that[of z']) (simp_all add: exorcise_alt bind_def must_def kmalloc_ok_def)
qed

section \<open>The invariant through the steps of a switch\<close>

lemma tinv_cong:
  assumes "tinv s" "threads s' = threads s" "nextid s' = nextid s" "curthread s' = curthread s"
    "sleepers s' = sleepers s" "zombies s' = zombies s" "runqueue s' = runqueue s"
    "numthreads s' = numthreads s"
  shows "tinv s'"
  using assms unfolding tinv_def structs_ok_def curl_def rdy_def slp_def zmb_def frame_of_def by simp

lemma tinvD:
  assumes "tinv s"
  shows "structs_ok s" "distinct (curl s @ rdy s @ slp s @ zmb s)"
    "set (curl s @ rdy s @ slp s @ zmb s) = dom (threads s)"
    "numthreads s = int (length (curl s @ rdy s @ slp s))"
    "\<And>t x. threads s t = Some x \<Longrightarrow> thread_ok x \<and> t < nextid s"
    "\<And>t. t \<in> set (rdy s) \<Longrightarrow> frame_of s t \<noteq> SwExit" "\<And>t. t \<in> set (slp s) \<Longrightarrow> frame_of s t = SwSleep"
    "\<And>t. t \<in> set (zmb s) \<Longrightarrow> t_vmspace (the (threads s t)) = None \<and> t_cwd (the (threads s t)) = None"
  using assms unfolding tinv_def by (blast intro: ranI domI)+

lemma tinvI:
  assumes "structs_ok s" "distinct (curl s @ rdy s @ slp s @ zmb s)"
    "set (curl s @ rdy s @ slp s @ zmb s) = dom (threads s)"
    "numthreads s = int (length (curl s @ rdy s @ slp s))"
    "\<And>t x. threads s t = Some x \<Longrightarrow> thread_ok x \<and> t < nextid s"
    "\<And>t. t \<in> set (rdy s) \<Longrightarrow> frame_of s t \<noteq> SwExit" "\<And>t. t \<in> set (slp s) \<Longrightarrow> frame_of s t = SwSleep"
    "\<And>t. t \<in> set (zmb s) \<Longrightarrow> t_vmspace (the (threads s t)) = None \<and> t_cwd (the (threads s t)) = None"
  shows "tinv s"
  unfolding tinv_def
proof (intro conjI ballI)
  show "thread_ok x" if "x \<in> ran (threads s)" for x using that assms(5) unfolding ran_def by blast
  show "t < nextid s" if "t \<in> dom (threads s)" for t using that assms(5) unfolding dom_def by blast
qed (use assms in blast)+

lemma tinv_thread:
  assumes "tinv s" "t \<in> set (curl s @ rdy s @ slp s @ zmb s)"
  obtains x where "threads s t = Some x" "thread_ok x"
  using tinvD(3,5)[OF assms(1)] assms(2) by (metis domD)

text \<open>The number of thread structures is bounded by the number of pointers ever handed out.\<close>

lemma tinv_length:
  assumes "tinv s"
  shows "length (curl s @ rdy s @ slp s @ zmb s) \<le> nextid s"
proof -
  have "set (curl s @ rdy s @ slp s @ zmb s) \<subseteq> {..<nextid s}"
    unfolding tinvD(3)[OF assms] using tinvD(5)[OF assms] by (force simp: dom_def)
  then have "card (set (curl s @ rdy s @ slp s @ zmb s)) \<le> card {..<nextid s}"
    by (intro card_mono) simp_all
  then show ?thesis using distinct_card[OF tinvD(2)[OF assms]] by simp
qed

lemma tinv_idle:
  assumes "tinv s" "idle_rel s s'"
  shows "tinv s'"
proof -
  note i = tinvD[OF assms(1)]
  obtain m where m: "rdy s' = rdy s @ m" "mset (m @ slp s') = mset (slp s)"
    using assms(2) unfolding idle_rel_def by blast
  have same: "threads s' = threads s" "nextid s' = nextid s" "curl s' = curl s" "zmb s' = zmb s"
      "numthreads s' = numthreads s" "structs_ok s'"
    using assms(2) by (simp_all add: idle_rel_def curl_def zmb_def)
  have all: "mset (curl s' @ rdy s' @ slp s' @ zmb s') = mset (curl s @ rdy s @ slp s @ zmb s)"
    using m same by (simp add: add.assoc[symmetric]) 
  have set_m: "set (m @ slp s') = set (slp s)" and len_m: "length (m @ slp s') = length (slp s)"
    using m(2) mset_eq_setD mset_eq_length by blast+
  have fr: "frame_of s' t = frame_of s t" for t by (simp add: frame_of_def same)
  show ?thesis
  proof (rule tinvI)
    show "distinct (curl s' @ rdy s' @ slp s' @ zmb s')" using i(2) mset_eq_imp_distinct_iff[OF all] by blast
    show "set (curl s' @ rdy s' @ slp s' @ zmb s') = dom (threads s')"
      using i(3) mset_eq_setD[OF all] same by simp
    show "numthreads s' = int (length (curl s' @ rdy s' @ slp s'))"
      using i(4) len_m m(1) same by simp
    show "frame_of s' t \<noteq> SwExit" if "t \<in> set (rdy s')" for t
    proof -
      have "t \<in> set (rdy s) \<or> t \<in> set (slp s)" using that m(1) set_m by auto
      then show ?thesis using i(6,7)[of t] by (auto simp: fr)
    qed
    show "frame_of s' t = SwSleep" if "t \<in> set (slp s')" for t
    proof -
      have "t \<in> set (slp s)" using that set_m by auto
      then show ?thesis using i(7)[of t] by (simp add: fr)
    qed
  qed (use i(5,8) same in simp_all)
qed

lemma tinv_pick:
  assumes "tinv s1" "curthread s1 = None" "rdy s1 = n # rdy s2" "s2 = s1\<lparr>runqueue := runqueue s2\<rparr>" "structs_ok s2"
  shows "tinv (s2\<lparr>curthread := Some n\<rparr>)" "frame_of s2 n \<noteq> SwExit"
proof -
  note i = tinvD[OF assms(1)]
  have same: "threads s2 = threads s1" "nextid s2 = nextid s1" "slp s2 = slp s1" "zmb s2 = zmb s1"
      "numthreads s2 = numthreads s1"
    by (subst assms(4), simp add: slp_def zmb_def)+
  have c1: "curl s1 = []" using assms(2) by (simp add: curl_def)
  let ?s = "s2\<lparr>curthread := Some n\<rparr>"
  have lists: "curl ?s = [n]" "rdy ?s = rdy s2" "slp ?s = slp s1" "zmb ?s = zmb s1" "structs_ok ?s"
    using assms(5) same by (simp_all add: curl_def rdy_def slp_def zmb_def structs_ok_def)
  show "frame_of s2 n \<noteq> SwExit" using i(6)[of n] assms(3) by (simp add: frame_of_def same)
  show "tinv ?s"
  proof (rule tinvI)
    show "frame_of ?s t \<noteq> SwExit" if "t \<in> set (rdy ?s)" for t
      using i(6)[of t] that assms(3) lists by (simp add: frame_of_def same)
    show "frame_of ?s t = SwSleep" if "t \<in> set (slp ?s)" for t
      using i(7)[of t] that lists by (simp add: frame_of_def same)
  qed (use i(2-5,8) lists assms(3) c1 same in simp_all)
qed

lemma tinv_t_put:
  assumes "tinv s" "threads s c = Some x" "t_frame y = t_frame x" "thread_ok y"
    and "t_vmspace y = t_vmspace x" "t_cwd y = t_cwd x"
  shows "tinv (s\<lparr>threads := (threads s)(c \<mapsto> y)\<rparr>)"
proof -
  note i = tinvD[OF assms(1)]
  let ?s = "s\<lparr>threads := (threads s)(c \<mapsto> y)\<rparr>"
  have lists: "curl ?s = curl s" "rdy ?s = rdy s" "slp ?s = slp s" "zmb ?s = zmb s" "structs_ok ?s"
    using i(1) by (simp_all add: curl_def rdy_def slp_def zmb_def structs_ok_def)
  have fr: "frame_of ?s t = frame_of s t" for t using assms(2,3) by (simp add: frame_of_def)
  show ?thesis
  proof (rule tinvI)
    show "set (curl ?s @ rdy ?s @ slp ?s @ zmb ?s) = dom (threads ?s)"
      using i(3) assms(2) lists by (simp add: insert_absorb domI)
    show "thread_ok z \<and> t < nextid ?s" if "threads ?s t = Some z" for t z
      using that i(5) assms(2,4) by (auto split: if_splits)
    show "t_vmspace (the (threads ?s t)) = None \<and> t_cwd (the (threads ?s t)) = None"
      if "t \<in> set (zmb ?s)" for t
      using that i(8)[of t] assms(2,5,6) lists by auto
  qed (use i(2,4,6,7) lists fr in simp_all)
qed

lemma tinv_exorcise:
  assumes "tinv s" "array_inv z'" "array_list z' = []"
  shows "tinv (s\<lparr>threads := (\<lambda>t. if t \<in> set (zmb s) then None else threads s t),
      kmem := km, zombies := Some z'\<rparr>)" (is "tinv ?s")
proof -
  note i = tinvD[OF assms(1)]
  have lists: "curl ?s = curl s" "rdy ?s = rdy s" "slp ?s = slp s" "zmb ?s = []" "structs_ok ?s"
    using i(1) assms(2,3) by (auto simp: curl_def rdy_def slp_def zmb_def structs_ok_def)
  have fr: "frame_of ?s t = frame_of s t" if "t \<notin> set (zmb s)" for t
    using that by (simp add: frame_of_def)
  show ?thesis
  proof (rule tinvI)
    show "distinct (curl ?s @ rdy ?s @ slp ?s @ zmb ?s)" using i(2) unfolding lists by auto
    have "dom (threads ?s) = dom (threads s) - set (zmb s)" by (auto split: if_splits)
    then show "set (curl ?s @ rdy ?s @ slp ?s @ zmb ?s) = dom (threads ?s)"
      using i(2) unfolding i(3)[symmetric] lists by auto
    show "numthreads ?s = int (length (curl ?s @ rdy ?s @ slp ?s))" using i(4) lists by simp
    show "thread_ok x \<and> t < nextid ?s" if "threads ?s t = Some x" for t x
      using that i(5)[of t x] by (auto split: if_splits)
    show "frame_of ?s t \<noteq> SwExit" if "t \<in> set (rdy ?s)" for t
      using that i(2) i(6)[of t] lists fr[of t] by auto
    show "frame_of ?s t = SwSleep" if "t \<in> set (slp ?s)" for t
      using that i(2) i(7)[of t] lists fr[of t] by auto
  qed (use lists in simp_all)
qed

lemma as_activate_cur_ok:
  assumes "curthread s = Some n" "threads s n = Some x"
  obtains a where "as_activate_cur s = Ok () (s\<lparr>active_as := a\<rparr>)"
proof (cases "t_vmspace x")
  case None
  then have "as_activate_cur s = Ok () (s\<lparr>active_as := active_as s\<rparr>)"
    using assms by (simp add: as_activate_cur_def)
  then show thesis by (rule that)
next
  case (Some a)
  then show thesis using assms by (intro that[of "Some a"]) (simp add: as_activate_cur_def)
qed

text \<open>The interrupt level and the zombies after a thread with the given frame is back.\<close>

definition resume_spl :: "switchframe \<Rightarrow> int \<Rightarrow> int" where
  "resume_spl fr old = (case fr of SwStart _ _ _ \<Rightarrow> 0 | SwYield spl \<Rightarrow> spl | _ \<Rightarrow> old)"

definition resume_zmb :: "switchframe \<Rightarrow> tid list \<Rightarrow> tid list" where
  "resume_zmb fr z = (case fr of SwStart _ _ _ \<Rightarrow> z | _ \<Rightarrow> [])"

lemma resume_simps [simp]:
  "resume_spl (SwStart a b f) old = 0" "resume_spl (SwYield spl) old = spl"
  "resume_spl SwSleep old = old" "resume_spl SwExit old = old"
  "resume_zmb (SwStart a b f) z = z" "resume_zmb (SwYield spl) z = []"
  "resume_zmb SwSleep z = []" "resume_zmb SwExit z = []"
  by (simp_all add: resume_spl_def resume_zmb_def)

text \<open>
  A switch to \<open>n\<close> keeps the frame of every thread, and the sleep address of all but \<open>n\<close>; when no thread was
  switched out inside an interrupt handler, none is now.
\<close>

definition calm :: "tsys \<Rightarrow> bool" where
  "calm s \<longleftrightarrow> \<not> in_interrupt s \<and> (\<forall>t x. threads s t = Some x \<longrightarrow> \<not> t_ininterrupt x)"

definition tkept :: "tid \<Rightarrow> tsys \<Rightarrow> tsys \<Rightarrow> bool" where
  "tkept n s s' \<longleftrightarrow> (calm s \<longrightarrow> calm s') \<and> (\<forall>t x'. threads s' t = Some x' \<longrightarrow>
     (\<exists>x. threads s t = Some x \<and> t_frame x' = t_frame x \<and> (t \<noteq> n \<longrightarrow> t_sleepaddr x' = t_sleepaddr x)))"

lemma tkept_trans: "tkept n s t \<Longrightarrow> tkept n t u \<Longrightarrow> tkept n s u"
  unfolding tkept_def by metis

lemma tkept_same: "threads s' = threads s \<Longrightarrow> in_interrupt s' = in_interrupt s \<Longrightarrow> tkept n s s'"
  by (simp add: tkept_def calm_def)

lemma switch_in_ok:
  assumes "tinv s" "curthread s = Some n" "curspl s > 0" "frame_of s n \<noteq> SwExit"
  obtains s' where "switch_in s = Ok () s'" "tinv s'" "curthread s' = Some n" "rdy s' = rdy s"
    "slp s' = slp s" "zmb s' = (resume_zmb (frame_of s n) (zmb s))"
    "curspl s' = (resume_spl (frame_of s n) (curspl s))"
    "numthreads s' = numthreads s" "runqueue s' = runqueue s" "sleepers s' = sleepers s"
    "vrefs s' = vrefs s" "nextid s' = nextid s" "mem_left s s'" "in_interrupt s' = in_interrupt s" "tkept n s s'"
proof -
  note i = tinvD[OF assms(1)]
  have "n \<in> set (curl s @ rdy s @ slp s @ zmb s)" using assms(2) by (simp add: curl_def)
  then obtain x where x: "threads s n = Some x" "thread_ok x" by (rule tinv_thread[OF assms(1)])
  have fr: "frame_of s n = t_frame x" by (simp add: frame_of_def x)
  show thesis
  proof (cases "\<exists>d1 d2 f. t_frame x = SwStart d1 d2 f")
    case True
    then obtain d1 d2 f where f: "t_frame x = SwStart d1 d2 f" by blast
    obtain a where a: "as_activate_cur s = Ok () (s\<lparr>active_as := a\<rparr>)"
      using as_activate_cur_ok[OF assms(2) x(1)] .
    let ?s = "s\<lparr>active_as := a, iec := True, curspl := 0\<rparr>"
    have "switch_in s = Ok () ?s"
      using assms(2) x(1) f a by (simp add: switch_in_def mi_threadstart_enter_def bind_def[of as_activate_cur] spl0_def)
    moreover have "tinv ?s" by (rule tinv_cong[OF assms(1)]) simp_all
    ultimately show thesis
      using assms(2) f fr by (intro that[of ?s]) (simp_all add: rdy_def slp_def zmb_def mem_left_def tkept_same)
  next
    case False
    have "distinct (zmb s)" "\<forall>t \<in> set (zmb s). curthread s \<noteq> Some t \<and>
           (\<exists>x. threads s t = Some x \<and> t_vmspace x = None \<and> t_cwd x = None)"
    proof -
      show "distinct (zmb s)" using i(2) by simp
      show "\<forall>t \<in> set (zmb s). curthread s \<noteq> Some t \<and>
           (\<exists>x. threads s t = Some x \<and> t_vmspace x = None \<and> t_cwd x = None)"
      proof
        fix t assume t: "t \<in> set (zmb s)"
        then obtain y where "threads s t = Some y" using tinv_thread[OF assms(1), of t] by auto
        with i(8)[OF t] i(2) t assms(2) show "curthread s \<noteq> Some t \<and>
           (\<exists>x. threads s t = Some x \<and> t_vmspace x = None \<and> t_cwd x = None)"
          by (auto simp: curl_def)
      qed
    qed
    from exorcise_ok[OF i(1) assms(3) this] obtain z' where
      z': "exorcise s = Ok () (s\<lparr>threads := (\<lambda>t. if t \<in> set (zmb s) then None else threads s t),
        kmem := (\<lambda>n. kmem s (Suc n)), zombies := Some z'\<rparr>)" "array_inv z'" "array_list z' = []" .
    let ?s1 = "s\<lparr>threads := (\<lambda>t. if t \<in> set (zmb s) then None else threads s t),
        kmem := (\<lambda>n. kmem s (Suc n)), zombies := Some z'\<rparr>"
    have t1: "tinv ?s1" by (rule tinv_exorcise[OF assms(1) z'(2,3)])
    have x1: "threads ?s1 n = Some x" using x i(2) assms(2) by (auto simp: curl_def)
    obtain a where a: "as_activate_cur ?s1 = Ok () (?s1\<lparr>active_as := a\<rparr>)"
      using as_activate_cur_ok[of ?s1, OF _ x1] assms(2) by auto
    let ?s2 = "?s1\<lparr>active_as := a\<rparr>"
    have t2: "tinv ?s2" by (rule tinv_cong[OF t1]) simp_all
    have sw: "switch_in s = resume_frame (t_frame x) ?s2"
      using assms(2) x(1) z'(1) a False
      by (simp add: switch_in_def bind_def[of exorcise] bind_def[of as_activate_cur] split: switchframe.splits)
    show thesis
    proof (cases "t_frame x")
      case (SwYield spl)
      let ?s3 = "?s2\<lparr>iec := (if spl > 0 then False else if spl = 0 then True else iec ?s2), curspl := spl\<rparr>"
      have "tinv ?s3" by (rule tinv_cong[OF t2]) simp_all
      moreover have "tkept n s ?s3" by (simp add: tkept_def calm_def)
      ultimately show thesis using SwYield sw fr assms(2) z'(3)
        by (intro that[of ?s3]) (simp_all add: rdy_def slp_def zmb_def mem_left_def)
    next
      case SwSleep
      let ?s3 = "?s2\<lparr>threads := (threads ?s2)(n \<mapsto> x\<lparr>t_sleepaddr := NULL\<rparr>)\<rparr>"
      have "tinv ?s3" using x1 x(2) by (intro tinv_t_put[OF t2, of n x]) (simp_all add: thread_ok_def)
      moreover have "tkept n s ?s3" using x by (auto simp: tkept_def calm_def)
      ultimately show thesis using SwSleep sw fr assms(2) z'(3) x1
        by (intro that[of ?s3]) (simp_all add: rdy_def slp_def zmb_def mem_left_def t_put_def)
    qed (use False fr assms(4) in simp_all)
  qed
qed

text \<open>The running thread is put away on one of the three lists.\<close>

lemma tinv_move:
  assumes "tinv s" "curthread s = Some c" "curthread s' = None" "structs_ok s'" "nextid s' = nextid s"
    and "threads s' = (threads s)(c \<mapsto> y)" "thread_ok y"
    and "(rdy s' = rdy s @ [c] \<and> slp s' = slp s \<and> zmb s' = zmb s \<and> numthreads s' = numthreads s \<and> t_frame y \<noteq> SwExit) \<or>
         (rdy s' = rdy s \<and> slp s' = slp s @ [c] \<and> zmb s' = zmb s \<and> numthreads s' = numthreads s \<and> t_frame y = SwSleep) \<or>
         (rdy s' = rdy s \<and> slp s' = slp s \<and> zmb s' = zmb s @ [c] \<and> numthreads s' = numthreads s - 1 \<and>
          t_vmspace y = None \<and> t_cwd y = None)"
  shows "tinv s'"
proof -
  note i = tinvD[OF assms(1)]
  have c: "curl s = [c]" "curl s' = []" using assms(2,3) by (simp_all add: curl_def)
  have other: "threads s' t = threads s t" "frame_of s' t = frame_of s t" if "t \<noteq> c" for t
    using that by (simp_all add: assms(6) frame_of_def)
  have at_c: "the (threads s' c) = y" "frame_of s' c = t_frame y" by (simp_all add: assms(6) frame_of_def)
  have notin: "c \<notin> set (rdy s)" "c \<notin> set (slp s)" "c \<notin> set (zmb s)" using i(2) c by auto
  have all: "mset (curl s' @ rdy s' @ slp s' @ zmb s') = mset (curl s @ rdy s @ slp s @ zmb s)"
    using assms(8) c by auto
  have cd: "c \<in> dom (threads s)" unfolding i(3)[symmetric] c by simp
  show ?thesis
  proof (rule tinvI)
    show "distinct (curl s' @ rdy s' @ slp s' @ zmb s')" using i(2) mset_eq_imp_distinct_iff[OF all] by blast
    show "set (curl s' @ rdy s' @ slp s' @ zmb s') = dom (threads s')"
      unfolding mset_eq_setD[OF all] i(3) assms(6) using cd by (simp add: insert_absorb)
    show "numthreads s' = int (length (curl s' @ rdy s' @ slp s'))" using i(4) assms(8) c by auto
    show "thread_ok x \<and> t < nextid s'" if "threads s' t = Some x" for t x
      using that i(5) cd assms(5,6,7) by (auto split: if_splits)
    show "frame_of s' t \<noteq> SwExit" if "t \<in> set (rdy s')" for t
      using that assms(8) i(6)[of t] other[of t] at_c notin by (cases "t = c") auto
    show "frame_of s' t = SwSleep" if "t \<in> set (slp s')" for t
      using that assms(8) i(7)[of t] other[of t] at_c notin by (cases "t = c") auto
    show "t_vmspace (the (threads s' t)) = None \<and> t_cwd (the (threads s' t)) = None" if "t \<in> set (zmb s')" for t
      using that assms(8) i(8)[of t] other[of t] at_c notin by (cases "t = c") auto
  qed (fact assms(4))
qed

definition dispatch :: "tid \<Rightarrow> (unit, tsys) kmon" where
  "dispatch c = bind scheduler (\<lambda>next. bind (modify (\<lambda>s. s\<lparr>curthread := Some next\<rparr>)) (\<lambda>_.
     bind (md_switch c next) (\<lambda>_. switch_in)))"

lemma bind_check_magic:
  "threads s c = Some x \<Longrightarrow> thread_ok x \<Longrightarrow> bind (check_magic c) f s = f () s"
  by (cases "t_stack x") (simp_all add: check_magic_def thread_ok_def bind_assoc)

lemma mi_switch_alt:
  "curthread s = Some c \<Longrightarrow> curspl s > 0 \<Longrightarrow> threads s c = Some x \<Longrightarrow> thread_ok x \<Longrightarrow>
   mi_switch nextstate frame s = bind (stash nextstate c) (\<lambda>_.
     bind (t_put c (t_frame_update (\<lambda>_. frame))) (\<lambda>_. dispatch c)) (s\<lparr>curthread := None\<rparr>)"
  by (simp add: mi_switch_def bind_check_magic dispatch_def)

text \<open>What a completed switch has done; \<open>s\<close> is the state in which the old thread was put away.\<close>

definition switched :: "tsys \<Rightarrow> tid \<Rightarrow> tsys \<Rightarrow> bool" where
  "switched s n s' \<longleftrightarrow> tinv s' \<and> curthread s' = Some n \<and> numthreads s' = numthreads s \<and> vrefs s' = vrefs s \<and>
     nextid s' = nextid s \<and> mem_left s s' \<and>
     (\<exists>m. rdy s @ m = n # rdy s' \<and> mset (m @ slp s') = mset (slp s)) \<and>
     (rdy s \<noteq> [] \<longrightarrow> rdy s = n # rdy s' \<and> slp s' = slp s) \<and>
     array_cap (the (sleepers s')) = array_cap (the (sleepers s)) \<and>
     q_cap (the (runqueue s)) \<le> q_cap (the (runqueue s')) \<and>
     zmb s' = (resume_zmb (frame_of s n) (zmb s)) \<and>
     curspl s' = (resume_spl (frame_of s n) (curspl s)) \<and> tkept n s s'"

lemma dispatch_ok:
  assumes "tinv s" "curthread s = None" "idle_ok s" "can_proceed s" "c \<in> dom (threads s)"
  obtains n s' where "dispatch c s = Ok () s'" "switched s n s'"
proof -
  obtain n s1 s2 where sch: "scheduler s = Ok n s2" "idle_rel s s1" "rdy s1 = n # rdy s2"
    "in_interrupt s1 = in_interrupt s" "rdy s \<noteq> [] \<longrightarrow> s1 = s"
    "s2 = s1\<lparr>runqueue := runqueue s2\<rparr>" "structs_ok s2" "q_cap (the (runqueue s2)) = q_cap (the (runqueue s1))"
    using scheduler_ok[OF assms(3,4)] by metis
  have c1: "curthread s1 = None" using sch(2) assms(2) by (simp add: idle_rel_def)
  note pick = tinv_pick[OF tinv_idle[OF assms(1) sch(2)] c1 sch(3,6,7)]
  let ?s3 = "s2\<lparr>curthread := Some n\<rparr>"
  have same: "threads s2 = threads s" "slp s2 = slp s1" "zmb s2 = zmb s" "numthreads s2 = numthreads s"
      "vrefs s2 = vrefs s" "nextid s2 = nextid s" "curspl s2 = curspl s" "mem_left s s2" "sleepers s2 = sleepers s1"
    using sch(2) by (subst sch(6), simp add: idle_rel_def slp_def zmb_def mem_left_def)+
  have ii: "in_interrupt s2 = in_interrupt s" using sch(4) by (subst sch(6)) simp
  obtain x where x: "threads s c = Some x" using assms(5) by auto
  obtain y where y: "threads s n = Some y"
    using tinv_thread[OF pick(1), of n] same by (auto simp: curl_def)
  obtain s4 where s4: "md_switch c n ?s3 = Ok () s4" "tinv s4" "curthread s4 = Some n" "rdy s4 = rdy s2"
    "slp s4 = slp s2" "zmb s4 = zmb s2" "curspl s4 = curspl s2" "frame_of s4 n = frame_of s n"
    "numthreads s4 = numthreads s2" "runqueue s4 = runqueue s2" "sleepers s4 = sleepers s2"
    "vrefs s4 = vrefs s2" "nextid s4 = nextid s2" "kmem s4 = kmem s2" "tkept n s s4"
  proof (cases "c = n")
    case True
    then show thesis
      using pick(1) same ii
      by (intro that[of ?s3]) (simp_all add: md_switch_def rdy_def slp_def zmb_def frame_of_def tkept_same)
  next
    case False
    let ?t = "?s3\<lparr>threads := (threads ?s3)(c \<mapsto> x\<lparr>t_ininterrupt := in_interrupt s2\<rparr>)\<rparr>"
    have "thread_ok x" using tinvD(5)[OF assms(1) x] by simp
    then have "tinv ?t" using x same by (intro tinv_t_put[OF pick(1)]) (simp_all add: thread_ok_def)
    then have "tinv (?t\<lparr>in_interrupt := t_ininterrupt y\<rparr>)" by (rule tinv_cong) simp_all
    moreover have "tkept n s (?t\<lparr>in_interrupt := t_ininterrupt y\<rparr>)"
      using x y same ii by (auto simp: tkept_def calm_def)
    ultimately show thesis
      using False x y same by (intro that[of "?t\<lparr>in_interrupt := t_ininterrupt y\<rparr>"])
        (simp_all add: md_switch_def rdy_def slp_def zmb_def frame_of_def)
  qed
  have spl: "curspl s4 > 0" using s4(7) same assms(3) by (simp add: idle_ok_def)
  have fr: "frame_of s4 n \<noteq> SwExit" using pick(2) s4(8) by (simp add: frame_of_def same)
  from switch_in_ok[OF s4(2,3) spl fr] obtain s' where s': "switch_in s4 = Ok () s'" "tinv s'"
    "curthread s' = Some n" "rdy s' = rdy s4"
    "slp s' = slp s4" "zmb s' = (resume_zmb (frame_of s4 n) (zmb s4))"
    "curspl s' = (resume_spl (frame_of s4 n) (curspl s4))"
    "numthreads s' = numthreads s4" "runqueue s' = runqueue s4" "sleepers s' = sleepers s4"
    "vrefs s' = vrefs s4" "nextid s' = nextid s4" "mem_left s4 s'" "tkept n s4 s'" .
  obtain m where m: "rdy s1 = rdy s @ m" "mset (m @ slp s1) = mset (slp s)"
    using sch(2) unfolding idle_rel_def by blast
  then have "rdy s @ m = n # rdy s' \<and> mset (m @ slp s') = mset (slp s)"
    using sch(3) s' s4 same by simp
  moreover have "rdy s \<noteq> [] \<longrightarrow> rdy s = n # rdy s' \<and> slp s' = slp s"
    using sch(3,5) s' s4 same by auto
  moreover have "dispatch c s = Ok () s'"
    using sch(1) s4(1) s'(1) by (simp add: dispatch_def bind_def)
  ultimately show thesis
    using s' s4 same sch(2,8) tkept_trans[OF s4(15) s'(14)]
    by (intro that[of s' n]) (auto simp: switched_def mem_left_def idle_rel_def)
qed

section \<open>The operations\<close>

text \<open>
  Memory is available, or what \<open>thread_fork\<close> has reserved is enough: the run queue, the sleepers
  and the zombies can take every thread.
\<close>

definition mem_ok :: "tsys \<Rightarrow> bool" where
  "mem_ok s \<longleftrightarrow> (\<forall>n. kmem s n) \<or>
     (numthreads s \<le> int (q_cap (the (runqueue s))) \<and> numthreads s \<le> int (array_cap (the (sleepers s))) \<and>
      length (zmb s) < array_cap (the (zombies s)))"

lemma tinv_idle_ok:
  assumes "tinv s" "curthread s = None" "curspl s > 0" "nextid s \<le> thread_limit"
    and "(\<forall>n. kmem s n) \<or> numthreads s \<le> int (q_cap (the (runqueue s)))"
  shows "idle_ok s"
proof -
  note i = tinvD[OF assms(1)]
  have c: "curl s = []" using assms(2) by (simp add: curl_def)
  have "set (slp s) \<subseteq> dom (threads s)" unfolding i(3)[symmetric] by auto
  moreover have "length (rdy s) + length (slp s) \<le> thread_limit" using tinv_length[OF assms(1)] assms(4) by simp
  moreover have "rq_room s (length (slp s))" using assms(5) i(4) c by (auto simp: rq_room_def)
  ultimately show ?thesis using assms(3) i(1) by (simp add: idle_ok_def)
qed

text \<open>The state in which \<open>thread_yield\<close> has put the running thread away.\<close>

lemma thread_yield_put:
  assumes "tinv s" "curthread s = Some c" "nextid s \<le> thread_limit"
    and "(\<forall>n. kmem s n) \<or> numthreads s \<le> int (q_cap (the (runqueue s)))"
  obtains s2 where "thread_yield s = dispatch c s2" "tinv s2" "idle_ok s2" "curthread s2 = None" "c \<in> dom (threads s2)"
    "rdy s2 = rdy s @ [c]" "slp s2 = slp s" "zmb s2 = zmb s" "numthreads s2 = numthreads s" "nextid s2 = nextid s"
    "mem_left s s2" "q_cap (the (runqueue s)) \<le> q_cap (the (runqueue s2))"
    "array_cap (the (sleepers s2)) = array_cap (the (sleepers s))" "curspl s2 = SPL_HIGH" "frame_of s2 c = SwYield (curspl s)"
    "\<And>t. t \<noteq> c \<Longrightarrow> threads s2 t = threads s t" "calm s \<Longrightarrow> calm s2"
proof -
  note i = tinvD[OF assms(1)]
  have cl: "curl s = [c]" using assms(2) by (simp add: curl_def)
  then obtain x where x: "threads s c = Some x" "thread_ok x" using tinv_thread[OF assms(1), of c] by auto
  from i(1) obtain sl z q where st: "sleepers s = Some sl" "array_inv sl" "zombies s = Some z" "array_inv z"
    "runqueue s = Some q" "q_inv q" "slp s = array_list sl" "zmb s = array_list z" "rdy s = q_list q"
    by (rule structs_okE)
  let ?s0 = "s\<lparr>iec := False, curspl := SPL_HIGH, curthread := None\<rparr>"
  have len: "length (q_list q) < thread_limit"
    using tinv_length[OF assms(1)] assms(3) cl st(9) by simp
  have room: "kmem s 0 \<or> length (q_list q) < q_cap q" using assms(4) i(4) cl st(5,9) by auto
  have pre: "runqueue ?s0 = Some q" "curspl ?s0 > 0" "kmem ?s0 0 \<or> length (q_list q) < q_cap q"
    using st(5) room by (simp_all add: SPL_HIGH_def)
  from make_runnable_ok[OF pre(1) st(6) pre(2) len pre(3), of c]
  obtain s1 q' where s1: "make_runnable c ?s0 = Ok () s1" "lists_only ?s0 s1" "sleepers s1 = sleepers ?s0"
    "kmem s1 = (\<lambda>n. kmem ?s0 (Suc n))" "runqueue s1 = Some q'" "q_inv q'" "q_list q' = q_list q @ [c]"
    "q_cap q \<le> q_cap q'" .
  let ?y = "x\<lparr>t_frame := SwYield (curspl s)\<rparr>"
  let ?s2 = "s1\<lparr>threads := (threads s1)(c \<mapsto> ?y)\<rparr>"
  have lists: "rdy ?s2 = rdy s @ [c]" "slp ?s2 = slp s" "zmb ?s2 = zmb s" "structs_ok ?s2"
    using st s1 by (auto simp: rdy_def slp_def zmb_def structs_ok_def lists_only_def)
  have t2: "tinv ?s2"
    by (rule tinv_move[OF assms(1,2), of _ ?y]) (use s1(2) x lists in \<open>simp_all add: lists_only_def thread_ok_def\<close>)
  have idle: "idle_ok ?s2"
  proof (rule tinv_idle_ok[OF t2])
    show "(\<forall>n. kmem ?s2 n) \<or> numthreads ?s2 \<le> int (q_cap (the (runqueue ?s2)))"
      using assms(4) s1(2,4,5,8) st(5) by (auto simp: lists_only_def)
  qed (use s1(2) assms(3) in \<open>simp_all add: lists_only_def SPL_HIGH_def\<close>)
  have thr: "threads s1 c = Some x" using s1(2) x by (simp add: lists_only_def)
  let ?sh = "s\<lparr>iec := False, curspl := SPL_HIGH\<rparr>"
  have "curthread ?sh = Some c" "curspl ?sh > 0" "threads ?sh c = Some x"
    using assms(2) x by (simp_all add: SPL_HIGH_def)
  note alt = mi_switch_alt[OF this x(2), of S_READY "SwYield (curspl s)"]
  have "thread_yield s = mi_switch S_READY (SwYield (curspl s)) ?sh"
    using st(1) by (simp add: thread_yield_def splhigh_def SPL_HIGH_def)
  also have "\<dots> = dispatch c ?s2"
    unfolding alt using s1(1) thr by (simp add: stash_def bind_def must_def t_put_def)
  finally have run: "thread_yield s = dispatch c ?s2" .
  have "calm s \<Longrightarrow> calm ?s2" using x s1(2) by (auto simp: calm_def lists_only_def)
  then show thesis
    using run t2 idle lists s1 st(5) by (intro that[of ?s2]) (auto simp: lists_only_def mem_left_def frame_of_def)
qed

lemma thread_yield_ok:
  assumes "tinv s" "curthread s = Some c" "nextid s \<le> thread_limit"
    and "(\<forall>n. kmem s n) \<or> numthreads s \<le> int (q_cap (the (runqueue s)))"
  obtains n s' where "thread_yield s = Ok () s'" "tinv s'" "curthread s' = Some n" "rdy s @ [c] = n # rdy s'"
    "slp s' = slp s" "numthreads s' = numthreads s" "mem_left s s'"
    "q_cap (the (runqueue s)) \<le> q_cap (the (runqueue s'))"
    "array_cap (the (sleepers s')) = array_cap (the (sleepers s))"
    "curspl s' = (if n = c then curspl s else resume_spl (frame_of s n) (SPL_HIGH))"
proof -
  from thread_yield_put[OF assms] obtain s2 where s2: "thread_yield s = dispatch c s2" "tinv s2" "idle_ok s2"
    "curthread s2 = None" "c \<in> dom (threads s2)" "rdy s2 = rdy s @ [c]" "slp s2 = slp s" "zmb s2 = zmb s"
    "numthreads s2 = numthreads s" "nextid s2 = nextid s" "mem_left s s2" "q_cap (the (runqueue s)) \<le> q_cap (the (runqueue s2))"
    "array_cap (the (sleepers s2)) = array_cap (the (sleepers s))" "curspl s2 = SPL_HIGH" "frame_of s2 c = SwYield (curspl s)"
    "\<And>t. t \<noteq> c \<Longrightarrow> threads s2 t = threads s t" by metis
  have go: "can_proceed s2" using wakeup_due_proceeds[OF s2(3)] s2(6) by (simp add: wakeup_due_def)
  from dispatch_ok[OF s2(2,4,3) go s2(5)] obtain n s' where d: "dispatch c s2 = Ok () s'" "switched s2 n s'" .
  have hd: "rdy s @ [c] = n # rdy s'" "slp s' = slp s" using d(2) s2(6,7) by (auto simp: switched_def)
  have "frame_of s2 n = (if n = c then SwYield (curspl s) else frame_of s n)"
    using s2(15,16) by (simp add: frame_of_def)
  then show thesis
    using hd d s2 by (intro that[of s' n]) (auto simp: switched_def mem_left_def)
qed

text \<open>Adding to the sleepers or zombies within the reserved capacity, or with memory.\<close>

lemma sleepers_add_ok:
  assumes "sleepers s = Some sl" "array_inv sl" "length (array_list sl) < thread_limit"
    and "ok \<or> length (array_list sl) < array_cap sl"
  obtains sl' where "on_sleepers (array_add ok c) s = Ok () (s\<lparr>sleepers := Some sl'\<rparr>)" "array_inv sl'"
    "array_list sl' = array_list sl @ [c]" "array_cap sl \<le> array_cap sl'"
proof -
  have "int (length (array_list sl)) + 1 < array_limit" using assms(3) by simp
  from arr.addE[OF assms(2,4) this, of c] obtain sl' where sl': "array_add ok c sl = Ok () sl'" "array_inv sl'"
    "array_list sl' = array_list sl @ [c]" "array_cap sl \<le> array_cap sl'" .
  from on_sleepers_Ok[where m = "array_add ok c", OF assms(1) sl'(1)] sl'(2-) show thesis by (rule that)
qed

lemma zombies_add_ok:
  assumes "zombies s = Some z" "array_inv z" "length (array_list z) < thread_limit"
    and "ok \<or> length (array_list z) < array_cap z"
  obtains z' where "on_zombies (array_add ok c) s = Ok () (s\<lparr>zombies := Some z'\<rparr>)" "array_inv z'"
    "array_list z' = array_list z @ [c]" "array_cap z \<le> array_cap z'"
proof -
  have "int (length (array_list z)) + 1 < array_limit" using assms(3) by simp
  from arr.addE[OF assms(2,4) this, of c] obtain z' where z': "array_add ok c z = Ok () z'" "array_inv z'"
    "array_list z' = array_list z @ [c]" "array_cap z \<le> array_cap z'" .
  from on_zombies_Ok[where m = "array_add ok c", OF assms(1) z'(1)] z'(2-) show thesis by (rule that)
qed

text \<open>The state in which \<open>thread_sleep\<close> has put the running thread away.\<close>

lemma thread_sleep_put:
  assumes "tinv s" "curthread s = Some c" "nextid s \<le> thread_limit" "mem_ok s"
    and "curspl s > 0" "\<not> in_interrupt s"
  obtains s2 where "thread_sleep adr s = dispatch c s2" "tinv s2" "idle_ok s2" "curthread s2 = None" "c \<in> dom (threads s2)"
    "rdy s2 = rdy s" "slp s2 = slp s @ [c]" "zmb s2 = zmb s" "numthreads s2 = numthreads s" "nextid s2 = nextid s"
    "irqs s2 = irqs s" "curspl s2 = curspl s" "mem_left s s2" "vrefs s2 = vrefs s" "sleeps_on s2 adr c"
    "\<And>t. t \<noteq> c \<Longrightarrow> threads s2 t = threads s t" "calm s \<Longrightarrow> calm s2"
proof -
  note i = tinvD[OF assms(1)]
  have cl: "curl s = [c]" using assms(2) by (simp add: curl_def)
  then obtain x where x: "threads s c = Some x" "thread_ok x" using tinv_thread[OF assms(1), of c] by auto
  from i(1) obtain sl z q where st: "sleepers s = Some sl" "array_inv sl" "zombies s = Some z" "array_inv z"
    "runqueue s = Some q" "q_inv q" "slp s = array_list sl" "zmb s = array_list z" "rdy s = q_list q"
    by (rule structs_okE)
  let ?x = "x\<lparr>t_sleepaddr := adr\<rparr>"
  let ?s0 = "s\<lparr>threads := (threads s)(c \<mapsto> ?x)\<rparr>"
  let ?s1 = "?s0\<lparr>curthread := None, kmem := \<lambda>n. kmem s (Suc n)\<rparr>"
  have len: "length (array_list sl) < thread_limit"
    using tinv_length[OF assms(1)] assms(3) cl st(7) by simp
  have room: "kmem s 0 \<or> length (array_list sl) < array_cap sl"
    using assms(4) i(4) cl st(1,7) by (auto simp: mem_ok_def)
  have "sleepers ?s1 = Some sl" using st(1) by simp
  from sleepers_add_ok[OF this st(2) len room, of c] obtain sl' where sl':
    "on_sleepers (array_add (kmem s 0) c) ?s1 = Ok () (?s1\<lparr>sleepers := Some sl'\<rparr>)" "array_inv sl'"
    "array_list sl' = array_list sl @ [c]" "array_cap sl \<le> array_cap sl'" .
  let ?y = "?x\<lparr>t_frame := SwSleep\<rparr>"
  let ?s2 = "?s1\<lparr>sleepers := Some sl', threads := (threads s)(c \<mapsto> ?y)\<rparr>"
  have lists: "rdy ?s2 = rdy s" "slp ?s2 = slp s @ [c]" "zmb ?s2 = zmb s" "structs_ok ?s2"
    using st sl' by (auto simp: rdy_def slp_def zmb_def structs_ok_def)
  have t2: "tinv ?s2"
    by (rule tinv_move[OF assms(1,2), of _ ?y]) (use x lists in \<open>simp_all add: thread_ok_def\<close>)
  have idle: "idle_ok ?s2"
    by (rule tinv_idle_ok[OF t2]) (use assms(3,4,5) in \<open>auto simp: mem_ok_def\<close>)
  have "curthread ?s0 = Some c" "curspl ?s0 > 0" "threads ?s0 c = Some ?x" "thread_ok ?x"
    using assms(2,5) x by (simp_all add: thread_ok_def)
  note alt = mi_switch_alt[OF this, of S_SLEEP SwSleep]
  have "thread_sleep adr s = mi_switch S_SLEEP SwSleep ?s0"
    using assms(2,6) x by (simp add: thread_sleep_def)
  also have "\<dots> = dispatch c ?s2"
    unfolding alt using sl'(1) by (simp add: stash_def bind_def must_def t_put_def kmalloc_ok_def)
  finally have run: "thread_sleep adr s = dispatch c ?s2" .
  have "calm s \<Longrightarrow> calm ?s2" using x by (auto simp: calm_def)
  with run show thesis
    using t2 idle lists by (intro that[of ?s2]) (simp_all add: mem_left_def sleeps_on_def)
qed

lemma thread_sleep_ok:
  assumes "tinv s" "curthread s = Some c" "nextid s \<le> thread_limit" "mem_ok s"
    and "curspl s > 0" "\<not> in_interrupt s"
    and go: "rdy s \<noteq> [] \<or> (\<exists>a. Device a \<in> set (irqs s) \<and> (a = adr \<or> (\<exists>t \<in> set (slp s). sleeps_on s a t)))"
  obtains n s' m where "thread_sleep adr s = Ok () s'" "tinv s'" "curthread s' = Some n" "numthreads s' = numthreads s"
    "rdy s @ m = n # rdy s'" "mset (m @ slp s') = mset (slp s @ [c])"
    "rdy s \<noteq> [] \<Longrightarrow> m = [] \<and> slp s' = slp s @ [c] \<and> n \<noteq> c \<and> curspl s' = resume_spl (frame_of s n) (curspl s)"
proof -
  obtain s2 where
    s2: "thread_sleep adr s = dispatch c s2" "tinv s2" "idle_ok s2" "curthread s2 = None" "c \<in> dom (threads s2)"
    "rdy s2 = rdy s" "slp s2 = slp s @ [c]" "zmb s2 = zmb s" "numthreads s2 = numthreads s" "nextid s2 = nextid s"
    "irqs s2 = irqs s" "curspl s2 = curspl s" "mem_left s s2" "vrefs s2 = vrefs s" "sleeps_on s2 adr c"
    "\<And>t. t \<noteq> c \<Longrightarrow> threads s2 t = threads s t" by (rule thread_sleep_put[OF assms(1-6), of adr]) blast
  have notin: "c \<notin> set (slp s)" "c \<notin> set (rdy s)" using tinvD(2)[OF assms(1)] assms(2) by (auto simp: curl_def)
  have "wakeup_due s2"
  proof (cases "rdy s = []")
    case True
    with go obtain a where a: "Device a \<in> set (irqs s)" "a = adr \<or> (\<exists>t \<in> set (slp s). sleeps_on s a t)" by blast
    have "\<exists>t \<in> set (slp s2). sleeps_on s2 a t"
    proof (cases "a = adr")
      case True
      then show ?thesis using s2(7,15) by auto
    next
      case False
      with a(2) notin obtain t where "t \<in> set (slp s)" "sleeps_on s a t" "t \<noteq> c" by blast
      then have "t \<in> set (slp s2)" "sleeps_on s2 a t" using s2(7) s2(16)[of t] by (simp_all add: sleeps_on_def)
      then show ?thesis by blast
    qed
    with a(1) s2(11) show ?thesis by (auto simp: wakeup_due_def)
  qed (simp add: wakeup_due_def s2(6))
  from dispatch_ok[OF s2(2,4,3) wakeup_due_proceeds[OF s2(3) this] s2(5)] obtain n s' where
    d: "dispatch c s2 = Ok () s'" "switched s2 n s'" .
  obtain m where m: "rdy s @ m = n # rdy s'" "mset (m @ slp s') = mset (slp s @ [c])"
    using d(2) s2(6,7) unfolding switched_def by auto
  have sw: "tinv s'" "curthread s' = Some n" "numthreads s' = numthreads s"
    "curspl s' = resume_spl (frame_of s2 n) (curspl s)"
    "rdy s \<noteq> [] \<longrightarrow> rdy s = n # rdy s' \<and> slp s' = slp s @ [c]"
    using d(2) s2 by (simp_all add: switched_def)
  show thesis
  proof (rule that[OF _ sw(1-3) m])
    show "thread_sleep adr s = Ok () s'" using s2(1) d(1) by simp
    assume r: "rdy s \<noteq> []"
    then have "rdy s = n # rdy s'" "slp s' = slp s @ [c]" using sw(5) by blast+
    moreover from this have "n \<noteq> c" using notin(2) by auto
    ultimately show "m = [] \<and> slp s' = slp s @ [c] \<and> n \<noteq> c \<and> curspl s' = resume_spl (frame_of s n) (curspl s)"
      using m(1) sw(4) s2(16)[of n] by (simp add: frame_of_def)
  qed
qed

lemma thread_exit_run:
  assumes "curthread s = Some c" "threads s c = Some x" "thread_ok x" "numthreads s > 0"
  shows "thread_exit s = mi_switch S_ZOMB SwExit
    (s\<lparr>iec := False, curspl := SPL_HIGH,
       threads := (threads s)(c \<mapsto> x\<lparr>t_vmspace := None, t_cwd := None\<rparr>),
       dead_as := (case t_vmspace x of None \<Rightarrow> dead_as s | Some a \<Rightarrow> a # dead_as s),
       vrefs := (\<lambda>v. vrefs s v - (if t_cwd x = Some v then 1 else 0)),
       numthreads := numthreads s - 1\<rparr>)"
proof -
  have upd: "(f :: tid \<Rightarrow> thread option) c = Some x \<Longrightarrow> f(c \<mapsto> x) = f" for f by (simp add: fun_upd_idem)
  have same: "t_vmspace x = None \<Longrightarrow> x\<lparr>t_vmspace := None\<rparr> = x" "t_cwd x = None \<Longrightarrow> x\<lparr>t_cwd := None\<rparr> = x"
    by simp_all
  show ?thesis
    using assms
    by (cases s; cases "t_vmspace x"; cases "t_cwd x")
      (auto simp: thread_exit_def bind_check_magic splhigh_def SPL_HIGH_def bind_assoc VOP_DECREF_def same upd
        fun_eq_iff intro!: arg_cong[where f = "mi_switch S_ZOMB SwExit"])
qed

text \<open>The state in which \<open>thread_exit\<close> has put the running thread away.\<close>

lemma thread_exit_put:
  assumes "tinv s" "curthread s = Some c" "nextid s \<le> thread_limit" "mem_ok s"
  obtains s2 where "thread_exit s = dispatch c s2" "tinv s2" "idle_ok s2" "curthread s2 = None" "c \<in> dom (threads s2)"
    "rdy s2 = rdy s" "slp s2 = slp s" "zmb s2 = zmb s @ [c]" "numthreads s2 = numthreads s - 1" "nextid s2 = nextid s"
    "irqs s2 = irqs s" "mem_left s s2"
    "\<And>v. vrefs s2 v = vrefs s v - (if t_cwd (the (threads s c)) = Some v then 1 else 0)"
    "\<And>t. t \<noteq> c \<Longrightarrow> threads s2 t = threads s t" "calm s \<Longrightarrow> calm s2"
proof -
  note i = tinvD[OF assms(1)]
  have cl: "curl s = [c]" using assms(2) by (simp add: curl_def)
  then obtain x where x: "threads s c = Some x" "thread_ok x" using tinv_thread[OF assms(1), of c] by auto
  from i(1) obtain sl z q where st: "sleepers s = Some sl" "array_inv sl" "zombies s = Some z" "array_inv z"
    "runqueue s = Some q" "q_inv q" "slp s = array_list sl" "zmb s = array_list z" "rdy s = q_list q"
    by (rule structs_okE)
  let ?x = "x\<lparr>t_vmspace := None, t_cwd := None\<rparr>"
  let ?vr = "\<lambda>v. vrefs s v - (if t_cwd x = Some v then 1 else 0)"
  let ?da = "(case t_vmspace x of None \<Rightarrow> dead_as s | Some a \<Rightarrow> a # dead_as s)"
  define s0 where "s0 = s\<lparr>iec := False, curspl := SPL_HIGH, threads := (threads s)(c \<mapsto> ?x), dead_as := ?da,
      vrefs := ?vr, numthreads := numthreads s - 1\<rparr>"
  have f0: "curthread s0 = Some c" "curspl s0 > 0" "threads s0 c = Some ?x" "thread_ok ?x"
    using assms(2) x by (simp_all add: s0_def SPL_HIGH_def thread_ok_def)
  have "numthreads s > 0" using i(4) cl by simp
  note run0 = thread_exit_run[OF assms(2) x this, folded s0_def]
  let ?s1 = "s0\<lparr>curthread := None, kmem := \<lambda>n. kmem s (Suc n)\<rparr>"
  have len: "length (array_list z) < thread_limit" using tinv_length[OF assms(1)] assms(3) cl st(8) by simp
  have room: "kmem s 0 \<or> length (array_list z) < array_cap z" using assms(4) st(3,8) by (auto simp: mem_ok_def)
  have "zombies ?s1 = Some z" using st(3) by (simp add: s0_def)
  from zombies_add_ok[OF this st(4) len room, of c] obtain z' where z':
    "on_zombies (array_add (kmem s 0) c) ?s1 = Ok () (?s1\<lparr>zombies := Some z'\<rparr>)" "array_inv z'"
    "array_list z' = array_list z @ [c]" "array_cap z \<le> array_cap z'" .
  let ?y = "?x\<lparr>t_frame := SwExit\<rparr>"
  define s2 where "s2 = ?s1\<lparr>zombies := Some z', threads := (threads s0)(c \<mapsto> ?y)\<rparr>"
  have lists: "rdy s2 = rdy s" "slp s2 = slp s" "zmb s2 = zmb s @ [c]" "structs_ok s2"
    using st z' by (auto simp: rdy_def slp_def zmb_def structs_ok_def s0_def s2_def)
  have f2: "curthread s2 = None" "nextid s2 = nextid s" "threads s2 = (threads s)(c \<mapsto> ?y)" "curspl s2 > 0"
    "numthreads s2 = numthreads s - 1" "irqs s2 = irqs s" "vrefs s2 = ?vr" "c \<in> dom (threads s2)"
    "runqueue s2 = runqueue s" "kmem s2 = (\<lambda>n. kmem s (Suc n))"
    by (simp_all add: s2_def s0_def SPL_HIGH_def)
  have t2: "tinv s2"
    by (rule tinv_move[OF assms(1,2), of _ ?y]) (use x lists f2 in \<open>simp_all add: thread_ok_def\<close>)
  have idle: "idle_ok s2"
    by (rule tinv_idle_ok[OF t2]) (use assms(3,4) f2 in \<open>auto simp: mem_ok_def\<close>)
  have "thread_exit s = dispatch c s2"
    unfolding run0 mi_switch_alt[OF f0, of S_ZOMB SwExit] using z'(1) f0(3)
    by (simp add: stash_def bind_def must_def t_put_def kmalloc_ok_def s2_def s0_def)
  moreover have "calm s \<Longrightarrow> calm s2" using x by (auto simp: calm_def s2_def s0_def)
  ultimately show thesis
    using t2 idle lists f2 x by (intro that[of s2]) (simp_all add: mem_left_def)
qed

lemma thread_exit_ok:
  assumes "tinv s" "curthread s = Some c" "nextid s \<le> thread_limit" "mem_ok s" "wakeup_due s"
  obtains n s' where "thread_exit s = Ok () s'" "tinv s'" "curthread s' = Some n"
    "numthreads s' = numthreads s - 1" "n \<noteq> c"
    "rdy s \<noteq> [] \<Longrightarrow> rdy s = n # rdy s' \<and> slp s' = slp s"
    "zmb s' = resume_zmb (frame_of s n) (zmb s @ [c])"
    "\<And>v. vrefs s' v = vrefs s v - (if t_cwd (the (threads s c)) = Some v then 1 else 0)"
proof -
  obtain s2 where s2: "thread_exit s = dispatch c s2" "tinv s2" "idle_ok s2"
    "curthread s2 = None" "c \<in> dom (threads s2)"
    "rdy s2 = rdy s" "slp s2 = slp s" "zmb s2 = zmb s @ [c]" "numthreads s2 = numthreads s - 1" "nextid s2 = nextid s"
    "irqs s2 = irqs s" "mem_left s s2"
    "\<And>v. vrefs s2 v = vrefs s v - (if t_cwd (the (threads s c)) = Some v then 1 else 0)"
    "\<And>t. t \<noteq> c \<Longrightarrow> threads s2 t = threads s t" by (rule thread_exit_put[OF assms(1-4)]) blast
  have notin: "c \<notin> set (slp s)" "c \<notin> set (rdy s)" using tinvD(2)[OF assms(1)] assms(2) by (auto simp: curl_def)
  have "sleeps_on s2 a t = sleeps_on s a t" if "t \<in> set (slp s)" for a t
    using that notin(1) s2(14)[of t] unfolding sleeps_on_def by metis
  then have "wakeup_due s2" using assms(5) s2(6,7,11) unfolding wakeup_due_def by auto
  from dispatch_ok[OF s2(2,4,3) wakeup_due_proceeds[OF s2(3) this] s2(5)] obtain n s' where
    d: "dispatch c s2 = Ok () s'" "switched s2 n s'" .
  obtain m where m: "rdy s @ m = n # rdy s'" "mset (m @ slp s') = mset (slp s)"
    using d(2) s2(6,7) unfolding switched_def by auto
  have "n \<in> set (rdy s @ m)" unfolding m(1) by simp
  moreover have "set m \<subseteq> set (slp s)" using mset_eq_setD[OF m(2)] by auto
  ultimately have "n \<noteq> c" using notin by auto
  then have fr: "frame_of s2 n = frame_of s n" using s2(14)[of n] by (simp add: frame_of_def)
  have sw: "tinv s'" "curthread s' = Some n" "numthreads s' = numthreads s - 1" "vrefs s' = vrefs s2"
    "zmb s' = resume_zmb (frame_of s n) (zmb s @ [c])"
    "rdy s \<noteq> [] \<longrightarrow> rdy s = n # rdy s' \<and> slp s' = slp s"
    using d(2) s2 fr by (simp_all add: switched_def)
  have run: "thread_exit s = Ok () s'" using s2(1) d(1) by simp
  show thesis
    by (rule that[OF run sw(1-3) \<open>n \<noteq> c\<close> sw(6)[rule_format] sw(5)]) (simp_all add: sw(4) s2(13))
qed

text \<open>
  If nothing wakes anybody up, the processor idles and no thread runs again; whenever a switch
  does complete, the invariant holds.
\<close>

lemma dispatch_Ok_switched:
  assumes "tinv s" "curthread s = None" "idle_ok s" "c \<in> dom (threads s)" "dispatch c s = Ok () s'"
  obtains n where "switched s n s'"
proof (cases "can_proceed s")
  case True
  from dispatch_ok[OF assms(1-3) True assms(4)] assms(5) that show thesis by auto
next
  case False
  with scheduler_stuck[OF assms(3)] assms(5) show thesis by (auto simp: dispatch_def bind_def)
qed

text \<open>A switch that does not come back has found no thread to run and no interrupt to wait for.\<close>

abbreviation idle_forever :: string where "idle_forever \<equiv> ''idle: no further interrupt''"

lemma scheduler_loop_panic:
  "scheduler_loop k s = Panic p \<Longrightarrow> idle_ok s \<Longrightarrow> k \<le> length (irqs s) \<Longrightarrow> p = idle_forever"
proof (induction k arbitrary: s)
  case 0
  then have "structs_ok s" by (simp add: idle_ok_def)
  with 0 show ?case by (cases "rdy s = []") (simp_all add: bind_def runqueue_empty)
next
  case (Suc k)
  then have st: "structs_ok s" by (simp add: idle_ok_def)
  show ?case
  proof (cases "rdy s = []")
    case False
    then show ?thesis using Suc.prems(1) scheduler_loop_ready[OF st False, of "Suc k"] by simp
  next
    case True
    from Suc.prems(3) have "k < length (irqs s)" by simp
    from scheduler_loop_Suc[OF Suc.prems(2) True this] obtain s1 where
      s1: "scheduler_loop (Suc k) s = scheduler_loop k s1" "idle_rel s s1" "irqs s1 = tl (irqs s)" by blast
    show ?thesis
      by (rule Suc.IH[of s1]) (use Suc.prems s1 idle_rel_ok[OF Suc.prems(2) s1(2)] in simp_all)
  qed
qed

lemma dispatch_panic:
  assumes "tinv s" "curthread s = None" "idle_ok s" "c \<in> dom (threads s)"
  shows "dispatch c s = Panic p \<Longrightarrow> p = idle_forever" "dispatch c s \<noteq> Err e s'"
proof -
  have "(\<exists>s'. dispatch c s = Ok () s') \<or> dispatch c s = Panic idle_forever"
  proof (cases "can_proceed s")
    case True
    then show ?thesis using dispatch_ok[OF assms(1-3) True assms(4)] by blast
  next
    case False
    then obtain q where q: "scheduler_loop (length (irqs s)) s = Panic q"
      using scheduler_loop_no_err[OF assms(3) order_refl] unfolding can_proceed_def
      by (cases "scheduler_loop (length (irqs s)) s") auto
    then show ?thesis using scheduler_loop_panic[OF q assms(3)] assms(3)
      by (auto simp: dispatch_def scheduler_def bind_def idle_ok_def)
  qed
  then show "dispatch c s = Panic p \<Longrightarrow> p = idle_forever" "dispatch c s \<noteq> Err e s'" by auto
qed

end
