(* ===== verification/Thread_Fork.thy ===== *)
theory Thread_Fork
  imports Thread_Props
begin

text \<open>
  \<open>thread_fork\<close>: it adds one ready thread and reserves memory for the three lists, or it returns
  \<open>ENOMEM\<close> and leaves every thread as it was. How far the reservation carries is the subject of
  the last section.
\<close>

section \<open>Reserving space\<close>

text \<open>\<open>bufs_only s s'\<close>: the lists hold what they held, in buffers at least as large.\<close>

definition bufs_only :: "tsys \<Rightarrow> tsys \<Rightarrow> bool" where
  "bufs_only s s' \<longleftrightarrow> threads s' = threads s \<and> nextid s' = nextid s \<and> curthread s' = curthread s \<and>
     numthreads s' = numthreads s \<and> curspl s' = curspl s \<and> iec s' = iec s \<and>
     in_interrupt s' = in_interrupt s \<and> irqs s' = irqs s \<and>
     vrefs s' = vrefs s \<and> active_as s' = active_as s \<and> dead_as s' = dead_as s \<and>
     structs_ok s' \<and> rdy s' = rdy s \<and> slp s' = slp s \<and> zmb s' = zmb s \<and> mem_left s s' \<and>
     array_cap (the (sleepers s)) \<le> array_cap (the (sleepers s')) \<and>
     array_cap (the (zombies s)) \<le> array_cap (the (zombies s')) \<and>
     q_cap (the (runqueue s)) \<le> q_cap (the (runqueue s'))"

lemma bufs_only_trans: "bufs_only s t \<Longrightarrow> bufs_only t u \<Longrightarrow> bufs_only s u"
  unfolding bufs_only_def mem_left_def by (elim conjE, intro conjI) (simp_all, metis order_trans)+

lemma wp_reserve_sleepers:
  assumes "structs_ok s" "n < array_limit"
  shows "wp (bind kmalloc_ok (\<lambda>ok. on_sleepers (array_preallocate ok n)))
     (\<lambda>_ s'. bufs_only s s' \<and> nat n \<le> array_cap (the (sleepers s')) \<and> runqueue s' = runqueue s)
     (\<lambda>e s'. e = ENOMEM \<and> bufs_only s s' \<and> \<not> (\<forall>n. kmem s n)) s"
proof -
  from assms(1) obtain sl z q where st: "sleepers s = Some sl" "array_inv sl" "zombies s = Some z" "array_inv z"
    "runqueue s = Some q" "q_inv q" "slp s = array_list sl" "zmb s = array_list z" "rdy s = q_list q"
    by (rule structs_okE)
  have "wp (on_sleepers (array_preallocate (kmem s 0) n))
     (\<lambda>_ s'. bufs_only s s' \<and> nat n \<le> array_cap (the (sleepers s')) \<and> runqueue s' = runqueue s)
     (\<lambda>e s'. e = ENOMEM \<and> bufs_only s s' \<and> \<not> (\<forall>n. kmem s n)) (s\<lparr>kmem := \<lambda>n. kmem s (Suc n)\<rparr>)"
    unfolding on_sleepers_def wp_deref
    using st by (simp, intro wp_mono[OF arr.reserve[OF st(2) assms(2)]])
      (auto simp: bufs_only_def mem_left_def structs_ok_def rdy_def slp_def zmb_def)
  then show ?thesis by (simp add: wp_def bind_def kmalloc_ok_def)
qed

lemma wp_reserve_zombies:
  assumes "structs_ok s" "n < array_limit"
  shows "wp (bind kmalloc_ok (\<lambda>ok. on_zombies (array_preallocate ok n)))
     (\<lambda>_ s'. bufs_only s s' \<and> nat n \<le> array_cap (the (zombies s')) \<and> runqueue s' = runqueue s)
     (\<lambda>e s'. e = ENOMEM \<and> bufs_only s s' \<and> \<not> (\<forall>n. kmem s n)) s"
proof -
  from assms(1) obtain sl z q where st: "sleepers s = Some sl" "array_inv sl" "zombies s = Some z" "array_inv z"
    "runqueue s = Some q" "q_inv q" "slp s = array_list sl" "zmb s = array_list z" "rdy s = q_list q"
    by (rule structs_okE)
  have "wp (on_zombies (array_preallocate (kmem s 0) n))
     (\<lambda>_ s'. bufs_only s s' \<and> nat n \<le> array_cap (the (zombies s')) \<and> runqueue s' = runqueue s)
     (\<lambda>e s'. e = ENOMEM \<and> bufs_only s s' \<and> \<not> (\<forall>n. kmem s n)) (s\<lparr>kmem := \<lambda>n. kmem s (Suc n)\<rparr>)"
    unfolding on_zombies_def wp_deref
    using st by (simp, intro wp_mono[OF arr.reserve[OF st(4) assms(2)]])
      (auto simp: bufs_only_def mem_left_def structs_ok_def rdy_def slp_def zmb_def)
  then show ?thesis by (simp add: wp_def bind_def kmalloc_ok_def)
qed

lemma wp_scheduler_preallocate:
  assumes "structs_ok s" "n < 2 ^ 29" "curspl s > 0"
  shows "wp (scheduler_preallocate n)
     (\<lambda>_ s'. bufs_only s s' \<and> nat n \<le> Suc (q_cap (the (runqueue s'))) \<and> sleepers s' = sleepers s \<and> zombies s' = zombies s \<and>
        (nat n \<le> Suc (q_cap (the (runqueue s))) \<longrightarrow> runqueue s' = runqueue s))
     (\<lambda>e s'. e = ENOMEM \<and> bufs_only s s' \<and> \<not> (\<forall>n. kmem s n)) s"
proof -
  from assms(1) obtain sl z q where st: "sleepers s = Some sl" "array_inv sl" "zombies s = Some z" "array_inv z"
    "runqueue s = Some q" "q_inv q" "slp s = array_list sl" "zmb s = array_list z" "rdy s = q_list q"
    by (rule structs_okE)
  have n: "nat n < 2 ^ 29" using assms(2) by simp
  have "wp (on_runqueue (q_preallocate (kmem s 0) (nat n)))
     (\<lambda>_ s'. bufs_only s s' \<and> nat n \<le> Suc (q_cap (the (runqueue s'))) \<and> sleepers s' = sleepers s \<and> zombies s' = zombies s \<and>
        (nat n \<le> Suc (q_cap (the (runqueue s))) \<longrightarrow> runqueue s' = runqueue s))
     (\<lambda>e s'. e = ENOMEM \<and> bufs_only s s' \<and> \<not> (\<forall>n. kmem s n)) (s\<lparr>kmem := \<lambda>n. kmem s (Suc n)\<rparr>)"
    unfolding on_runqueue_def wp_deref
    using st by (simp, intro wp_mono[OF rq.reserve[OF st(6) n]])
      (auto simp: bufs_only_def mem_left_def structs_ok_def rdy_def slp_def zmb_def)
  then show ?thesis using assms(3) by (simp add: wp_def scheduler_preallocate_def)
qed

text \<open>What the section of \<open>thread_fork\<close> with interrupts off achieves for the new thread \<open>t\<close>.\<close>

definition enqueued :: "tsys \<Rightarrow> tid \<Rightarrow> tsys \<Rightarrow> bool" where
  "enqueued s t s' \<longleftrightarrow> threads s' = threads s \<and> nextid s' = nextid s \<and> curthread s' = curthread s \<and>
     curspl s' = curspl s \<and> iec s' = iec s \<and> in_interrupt s' = in_interrupt s \<and> vrefs s' = vrefs s \<and> mem_left s s' \<and>
     structs_ok s' \<and> rdy s' = rdy s @ [t] \<and> slp s' = slp s \<and> zmb s' = zmb s \<and>
     numthreads s' = numthreads s + 1 \<and>
     numthreads s' \<le> int (array_cap (the (sleepers s'))) \<and>
     numthreads s' \<le> int (array_cap (the (zombies s'))) \<and>
     numthreads s' \<le> int (q_cap (the (runqueue s'))) + 1 \<and>
     (numthreads s' \<le> int (q_cap (the (runqueue s))) + 1 \<longrightarrow>
        q_cap (the (runqueue s')) = q_cap (the (runqueue s)))"

lemma wp_thread_fork_enqueue:
  assumes "structs_ok s" "curspl s > 0" "int (length (rdy s)) < numthreads s" "numthreads s < 2 ^ 28"
  shows "wp (thread_fork_enqueue t) (\<lambda>_ s'. enqueued s t s')
     (\<lambda>e s'. e = ENOMEM \<and> bufs_only s s' \<and> \<not> (\<forall>n. kmem s n)) s" (is "wp _ ?Q ?E s")
proof -
  let ?n = "numthreads s + 1"
  have lim: "?n < array_limit" "?n < 2 ^ 29" using assms(4) by simp_all
  have eq: "thread_fork_enqueue t s =
    bind (bind kmalloc_ok (\<lambda>ok. on_sleepers (array_preallocate ok ?n))) (\<lambda>_.
    bind (bind kmalloc_ok (\<lambda>ok. on_zombies (array_preallocate ok ?n))) (\<lambda>_.
    bind (scheduler_preallocate ?n) (\<lambda>_.
    bind (make_runnable t) (\<lambda>_. modify (\<lambda>s. s\<lparr>numthreads := numthreads s + 1\<rparr>))))) s"
    by (simp add: thread_fork_enqueue_def bind_assoc)
  have "wp (bind (bind kmalloc_ok (\<lambda>ok. on_sleepers (array_preallocate ok ?n))) (\<lambda>_.
    bind (bind kmalloc_ok (\<lambda>ok. on_zombies (array_preallocate ok ?n))) (\<lambda>_.
    bind (scheduler_preallocate ?n) (\<lambda>_.
    bind (make_runnable t) (\<lambda>_. modify (\<lambda>s. s\<lparr>numthreads := numthreads s + 1\<rparr>)))))) ?Q ?E s"
    unfolding wp_bind[of "bind kmalloc_ok (\<lambda>ok. on_sleepers (array_preallocate ok ?n))"]
  proof (rule wp_mono[OF wp_reserve_sleepers[OF assms(1) lim(1)]], goal_cases)
    case (1 u s1)
    then have b1: "bufs_only s s1" and c1: "nat ?n \<le> array_cap (the (sleepers s1))" "runqueue s1 = runqueue s" by auto
    then have st1: "structs_ok s1" and m1: "mem_left s s1" by (simp_all add: bufs_only_def)
    show ?case
      unfolding wp_bind[of "bind kmalloc_ok (\<lambda>ok. on_zombies (array_preallocate ok ?n))"]
    proof (rule wp_mono[OF wp_reserve_zombies[OF st1 lim(1)]], goal_cases)
      case (1 u s2)
      then have b2: "bufs_only s1 s2" and c2: "nat ?n \<le> array_cap (the (zombies s2))" "runqueue s2 = runqueue s1" by auto
      then have st2: "structs_ok s2" and m2: "mem_left s1 s2" by (simp_all add: bufs_only_def)
      have spl2: "curspl s2 > 0" using b1 b2 assms(2) by (simp add: bufs_only_def)
      show ?case
        unfolding wp_bind[of "scheduler_preallocate ?n"]
      proof (rule wp_mono[OF wp_scheduler_preallocate[OF st2 lim(2) spl2]], goal_cases)
        case (1 u s3)
        then have b3: "bufs_only s2 s3" and c3: "nat ?n \<le> Suc (q_cap (the (runqueue s3)))"
          "sleepers s3 = sleepers s2" "zombies s3 = zombies s2"
          "nat ?n \<le> Suc (q_cap (the (runqueue s2))) \<longrightarrow> runqueue s3 = runqueue s2" by auto
        have b: "bufs_only s s3" using b1 b2 b3 bufs_only_trans by blast
        then have st3: "structs_ok s3" and spl3: "curspl s3 > 0" and r3: "rdy s3 = rdy s"
          using assms(2) by (simp_all add: bufs_only_def)
        from st3 obtain q where q: "runqueue s3 = Some q" "q_inv q" "rdy s3 = q_list q" by (rule structs_okE)
        have room: "length (q_list q) < q_cap q" using c3(1) assms(3) r3 q by simp
        have len: "length (q_list q) < thread_limit" using assms(3,4) r3 q(3) by simp
        from make_runnable_ok[OF q(1,2) spl3 len disjI2[OF room], of t] obtain s4 q' where
          s4: "make_runnable t s3 = Ok () s4" "lists_only s3 s4" "sleepers s4 = sleepers s3"
            "kmem s4 = (\<lambda>n. kmem s3 (Suc n))" "runqueue s4 = Some q'"
            "q_inv q'" "q_list q' = q_list q @ [t]" "q_cap q \<le> q_cap q'"
            "length (q_list q) < q_cap q \<longrightarrow> q_cap q' = q_cap q" .
        have "array_cap (the (sleepers s1)) \<le> array_cap (the (sleepers s3))"
          using b2 c3(2) by (simp add: bufs_only_def)
        moreover have "q_cap q = q_cap (the (runqueue s))" if "?n \<le> int (q_cap (the (runqueue s))) + 1"
        proof -
          have "nat ?n \<le> Suc (q_cap (the (runqueue s2)))" using that c1(2) c2(2) by simp
          then show ?thesis using c1(2) c2(2) c3(4) q(1) by (metis option.sel)
        qed
        moreover have "structs_ok s4"
          using st3 s4 by (auto simp: structs_ok_def lists_only_def)
        ultimately have "enqueued s t (s4\<lparr>numthreads := numthreads s4 + 1\<rparr>)"
          using b s4 c1 c2 c3 room q(1) r3 q(3)
          by (auto simp: enqueued_def bufs_only_def lists_only_def mem_left_def structs_ok_def rdy_def slp_def zmb_def)
        then show ?case using s4(1) by (simp add: wp_def bind_def)
      next
        case 2
        then show ?case using b1 b2 bufs_only_trans m1 m2 unfolding mem_left_def by blast
      qed
    next
      case 2
      then show ?case using b1 bufs_only_trans m1 unfolding mem_left_def by blast
    qed
  qed auto
  then show ?thesis using eq by (simp add: wp_def)
qed

section \<open>The whole of \<open>thread_fork\<close>\<close>

definition forked :: "tsys \<Rightarrow> nat \<Rightarrow> nat \<Rightarrow> nat \<Rightarrow> tid \<Rightarrow> tsys \<Rightarrow> bool" where
  "forked s data1 data2 func t s' \<longleftrightarrow> tinv s' \<and> t = nextid s \<and> nextid s' = nextid s + 1 \<and>
     curthread s' = curthread s \<and> curspl s' = curspl s \<and> mem_left s s' \<and>
     rdy s' = rdy s @ [t] \<and> slp s' = slp s \<and> zmb s' = zmb s \<and> frame_of s' t = SwStart data1 data2 func \<and>
     (\<forall>u \<in> dom (threads s). threads s' u = threads s u) \<and> (calm s \<longrightarrow> calm s') \<and>
     numthreads s' = numthreads s + 1 \<and>
     numthreads s' \<le> int (array_cap (the (sleepers s'))) \<and>
     numthreads s' \<le> int (array_cap (the (zombies s'))) \<and>
     numthreads s' \<le> int (q_cap (the (runqueue s'))) + 1 \<and>
     (numthreads s' \<le> int (q_cap (the (runqueue s))) + 1 \<longrightarrow>
        q_cap (the (runqueue s')) = q_cap (the (runqueue s)))"

definition unforked :: "tsys \<Rightarrow> tsys \<Rightarrow> bool" where
  "unforked s s' \<longleftrightarrow> tinv s' \<and> threads s' = threads s \<and> curthread s' = curthread s \<and> curspl s' = curspl s \<and>
     rdy s' = rdy s \<and> slp s' = slp s \<and> zmb s' = zmb s \<and> numthreads s' = numthreads s \<and> vrefs s' = vrefs s"

lemma tinv_nextid:
  assumes "tinv s" "nextid s \<le> nextid s'" "threads s' = threads s" "curthread s' = curthread s"
    "structs_ok s'" "rdy s' = rdy s" "slp s' = slp s" "zmb s' = zmb s" "numthreads s' = numthreads s"
  shows "tinv s'"
proof -
  have "curl s' = curl s" using assms(4) by (simp add: curl_def)
  then show ?thesis
    using tinvD[OF assms(1)] assms(2-) by (intro tinvI) (auto simp: frame_of_def dest!: less_le_trans)
qed

lemma tinv_fresh: "tinv s \<Longrightarrow> threads s (nextid s) = None"
  using tinvD(5)[of s "nextid s"] by (cases "threads s (nextid s)") auto

lemma tinv_fork:
  assumes "tinv s" "t = nextid s" "nextid s' = nextid s + 1" "threads s' = (threads s)(t \<mapsto> y)" "thread_ok y"
    "t_frame y \<noteq> SwExit" "curthread s' = curthread s" "structs_ok s'" "rdy s' = rdy s @ [t]" "slp s' = slp s"
    "zmb s' = zmb s" "numthreads s' = numthreads s + 1"
  shows "tinv s'"
proof -
  note i = tinvD[OF assms(1)]
  have cl: "curl s' = curl s" using assms(7) by (simp add: curl_def)
  have fresh: "t \<notin> dom (threads s)" using tinv_fresh[OF assms(1)] assms(2) by auto
  then have notin: "t \<notin> set (curl s @ rdy s @ slp s @ zmb s)" using i(3) by simp
  have fr: "frame_of s' u = frame_of s u" "threads s' u = threads s u" if "u \<noteq> t" for u
    using that assms(4) by (simp_all add: frame_of_def)
  show ?thesis
  proof (rule tinvI)
    show "distinct (curl s' @ rdy s' @ slp s' @ zmb s')" using i(2) notin assms(9-11) cl by auto
    show "set (curl s' @ rdy s' @ slp s' @ zmb s') = dom (threads s')"
      using i(3) assms(4,9-11) cl by auto
    show "numthreads s' = int (length (curl s' @ rdy s' @ slp s'))" using i(4) assms(9,10,12) cl by simp
    show "thread_ok x \<and> u < nextid s'" if "threads s' u = Some x" for u x
      using that i(5)[of u x] assms(2-5) by (auto split: if_splits)
    show "frame_of s' u \<noteq> SwExit" if "u \<in> set (rdy s')" for u
      using that i(6)[of u] assms(4,6,9) fr[of u] by (cases "u = t") (auto simp: frame_of_def)
    show "frame_of s' u = SwSleep" if "u \<in> set (slp s')" for u
      using that i(7)[of u] assms(10) fr[of u] notin by (cases "u = t") auto
    show "t_vmspace (the (threads s' u)) = None \<and> t_cwd (the (threads s' u)) = None" if "u \<in> set (zmb s')" for u
      using that i(8)[of u] assms(11) fr[of u] notin by (cases "u = t") auto
  qed (fact assms(8))
qed

text \<open>The state in which \<open>thread_fork\<close> turns interrupts off, with the new thread in the heap.\<close>

definition fork_prep :: "tsys \<Rightarrow> thread \<Rightarrow> string \<Rightarrow> nat \<Rightarrow> nat \<Rightarrow> nat \<Rightarrow> tsys" where
  "fork_prep s cx name data1 data2 func = s\<lparr>iec := False, curspl := SPL_HIGH, nextid := nextid s + 1,
     kmem := (\<lambda>n. kmem s (Suc (Suc (Suc n)))),
     vrefs := (\<lambda>v. vrefs s v + (if t_cwd cx = Some v then 1 else 0)),
     threads := (threads s)(nextid s \<mapsto> \<lparr>t_frame = SwStart data1 data2 func, t_ininterrupt = False, t_name = name,
       t_sleepaddr = NULL, t_stack = Some stack_magic, t_vmspace = None, t_cwd = t_cwd cx\<rparr>)\<rparr>"

lemma thread_fork_run:
  assumes "kmem s 0" "kmem s 1" "kmem s 2" "curthread s = Some c" "threads s c = Some cx" "c \<noteq> nextid s"
  shows "thread_fork name data1 data2 func s =
    bind (attempt (thread_fork_enqueue (nextid s))) (thread_fork_finish (nextid s) (curspl s))
    (fork_prep s cx name data1 data2 func)"
proof -
  have mem: "kmem s (Suc 0)" "kmem s (Suc (Suc 0))" using assms(2,3) by (simp_all add: numeral_2_eq_2)
  have create: "bind (thread_create name) f s = f (Some (nextid s)) (s\<lparr>kmem := (\<lambda>n. kmem s (Suc (Suc n))),
      threads := (threads s)(nextid s \<mapsto> \<lparr>t_frame = SwExit, t_ininterrupt = False, t_name = name, t_sleepaddr = NULL,
             t_stack = None, t_vmspace = None, t_cwd = None\<rparr>), nextid := nextid s + 1\<rparr>)" for f :: "tid option \<Rightarrow> (tid, tsys) kmon"
    using assms(1) mem by (simp add: thread_create_def bind_def kmalloc_ok_def)
  have vr: "(f :: nat \<Rightarrow> int)(v := f v + 1) = (\<lambda>w. f w + (if v = w then 1 else 0))" for f v
    by auto
  show ?thesis
    using assms(1,4-) mem unfolding thread_fork_def create
    by (cases s; cases "t_cwd cx")
      (simp_all add: bind_assoc fork_prep_def VOP_INCREF_def splhigh_def SPL_HIGH_def vr)
qed

lemma thread_fork_nomem:
  assumes "tinv s" "\<not> (kmem s 0 \<and> kmem s 1 \<and> kmem s 2)"
  obtains km k where "thread_fork name data1 data2 func s = Err ENOMEM (s\<lparr>kmem := km, nextid := k\<rparr>)" "nextid s \<le> k"
proof -
  have two: "kmem s 2 = kmem s (Suc (Suc 0))" by (simp add: numeral_2_eq_2)
  note fresh = tinv_fresh[OF assms(1)]
  have upd: "(f :: tid \<Rightarrow> thread option) t = None \<Longrightarrow> f(t := None) = f" for f t by auto
  consider "\<not> kmem s 0" | "kmem s 0" "\<not> kmem s 1" | "kmem s 0" "kmem s 1" "\<not> kmem s (Suc (Suc 0))"
    using assms(2) two by blast
  then show thesis
  proof cases
    case 1
    then show thesis
      by (intro that[where km = "\<lambda>n. kmem s (Suc n)" and k = "nextid s"]) (cases s, simp_all add: thread_fork_def thread_create_def bind_assoc)
  next
    case 2
    then show thesis
      by (intro that[where km = "\<lambda>n. kmem s (Suc (Suc n))" and k = "nextid s"]) (cases s, simp_all add: thread_fork_def thread_create_def bind_assoc)
  next
    case 3
    then show thesis using fresh
      by (intro that[where km = "\<lambda>n. kmem s (Suc (Suc (Suc n)))" and k = "nextid s + 1"])
        (cases s, simp_all add: thread_fork_def thread_create_def bind_assoc bind_def kmalloc_ok_def upd)
  qed
qed

lemma wp_thread_fork:
  assumes "tinv s" "curthread s = Some c" "nextid s < thread_limit"
  shows "wp (thread_fork name data1 data2 func) (forked s data1 data2 func)
     (\<lambda>e s'. e = ENOMEM \<and> unforked s s' \<and> \<not> (\<forall>n. kmem s n)) s"
proof (cases "kmem s 0 \<and> kmem s 1 \<and> kmem s 2")
  case False
  from thread_fork_nomem[OF assms(1) this] obtain km k where
    e: "thread_fork name data1 data2 func s = Err ENOMEM (s\<lparr>kmem := km, nextid := k\<rparr>)" "nextid s \<le> k" .
  have "structs_ok s" using tinvD(1)[OF assms(1)] .
  then have "unforked s (s\<lparr>kmem := km, nextid := k\<rparr>)"
    using tinv_nextid[OF assms(1), of "s\<lparr>kmem := km, nextid := k\<rparr>"] e(2)
    by (simp add: unforked_def structs_ok_def rdy_def slp_def zmb_def)
  with e(1) False show ?thesis by (auto simp: wp_def)
next
  case True
  note i = tinvD[OF assms(1)]
  have cl: "curl s = [c]" using assms(2) by (simp add: curl_def)
  then obtain cx where cx: "threads s c = Some cx" "thread_ok cx" using tinv_thread[OF assms(1), of c] by auto
  note fresh = tinv_fresh[OF assms(1)]
  have ne: "c \<noteq> nextid s" using cx(1) fresh by auto
  define p where "p = fork_prep s cx name data1 data2 func"
  define y where "y = \<lparr>t_frame = SwStart data1 data2 func, t_ininterrupt = False, t_name = name,
       t_sleepaddr = NULL, t_stack = Some stack_magic, t_vmspace = None, t_cwd = t_cwd cx\<rparr>"
  have p: "threads p = (threads s)(nextid s \<mapsto> y)" "nextid p = nextid s + 1" "curthread p = curthread s"
    "curspl p > 0" "numthreads p = numthreads s" "rdy p = rdy s" "slp p = slp s" "zmb p = zmb s" "structs_ok p"
    "runqueue p = runqueue s" "vrefs p = (\<lambda>v. vrefs s v + (if t_cwd cx = Some v then 1 else 0))" "mem_left s p"
    using i(1) by (simp_all add: p_def fork_prep_def y_def SPL_HIGH_def rdy_def slp_def zmb_def structs_ok_def mem_left_def)
  have "int (length (rdy p)) < numthreads p" "numthreads p < 2 ^ 28"
    using i(4) cl p tinv_length[OF assms(1)] assms(3) by simp_all
  note enq = wp_thread_fork_enqueue[OF p(9,4) this, of "nextid s"]
  have run: "thread_fork name data1 data2 func s =
      bind (attempt (thread_fork_enqueue (nextid s))) (thread_fork_finish (nextid s) (curspl s)) p"
    using thread_fork_run[OF _ _ _ assms(2) cx(1) ne] True by (simp add: p_def)
  have yok: "thread_ok y" by (simp add: y_def thread_ok_def stack_magic_def)
  from enq show ?thesis
  proof (cases rule: wp_cases)
    case (1 u s1)
    let ?s = "s1\<lparr>iec := (if curspl s > 0 then False else if curspl s = 0 then True else iec s1), curspl := curspl s\<rparr>"
    have ok: "thread_fork name data1 data2 func s = Ok (nextid s) ?s"
      using 1(1) by (simp add: run bind_def attempt_def thread_fork_finish_def splx_def)
    have "structs_ok ?s" using 1(2) by (simp add: enqueued_def structs_ok_def)
    then have "tinv ?s"
      using 1(2) p by (intro tinv_fork[OF assms(1) refl _ _ yok])
        (simp_all add: enqueued_def rdy_def slp_def zmb_def y_def)
    moreover have "calm s \<Longrightarrow> calm ?s"
      using 1(2) p by (auto simp: calm_def enqueued_def bufs_only_def y_def p_def fork_prep_def)
    ultimately have "forked s data1 data2 func (nextid s) ?s"
      using 1(2) p fresh by (auto simp: forked_def enqueued_def rdy_def slp_def zmb_def frame_of_def y_def mem_left_def)
    with ok show ?thesis by (simp add: wp_def)
  next
    case (2 e s1)
    let ?s0 = "s1\<lparr>iec := (if curspl s > 0 then False else if curspl s = 0 then True else iec s1), curspl := curspl s\<rparr>"
    have thr: "threads s1 = (threads s)(nextid s \<mapsto> y)" using 2(2) p by (simp add: bufs_only_def)
    have vr1: "vrefs s1 = (\<lambda>v. vrefs s v + (if t_cwd cx = Some v then 1 else 0))" using 2(2) p by (simp add: bufs_only_def)
    have vr: "(case t_cwd cx of None \<Rightarrow> vrefs s1 | Some v \<Rightarrow> (vrefs s1)(v := vrefs s1 v - 1)) = vrefs s"
      by (cases "t_cwd cx") (auto simp: vr1)
    have upd: "(threads s)(nextid s := None) = threads s" using fresh by auto
    let ?s = "?s0\<lparr>vrefs := vrefs s, threads := threads s\<rparr>"
    have err: "thread_fork name data1 data2 func s = Err e ?s"
      using 2(1) vr thr upd vr1
      by (cases s1; cases "t_cwd cx")
        (simp_all add: run bind_def attempt_def thread_fork_finish_def splx_def t_get_def y_def VOP_DECREF_def)
    have "structs_ok ?s" using 2(2) by (simp add: bufs_only_def structs_ok_def)
    then have "tinv ?s"
      using 2(2) p by (intro tinv_nextid[OF assms(1)]) (simp_all add: bufs_only_def rdy_def slp_def zmb_def)
    then have "unforked s ?s"
      using 2(2) p by (simp add: unforked_def bufs_only_def rdy_def slp_def zmb_def)
    moreover have "\<not> (\<forall>n. kmem s n)" using 2(2) p(12) unfolding mem_left_def by blast
    ultimately show ?thesis using err 2(2) by (simp add: wp_def)
  qed
qed

end
