(* ===== verification/Thread_Claims.thy ===== *)
theory Thread_Claims
  imports Thread_Fork
begin

text \<open>
  What the thread system promises, over runs of its operations from boot: the invariant, who is
  woken and who runs next, and the limits of the memory reserved by \<open>thread_fork\<close>.
\<close>

section \<open>Boot\<close>

definition boot :: "(tid, tsys) kmon" where
  "boot = bind scheduler_bootstrap (\<lambda>_. thread_bootstrap)"

lemma boot_ok:
  assumes "\<forall>n. kmem s n" "threads s = Map.empty"
  obtains s' where "boot s = Ok (nextid s) s'" "tinv s'" "\<forall>n. kmem s' n" "curthread s' = Some (nextid s)"
    "rdy s' = []" "slp s' = []" "zmb s' = []" "numthreads s' = 1" "nextid s' = nextid s + 1"
    "q_cap (the (runqueue s')) = 31" "curspl s' = curspl s"
proof -
  let ?q = "\<lparr>q_size = 32, q_nextwrite = 0, q_nextread = 0, q_data = kmalloc_cells 32\<rparr> :: tid queue"
  let ?a = "\<lparr>a_num = 0, a_max = 0, a_v = None\<rparr> :: tid array"
  let ?x = "\<lparr>t_frame = SwExit, t_ininterrupt = False, t_name = ''<boot/menu>'', t_sleepaddr = NULL,
             t_stack = None, t_vmspace = None, t_cwd = None\<rparr>"
  let ?s = "s\<lparr>runqueue := Some ?q, sleepers := Some ?a, zombies := Some ?a, kmem := (\<lambda>n. True),
     threads := [nextid s \<mapsto> ?x], nextid := nextid s + 1, curthread := Some (nextid s), numthreads := 1\<rparr>"
  have km: "kmem s = (\<lambda>n. True)" using assms(1) by (simp add: fun_eq_iff)
  have q: "q_inv ?q" "q_list ?q = []" using q_fresh_inv[of 32] by simp_all
  have a: "array_inv ?a" "array_list ?a = []" using array_create_inv[of True ?a] by (simp_all add: array_create_def)
  have run: "boot s = Ok (nextid s) ?s"
    using assms(2) km
    by (cases s) (simp add: boot_def scheduler_bootstrap_def thread_bootstrap_def q_create_def array_create_def
        thread_create_def bind_assoc bind_def kmalloc_ok_def t_put_def)
  have lists: "rdy ?s = []" "slp ?s = []" "zmb ?s = []" "curl ?s = [nextid s]" "structs_ok ?s"
    using q a by (simp_all add: rdy_def slp_def zmb_def curl_def structs_ok_def)
  have "tinv ?s"
    by (rule tinvI) (use lists in \<open>auto simp: thread_ok_def split: if_splits\<close>)
  then show thesis using run lists by (intro that[of ?s]) (simp_all add: q_cap_def)
qed

section \<open>Runs\<close>

text \<open>The operations as their callers use them: sleeping and waking happen with interrupts off.\<close>

datatype top = Yield | Sleep addr | Exit | Fork string nat nat nat | Wakeup addr | WakeupOne addr

fun top_run :: "top \<Rightarrow> (unit, tsys) kmon" where
  "top_run Yield = thread_yield"
| "top_run (Sleep adr) = bind splhigh (\<lambda>_. thread_sleep adr)"
| "top_run Exit = thread_exit"
| "top_run (Fork name data1 data2 func) = bind (thread_fork name data1 data2 func) (\<lambda>_. ret ())"
| "top_run (Wakeup adr) = bind splhigh (\<lambda>spl. bind (thread_wakeup adr) (\<lambda>_. bind (splx spl) (\<lambda>_. ret ())))"
| "top_run (WakeupOne adr) = bind splhigh (\<lambda>spl. bind (thread_wakeup_one adr) (\<lambda>_. bind (splx spl) (\<lambda>_. ret ())))"

text \<open>The states reached from boot while memory lasts and fewer than \<open>2 ^ 28\<close> threads were made.\<close>

inductive treach :: "tsys \<Rightarrow> bool" where
  treach_boot: "\<forall>n. kmem s n \<Longrightarrow> threads s = Map.empty \<Longrightarrow> nextid s = 1 \<Longrightarrow> boot s = Ok t s' \<Longrightarrow> treach s'"
| treach_step: "treach s \<Longrightarrow> nextid s < thread_limit \<Longrightarrow> top_run p s = Ok () s' \<Longrightarrow> treach s'"

inductive_cases treachE: "treach s"

definition tgood :: "tsys \<Rightarrow> bool" where
  "tgood s \<longleftrightarrow> tinv s \<and> curthread s \<noteq> None \<and> (\<forall>n. kmem s n)"

lemma tgood_mem_ok: "tgood s \<Longrightarrow> mem_ok s"
  by (simp add: tgood_def mem_ok_def)

lemma switched_good: "switched s n s' \<Longrightarrow> \<forall>n. kmem s n \<Longrightarrow> tgood s'"
  by (simp add: switched_def tgood_def mem_left_def)

lemma splhigh_good:
  assumes "tgood s"
  shows "tgood (s\<lparr>iec := e, curspl := l\<rparr>)"
  using assms tinv_cong[of s "s\<lparr>iec := e, curspl := l\<rparr>"] by (simp add: tgood_def)

lemma tgood_idle_ok:
  assumes "tgood s" "curspl s > 0" "nextid s \<le> thread_limit"
  shows "idle_ok s"
proof -
  have t: "tinv s" "\<forall>n. kmem s n" using assms(1) by (simp_all add: tgood_def)
  have "length (rdy s) + length (slp s) \<le> thread_limit" using tinv_length[OF t(1)] assms(3) by simp
  moreover have "set (slp s) \<subseteq> dom (threads s)" unfolding tinvD(3)[OF t(1), symmetric] by auto
  ultimately show ?thesis
    using assms(2) t tinvD(1)[OF t(1)] by (simp add: idle_ok_def rq_room_def)
qed

lemma idle_good: "tgood s \<Longrightarrow> idle_rel s s' \<Longrightarrow> tgood s'"
  using tinv_idle[of s s'] by (simp add: tgood_def idle_rel_def mem_left_def)

lemma top_run_good:
  assumes "tgood s" "nextid s < thread_limit" "top_run p s = Ok () s'"
  shows "tgood s'"
proof -
  have t: "tinv s" "\<forall>n. kmem s n" "mem_ok s" using assms(1) tgood_mem_ok by (simp_all add: tgood_def)
  obtain c where c: "curthread s = Some c" using assms(1) by (auto simp: tgood_def)
  have lim: "nextid s \<le> thread_limit" using assms(2) by simp
  let ?h = "s\<lparr>iec := False, curspl := SPL_HIGH\<rparr>"
  have gh: "tgood ?h" by (rule splhigh_good[OF assms(1)])
  have h: "tinv ?h" "\<forall>n. kmem ?h n" "mem_ok ?h" "curthread ?h = Some c" "nextid ?h \<le> thread_limit" "curspl ?h > 0"
    using gh tgood_mem_ok[OF gh] c lim by (simp_all add: tgood_def SPL_HIGH_def)
  show ?thesis
  proof (cases p)
    case Yield
    from thread_yield_ok[OF t(1) c lim disjI1[OF t(2)]] obtain n s1 where
      "thread_yield s = Ok () s1" "tinv s1" "curthread s1 = Some n" "mem_left s s1" by blast
    with assms(3) Yield t(2) show ?thesis by (simp add: tgood_def mem_left_def)
  next
    case (Sleep adr)
    then have run: "thread_sleep adr ?h = Ok () s'" using assms(3) by (simp add: splhigh_def SPL_HIGH_def)
    have "\<not> in_interrupt ?h" using run by (rule contrapos_pn) (simp add: thread_sleep_def)
    then show ?thesis
    proof (rule thread_sleep_put[OF h(1,4,5,3,6), of adr])
      fix s2 assume s2: "thread_sleep adr ?h = dispatch c s2" "tinv s2" "idle_ok s2" "curthread s2 = None"
        "c \<in> dom (threads s2)" "mem_left ?h s2"
      have "dispatch c s2 = Ok () s'" using s2(1) run by simp
      from dispatch_Ok_switched[OF s2(2,4,3,5) this] obtain n where "switched s2 n s'" .
      moreover have "\<forall>n. kmem s2 n" using s2(6) h(2) by (simp add: mem_left_def)
      ultimately show ?thesis by (rule switched_good)
    qed
  next
    case Exit
    show ?thesis
    proof (rule thread_exit_put[OF t(1) c lim t(3)])
      fix s2 assume s2: "thread_exit s = dispatch c s2" "tinv s2" "idle_ok s2" "curthread s2 = None"
        "c \<in> dom (threads s2)" "mem_left s s2"
      have "dispatch c s2 = Ok () s'" using s2(1) assms(3) Exit by simp
      from dispatch_Ok_switched[OF s2(2,4,3,5) this] obtain n where "switched s2 n s'" .
      moreover have "\<forall>n. kmem s2 n" using s2(6) t(2) by (simp add: mem_left_def)
      ultimately show ?thesis by (rule switched_good)
    qed
  next
    case (Fork name d1 d2 f)
    with assms(3) obtain r where "thread_fork name d1 d2 f s = Ok r s'" by (auto elim!: bind_OkE)
    with wp_OkD[OF wp_thread_fork[OF t(1) c assms(2)]] have "forked s d1 d2 f r s'" by blast
    with t(2) c show ?thesis by (simp add: forked_def tgood_def mem_left_def)
  next
    case (Wakeup adr)
    from thread_wakeup_idle[OF tgood_idle_ok[OF gh h(6,5)], of adr] obtain s1 where
      s1: "thread_wakeup adr ?h = Ok () s1" "idle_rel ?h s1" by blast
    have "s' = s1\<lparr>iec := (if curspl s > 0 then False else if curspl s = 0 then True else iec s1), curspl := curspl s\<rparr>"
      using assms(3) Wakeup s1(1) by (simp add: splhigh_def SPL_HIGH_def bind_def[of "thread_wakeup adr"])
    with splhigh_good[OF idle_good[OF gh s1(2)]] show ?thesis by simp
  next
    case (WakeupOne adr)
    have i: "structs_ok ?h" "set (slp ?h) \<subseteq> dom (threads ?h)" "length (rdy ?h) + length (slp ?h) \<le> thread_limit"
      using tgood_idle_ok[OF gh h(6,5)] unfolding idle_ok_def by blast+
    have "rq_room ?h (length (fst (wake_skip (sleeps_on ?h adr) (slp ?h))))" using h(2) unfolding rq_room_def by blast
    from thread_wakeup_one_ok[OF i(1) h(6) i(2) this i(3)] obtain s1 where
      s1: "thread_wakeup_one adr ?h = Ok () s1" "wake_result ?h (fst (wake_skip (sleeps_on ?h adr) (slp ?h)))
        (snd (wake_skip (sleeps_on ?h adr) (slp ?h))) s1" by blast
    have "s' = s1\<lparr>iec := (if curspl s > 0 then False else if curspl s = 0 then True else iec s1), curspl := curspl s\<rparr>"
      using assms(3) WakeupOne s1(1) by (simp add: splhigh_def SPL_HIGH_def bind_def[of "thread_wakeup_one adr"])
    with splhigh_good[OF idle_good[OF gh wake_result_idle[OF s1(2) wake_skip_mset]]] show ?thesis by simp
  qed
qed

lemma treach_good: "treach s \<Longrightarrow> tgood s"
proof (induction rule: treach.induct)
  case (treach_boot s t s')
  from boot_ok[OF treach_boot(1,2)] treach_boot(4) show ?case by (auto simp: tgood_def)
next
  case (treach_step s p s')
  then show ?case using top_run_good by blast
qed

section \<open>Claims\<close>

lemma tsys0_boot:
  obtains s where "boot tsys0 = Ok 1 s" "treach s" "tinv s" "curthread s = Some 1" "rdy s = []" "slp s = []"
    "numthreads s = 1" "q_cap (the (runqueue s)) = 31" "nextid s = 2" "\<forall>n. kmem s n" "curspl s > 0"
proof -
  have "\<forall>n. kmem tsys0 n" "threads tsys0 = Map.empty" by (simp_all add: tsys0_def)
  from boot_ok[OF this] obtain s where s: "boot tsys0 = Ok (nextid tsys0) s" "tinv s" "\<forall>n. kmem s n"
    "curthread s = Some (nextid tsys0)" "rdy s = []" "slp s = []" "zmb s = []" "numthreads s = 1"
    "nextid s = nextid tsys0 + 1" "q_cap (the (runqueue s)) = 31" "curspl s = curspl tsys0" .
  have "nextid tsys0 = 1" "curspl tsys0 > 0" by (simp_all add: tsys0_def SPL_HIGH_def)
  moreover have "treach s" by (rule treach_boot[of tsys0]) (use s(1) in \<open>simp_all add: tsys0_def\<close>)
  ultimately show thesis using s by (intro that[of s]) simp_all
qed



text \<open>
  C2: no assertion of the thread system fails in a reachable state. Yielding, forking and waking
  always come back (forking possibly with an error), and sleeping and exiting do whenever another
  thread is ready.
\<close>

theorem thread_operations_do_not_panic:
  assumes "treach s" "nextid s < thread_limit"
    and "(\<exists>adr. p = Sleep adr) \<or> p = Exit \<Longrightarrow> rdy s \<noteq> [] \<and> \<not> in_interrupt s"
  shows "top_run p s \<noteq> Panic msg"
proof -
  note g = treach_good[OF assms(1)]
  have t: "tinv s" "\<forall>n. kmem s n" "mem_ok s" using g tgood_mem_ok by (simp_all add: tgood_def)
  obtain c where c: "curthread s = Some c" using g by (auto simp: tgood_def)
  have lim: "nextid s \<le> thread_limit" using assms(2) by simp
  let ?h = "s\<lparr>iec := False, curspl := SPL_HIGH\<rparr>"
  have gh: "tgood ?h" by (rule splhigh_good[OF g])
  have h: "tinv ?h" "\<forall>n. kmem ?h n" "mem_ok ?h" "curthread ?h = Some c" "nextid ?h \<le> thread_limit" "curspl ?h > 0"
    using gh tgood_mem_ok[OF gh] c lim by (simp_all add: tgood_def SPL_HIGH_def)
  show ?thesis
  proof (cases p)
    case Yield
    from thread_yield_ok[OF t(1) c lim disjI1[OF t(2)]] obtain s1 where "thread_yield s = Ok () s1" by blast
    with Yield show ?thesis by simp
  next
    case (Sleep adr)
    then have "\<not> in_interrupt ?h" "rdy ?h \<noteq> []" using assms(3) by (auto simp: rdy_def)
    from thread_sleep_ok[OF h(1,4,5,3,6) this(1) disjI1[OF this(2)], of adr]
    obtain s1 where "thread_sleep adr ?h = Ok () s1" by blast
    with Sleep show ?thesis by (simp add: splhigh_def SPL_HIGH_def)
  next
    case Exit
    then have "wakeup_due s" using assms(3) by (simp add: wakeup_due_def)
    from thread_exit_ok[OF t(1) c lim t(3) this] obtain s1 where "thread_exit s = Ok () s1" by blast
    with Exit show ?thesis by simp
  next
    case (Fork name d1 d2 f)
    with wp_thread_fork[OF t(1) c assms(2), of name d1 d2 f] show ?thesis by (auto simp: wp_def bind_def split: outcome.splits)
  next
    case (Wakeup adr)
    from thread_wakeup_idle[OF tgood_idle_ok[OF gh h(6,5)], of adr] obtain s1 where
      "thread_wakeup adr ?h = Ok () s1" by blast
    with Wakeup show ?thesis by (simp add: splhigh_def SPL_HIGH_def bind_def[of "thread_wakeup adr"])
  next
    case (WakeupOne adr)
    have i: "structs_ok ?h" "set (slp ?h) \<subseteq> dom (threads ?h)" "length (rdy ?h) + length (slp ?h) \<le> thread_limit"
      using tgood_idle_ok[OF gh h(6,5)] unfolding idle_ok_def by blast+
    have "rq_room ?h (length (fst (wake_skip (sleeps_on ?h adr) (slp ?h))))" using h(2) unfolding rq_room_def by blast
    from thread_wakeup_one_ok[OF i(1) h(6) i(2) this i(3)] obtain s1 where
      "thread_wakeup_one adr ?h = Ok () s1" by blast
    with WakeupOne show ?thesis by (simp add: splhigh_def SPL_HIGH_def bind_def[of "thread_wakeup_one adr"])
  qed
qed

theorem thread_operations_do_not_panic_witness:
  "\<exists>s. boot tsys0 = Ok 1 s \<and> top_run Yield s \<noteq> Panic []"
proof -
  obtain s where s: "boot tsys0 = Ok 1 s" "treach s" "nextid s = 2" by (rule tsys0_boot)
  with thread_operations_do_not_panic[OF s(2), of Yield "[]"] show ?thesis by auto
qed

subsection \<open>Who runs next, who is woken\<close>

text \<open>
  C3: \<open>thread_yield\<close> is round robin. With memory available or a run queue that can take every
  thread, it puts the running thread at the end of the run queue and runs the thread at its head,
  the others keeping their order; sleepers stay asleep; and the thread that comes back gets the
  interrupt level it had when it was switched out (interrupts on for a new thread).
\<close>

theorem thread_yield_round_robin:
  assumes "tinv s" "curthread s = Some c" "nextid s \<le> thread_limit"
    and "(\<forall>n. kmem s n) \<or> numthreads s \<le> int (q_cap (the (runqueue s)))"
  shows "\<exists>n s'. thread_yield s = Ok () s' \<and> tinv s' \<and> curthread s' = Some n \<and> n # rdy s' = rdy s @ [c] \<and>
    slp s' = slp s \<and> curspl s' = (if n = c then curspl s else resume_spl (frame_of s n) SPL_HIGH)"
proof -
  from thread_yield_ok[OF assms] obtain n s' where "thread_yield s = Ok () s'" "tinv s'" "curthread s' = Some n"
    "rdy s @ [c] = n # rdy s'" "slp s' = slp s"
    "curspl s' = (if n = c then curspl s else resume_spl (frame_of s n) SPL_HIGH)" by blast
  then show ?thesis by (intro exI[of _ n] exI[of _ s']) simp
qed

theorem thread_yield_round_robin_witness:
  "\<exists>s s'. boot tsys0 = Ok 1 s \<and> thread_yield s = Ok () s' \<and> curthread s' = Some 1 \<and> rdy s' = []"
proof -
  obtain s where s: "boot tsys0 = Ok 1 s" "tinv s" "curthread s = Some 1" "rdy s = []" "nextid s = 2" "\<forall>n. kmem s n"
    by (rule tsys0_boot)
  from s(5) have "nextid s \<le> thread_limit" by simp
  from thread_yield_round_robin[OF s(2,3) this disjI1[OF s(6)]] s(1,4) show ?thesis by auto
qed

text \<open>
  C4: \<open>thread_wakeup(addr)\<close> moves exactly the threads sleeping on \<open>addr\<close> to the end of the run
  queue, in the order in which they went to sleep, leaves the other sleepers in place and in
  order, and changes no thread structure.
\<close>

theorem thread_wakeup_wakes_exactly:
  assumes "tinv s" "curspl s > 0" "nextid s \<le> thread_limit" "rq_room s (length (slp s))"
  shows "\<exists>s'. thread_wakeup adr s = Ok () s' \<and> rdy s' = rdy s @ filter (sleeps_on s adr) (slp s) \<and>
    slp s' = filter (\<lambda>t. \<not> sleeps_on s adr t) (slp s) \<and> threads s' = threads s \<and> tinv s'"
proof -
  have i: "structs_ok s" "set (slp s) \<subseteq> dom (threads s)" "length (rdy s) + length (slp s) \<le> thread_limit"
    using tinvD(1,3)[OF assms(1)] tinv_length[OF assms(1)] assms(3) by auto
  have "rq_room s (length (filter (sleeps_on s adr) (slp s)))" using assms(4) by (auto intro: rq_room_mono)
  from thread_wakeup_ok[OF i(1) assms(2) i(2) this i(3)] obtain s' where
    s': "thread_wakeup adr s = Ok () s'"
      "wake_result s (filter (sleeps_on s adr) (slp s)) (filter (\<lambda>t. \<not> sleeps_on s adr t) (slp s)) s'" .
  then show ?thesis
    using tinv_idle[OF assms(1) wake_result_idle[OF s'(2) mset_filter_split]]
    by (intro exI[of _ s']) (simp add: wake_result_def lists_only_def)
qed

theorem thread_wakeup_wakes_exactly_witness:
  "\<exists>s s'. boot tsys0 = Ok 1 s \<and> thread_wakeup 7 s = Ok () s' \<and> tinv s'"
proof -
  obtain s where s: "boot tsys0 = Ok 1 s" "tinv s" "slp s = []" "nextid s = 2" "\<forall>n. kmem s n" "curspl s > 0"
    by (rule tsys0_boot)
  have "rq_room s (length (slp s))" using s(5) by (simp add: rq_room_def)
  with thread_wakeup_wakes_exactly[OF s(2,6) _ this, of 7] s(1,4) show ?thesis by auto
qed

text \<open>
  C14: \<open>thread_wakeup_one(addr)\<close> does not stop after the first match. It wakes the threads that
  \<open>wake_skip\<close> lists: going down the array it wakes each match it looks at, and looks past the
  sleeper that follows a woken one. So it wakes at least one thread when somebody sleeps on \<open>addr\<close>,
  and as soon as two threads sleep on \<open>addr\<close> and are not neighbours it wakes more than one.
\<close>

theorem thread_wakeup_one_wakes_several:
  assumes "tinv s" "curspl s > 0" "nextid s \<le> thread_limit" "rq_room s (length (slp s))"
  shows "\<exists>s'. thread_wakeup_one adr s = Ok () s' \<and> rdy s' = rdy s @ fst (wake_skip (sleeps_on s adr) (slp s)) \<and>
    slp s' = snd (wake_skip (sleeps_on s adr) (slp s)) \<and> tinv s' \<and>
    (\<forall>a b c rest. slp s = a # b # c # rest \<and> sleeps_on s adr a \<and> sleeps_on s adr c \<longrightarrow>
       length (rdy s') \<ge> length (rdy s) + 2)"
proof -
  have i: "structs_ok s" "set (slp s) \<subseteq> dom (threads s)" "length (rdy s) + length (slp s) \<le> thread_limit"
    using tinvD(1,3)[OF assms(1)] tinv_length[OF assms(1)] assms(3) by auto
  have "rq_room s (length (fst (wake_skip (sleeps_on s adr) (slp s))))"
    using assms(4) wake_skip_length by (rule rq_room_mono)
  from thread_wakeup_one_ok[OF i(1) assms(2) i(2) this i(3)] obtain s' where
    s': "thread_wakeup_one adr s = Ok () s'"
      "wake_result s (fst (wake_skip (sleeps_on s adr) (slp s))) (snd (wake_skip (sleeps_on s adr) (slp s))) s'" .
  have two: "length (fst (wake_skip P (a # b # c # rest))) \<ge> 2" if "P a" "P c" for P and a b c :: tid and rest
    using that by (cases rest) (auto split: prod.splits)
  show ?thesis
    using s' tinv_idle[OF assms(1) wake_result_idle[OF s'(2) wake_skip_mset]] two
    by (intro exI[of _ s']) (auto simp: wake_result_def)
qed

text \<open>A state with the running thread 1 and three sleepers, of which 2 and 4 sleep on 70.\<close>

definition tsys_sleepers :: tsys where
  "tsys_sleepers = tsys0\<lparr>
     threads := [1 \<mapsto> \<lparr>t_frame = SwExit, t_ininterrupt = False, t_name = ''a'', t_sleepaddr = 0,
                   t_stack = None, t_vmspace = None, t_cwd = None\<rparr>,
                 2 \<mapsto> \<lparr>t_frame = SwSleep, t_ininterrupt = False, t_name = ''b'', t_sleepaddr = 70,
                   t_stack = None, t_vmspace = None, t_cwd = None\<rparr>,
                 3 \<mapsto> \<lparr>t_frame = SwSleep, t_ininterrupt = False, t_name = ''c'', t_sleepaddr = 71,
                   t_stack = None, t_vmspace = None, t_cwd = None\<rparr>,
                 4 \<mapsto> \<lparr>t_frame = SwSleep, t_ininterrupt = False, t_name = ''d'', t_sleepaddr = 70,
                   t_stack = None, t_vmspace = None, t_cwd = None\<rparr>],
     nextid := 5, curthread := Some 1, numthreads := 4,
     sleepers := Some \<lparr>a_num = 3, a_max = 3, a_v = Some [Some 2, Some 3, Some 4]\<rparr>,
     zombies := Some \<lparr>a_num = 0, a_max = 0, a_v = None\<rparr>,
     runqueue := Some \<lparr>q_size = 4, q_nextwrite = 0, q_nextread = 0, q_data = [None, None, None, None]\<rparr>\<rparr>"

lemma tsys_sleepers_lists:
  "slp tsys_sleepers = [2, 3, 4]" "rdy tsys_sleepers = []" "zmb tsys_sleepers = []" "curl tsys_sleepers = [1]"
  by (simp_all add: tsys_sleepers_def slp_def rdy_def zmb_def curl_def array_list_def array_cells_def q_list_def
      q_len_def numeral_3_eq_3)

lemma tsys_sleepers_inv: "tinv tsys_sleepers"
proof (rule tinvI)
  show "structs_ok tsys_sleepers"
    by (auto simp: structs_ok_def tsys_sleepers_def array_inv_def array_cells_def q_inv_def q_len_def)
  show "set (curl tsys_sleepers @ rdy tsys_sleepers @ slp tsys_sleepers @ zmb tsys_sleepers) = dom (threads tsys_sleepers)"
    unfolding tsys_sleepers_lists by (auto simp: tsys_sleepers_def)
  show "thread_ok x \<and> t < nextid tsys_sleepers" if "threads tsys_sleepers t = Some x" for t x
    using that by (auto simp: tsys_sleepers_def thread_ok_def split: if_splits)
  show "numthreads tsys_sleepers = int (length (curl tsys_sleepers @ rdy tsys_sleepers @ slp tsys_sleepers))"
    unfolding tsys_sleepers_lists by (simp add: tsys_sleepers_def)
  show "frame_of tsys_sleepers t = SwSleep" if "t \<in> set (slp tsys_sleepers)" for t
    using that unfolding tsys_sleepers_lists by (auto simp: frame_of_def tsys_sleepers_def)
qed (simp_all add: tsys_sleepers_lists)

theorem thread_wakeup_one_wakes_several_witness:
  "\<exists>s'. thread_wakeup_one 70 tsys_sleepers = Ok () s' \<and> rdy s' = [2, 4] \<and> slp s' = [3]"
proof -
  have "curspl tsys_sleepers > 0" "nextid tsys_sleepers \<le> thread_limit" "rq_room tsys_sleepers (length (slp tsys_sleepers))"
    by (simp_all add: rq_room_def tsys_sleepers_def tsys0_def SPL_HIGH_def)
  from thread_wakeup_one_wakes_several[OF tsys_sleepers_inv this, of 70] show ?thesis
    unfolding tsys_sleepers_lists by (auto simp: sleeps_on_def tsys_sleepers_def)
qed

subsection \<open>Forking and its reservation\<close>





text \<open>From boot, \<open>k\<close> forks with memory available leave \<open>k\<close> ready threads in the initial run queue.\<close>

lemma forks_from_boot:
  assumes "k \<le> 31"
  shows "\<exists>s. treach s \<and> curthread s = Some 1 \<and> length (rdy s) = k \<and> slp s = [] \<and>
    numthreads s = int k + 1 \<and> nextid s = k + 2 \<and> q_cap (the (runqueue s)) = 31 \<and>
    (0 < k \<longrightarrow> k < array_cap (the (zombies s)))"
  using assms
proof (induction k)
  case 0
  obtain s where "treach s" "curthread s = Some 1" "rdy s = []" "slp s = []" "numthreads s = 1"
    "q_cap (the (runqueue s)) = 31" "nextid s = 2" by (rule tsys0_boot)
  then show ?case by (intro exI[of _ s]) simp
next
  case (Suc k)
  then obtain s where s: "treach s" "curthread s = Some 1" "length (rdy s) = k" "slp s = []"
    "numthreads s = int k + 1" "nextid s = k + 2" "q_cap (the (runqueue s)) = 31" by auto
  have g: "tinv s" "\<forall>n. kmem s n" using treach_good[OF s(1)] by (simp_all add: tgood_def)
  have lim: "nextid s < thread_limit" using s(6) Suc.prems by simp
  obtain t s' where f: "thread_fork [] 0 0 0 s = Ok t s'" "forked s 0 0 0 t s'"
    using wp_cases[OF wp_thread_fork[OF g(1) s(2) lim, of "[]" 0 0 0]] g(2) by metis
  have "top_run (Fork [] 0 0 0) s = Ok () s'" using f(1) by (simp add: bind_def)
  with s(1) lim have "treach s'" by (rule treach_step)
  then show ?case using f(2) s Suc.prems by (intro exI[of _ s']) (simp add: forked_def)
qed

lemma thread_yield_full:
  assumes "tinv s" "curthread s = Some c" "length (rdy s) = q_cap (the (runqueue s))" "\<not> kmem s 0"
    "q_size (the (runqueue s)) + 1 < 2 ^ 29"
  shows "thread_yield s = Panic ''result==0''"
proof -
  have cl: "curl s = [c]" using assms(2) by (simp add: curl_def)
  then obtain x where x: "threads s c = Some x" "thread_ok x" using tinv_thread[OF assms(1), of c] by auto
  from tinvD(1)[OF assms(1)] obtain sl z q where st: "sleepers s = Some sl" "array_inv sl" "zombies s = Some z" "array_inv z"
    "runqueue s = Some q" "q_inv q" "slp s = array_list sl" "zmb s = array_list z" "rdy s = q_list q"
    by (rule structs_okE)
  have "q_addtail False c q = Err ENOMEM q"
    using st(5,6,9) assms(3,5) by (intro q_addtail_full) simp_all
  then have full: "q_addtail (kmem s 0) c q = Err ENOMEM q" using assms(4) by simp
  let ?h = "s\<lparr>iec := False, curspl := SPL_HIGH\<rparr>"
  have "curthread ?h = Some c" "curspl ?h > 0" "threads ?h c = Some x"
    using assms(2) x by (simp_all add: SPL_HIGH_def)
  note alt = mi_switch_alt[OF this x(2), of S_READY "SwYield (curspl s)"]
  have "thread_yield s = mi_switch S_READY (SwYield (curspl s)) ?h"
    using st(1) by (simp add: thread_yield_def splhigh_def SPL_HIGH_def)
  also have "\<dots> = Panic ''result==0''"
    unfolding alt using full st(5)
    by (simp add: stash_def make_runnable_def must_def on_runqueue_def deref_def kmalloc_ok_def bind_def
        assert_spl_def SPL_HIGH_def)
  finally show ?thesis .
qed

text \<open>
  C11: the reservation of \<open>thread_fork\<close> is one slot short. There is a state, reached from boot by 31
  successful forks, in which all 32 threads are runnable; if memory runs out there, the next
  \<open>thread_yield\<close> fails its assertion that adding to the run queue cannot fail.
\<close>

theorem fork_reservation_one_short:
  "\<exists>s. treach s \<and> numthreads s = 32 \<and> thread_yield (s\<lparr>kmem := \<lambda>_. False\<rparr>) = Panic ''result==0''"
proof -
  obtain s where s: "treach s" "curthread s = Some 1" "length (rdy s) = 31" "numthreads s = int 31 + 1"
    "q_cap (the (runqueue s)) = 31"
    using forks_from_boot[of 31] by auto
  let ?s = "s\<lparr>kmem := \<lambda>_. False\<rparr>"
  have t: "tinv s" using treach_good[OF s(1)] by (simp add: tgood_def)
  have "tinv ?s" by (rule tinv_cong[OF t]) simp_all
  moreover have "length (rdy ?s) = q_cap (the (runqueue ?s))" using s(3,5) by (simp add: rdy_def)
  moreover have "q_size (the (runqueue ?s)) + 1 < 2 ^ 29" using s(5) by (simp add: q_cap_def)
  ultimately have "thread_yield ?s = Panic ''result==0''"
    using s(2) by (intro thread_yield_full[of _ 1]) simp_all
  with s show ?thesis by auto
qed

text \<open>Without memory and without room for one more zombie, \<open>thread_exit\<close> fails an assertion.\<close>

lemma thread_exit_full:
  assumes "tinv s" "curthread s = Some c" "array_cap (the (zombies s)) = length (zmb s)" "\<not> kmem s 0"
    "nextid s < thread_limit"
  shows "thread_exit s = Panic ''result==0''"
proof -
  note i = tinvD[OF assms(1)]
  have cl: "curl s = [c]" using assms(2) by (simp add: curl_def)
  then obtain x where x: "threads s c = Some x" "thread_ok x" using tinv_thread[OF assms(1), of c] by auto
  from i(1) obtain z where z: "zombies s = Some z" "array_inv z" "zmb s = array_list z" by (rule structs_okE)
  have "int (length (array_list z)) + 1 < array_limit" using tinv_length[OF assms(1)] assms(5) z(3) by simp
  with assms(3) z have "array_add False c z = Err ENOMEM z" by (intro array_add_full) simp_all
  then have full: "array_add (kmem s 0) c z = Err ENOMEM z" using assms(4) by simp
  define s0 where "s0 = s\<lparr>iec := False, curspl := SPL_HIGH,
       threads := (threads s)(c \<mapsto> x\<lparr>t_vmspace := None, t_cwd := None\<rparr>),
       dead_as := (case t_vmspace x of None \<Rightarrow> dead_as s | Some a \<Rightarrow> a # dead_as s),
       vrefs := (\<lambda>v. vrefs s v - (if t_cwd x = Some v then 1 else 0)),
       numthreads := numthreads s - 1\<rparr>"
  have "numthreads s > 0" using i(4) cl by simp
  note run = thread_exit_run[OF assms(2) x this, folded s0_def]
  have f0: "curthread s0 = Some c" "curspl s0 > 0" "threads s0 c = Some (x\<lparr>t_vmspace := None, t_cwd := None\<rparr>)"
    "thread_ok (x\<lparr>t_vmspace := None, t_cwd := None\<rparr>)" "kmem s0 = kmem s" "zombies s0 = Some z"
    using assms(2) x z by (simp_all add: s0_def SPL_HIGH_def thread_ok_def)
  show ?thesis
    unfolding run mi_switch_alt[OF f0(1-4)] using full f0(5,6)
    by (simp add: stash_def must_def on_zombies_def deref_def kmalloc_ok_def bind_def)
qed

text \<open>
  C15: \<open>exorcise\<close> gives the reservation for zombies away. When the array has room for more than 16
  threads it is freed with the zombies; the next \<open>thread_exit\<close> then needs memory, and fails its
  assertion when there is none.
\<close>

theorem exorcise_drops_reservation:
  assumes "tinv s" "curthread s = Some c" "curspl s > 0" "nextid s < thread_limit"
    and "array_cap (the (zombies s)) > 16"
  shows "\<exists>s'. exorcise s = Ok () s' \<and> tinv s' \<and> curthread s' = Some c \<and> array_cap (the (zombies s')) = 0 \<and>
    thread_exit (s'\<lparr>kmem := \<lambda>_. False\<rparr>) = Panic ''result==0''"
proof -
  note i = tinvD[OF assms(1)]
  have pre: "distinct (zmb s)" "\<forall>t \<in> set (zmb s). curthread s \<noteq> Some t \<and>
      (\<exists>x. threads s t = Some x \<and> t_vmspace x = None \<and> t_cwd x = None)"
  proof -
    show "distinct (zmb s)" using i(2) by simp
    have "curthread s \<noteq> Some t \<and> (\<exists>x. threads s t = Some x \<and> t_vmspace x = None \<and> t_cwd x = None)"
      if t: "t \<in> set (zmb s)" for t
    proof -
      obtain y where "threads s t = Some y" using tinv_thread[OF assms(1), of t] t by auto
      with i(8)[OF t] i(2) t assms(2) show ?thesis by (auto simp: curl_def)
    qed
    then show "\<forall>t \<in> set (zmb s). curthread s \<noteq> Some t \<and>
      (\<exists>x. threads s t = Some x \<and> t_vmspace x = None \<and> t_cwd x = None)" by blast
  qed
  let ?s = "\<lambda>z'. s\<lparr>threads := (\<lambda>t. if t \<in> set (zmb s) then None else threads s t),
      kmem := (\<lambda>n. kmem s (Suc n)), zombies := Some z'\<rparr>"
  obtain z' where z': "exorcise s = Ok () (?s z')" "array_inv z'" "array_list z' = []" "array_cap z' = 0"
    using exorcise_ok[OF i(1) assms(3) pre] assms(5) by auto
  have t: "tinv (?s z')" by (rule tinv_exorcise[OF assms(1) z'(2,3)])
  have "tinv ((?s z')\<lparr>kmem := \<lambda>_. False\<rparr>)" by (rule tinv_cong[OF t]) simp_all
  then have "thread_exit ((?s z')\<lparr>kmem := \<lambda>_. False\<rparr>) = Panic ''result==0''"
    by (rule thread_exit_full) (use assms(2,4) z'(3,4) in \<open>simp_all add: zmb_def\<close>)
  with t z' assms(2) show ?thesis by (intro exI[of _ "?s z'"]) simp
qed

theorem exorcise_drops_reservation_witness:
  "\<exists>s s'. treach s \<and> exorcise (s\<lparr>curspl := SPL_HIGH\<rparr>) = Ok () s' \<and>
     thread_exit (s'\<lparr>kmem := \<lambda>_. False\<rparr>) = Panic ''result==0''"
proof -
  obtain s where s: "treach s" "curthread s = Some 1" "nextid s = 20 + 2" "20 < array_cap (the (zombies s))"
    using forks_from_boot[of 20] by auto
  let ?s = "s\<lparr>curspl := SPL_HIGH\<rparr>"
  have t: "tinv s" using treach_good[OF s(1)] by (simp add: tgood_def)
  have "tinv ?s" by (rule tinv_cong[OF t]) simp_all
  moreover have "curthread ?s = Some 1" "curspl ?s > 0" "nextid ?s < thread_limit" "array_cap (the (zombies ?s)) > 16"
    using s by (simp_all add: SPL_HIGH_def)
  ultimately show ?thesis using exorcise_drops_reservation[of ?s 1] s(1) by blast
qed

end
