(* ===== verification/Synch_Props.thy ===== *)
theory Synch_Props
  imports Synch_Model Thread_Claims
begin

text \<open>
  The invariant of the synchronization primitives over the thread system, and what every step does to
  semaphores, locks and the run queue.
\<close>

section \<open>Running the combinators\<close>

lemma on_ts_eq_Ok: "on_ts m s = Ok a s' \<longleftrightarrow> (\<exists>t'. m (kts s) = Ok a t' \<and> s' = s\<lparr>kts := t'\<rparr>)"
  by (auto simp: on_ts_def zoom_def split: outcome.splits)

lemma on_ts_simps [simp]:
  "on_ts (gets f) s = Ok (f (kts s)) s"
  "on_ts (splx n) s = Ok (curspl (kts s)) (s\<lparr>kts := (kts s)\<lparr>iec := (if n > 0 then False else if n = 0 then True else iec (kts s)),
     curspl := n\<rparr>\<rparr>)"
  "on_ts kmalloc_ok s = Ok (kmem (kts s) 0) (s\<lparr>kts := (kts s)\<lparr>kmem := \<lambda>n. kmem (kts s) (Suc n)\<rparr>\<rparr>)"
  by (simp_all add: on_ts_def zoom_def splx_def kmalloc_ok_def)

lemma on_ts_splhigh [simp]: "on_ts splhigh s = Ok (curspl (kts s)) (s\<lparr>kts := (kts s)\<lparr>iec := False, curspl := SPL_HIGH\<rparr>\<rparr>)"
  by (simp add: splhigh_def SPL_HIGH_def)

lemma kpush_run [simp]: "curthread (kts s) = Some c \<Longrightarrow> kpush fr s = Ok () (s\<lparr>kframes := (kframes s)(c := fr)\<rparr>)"
  by (simp add: kpush_def here_def bind_def on_ts_def zoom_def cur_def)

text \<open>The state in which a function has returned to its caller.\<close>

definition kdone :: "tid \<Rightarrow> int \<Rightarrow> ksync \<Rightarrow> ksync" where
  "kdone c spl s = s\<lparr>kts := (kts s)\<lparr>iec := (if spl > 0 then False else if spl = 0 then True else iec (kts s)), curspl := spl\<rparr>,
     kframes := (kframes s)(c := None)\<rparr>"

lemma return_from_run [simp]: "curthread (kts s) = Some c \<Longrightarrow> return_from spl evs s = Ok (False, evs) (kdone c spl s)"
  by (simp add: return_from_def bind_def kdone_def)

lemma block_in_Ok:
  assumes "block_in fr a s = Ok r s'" "curthread (kts s) = Some c"
  obtains t' where "r = (True, [])" "thread_sleep a (kts s) = Ok () t'" "s' = s\<lparr>kts := t', kframes := (kframes s)(c \<mapsto> fr)\<rparr>"
  using assms by (auto simp: block_in_def bind_eq_Ok on_ts_eq_Ok)

section \<open>The invariant\<close>

text \<open>The address a thread with the given frame sleeps on, if it does.\<close>

fun asleep_at :: "kframe \<Rightarrow> addr option" where
  "asleep_at (In_P a _) = Some a"
| "asleep_at (In_lock_acquire l _) = Some l"
| "asleep_at (In_cv_wait _ _) = None"
| "asleep_at (In_cv_sleep c _ _) = Some c"
| "asleep_at (In_clocksleep _ _) = Some lbolt_addr"

fun kframe_ok :: "ksync \<Rightarrow> kframe \<Rightarrow> bool" where
  "kframe_ok s (In_P a _) \<longleftrightarrow> a < knext s \<and> locks s a = None"
| "kframe_ok s (In_lock_acquire l _) \<longleftrightarrow> l < knext s \<and> sems s l = None"
| "kframe_ok s (In_cv_wait c _) \<longleftrightarrow> c < knext s \<and> sems s c = None \<and> locks s c = None"
| "kframe_ok s (In_cv_sleep c _ _) \<longleftrightarrow> c < knext s \<and> sems s c = None \<and> locks s c = None"
| "kframe_ok s (In_clocksleep _ _) \<longleftrightarrow> True"

definition placed :: "tsys \<Rightarrow> tid \<Rightarrow> bool" where
  "placed ts t \<longleftrightarrow> t \<in> set (slp ts) \<or> (t \<in> set (rdy ts) \<and> frame_of ts t = SwSleep) \<or>
     (curthread ts = Some t \<and> curspl ts > 0)"

definition sleeping :: "tsys \<Rightarrow> addr \<Rightarrow> bool" where
  "sleeping ts a \<longleftrightarrow> (\<exists>t \<in> set (slp ts). sleeps_on ts a t)"

definition objs_ok :: "ksync \<Rightarrow> bool" where
  "objs_ok s \<longleftrightarrow>
     (\<forall>a x. sems s a = Some x \<longrightarrow> 0 \<le> sem_count x \<and> sem_count x < 2 ^ 31 \<and> (sleeping (kts s) a \<longrightarrow> sem_count x = 0) \<and>
        lbolt_addr < a \<and> a < knext s \<and> locks s a = None \<and> cvs s a = None) \<and>
     (\<forall>l x. locks s l = Some x \<longrightarrow> (isHeld x \<longleftrightarrow> holder x \<noteq> None) \<and> (sleeping (kts s) l \<longrightarrow> isHeld x) \<and>
        lbolt_addr < l \<and> l < knext s \<and> cvs s l = None) \<and>
     (\<forall>c. cvs s c \<noteq> None \<longrightarrow> lbolt_addr < c \<and> c < knext s) \<and> lbolt_addr < knext s"

definition frames_ok :: "ksync \<Rightarrow> bool" where
  "frames_ok s \<longleftrightarrow>
     (\<forall>t \<in> set (slp (kts s)). \<exists>fr. kframes s t = Some fr \<and> asleep_at fr = Some (t_sleepaddr (the (threads (kts s) t)))) \<and>
     (\<forall>t fr. kframes s t = Some fr \<longrightarrow> kframe_ok s fr \<and> t < nextid (kts s) \<and> (asleep_at fr \<noteq> None \<longrightarrow> placed (kts s) t))"

definition kfit :: "ksync \<Rightarrow> bool" where
  "kfit s \<longleftrightarrow> calm (kts s) \<and> frames_ok s \<and> objs_ok s"

definition kinv :: "ksync \<Rightarrow> bool" where
  "kinv s \<longleftrightarrow> tgood (kts s) \<and> kfit s"

text \<open>Before the first call.\<close>

definition kfresh :: "ksync \<Rightarrow> bool" where
  "kfresh s \<longleftrightarrow> tgood (kts s) \<and> calm (kts s) \<and> slp (kts s) = [] \<and> kframes s = Map.empty \<and> sems s = Map.empty \<and>
     locks s = Map.empty \<and> cvs s = Map.empty \<and> lbolt_addr < knext s"

lemma kfresh_kinv: "kfresh s \<Longrightarrow> kinv s"
  by (simp add: kfresh_def kinv_def kfit_def frames_ok_def objs_ok_def)

lemma kinvD:
  assumes "kinv s"
  shows "tgood (kts s)" "tinv (kts s)" "calm (kts s)" "frames_ok s" "objs_ok s" "\<forall>n. kmem (kts s) n"
  using assms by (simp_all add: kinv_def kfit_def tgood_def)

lemma objs_okD:
  assumes "objs_ok s"
  shows "\<And>a x. sems s a = Some x \<Longrightarrow> 0 \<le> sem_count x \<and> sem_count x < 2 ^ 31 \<and> (sleeping (kts s) a \<longrightarrow> sem_count x = 0) \<and>
      lbolt_addr < a \<and> a < knext s \<and> locks s a = None \<and> cvs s a = None"
    "\<And>l x. locks s l = Some x \<Longrightarrow> (isHeld x \<longleftrightarrow> holder x \<noteq> None) \<and> (sleeping (kts s) l \<longrightarrow> isHeld x) \<and>
      lbolt_addr < l \<and> l < knext s \<and> cvs s l = None \<and> sems s l = None"
    "\<And>c. cvs s c \<noteq> None \<Longrightarrow> lbolt_addr < c \<and> c < knext s \<and> sems s c = None \<and> locks s c = None"
proof -
  note a = assms[unfolded objs_ok_def]
  show 1: "sems s a = Some x \<Longrightarrow> 0 \<le> sem_count x \<and> sem_count x < 2 ^ 31 \<and> (sleeping (kts s) a \<longrightarrow> sem_count x = 0) \<and>
      lbolt_addr < a \<and> a < knext s \<and> locks s a = None \<and> cvs s a = None" for a x using a by blast
  show 2: "locks s l = Some x \<Longrightarrow> (isHeld x \<longleftrightarrow> holder x \<noteq> None) \<and> (sleeping (kts s) l \<longrightarrow> isHeld x) \<and>
      lbolt_addr < l \<and> l < knext s \<and> cvs s l = None \<and> sems s l = None" for l x
    using a 1[of l] by (cases "sems s l") auto
  show "cvs s c \<noteq> None \<Longrightarrow> lbolt_addr < c \<and> c < knext s \<and> sems s c = None \<and> locks s c = None" for c
    using a 1[of c] 2[of c] by (cases "sems s c"; cases "locks s c") auto
qed

text \<open>A thread that sleeps on the address of a semaphore is in \<open>P\<close>, on that of a lock in \<open>lock_acquire\<close>.\<close>

lemma sleeper_frame:
  assumes "kinv s" "t \<in> set (slp (kts s))" "sleeps_on (kts s) a t"
  obtains fr where "kframes s t = Some fr" "asleep_at fr = Some a" "kframe_ok s fr"
  using kinvD(4)[OF assms(1)] assms(2,3) unfolding frames_ok_def sleeps_on_def by blast

section \<open>How the parts of a step keep it\<close>

lemma kinv_cong:
  assumes "kinv s" "kframes s' = kframes s" "sems s' = sems s" "locks s' = locks s" "cvs s' = cvs s" "knext s' = knext s"
    "threads (kts s') = threads (kts s)" "slp (kts s') = slp (kts s)" "rdy (kts s') = rdy (kts s)"
    "curthread (kts s') = curthread (kts s)" "nextid (kts s') = nextid (kts s)" "in_interrupt (kts s') = in_interrupt (kts s)"
    "tgood (kts s')" "curspl (kts s) > 0 \<longrightarrow> curspl (kts s') > 0"
  shows "kinv s'"
proof -
  have f: "kframe_ok s' = kframe_ok s"
  proof
    fix fr show "kframe_ok s' fr = kframe_ok s fr" using assms(2-6) by (cases fr) simp_all
  qed
  have p: "placed (kts s) t \<Longrightarrow> placed (kts s') t" for t using assms by (auto simp: placed_def frame_of_def)
  have sl: "sleeping (kts s') = sleeping (kts s)" using assms by (auto simp: sleeping_def sleeps_on_def fun_eq_iff)
  have "frames_ok s'" using kinvD(4)[OF assms(1)] p assms unfolding frames_ok_def f by auto
  moreover have "objs_ok s'" using kinvD(5)[OF assms(1)] assms unfolding objs_ok_def sl by auto
  moreover have "calm (kts s')" using kinvD(3)[OF assms(1)] assms by (simp add: calm_def)
  ultimately show ?thesis using assms(13) by (simp add: kinv_def kfit_def)
qed

lemma kinv_splhigh: "kinv s \<Longrightarrow> kinv (s\<lparr>kts := (kts s)\<lparr>iec := e, curspl := SPL_HIGH\<rparr>\<rparr>)"
  by (rule kinv_cong[of s]) (simp_all add: slp_def rdy_def SPL_HIGH_def splhigh_good kinvD(1))

lemma kinv_kdone:
  assumes "kinv s" "curthread (kts s) = Some c"
  shows "kinv (kdone c spl s)"
proof -
  let ?ts = "(kts s)\<lparr>iec := (if spl > 0 then False else if spl = 0 then True else iec (kts s)), curspl := spl\<rparr>"
  let ?s = "kdone c spl s"
  note i = kinvD[OF assms(1)]
  have f: "kframe_ok ?s fr = kframe_ok s fr" for fr by (cases fr) (simp_all add: kdone_def)
  have l: "slp ?ts = slp (kts s)" "rdy ?ts = rdy (kts s)" "frame_of ?ts = frame_of (kts s)"
    by (simp_all add: slp_def rdy_def frame_of_def fun_eq_iff)
  have p: "placed (kts s) t \<Longrightarrow> t \<noteq> c \<Longrightarrow> placed ?ts t" for t using assms(2) by (auto simp: placed_def l)
  have c: "c \<notin> set (slp (kts s))" using tinvD(2)[OF i(2)] assms(2) by (auto simp: curl_def)
  have "frames_ok ?s" using i(4) p c unfolding frames_ok_def f by (auto simp: kdone_def l)
  moreover have sl: "sleeping ?ts = sleeping (kts s)" by (simp add: sleeping_def sleeps_on_def l fun_eq_iff)
  then have "objs_ok ?s" using i(5) unfolding objs_ok_def kdone_def by auto
  moreover have "calm ?ts" using i(3) by (simp add: calm_def)
  ultimately show ?thesis using splhigh_good[OF i(1)] by (simp add: kinv_def kfit_def kdone_def)
qed

lemma kinv_sem:
  assumes "kinv s" "sems s a = Some x" "0 \<le> sem_count y" "sem_count y < 2 ^ 31" "sleeping (kts s) a \<longrightarrow> sem_count y = 0"
  shows "kinv (s\<lparr>sems := (sems s)(a \<mapsto> y)\<rparr>)"
proof -
  note i = kinvD[OF assms(1)] and o = objs_okD[OF kinvD(5)[OF assms(1)]]
  let ?s = "s\<lparr>sems := (sems s)(a \<mapsto> y)\<rparr>"
  have f: "kframe_ok s fr \<Longrightarrow> kframe_ok ?s fr" for fr using assms(2) by (cases fr) auto
  have "frames_ok ?s" using i(4) f unfolding frames_ok_def by auto
  moreover have "objs_ok ?s" using i(5) o(1)[OF assms(2)] assms(3-5) unfolding objs_ok_def by auto
  ultimately show ?thesis using assms(1) by (simp add: kinv_def kfit_def)
qed

lemma kinv_lock:
  assumes "kinv s" "locks s l = Some x" "isHeld y \<longleftrightarrow> holder y \<noteq> None" "sleeping (kts s) l \<longrightarrow> isHeld y"
  shows "kinv (s\<lparr>locks := (locks s)(l \<mapsto> y)\<rparr>)"
proof -
  note i = kinvD[OF assms(1)] and o = objs_okD[OF kinvD(5)[OF assms(1)]]
  let ?s = "s\<lparr>locks := (locks s)(l \<mapsto> y)\<rparr>"
  have f: "kframe_ok s fr \<Longrightarrow> kframe_ok ?s fr" for fr using assms(2) by (cases fr) auto
  have "frames_ok ?s" using i(4) f unfolding frames_ok_def by auto
  moreover have "objs_ok ?s" using i(5) o(2)[OF assms(2)] assms(3,4) unfolding objs_ok_def by auto
  ultimately show ?thesis using assms(1) by (simp add: kinv_def kfit_def)
qed

text \<open>Waking threads up.\<close>

lemma sleeping_mono:
  assumes "set (slp ts') \<subseteq> set (slp ts)" "\<And>t. t \<in> set (slp ts') \<Longrightarrow> t_sleepaddr (the (threads ts' t)) = t_sleepaddr (the (threads ts t))"
  shows "sleeping ts' a \<Longrightarrow> sleeping ts a"
  using assms by (auto simp: sleeping_def sleeps_on_def)

lemma objs_ok_more:
  assumes "objs_ok s" "\<And>a. sleeping t' a \<Longrightarrow> sleeping (kts s) a \<or>
    (\<forall>x. sems s a = Some x \<longrightarrow> sem_count x = 0) \<and> (\<forall>x. locks s a = Some x \<longrightarrow> isHeld x)"
  shows "objs_ok (s\<lparr>kts := t', kframes := f\<rparr>)"
proof -
  have "isHeld x" if "locks s l = Some x" "sleeping t' l" for l x using objs_okD(2)[OF assms(1) that(1)] assms(2)[OF that(2)] that(1) by blast
  moreover have "sem_count x = 0" if "sems s l = Some x" "sleeping t' l" for l x
    using objs_okD(1)[OF assms(1) that(1)] assms(2)[OF that(2)] that(1) by blast
  ultimately show ?thesis using assms(1) unfolding objs_ok_def by simp
qed

lemma objs_ok_mono:
  "objs_ok s \<Longrightarrow> (\<And>a. sleeping t' a \<Longrightarrow> sleeping (kts s) a) \<Longrightarrow> objs_ok (s\<lparr>kts := t', kframes := f\<rparr>)"
  by (rule objs_ok_more) blast+

lemma kupd_commute: "s\<lparr>kframes := f, kts := t'\<rparr> = s\<lparr>kts := t', kframes := f\<rparr>"
  by (cases s) simp

lemma kframe_ok_kts [simp]: "kframe_ok (s\<lparr>kts := t', kframes := f\<rparr>) fr = kframe_ok s fr"
  by (cases fr) simp_all

lemma kinv_wake:
  assumes "kinv s" "wake_result (kts s) m l t'" "mset (m @ l) = mset (slp (kts s))"
  shows "kinv (s\<lparr>kts := t'\<rparr>)"
proof -
  note i = kinvD[OF assms(1)]
  have w: "threads t' = threads (kts s)" "nextid t' = nextid (kts s)" "curthread t' = curthread (kts s)"
    "curspl t' = curspl (kts s)" "in_interrupt t' = in_interrupt (kts s)" "slp t' = l" "rdy t' = rdy (kts s) @ m"
    using assms(2) by (simp_all add: wake_result_def lists_only_def)
  have sub: "set m \<union> set l = set (slp (kts s))" using mset_eq_setD[OF assms(3)] by auto
  have g: "tgood t'" using idle_good[OF i(1) wake_result_idle[OF assms(2,3)]] .
  have sl: "sleeping t' a \<Longrightarrow> sleeping (kts s) a" for a by (rule sleeping_mono[of t']) (use w sub in auto)
  have p: "placed t' t" if "placed (kts s) t" for t
    using that tinvD(7)[OF i(2), of t] sub by (auto simp: placed_def w frame_of_def)
  let ?k = "s\<lparr>kts := t', kframes := kframes s\<rparr>"
  have "frames_ok ?k"
    using i(4) p sub unfolding frames_ok_def kframe_ok_kts by (auto simp: w)
  moreover have "objs_ok ?k" by (rule objs_ok_mono[OF i(5) sl])
  moreover have "calm t'" using i(3) w by (simp add: calm_def)
  ultimately have "kinv ?k" using g by (simp add: kinv_def kfit_def)
  then show ?thesis by simp
qed

lemma wakeup_pre:
  assumes "kinv s" "curspl (kts s) > 0" "nextid (kts s) < thread_limit"
  shows "structs_ok (kts s)" "set (slp (kts s)) \<subseteq> dom (threads (kts s))" "\<And>k. rq_room (kts s) k"
    "length (rdy (kts s)) + length (slp (kts s)) \<le> thread_limit"
  using tgood_idle_ok[OF kinvD(1)[OF assms(1)] assms(2)] assms(3) kinvD(6)[OF assms(1)]
  by (simp_all add: idle_ok_def rq_room_def)

lemma kinv_wakeup:
  assumes "kinv s" "curspl (kts s) > 0" "nextid (kts s) < thread_limit"
  obtains t' m where "on_ts (thread_wakeup a) s = Ok () (s\<lparr>kts := t'\<rparr>)" "kinv (s\<lparr>kts := t'\<rparr>)" "\<not> sleeping t' a"
    "curthread t' = curthread (kts s)" "curspl t' = curspl (kts s)" "nextid t' = nextid (kts s)" "rdy t' = rdy (kts s) @ m"
    "m = filter (sleeps_on (kts s) a) (slp (kts s))" "slp t' = filter (\<lambda>t. \<not> sleeps_on (kts s) a t) (slp (kts s))"
    "threads t' = threads (kts s)"
proof -
  note p = wakeup_pre[OF assms]
  from thread_wakeup_ok[OF p(1) assms(2) p(2,3,4), of a] obtain t' where t': "thread_wakeup a (kts s) = Ok () t'"
    "wake_result (kts s) (filter (sleeps_on (kts s) a) (slp (kts s))) (filter (\<lambda>t. \<not> sleeps_on (kts s) a t) (slp (kts s))) t'"
    by blast
  have k: "kinv (s\<lparr>kts := t'\<rparr>)" by (rule kinv_wake[OF assms(1) t'(2) mset_filter_split])
  have w: "threads t' = threads (kts s)" "curthread t' = curthread (kts s)" "curspl t' = curspl (kts s)"
    "slp t' = filter (\<lambda>t. \<not> sleeps_on (kts s) a t) (slp (kts s))" "nextid t' = nextid (kts s)"
    "rdy t' = rdy (kts s) @ filter (sleeps_on (kts s) a) (slp (kts s))"
    using t'(2) by (simp_all add: wake_result_def lists_only_def)
  then have "\<not> sleeping t' a" by (auto simp: sleeping_def sleeps_on_def)
  then show thesis using t'(1) k w by (intro that[of t']) (simp_all add: on_ts_eq_Ok)
qed

lemma kinv_wakeup_one:
  assumes "kinv s" "curspl (kts s) > 0" "nextid (kts s) < thread_limit"
  obtains t' m where "on_ts (thread_wakeup_one a) s = Ok () (s\<lparr>kts := t'\<rparr>)" "kinv (s\<lparr>kts := t'\<rparr>)"
    "curthread t' = curthread (kts s)" "curspl t' = curspl (kts s)" "nextid t' = nextid (kts s)" "rdy t' = rdy (kts s) @ m"
    "m = fst (wake_skip (sleeps_on (kts s) a) (slp (kts s)))" "slp t' = snd (wake_skip (sleeps_on (kts s) a) (slp (kts s)))"
    "threads t' = threads (kts s)"
proof -
  note p = wakeup_pre[OF assms]
  from thread_wakeup_one_ok[OF p(1) assms(2) p(2,3,4), of a] obtain t' where t': "thread_wakeup_one a (kts s) = Ok () t'"
    "wake_result (kts s) (fst (wake_skip (sleeps_on (kts s) a) (slp (kts s)))) (snd (wake_skip (sleeps_on (kts s) a) (slp (kts s)))) t'"
    by blast
  have "kinv (s\<lparr>kts := t'\<rparr>)" by (rule kinv_wake[OF assms(1) t'(2) wake_skip_mset])
  moreover have "threads t' = threads (kts s)" "curthread t' = curthread (kts s)" "curspl t' = curspl (kts s)" "nextid t' = nextid (kts s)"
    "rdy t' = rdy (kts s) @ fst (wake_skip (sleeps_on (kts s) a) (slp (kts s)))"
    "slp t' = snd (wake_skip (sleeps_on (kts s) a) (slp (kts s)))"
    using t'(2) by (simp_all add: wake_result_def lists_only_def)
  ultimately show thesis using t'(1) by (intro that[of t']) (simp_all add: on_ts_eq_Ok)
qed

text \<open>Switching. First the state in which the running thread has been put away.\<close>

lemma kfit_switched:
  assumes "kfit s" "tinv (kts s)" "curthread (kts s) = None" "curspl (kts s) > 0" "switched (kts s) n t'"
  shows "kfit (s\<lparr>kts := t'\<rparr>)"
proof -
  have fit: "calm (kts s)" "frames_ok s" "objs_ok s" using assms(1) by (simp_all add: kfit_def)
  have sw: "tinv t'" "curthread t' = Some n" "nextid t' = nextid (kts s)" "tkept n (kts s) t'"
    "curspl t' = resume_spl (frame_of (kts s) n) (curspl (kts s))" using assms(5) by (simp_all add: switched_def)
  obtain m where m: "rdy (kts s) @ m = n # rdy t'" "mset (m @ slp t') = mset (slp (kts s))"
    using assms(5) unfolding switched_def by blast
  have sub: "set m \<union> set (slp t') = set (slp (kts s))" using mset_eq_setD[OF m(2)] by auto
  have n: "n \<notin> set (slp t')" using tinvD(2)[OF sw(1)] sw(2) by (auto simp: curl_def)
  have kept: "\<exists>x x'. threads (kts s) t = Some x \<and> threads t' t = Some x' \<and> t_frame x' = t_frame x \<and>
      (t \<noteq> n \<longrightarrow> t_sleepaddr x' = t_sleepaddr x)" if h: "t \<in> set (curl t' @ rdy t' @ slp t' @ zmb t')" for t
  proof -
    obtain x' where "threads t' t = Some x'" using tinv_thread[OF sw(1) h] by blast
    then show ?thesis using sw(4) unfolding tkept_def by metis
  qed
  have adr: "t_sleepaddr (the (threads t' t)) = t_sleepaddr (the (threads (kts s) t))" if "t \<in> set (slp t')" for t
    using kept[of t] that n by auto
  have fr: "frame_of t' t = frame_of (kts s) t" if "t \<in> set (rdy t')" for t
    using kept[of t] that by (auto simp: frame_of_def)
  have p: "placed t' t" if "placed (kts s) t" for t
  proof -
    have "t \<in> set (slp (kts s)) \<or> t \<in> set (rdy (kts s)) \<and> frame_of (kts s) t = SwSleep"
      using that assms(3) by (auto simp: placed_def)
    then have f: "frame_of (kts s) t = SwSleep" "t \<in> set (slp t') \<or> t \<in> set (rdy (kts s) @ m)"
      using tinvD(7)[OF assms(2), of t] sub by auto
    then have "t \<in> set (slp t') \<or> t = n \<or> t \<in> set (rdy t')" unfolding m(1) by auto
    then show ?thesis using f(1) fr sw(2,5) assms(4) by (auto simp: placed_def)
  qed
  let ?k = "s\<lparr>kts := t', kframes := kframes s\<rparr>"
  have "frames_ok ?k"
    using fit(2) p sub adr unfolding frames_ok_def kframe_ok_kts by (auto simp: sw(3))
  moreover have "sleeping t' a \<Longrightarrow> sleeping (kts s) a" for a by (rule sleeping_mono[of t']) (use sub adr in auto)
  then have "objs_ok ?k" by (rule objs_ok_mono[OF fit(3)])
  moreover have "calm t'" using fit(1) sw(4) by (simp add: tkept_def)
  ultimately have "kfit ?k" by (simp add: kfit_def)
  then show ?thesis by simp
qed

definition qeff :: "bool \<Rightarrow> tsys \<Rightarrow> tsys \<Rightarrow> bool" where
  "qeff b ts ts' \<longleftrightarrow> (if b then \<exists>m. rdy ts @ m = the (curthread ts') # rdy ts'
     else (\<exists>m. rdy ts' = rdy ts @ m) \<and> curthread ts' = curthread ts)"

text \<open>The switch itself, from a state that was put away.\<close>

lemma kinv_dispatch:
  assumes "kfit s" "tinv (kts s)" "curthread (kts s) = None" "idle_ok (kts s)" "c \<in> dom (threads (kts s))"
    "\<forall>n. kmem (kts s) n" "dispatch c (kts s) = Ok () t'"
  shows "kinv (s\<lparr>kts := t'\<rparr>)" "qeff True (kts s) t'"
proof -
  from dispatch_Ok_switched[OF assms(2,3,4,5,7)] obtain n where sw: "switched (kts s) n t'" .
  have "curspl (kts s) > 0" using assms(4) by (simp add: idle_ok_def)
  then show "kinv (s\<lparr>kts := t'\<rparr>)"
    using kfit_switched[OF assms(1-3) _ sw] switched_good[OF sw assms(6)] by (simp add: kinv_def)
  show "qeff True (kts s) t'" using sw unfolding switched_def qeff_def by auto
qed

lemma kinv_sleep:
  assumes "kinv s" "curthread (kts s) = Some c" "nextid (kts s) < thread_limit" "curspl (kts s) > 0"
    and "asleep_at fr = Some a" "kframe_ok s fr"
    and "\<And>x. sems s a = Some x \<Longrightarrow> sem_count x = 0" "\<And>x. locks s a = Some x \<Longrightarrow> isHeld x"
    and "thread_sleep a (kts s) = Ok () t'"
  shows "kinv (s\<lparr>kts := t', kframes := (kframes s)(c \<mapsto> fr)\<rparr>)" "qeff True (kts s) t'"
proof -
  note i = kinvD[OF assms(1)]
  have ni: "\<not> in_interrupt (kts s)" using i(3) by (simp add: calm_def)
  have lim: "nextid (kts s) \<le> thread_limit" using assms(3) by simp
  obtain s2 where s2: "thread_sleep a (kts s) = dispatch c s2" "tinv s2" "idle_ok s2" "curthread s2 = None"
    "c \<in> dom (threads s2)" "rdy s2 = rdy (kts s)" "slp s2 = slp (kts s) @ [c]" "nextid s2 = nextid (kts s)"
    "mem_left (kts s) s2" "sleeps_on s2 a c" "\<And>t. t \<noteq> c \<Longrightarrow> threads s2 t = threads (kts s) t" "calm (kts s) \<Longrightarrow> calm s2"
    by (rule thread_sleep_put[OF i(2) assms(2) lim tgood_mem_ok[OF i(1)] assms(4) ni, of a]) blast
  let ?k = "s\<lparr>kts := s2, kframes := (kframes s)(c \<mapsto> fr)\<rparr>"
  have c: "c \<notin> set (slp (kts s))" "c \<notin> set (rdy (kts s))" using tinvD(2)[OF i(2)] assms(2) by (auto simp: curl_def)
  have cn: "c < nextid (kts s)" using tinv_thread[OF i(2), of c] tinvD(5)[OF i(2), of c] assms(2) by (auto simp: curl_def)
  have same: "t \<in> set (slp (kts s)) \<Longrightarrow> threads s2 t = threads (kts s) t" "t \<in> set (rdy (kts s)) \<Longrightarrow> frame_of s2 t = frame_of (kts s) t" for t
    using s2(11)[of t] c by (cases "t = c", auto simp: frame_of_def)+
  have p: "placed s2 t" if "placed (kts s) t \<or> t = c" for t
    using that same(2)[of t] assms(2) by (auto simp: placed_def s2(4,6,7))
  have "frames_ok ?k"
    using i(4) p assms(5,6) same(1) c cn s2(10) unfolding frames_ok_def kframe_ok_kts by (auto simp: s2(7,8) sleeps_on_def)
  moreover have "objs_ok ?k"
  proof -
    have sl: "sleeping s2 b \<Longrightarrow> sleeping (kts s) b \<or> b = a" for b
      using same(1) s2(10) by (auto simp: sleeping_def sleeps_on_def s2(7))
    show ?thesis by (rule objs_ok_more[OF i(5)]) (use sl assms(7,8) in blast)
  qed
  ultimately have fit: "kfit ?k" using i(3) s2(12) by (simp add: kfit_def)
  have km: "\<forall>n. kmem s2 n" using i(6) s2(9) by (simp add: mem_left_def)
  note d = kinv_dispatch[of ?k c t', simplified kupd_commute, simplified, OF fit s2(2,4,3)]
  show "kinv (s\<lparr>kts := t', kframes := (kframes s)(c \<mapsto> fr)\<rparr>)" using d(1) s2(1,5) km assms(9) by (auto simp: dom_def)
  show "qeff True (kts s) t'" using d(2) s2(1,5,6) km assms(9) by (auto simp: dom_def qeff_def)
qed

text \<open>Preemption, exit and fork.\<close>

lemma kinv_put:
  assumes "kinv s" "curthread (kts s) = Some c" "case kframes s c of None \<Rightarrow> True | Some fr \<Rightarrow> asleep_at fr = None"
    and "tinv s2" "curthread s2 = None" "nextid s2 = nextid (kts s)" "slp s2 = slp (kts s)" "set (rdy (kts s)) \<subseteq> set (rdy s2)"
    and "\<And>t. t \<noteq> c \<Longrightarrow> threads s2 t = threads (kts s) t" "calm s2"
  shows "kfit (s\<lparr>kts := s2\<rparr>)"
proof -
  note i = kinvD[OF assms(1)]
  have c: "c \<notin> set (slp (kts s))" "c \<notin> set (rdy (kts s))" using tinvD(2)[OF i(2)] assms(2) by (auto simp: curl_def)
  have same: "t \<in> set (slp (kts s)) \<Longrightarrow> threads s2 t = threads (kts s) t" "t \<in> set (rdy (kts s)) \<Longrightarrow> frame_of s2 t = frame_of (kts s) t" for t
    using assms(9)[of t] c by (cases "t = c", auto simp: frame_of_def)+
  have p: "placed s2 t" if "placed (kts s) t" "kframes s t = Some fr" "asleep_at fr \<noteq> None" for t fr
    using that same(2)[of t] assms(2,3,8) by (auto simp: placed_def assms(5,7))
  let ?k = "s\<lparr>kts := s2, kframes := kframes s\<rparr>"
  have "frames_ok ?k"
    using i(4) p same(1) unfolding frames_ok_def kframe_ok_kts by (auto simp: assms(6,7))
  moreover have "objs_ok ?k"
    by (rule objs_ok_mono[OF i(5)], rule sleeping_mono[of s2]) (use same(1) assms(7) in auto)
  ultimately have "kfit ?k" using assms(10) by (simp add: kfit_def)
  then show ?thesis by simp
qed

lemma kinv_preempt:
  assumes "kinv s" "curthread (kts s) = Some c" "nextid (kts s) < thread_limit" "preemptible s c"
  obtains t' where "thread_yield (kts s) = Ok () t'" "kinv (s\<lparr>kts := t'\<rparr>)" "qeff True (kts s) t'"
    "rdy (kts s) @ [c] = the (curthread t') # rdy t'" "slp t' = slp (kts s)"
    "curspl t' = (if the (curthread t') = c then curspl (kts s) else resume_spl (frame_of (kts s) (the (curthread t'))) SPL_HIGH)"
    "nextid t' = nextid (kts s)"
proof -
  note i = kinvD[OF assms(1)]
  have lim: "nextid (kts s) \<le> thread_limit" using assms(3) by simp
  obtain s2 where s2: "thread_yield (kts s) = dispatch c s2" "tinv s2" "idle_ok s2" "curthread s2 = None" "c \<in> dom (threads s2)"
    "rdy s2 = rdy (kts s) @ [c]" "slp s2 = slp (kts s)" "nextid s2 = nextid (kts s)" "mem_left (kts s) s2"
    "\<And>t. t \<noteq> c \<Longrightarrow> threads s2 t = threads (kts s) t" "calm (kts s) \<Longrightarrow> calm s2"
    by (rule thread_yield_put[OF i(2) assms(2) lim disjI1[OF i(6)]]) blast
  obtain n t' where t': "thread_yield (kts s) = Ok () t'" "curthread t' = Some n" "rdy (kts s) @ [c] = n # rdy t'"
    "slp t' = slp (kts s)" "curspl t' = (if n = c then curspl (kts s) else resume_spl (frame_of (kts s) n) SPL_HIGH)"
    by (rule thread_yield_ok[OF i(2) assms(2) lim disjI1[OF i(6)]]) blast
  have "case kframes s c of None \<Rightarrow> True | Some fr \<Rightarrow> asleep_at fr = None"
    using assms(4) by (auto simp: preemptible_def split: option.splits kframe.splits)
  then have fit: "kfit (s\<lparr>kts := s2\<rparr>)"
    using s2 i(3) by (intro kinv_put[OF assms(1,2)]) auto
  have km: "\<forall>n. kmem s2 n" using i(6) s2(9) by (simp add: mem_left_def)
  note d = kinv_dispatch[OF fit, simplified, OF s2(2,4,3) _ km, of c t']
  have "kinv (s\<lparr>kts := t'\<rparr>)" using d(1) s2(1,5) t'(1) by (auto simp: dom_def)
  moreover have "qeff True (kts s) t'" unfolding qeff_def using t'(2,3) by auto
  moreover have "nextid t' = nextid (kts s)"
  proof -
    have "dispatch c s2 = Ok () t'" using s2(1) t'(1) by simp
    from dispatch_Ok_switched[OF s2(2,4,3,5) this] obtain n' where "switched s2 n' t'" .
    then show ?thesis using s2(8) by (simp add: switched_def)
  qed
  ultimately show thesis using t' by (intro that[of t']) simp_all
qed

lemma kinv_exit:
  assumes "kinv s" "curthread (kts s) = Some c" "nextid (kts s) < thread_limit" "kframes s c = None"
    "thread_exit (kts s) = Ok () t'"
  shows "kinv (s\<lparr>kts := t'\<rparr>)" "qeff True (kts s) t'"
proof -
  note i = kinvD[OF assms(1)]
  have lim: "nextid (kts s) \<le> thread_limit" using assms(3) by simp
  obtain s2 where s2: "thread_exit (kts s) = dispatch c s2" "tinv s2" "idle_ok s2" "curthread s2 = None" "c \<in> dom (threads s2)"
    "rdy s2 = rdy (kts s)" "slp s2 = slp (kts s)" "nextid s2 = nextid (kts s)" "mem_left (kts s) s2"
    "\<And>t. t \<noteq> c \<Longrightarrow> threads s2 t = threads (kts s) t" "calm (kts s) \<Longrightarrow> calm s2"
    by (rule thread_exit_put[OF i(2) assms(2) lim tgood_mem_ok[OF i(1)]]) blast
  have fit: "kfit (s\<lparr>kts := s2\<rparr>)" using s2 i(3) assms(4) by (intro kinv_put[OF assms(1,2)]) auto
  have km: "\<forall>n. kmem s2 n" using i(6) s2(9) by (simp add: mem_left_def)
  note d = kinv_dispatch[OF fit, simplified, OF s2(2,4,3) _ km, of c t']
  show "kinv (s\<lparr>kts := t'\<rparr>)" using d(1) s2(1,5) assms(5) by (auto simp: dom_def)
  show "qeff True (kts s) t'" using d(2) s2(1,5,6) assms(5) by (auto simp: dom_def qeff_def)
qed

lemma kinv_fork:
  assumes "kinv s" "curthread (kts s) = Some c" "nextid (kts s) < thread_limit"
    "thread_fork name data1 data2 func (kts s) = Ok t t'"
  shows "kinv (s\<lparr>kts := t'\<rparr>)" "qeff False (kts s) t'"
proof -
  note i = kinvD[OF assms(1)]
  have f: "forked (kts s) data1 data2 func t t'" using wp_OkD[OF wp_thread_fork[OF i(2) assms(2,3)] assms(4)] .
  then have f': "tinv t'" "t = nextid (kts s)" "nextid t' = nextid (kts s) + 1" "curthread t' = curthread (kts s)"
    "curspl t' = curspl (kts s)" "mem_left (kts s) t'" "rdy t' = rdy (kts s) @ [t]" "slp t' = slp (kts s)"
    "\<And>u. u \<in> dom (threads (kts s)) \<Longrightarrow> threads t' u = threads (kts s) u" "calm (kts s) \<longrightarrow> calm t'"
    by (simp_all add: forked_def)
  have "set (curl (kts s) @ rdy (kts s) @ slp (kts s) @ zmb (kts s)) = dom (threads (kts s))" using tinvD(3)[OF i(2)] .
  then have "set (slp (kts s)) \<subseteq> dom (threads (kts s))" "set (rdy (kts s)) \<subseteq> dom (threads (kts s))" by auto
  then have same: "u \<in> set (slp (kts s)) \<Longrightarrow> threads t' u = threads (kts s) u" "u \<in> set (rdy (kts s)) \<Longrightarrow> frame_of t' u = frame_of (kts s) u" for u
    using f'(9)[of u] unfolding frame_of_def by (blast, metis subsetD)
  have p: "placed (kts s) u \<Longrightarrow> placed t' u" for u using same(2)[of u] by (auto simp: placed_def f')
  let ?k = "s\<lparr>kts := t', kframes := kframes s\<rparr>"
  have "frames_ok ?k" using i(4) p same(1) unfolding frames_ok_def kframe_ok_kts by (fastforce simp: f')
  moreover have "objs_ok ?k" by (rule objs_ok_mono[OF i(5)], rule sleeping_mono[of t']) (use same(1) f' in auto)
  moreover have "tgood t'" using i(1,6) f' by (simp add: tgood_def mem_left_def)
  ultimately have "kinv ?k" using f'(10) i(3) by (simp add: kinv_def kfit_def)
  then show "kinv (s\<lparr>kts := t'\<rparr>)" by simp
  show "qeff False (kts s) t'" using f' by (simp add: qeff_def)
qed

end
