(* ===== verification/Synch_Steps.thy ===== *)
theory Synch_Steps
  imports Synch_Props
begin

text \<open>
  What the synchronization primitives are meant to be, as automata over what was completed, and that every
  step of every thread keeps the invariant and is a step of these automata.
\<close>

section \<open>The specification\<close>

text \<open>A semaphore is a counter that is never taken below zero.\<close>

fun sem_next :: "addr \<Rightarrow> int option \<Rightarrow> kevent \<Rightarrow> int option option" where
  "sem_next a st (EvInit b n) = (if b \<noteq> a then Some st else if st = None then Some (Some n) else None)"
| "sem_next a st (EvP b) = (if b \<noteq> a then Some st else case st of None \<Rightarrow> None | Some k \<Rightarrow> if k > 0 then Some (Some (k - 1)) else None)"
| "sem_next a st (EvV b) = (if b \<noteq> a then Some st else case st of None \<Rightarrow> None | Some k \<Rightarrow> Some (Some (k + 1)))"
| "sem_next a st _ = Some st"

primrec sem_run :: "addr \<Rightarrow> int option \<Rightarrow> (tid \<times> kevent) list \<Rightarrow> int option option" where
  "sem_run a st [] = Some st"
| "sem_run a st (te # tr) = Option.bind (sem_next a st (snd te)) (\<lambda>st'. sem_run a st' tr)"

text \<open>A lock has at most one holder, which takes it when it is free, and only the holder gives it back.\<close>

fun lock_next :: "addr \<Rightarrow> tid option \<Rightarrow> tid \<Rightarrow> kevent \<Rightarrow> tid option option" where
  "lock_next l h t (EvAcquire m) = (if m \<noteq> l then Some h else if h = None then Some (Some t) else None)"
| "lock_next l h t (EvRelease m) = (if m \<noteq> l then Some h else if h = Some t then Some None else None)"
| "lock_next l h t _ = Some h"

primrec lock_run :: "addr \<Rightarrow> tid option \<Rightarrow> (tid \<times> kevent) list \<Rightarrow> tid option option" where
  "lock_run l h [] = Some h"
| "lock_run l h (te # tr) = Option.bind (lock_next l h (fst te) (snd te)) (\<lambda>h'. lock_run l h' tr)"

fun ev_addr :: "kevent \<Rightarrow> addr" where
  "ev_addr (EvInit a _) = a" | "ev_addr (EvP a) = a" | "ev_addr (EvV a) = a" | "ev_addr (EvAcquire a) = a"
| "ev_addr (EvRelease a) = a" | "ev_addr (EvSignal a) = a"

lemma sem_run_append: "sem_run a st (tr @ tr') = Option.bind (sem_run a st tr) (\<lambda>st'. sem_run a st' tr')"
  by (induction tr arbitrary: st) (simp_all split: bind_splits)

lemma lock_run_append: "lock_run l h (tr @ tr') = Option.bind (lock_run l h tr) (\<lambda>h'. lock_run l h' tr')"
  by (induction tr arbitrary: h) (simp_all split: bind_splits)

lemma sem_run_other: "\<forall>te \<in> set tr. ev_addr (snd te) \<noteq> a \<Longrightarrow> sem_run a st tr = Some st"
proof (induction tr)
  case (Cons te tr)
  then show ?case by (cases "snd te") auto
qed simp

lemma lock_run_other: "\<forall>te \<in> set tr. ev_addr (snd te) \<noteq> l \<Longrightarrow> lock_run l h tr = Some h"
proof (induction tr)
  case (Cons te tr)
  then show ?case by (cases "snd te") auto
qed simp

section \<open>The effect of a step\<close>

definition keff :: "ksync \<Rightarrow> tid \<Rightarrow> kevent list \<Rightarrow> ksync \<Rightarrow> bool" where
  "keff s c evs s' \<longleftrightarrow>
     (\<forall>a x'. sems s' a = Some x' \<longrightarrow>
        sem_run a (map_option sem_count (sems s a)) (map (Pair c) evs) = Some (Some (sem_count x'))) \<and>
     (\<forall>l x'. locks s' l = Some x' \<longrightarrow>
        lock_run l (Option.bind (locks s l) holder) (map (Pair c) evs) = Some (holder x')) \<and>
     knext s \<le> knext s' \<and> (\<forall>e \<in> set evs. ev_addr e < knext s') \<and>
     (\<forall>a. sems s' a \<noteq> None \<longrightarrow> sems s a = None \<longrightarrow> knext s \<le> a) \<and>
     (\<forall>l. locks s' l \<noteq> None \<longrightarrow> locks s l = None \<longrightarrow> knext s \<le> l) \<and>
     (\<forall>t. t \<noteq> c \<longrightarrow> kframes s' t = kframes s t)"

definition kpost :: "ksync \<Rightarrow> tid \<Rightarrow> bool \<Rightarrow> kevent list \<Rightarrow> ksync \<Rightarrow> bool" where
  "kpost s c b evs s' \<longleftrightarrow> kinv s' \<and> keff s c evs s' \<and> qeff b (kts s) (kts s')"

lemma keff_same:
  "sems s' = sems s \<Longrightarrow> locks s' = locks s \<Longrightarrow> knext s' = knext s \<Longrightarrow> (\<And>t. t \<noteq> c \<Longrightarrow> kframes s' t = kframes s t) \<Longrightarrow> keff s c [] s'"
  by (auto simp: keff_def)

lemma keff_from:
  "keff s1 c evs s' \<Longrightarrow> sems s1 = sems s \<Longrightarrow> locks s1 = locks s \<Longrightarrow> knext s1 = knext s \<Longrightarrow>
   (\<And>t. t \<noteq> c \<Longrightarrow> kframes s1 t = kframes s t) \<Longrightarrow> keff s c evs s'"
  by (simp add: keff_def)

lemma keff_signal: "keff s c [] s' \<Longrightarrow> v < knext s \<Longrightarrow> keff s c [EvSignal v] s'"
  by (auto simp: keff_def)

lemma qeff_from: "qeff b t1 t' \<Longrightarrow> rdy t1 = rdy t \<Longrightarrow> curthread t1 = curthread t \<Longrightarrow> qeff b t t'"
  by (cases b) (simp_all add: qeff_def)

lemma kpost_spl:
  "kpost (s\<lparr>kts := (kts s)\<lparr>iec := e, curspl := n\<rparr>\<rparr>) c b evs s' \<Longrightarrow> kpost s c b evs s'"
  by (cases b) (simp_all add: kpost_def keff_def qeff_def rdy_def)

lemma kpost_block:
  assumes "kinv s" "curthread (kts s) = Some c" "nextid (kts s) < thread_limit" "curspl (kts s) > 0"
    and "asleep_at fr = Some a" "kframe_ok s fr"
    and "\<And>x. sems s a = Some x \<Longrightarrow> sem_count x = 0" "\<And>x. locks s a = Some x \<Longrightarrow> isHeld x"
    and "block_in fr a s = Ok (b, evs) s'"
  shows "kpost s c b evs s'"
proof -
  obtain t' where t': "(b, evs) = (True, [])" "thread_sleep a (kts s) = Ok () t'" "s' = s\<lparr>kts := t', kframes := (kframes s)(c \<mapsto> fr)\<rparr>"
    by (rule block_in_Ok[OF assms(9,2)])
  show ?thesis using kinv_sleep[OF assms(1-8) t'(2)] t' keff_same[of s' s c] by (simp add: kpost_def)
qed

lemma qeff_kdone: "qeff False (kts s) (kts (kdone c spl s))"
  by (simp add: qeff_def kdone_def rdy_def)

lemma kdone_simps [simp]: "sems (kdone c spl s) = sems s" "locks (kdone c spl s) = locks s" "cvs (kdone c spl s) = cvs s"
  "knext (kdone c spl s) = knext s" "t \<noteq> c \<Longrightarrow> kframes (kdone c spl s) t = kframes s t"
  by (simp_all add: kdone_def)

lemma kdone_upd [simp]: "kts (s\<lparr>sems := x\<rparr>) = kts s" "kts (s\<lparr>locks := y\<rparr>) = kts s"
  by simp_all

lemma spl_irrelevant [simp]:
  "rdy (t\<lparr>iec := e, curspl := n\<rparr>) = rdy t" "slp (t\<lparr>iec := e, curspl := n\<rparr>) = slp t"
  "sleeps_on (t\<lparr>iec := e, curspl := n\<rparr>) = sleeps_on t" "frame_of (t\<lparr>iec := e, curspl := n\<rparr>) = frame_of t"
  "sleeping (t\<lparr>iec := e, curspl := n\<rparr>) = sleeping t"
  by (simp_all add: rdy_def slp_def sleeps_on_def frame_of_def sleeping_def fun_eq_iff)

section \<open>Semaphores\<close>

lemma P_loop_post:
  assumes "kinv s" "curthread (kts s) = Some c" "nextid (kts s) < thread_limit" "curspl (kts s) > 0"
    "P_loop a spl s = Ok (b, evs) s'"
  shows "kpost s c b evs s'"
proof -
  obtain x where x: "sems s a = Some x" using assms(5) by (auto simp: P_loop_def bind_eq_Ok sem_get_def split: option.splits)
  note o = objs_okD(1)[OF kinvD(5)[OF assms(1)] x]
  show ?thesis
  proof (cases "sem_count x = 0")
    case True
    then have "block_in (In_P a spl) a s = Ok (b, evs) s'" using assms(5) x by (simp add: P_loop_def bind_def sem_get_def)
    then show ?thesis using o x True by (intro kpost_block[OF assms(1-4)]) auto
  next
    case False
    let ?y = "x\<lparr>sem_count := sem_count x - 1\<rparr>" and ?s = "s\<lparr>sems := (sems s)(a \<mapsto> x\<lparr>sem_count := sem_count x - 1\<rparr>)\<rparr>"
    have r: "s' = kdone c spl ?s" "b = False" "evs = [EvP a]"
      using assms(2,5) x False o by (auto simp: P_loop_def bind_def sem_get_def sem_put_def)
    have k: "kinv ?s" using o False by (intro kinv_sem[OF assms(1) x]) auto
    have "keff s c [EvP a] s'" unfolding r(1) keff_def using x o False by auto
    then show ?thesis using kinv_kdone[OF k, of c spl] qeff_kdone[of ?s c spl] assms(2) r by (simp add: kpost_def)
  qed
qed

lemma P_post:
  assumes "kinv s" "curthread (kts s) = Some c" "nextid (kts s) < thread_limit" "P a s = Ok (b, evs) s'"
  shows "kpost s c b evs s'"
proof -
  let ?s = "s\<lparr>kts := (kts s)\<lparr>iec := False, curspl := SPL_HIGH\<rparr>\<rparr>"
  have "P_loop a (curspl (kts s)) ?s = Ok (b, evs) s'" using assms(4) by (auto simp: P_def bind_eq_Ok assertk_def split: if_splits)
  then have "kpost ?s c b evs s'" using assms by (intro P_loop_post[OF kinv_splhigh[OF assms(1)]]) (simp_all add: SPL_HIGH_def)
  then show ?thesis by (rule kpost_spl)
qed

lemma s32_succ: "0 \<le> k \<Longrightarrow> k < 2 ^ 31 \<Longrightarrow> s32 (k + 1) > 0 \<Longrightarrow> s32 (k + 1) = k + 1 \<and> k + 1 < 2 ^ 31"
  by (cases "k = 2147483647") (auto simp: s32_def)

text \<open>Waking all sleepers and returning: what \<open>V\<close>, \<open>lock_release\<close> and \<open>cv_broadcast\<close> end with.\<close>

lemma wake_return:
  assumes "kinv s" "curthread (kts s) = Some c" "nextid (kts s) < thread_limit" "curspl (kts s) > 0"
  obtains t' where "\<And>s1. kts s1 = kts s \<Longrightarrow>
      bind (on_ts (thread_wakeup a)) (\<lambda>_. return_from spl evs) s1 = Ok (False, evs) (kdone c spl (s1\<lparr>kts := t'\<rparr>))"
    "kinv (s\<lparr>kts := t'\<rparr>)" "\<not> sleeping t' a" "curthread t' = Some c"
    "rdy t' = rdy (kts s) @ filter (sleeps_on (kts s) a) (slp (kts s))" "nextid t' = nextid (kts s)"
    "slp t' = filter (\<lambda>t. \<not> sleeps_on (kts s) a t) (slp (kts s))"
proof -
  obtain t' m where t': "on_ts (thread_wakeup a) s = Ok () (s\<lparr>kts := t'\<rparr>)" "kinv (s\<lparr>kts := t'\<rparr>)" "\<not> sleeping t' a"
    "curthread t' = curthread (kts s)" "rdy t' = rdy (kts s) @ m" "m = filter (sleeps_on (kts s) a) (slp (kts s))" "nextid t' = nextid (kts s)"
    "slp t' = filter (\<lambda>t. \<not> sleeps_on (kts s) a t) (slp (kts s))"
    by (rule kinv_wakeup[OF assms(1,4,3), of a]) blast
  have w: "thread_wakeup a (kts s) = Ok () t'"
  proof -
    obtain t2 where t2: "thread_wakeup a (kts s) = Ok () t2" "s\<lparr>kts := t'\<rparr> = s\<lparr>kts := t2\<rparr>"
      using t'(1) unfolding on_ts_eq_Ok by blast
    then have "kts (s\<lparr>kts := t'\<rparr>) = kts (s\<lparr>kts := t2\<rparr>)" by simp
    then show ?thesis using t2(1) by simp
  qed
  have "bind (on_ts (thread_wakeup a)) (\<lambda>_. return_from spl evs) s1 = Ok (False, evs) (kdone c spl (s1\<lparr>kts := t'\<rparr>))"
    if "kts s1 = kts s" for s1
    using w that t'(4) assms(2) by (simp add: bind_def on_ts_def zoom_def)
  then show thesis using t' assms(2) by (intro that[of t']) simp_all
qed

lemma kdone_kinv:
  assumes "kinv (s\<lparr>kts := t'\<rparr>)" "curthread t' = Some c"
  shows "kinv (kdone c spl (s\<lparr>kts := t'\<rparr>))"
  using kinv_kdone[OF assms(1)] assms(2) by simp

text \<open>A semaphore whose count is raised is sound again as soon as its sleepers are awake.\<close>

lemma kinv_wake_sem:
  assumes "kinv (s\<lparr>kts := t'\<rparr>)" "sems s a = Some x" "\<not> sleeping t' a" "0 \<le> sem_count y" "sem_count y < 2 ^ 31"
  shows "kinv (s\<lparr>sems := (sems s)(a \<mapsto> y), kts := t'\<rparr>)"
proof -
  have e: "s\<lparr>sems := (sems s)(a \<mapsto> y), kts := t'\<rparr> = s\<lparr>kts := t', sems := (sems s)(a \<mapsto> y)\<rparr>" by (cases s) simp
  show ?thesis unfolding e using kinv_sem[OF assms(1), of a x y] assms(2-5) by simp
qed

lemma kinv_wake_lock:
  assumes "kinv (s\<lparr>kts := t'\<rparr>)" "locks s l = Some x" "\<not> sleeping t' l" "isHeld y \<longleftrightarrow> holder y \<noteq> None"
  shows "kinv (s\<lparr>locks := (locks s)(l \<mapsto> y), kts := t'\<rparr>)"
proof -
  have e: "s\<lparr>locks := (locks s)(l \<mapsto> y), kts := t'\<rparr> = s\<lparr>kts := t', locks := (locks s)(l \<mapsto> y)\<rparr>" by (cases s) simp
  show ?thesis unfolding e using kinv_lock[OF assms(1), of l x y] assms(2-4) by simp
qed

lemma qeff_wake: "rdy t' = rdy t @ m \<Longrightarrow> curthread t' = curthread t \<Longrightarrow> qeff False t (kts (kdone c spl (s\<lparr>kts := t'\<rparr>)))"
  by (simp add: qeff_def kdone_def rdy_def)

lemma V_run:
  assumes "kinv s" "curthread (kts s) = Some c" "nextid (kts s) < thread_limit" "sems s a = Some x" "a \<noteq> NULL"
    "s32 (sem_count x + 1) > 0"
  obtains t' where "V a s = Ok (False, [EvV a]) (kdone c (curspl (kts s)) (s\<lparr>sems := (sems s)(a \<mapsto> x\<lparr>sem_count := sem_count x + 1\<rparr>), kts := t'\<rparr>))"
    "kpost s c False [EvV a] (kdone c (curspl (kts s)) (s\<lparr>sems := (sems s)(a \<mapsto> x\<lparr>sem_count := sem_count x + 1\<rparr>), kts := t'\<rparr>))"
    "rdy t' = rdy (kts s) @ filter (sleeps_on (kts s) a) (slp (kts s))"
proof -
  let ?y = "x\<lparr>sem_count := sem_count x + 1\<rparr>" and ?hi = "(kts s)\<lparr>iec := False, curspl := SPL_HIGH\<rparr>"
  note o = objs_okD(1)[OF kinvD(5)[OF assms(1)] assms(4)]
  have n: "s32 (sem_count x + 1) = sem_count x + 1" "sem_count x + 1 < 2 ^ 31" using s32_succ[OF _ _ assms(6)] o by auto
  note k = kinv_splhigh[OF assms(1), of False]
  have pre: "curthread (kts (s\<lparr>kts := ?hi\<rparr>)) = Some c" "nextid (kts (s\<lparr>kts := ?hi\<rparr>)) < thread_limit" "curspl (kts (s\<lparr>kts := ?hi\<rparr>)) > 0"
    using assms(2,3) by (simp_all add: SPL_HIGH_def)
  obtain t' where t': "\<And>s1. kts s1 = kts (s\<lparr>kts := ?hi\<rparr>) \<Longrightarrow>
      bind (on_ts (thread_wakeup a)) (\<lambda>_. return_from (curspl (kts s)) [EvV a]) s1 = Ok (False, [EvV a]) (kdone c (curspl (kts s)) (s1\<lparr>kts := t'\<rparr>))"
    "kinv (s\<lparr>kts := ?hi\<rparr>\<lparr>kts := t'\<rparr>)" "\<not> sleeping t' a" "curthread t' = Some c"
    "rdy t' = rdy (kts (s\<lparr>kts := ?hi\<rparr>)) @ filter (sleeps_on (kts (s\<lparr>kts := ?hi\<rparr>)) a) (slp (kts (s\<lparr>kts := ?hi\<rparr>)))"
    by (rule wake_return[OF k pre]) blast
  let ?s = "kdone c (curspl (kts s)) (s\<lparr>sems := (sems s)(a \<mapsto> ?y), kts := t'\<rparr>)"
  have upd: "s\<lparr>kts := ?hi, sems := (sems s)(a \<mapsto> ?y)\<rparr>\<lparr>kts := t'\<rparr> = s\<lparr>sems := (sems s)(a \<mapsto> ?y), kts := t'\<rparr>" by (cases s) simp
  have run: "V a s = Ok (False, [EvV a]) ?s"
    using t'(1)[of "s\<lparr>kts := ?hi, sems := (sems s)(a \<mapsto> ?y)\<rparr>"] assms(4,5) n o upd
    by (simp add: V_def bind_def[of "on_ts splhigh"] bind_def[of "sem_get a"] bind_def[of "sem_put a v" for v] sem_get_def sem_put_def Let_def)
  have "kinv (s\<lparr>sems := (sems s)(a \<mapsto> ?y), kts := t'\<rparr>)"
    by (rule kinv_wake_sem[OF _ assms(4) t'(3)]) (use t'(2) o n in simp_all)
  then have ki: "kinv ?s" using kinv_kdone t'(4) by simp
  have r: "rdy t' = rdy (kts s) @ filter (sleeps_on (kts s) a) (slp (kts s))"
    using t'(5) by simp
  have "keff s c [EvV a] ?s" unfolding keff_def using assms(4) o by auto
  moreover have "qeff False (kts s) (kts ?s)" using r t'(4) assms(2) by (simp add: qeff_def kdone_def rdy_def)
  ultimately show thesis using ki run r by (intro that[of t']) (simp_all add: kpost_def)
qed

lemma V_post:
  assumes "kinv s" "curthread (kts s) = Some c" "nextid (kts s) < thread_limit" "V a s = Ok (b, evs) s'"
  shows "kpost s c b evs s'"
proof -
  obtain x where x: "sems s a = Some x" "a \<noteq> NULL" "s32 (sem_count x + 1) > 0"
    using assms(4) by (auto simp: V_def bind_eq_Ok sem_get_def assertk_def Let_def split: option.splits if_splits)
  show ?thesis by (rule V_run[OF assms(1-3) x]) (use assms(4) in auto)
qed

section \<open>Locks\<close>

lemma acquire_loop_post:
  assumes "kinv s" "curthread (kts s) = Some c" "nextid (kts s) < thread_limit" "curspl (kts s) > 0"
    "lock_acquire_loop l spl s = Ok (b, evs) s'"
  shows "kpost s c b evs s'"
proof -
  obtain x where x: "locks s l = Some x" using assms(5) by (auto simp: lock_acquire_loop_def bind_eq_Ok lock_get_def split: option.splits)
  note o = objs_okD(2)[OF kinvD(5)[OF assms(1)] x]
  show ?thesis
  proof (cases "isHeld x")
    case True
    then have "block_in (In_lock_acquire l spl) l s = Ok (b, evs) s'" using assms(5) x by (simp add: lock_acquire_loop_def bind_def lock_get_def)
    then show ?thesis using o x True by (intro kpost_block[OF assms(1-4)]) auto
  next
    case False
    let ?y = "x\<lparr>isHeld := True, holder := Some c\<rparr>"
    let ?s = "s\<lparr>locks := (locks s)(l \<mapsto> ?y)\<rparr>"
    have r: "s' = kdone c spl ?s" "b = False" "evs = [EvAcquire l]"
      using assms(2,5) x False by (auto simp: lock_acquire_loop_def bind_def lock_get_def lock_put_def)
    have k: "kinv ?s" by (intro kinv_lock[OF assms(1) x]) auto
    have "keff s c [EvAcquire l] s'" unfolding r(1) keff_def using x o False by auto
    then show ?thesis using kinv_kdone[OF k, of c spl] qeff_kdone[of ?s c spl] assms(2) r by (simp add: kpost_def)
  qed
qed

lemma lock_acquire_run:
  assumes "locks s l = Some x" "l \<noteq> NULL" "holder x \<noteq> curthread (kts s)"
  shows "lock_acquire l s = lock_acquire_loop l (curspl (kts s)) (s\<lparr>kts := (kts s)\<lparr>iec := False, curspl := SPL_HIGH\<rparr>\<rparr>)"
  using assms by (simp add: lock_acquire_def bind_def[of "on_ts splhigh"] bind_def[of "lock_do_i_hold l"] lock_do_i_hold_def lock_get_def bind_def)

lemma lock_acquire_post:
  assumes "kinv s" "curthread (kts s) = Some c" "nextid (kts s) < thread_limit" "lock_acquire l s = Ok (b, evs) s'"
  shows "kpost s c b evs s'"
proof -
  let ?s = "s\<lparr>kts := (kts s)\<lparr>iec := False, curspl := SPL_HIGH\<rparr>\<rparr>"
  have "lock_acquire_loop l (curspl (kts s)) ?s = Ok (b, evs) s'"
    using assms(4) by (auto simp: lock_acquire_def bind_eq_Ok assertk_def lock_do_i_hold_def lock_get_def split: if_splits option.splits)
  then have "kpost ?s c b evs s'" using assms by (intro acquire_loop_post[OF kinv_splhigh[OF assms(1)]]) (simp_all add: SPL_HIGH_def)
  then show ?thesis by (rule kpost_spl)
qed

lemma lock_release_run:
  assumes "kinv s" "curthread (kts s) = Some c" "nextid (kts s) < thread_limit" "locks s l = Some x" "l \<noteq> NULL"
    "holder x = Some c"
  obtains t' where "lock_release l s = Ok (False, [EvRelease l])
      (kdone c (curspl (kts s)) (s\<lparr>locks := (locks s)(l \<mapsto> x\<lparr>holder := None, isHeld := False\<rparr>), kts := t'\<rparr>))"
    "kpost s c False [EvRelease l] (kdone c (curspl (kts s)) (s\<lparr>locks := (locks s)(l \<mapsto> x\<lparr>holder := None, isHeld := False\<rparr>), kts := t'\<rparr>))"
    "rdy t' = rdy (kts s) @ filter (sleeps_on (kts s) l) (slp (kts s))" "curthread t' = Some c"
    "nextid t' = nextid (kts s)" "slp t' = filter (\<lambda>t. \<not> sleeps_on (kts s) l t) (slp (kts s))"
proof -
  let ?y = "x\<lparr>holder := None, isHeld := False\<rparr>" and ?hi = "(kts s)\<lparr>iec := False, curspl := SPL_HIGH\<rparr>"
  note o = objs_okD(2)[OF kinvD(5)[OF assms(1)] assms(4)]
  note k = kinv_splhigh[OF assms(1), of False]
  have pre: "curthread (kts (s\<lparr>kts := ?hi\<rparr>)) = Some c" "nextid (kts (s\<lparr>kts := ?hi\<rparr>)) < thread_limit" "curspl (kts (s\<lparr>kts := ?hi\<rparr>)) > 0"
    using assms(2,3) by (simp_all add: SPL_HIGH_def)
  obtain t' where t': "\<And>s1. kts s1 = kts (s\<lparr>kts := ?hi\<rparr>) \<Longrightarrow>
      bind (on_ts (thread_wakeup l)) (\<lambda>_. return_from (curspl (kts s)) [EvRelease l]) s1 = Ok (False, [EvRelease l]) (kdone c (curspl (kts s)) (s1\<lparr>kts := t'\<rparr>))"
    "kinv (s\<lparr>kts := ?hi\<rparr>\<lparr>kts := t'\<rparr>)" "\<not> sleeping t' l" "curthread t' = Some c"
    "rdy t' = rdy (kts (s\<lparr>kts := ?hi\<rparr>)) @ filter (sleeps_on (kts (s\<lparr>kts := ?hi\<rparr>)) l) (slp (kts (s\<lparr>kts := ?hi\<rparr>)))"
    "nextid t' = nextid (kts (s\<lparr>kts := ?hi\<rparr>))" "slp t' = filter (\<lambda>t. \<not> sleeps_on (kts (s\<lparr>kts := ?hi\<rparr>)) l t) (slp (kts (s\<lparr>kts := ?hi\<rparr>)))"
    by (rule wake_return[OF k pre]) blast
  let ?s = "kdone c (curspl (kts s)) (s\<lparr>locks := (locks s)(l \<mapsto> ?y), kts := t'\<rparr>)"
  have upd: "s\<lparr>kts := ?hi, locks := (locks s)(l \<mapsto> ?y)\<rparr>\<lparr>kts := t'\<rparr> = s\<lparr>locks := (locks s)(l \<mapsto> ?y), kts := t'\<rparr>" by (cases s) simp
  have hold: "lock_do_i_hold l (s\<lparr>kts := ?hi\<rparr>) = Ok True (s\<lparr>kts := ?hi\<rparr>)"
    using assms(2,4,6) by (simp add: lock_do_i_hold_def lock_get_def bind_def)
  have run: "lock_release l s = Ok (False, [EvRelease l]) ?s"
    using t'(1)[of "s\<lparr>kts := ?hi, locks := (locks s)(l \<mapsto> ?y)\<rparr>"] assms(4,5) hold upd
    by (simp add: lock_release_def bind_def[of "on_ts splhigh"] bind_def[of "lock_do_i_hold l"] bind_def[of "lock_get l"]
        bind_def[of "lock_put l v" for v] lock_get_def lock_put_def)
  have "kinv (s\<lparr>locks := (locks s)(l \<mapsto> ?y), kts := t'\<rparr>)"
    by (rule kinv_wake_lock[OF _ assms(4) t'(3)]) (use t'(2) in simp_all)
  then have ki: "kinv ?s" using kinv_kdone t'(4) by simp
  have r: "rdy t' = rdy (kts s) @ filter (sleeps_on (kts s) l) (slp (kts s))" using t'(5) by simp
  have "keff s c [EvRelease l] ?s" unfolding keff_def using assms(4,6) o by auto
  moreover have "qeff False (kts s) (kts ?s)" using r t'(4) assms(2) by (simp add: qeff_def kdone_def rdy_def)
  ultimately show thesis using ki run r t'(4,6,7) by (intro that[of t']) (simp_all add: kpost_def)
qed

lemma lock_release_post:
  assumes "kinv s" "curthread (kts s) = Some c" "nextid (kts s) < thread_limit" "lock_release l s = Ok (b, evs) s'"
  shows "kpost s c b evs s'" "curthread (kts s') = Some c" "kframes s' c = None" "b = False"
proof -
  obtain x where x: "locks s l = Some x" "l \<noteq> NULL" "holder x = Some c"
    using assms(2,4) by (auto simp: lock_release_def bind_eq_Ok lock_do_i_hold_def lock_get_def assertk_def split: option.splits if_splits)
  obtain t' where t': "lock_release l s = Ok (False, [EvRelease l])
      (kdone c (curspl (kts s)) (s\<lparr>locks := (locks s)(l \<mapsto> x\<lparr>holder := None, isHeld := False\<rparr>), kts := t'\<rparr>))"
    "kpost s c False [EvRelease l] (kdone c (curspl (kts s)) (s\<lparr>locks := (locks s)(l \<mapsto> x\<lparr>holder := None, isHeld := False\<rparr>), kts := t'\<rparr>))"
    "curthread t' = Some c"
    by (rule lock_release_run[OF assms(1-3) x]) blast
  then show "kpost s c b evs s'" "curthread (kts s') = Some c" "kframes s' c = None" "b = False"
    using assms(4) by (auto simp: kdone_def)
qed

section \<open>Condition variables and the clock\<close>

lemma kinv_push:
  assumes "kinv s" "curthread (kts s) = Some c" "asleep_at fr = None" "kframe_ok s fr"
  shows "kinv (s\<lparr>kframes := (kframes s)(c \<mapsto> fr)\<rparr>)"
proof -
  note i = kinvD[OF assms(1)]
  let ?s = "s\<lparr>kts := kts s, kframes := (kframes s)(c \<mapsto> fr)\<rparr>"
  have c: "c \<notin> set (slp (kts s))" using tinvD(2)[OF i(2)] assms(2) by (auto simp: curl_def)
  have cn: "c < nextid (kts s)" using tinv_thread[OF i(2), of c] tinvD(5)[OF i(2), of c] assms(2) by (auto simp: curl_def)
  have "frames_ok ?s" using i(4) c cn assms(3,4) unfolding frames_ok_def kframe_ok_kts by auto
  moreover have "objs_ok ?s" by (rule objs_ok_mono[OF i(5)])
  ultimately have "kinv ?s" using i(1,3) by (simp add: kinv_def kfit_def)
  then show ?thesis by simp
qed

lemma kpost_push:
  assumes "kpost s c b evs s'" "curthread (kts s') = Some c" "asleep_at fr = None" "kframe_ok s' fr"
  shows "kpost s c b evs (s'\<lparr>kframes := (kframes s')(c \<mapsto> fr)\<rparr>)"
  using assms kinv_push[OF _ assms(2-4)] by (simp add: kpost_def keff_def)

lemma cv_wait_post:
  assumes "kinv s" "curthread (kts s) = Some c" "nextid (kts s) < thread_limit" "cvs s v \<noteq> None" "cv_wait v l s = Ok (b, evs) s'"
  shows "kpost s c b evs s'"
proof -
  obtain s1 where s1: "lock_release l s = Ok (b, evs) s1" "kpush (Some (In_cv_wait v l)) s1 = Ok () s'"
    using assms(5) by (auto simp: cv_wait_def bind_eq_Ok assertk_def split: if_splits)
  note r = lock_release_post[OF assms(1-3) s1(1)]
  have o: "v < knext s" "sems s v = None" "locks s v = None" using objs_okD(3)[OF kinvD(5)[OF assms(1)] assms(4)] by auto
  have "sems s1 v = None" "locks s1 v = None" "v < knext s1"
    using r(1) o unfolding kpost_def keff_def by (metis not_less, metis not_less, simp)
  then show ?thesis using kpost_push[OF r(1,2), of "In_cv_wait v l"] s1(2) r(2) by simp
qed

lemma cv_wait_sleep_post:
  assumes "kinv s" "curthread (kts s) = Some c" "nextid (kts s) < thread_limit" "kframe_ok s (In_cv_wait v l)"
    "cv_wait_sleep v l s = Ok (b, evs) s'"
  shows "kpost s c b evs s'"
proof -
  let ?s = "s\<lparr>kts := (kts s)\<lparr>iec := False, curspl := SPL_HIGH\<rparr>\<rparr>"
  have "block_in (In_cv_sleep v l (curspl (kts s))) v ?s = Ok (b, evs) s'" using assms(5) by (simp add: cv_wait_sleep_def bind_def)
  then have "kpost ?s c b evs s'"
    using assms(2-4) by (intro kpost_block[OF kinv_splhigh[OF assms(1)]]) (auto simp: SPL_HIGH_def)
  then show ?thesis by (rule kpost_spl)
qed

lemma cv_wait_woken_post:
  assumes "kinv s" "curthread (kts s) = Some c" "nextid (kts s) < thread_limit" "cv_wait_woken l spl s = Ok (b, evs) s'"
  shows "kpost s c b evs s'"
proof -
  have r: "lock_acquire l (kdone c spl s) = Ok (b, evs) s'" using assms(2,4) by (simp add: cv_wait_woken_def bind_def kdone_def)
  have "kpost (kdone c spl s) c b evs s'"
    by (rule lock_acquire_post[OF kinv_kdone[OF assms(1,2)] _ _ r]) (use assms(2,3) in \<open>simp_all add: kdone_def\<close>)
  then show ?thesis using keff_from[of "kdone c spl s" c evs s' s] qeff_from[of b "kts (kdone c spl s)" "kts s'" "kts s"]
    by (simp add: kpost_def) (simp add: kdone_def)
qed

lemma cv_signal_post:
  assumes "kinv s" "curthread (kts s) = Some c" "nextid (kts s) < thread_limit" "cvs s v \<noteq> None" "cv_signal v l s = Ok (b, evs) s'"
  shows "kpost s c b evs s'"
proof -
  let ?s = "s\<lparr>kts := (kts s)\<lparr>iec := False, curspl := SPL_HIGH\<rparr>\<rparr>"
  have r: "bind (on_ts (thread_wakeup_one v)) (\<lambda>_. return_from (curspl (kts s)) [EvSignal v]) ?s = Ok (b, evs) s'"
    using assms(5) by (auto simp: cv_signal_def bind_eq_Ok assertk_def lock_do_i_hold_def lock_get_def split: if_splits option.splits)
  have pre: "curspl (kts ?s) > 0" "nextid (kts ?s) < thread_limit" using assms(3) by (simp_all add: SPL_HIGH_def)
  obtain t' m where t': "on_ts (thread_wakeup_one v) ?s = Ok () (?s\<lparr>kts := t'\<rparr>)" "kinv (?s\<lparr>kts := t'\<rparr>)"
    "curthread t' = curthread (kts ?s)" "rdy t' = rdy (kts ?s) @ m"
    by (rule kinv_wakeup_one[OF kinv_splhigh[OF assms(1)] pre, of v]) blast
  have e: "s' = kdone c (curspl (kts s)) (s\<lparr>kts := t'\<rparr>)" "evs = [EvSignal v]" "b = False"
    using r t'(1,3) assms(2) by (simp_all add: bind_def)
  have "kinv s'" unfolding e using kinv_kdone[of "s\<lparr>kts := t'\<rparr>" c] t' assms(2) by simp
  moreover have "keff s c [EvSignal v] s'"
    using objs_okD(3)[OF kinvD(5)[OF assms(1)] assms(4)] by (intro keff_signal keff_same) (simp_all add: e)
  moreover have "qeff False (kts s) (kts s')" unfolding e by (rule qeff_wake[of _ _ m]) (use t' in simp_all)
  ultimately show ?thesis by (simp add: kpost_def e)
qed

lemma cv_broadcast_post:
  assumes "kinv s" "curthread (kts s) = Some c" "nextid (kts s) < thread_limit" "cvs s v \<noteq> None" "cv_broadcast v l s = Ok (b, evs) s'"
  shows "kpost s c b evs s'"
proof -
  let ?s = "s\<lparr>kts := (kts s)\<lparr>iec := False, curspl := SPL_HIGH\<rparr>\<rparr>"
  have r: "bind (on_ts (thread_wakeup v)) (\<lambda>_. return_from (curspl (kts s)) [EvSignal v]) ?s = Ok (b, evs) s'"
    using assms(5) by (auto simp: cv_broadcast_def bind_eq_Ok assertk_def lock_do_i_hold_def lock_get_def split: if_splits option.splits)
  have pre: "curthread (kts ?s) = Some c" "nextid (kts ?s) < thread_limit" "curspl (kts ?s) > 0" using assms(2,3) by (simp_all add: SPL_HIGH_def)
  obtain t' where t': "\<And>s1. kts s1 = kts ?s \<Longrightarrow>
      bind (on_ts (thread_wakeup v)) (\<lambda>_. return_from (curspl (kts s)) [EvSignal v]) s1 = Ok (False, [EvSignal v]) (kdone c (curspl (kts s)) (s1\<lparr>kts := t'\<rparr>))"
    "kinv (?s\<lparr>kts := t'\<rparr>)" "curthread t' = Some c" "rdy t' = rdy (kts ?s) @ filter (sleeps_on (kts ?s) v) (slp (kts ?s))"
    by (rule wake_return[OF kinv_splhigh[OF assms(1)] pre]) blast
  have e: "s' = kdone c (curspl (kts s)) (s\<lparr>kts := t'\<rparr>)" "evs = [EvSignal v]" "b = False" using r t'(1)[of ?s] by simp_all
  have "kinv s'" unfolding e using kinv_kdone[of "s\<lparr>kts := t'\<rparr>" c] t' by simp
  moreover have "keff s c [EvSignal v] s'"
    using objs_okD(3)[OF kinvD(5)[OF assms(1)] assms(4)] by (intro keff_signal keff_same) (simp_all add: e)
  moreover have "qeff False (kts s) (kts s')" unfolding e by (rule qeff_wake) (use t' assms(2) in simp_all)
  ultimately show ?thesis by (simp add: kpost_def e)
qed

lemma clocksleep_loop_post:
  assumes "kinv s" "curthread (kts s) = Some c" "nextid (kts s) < thread_limit" "curspl (kts s) > 0"
    "clocksleep_loop n spl s = Ok (b, evs) s'"
  shows "kpost s c b evs s'"
proof (cases "n > 0")
  case True
  have "sems s lbolt_addr = None" "locks s lbolt_addr = None"
    using objs_okD(1,2)[OF kinvD(5)[OF assms(1)], of lbolt_addr] by (cases "sems s lbolt_addr"; cases "locks s lbolt_addr"; auto)+
  then show ?thesis using assms(5) True by (intro kpost_block[OF assms(1-4), of "In_clocksleep (n - 1) spl" lbolt_addr])
    (simp_all add: clocksleep_loop_def)
next
  case False
  then have "s' = kdone c spl s" "b = False" "evs = []" using assms(2,5) by (simp_all add: clocksleep_loop_def)
  then show ?thesis using kinv_kdone[OF assms(1,2), of spl] qeff_kdone[of s c spl] keff_same[of s' s c] by (simp add: kpost_def)
qed

lemma clocksleep_post:
  assumes "kinv s" "curthread (kts s) = Some c" "nextid (kts s) < thread_limit" "clocksleep n s = Ok (b, evs) s'"
  shows "kpost s c b evs s'"
proof -
  let ?s = "s\<lparr>kts := (kts s)\<lparr>iec := False, curspl := SPL_HIGH\<rparr>\<rparr>"
  have "clocksleep_loop n (curspl (kts s)) ?s = Ok (b, evs) s'" using assms(4) by (simp add: clocksleep_def bind_def)
  then have "kpost ?s c b evs s'" using assms by (intro clocksleep_loop_post[OF kinv_splhigh[OF assms(1)]]) (simp_all add: SPL_HIGH_def)
  then show ?thesis by (rule kpost_spl)
qed

section \<open>Creation and destruction\<close>

lemma not_sleeping_new:
  assumes "kinv s" "knext s \<le> a"
  shows "\<not> sleeping (kts s) a"
proof
  assume "sleeping (kts s) a"
  then obtain t where t: "t \<in> set (slp (kts s))" "sleeps_on (kts s) a t" by (auto simp: sleeping_def)
  obtain fr where fr: "asleep_at fr = Some a" "kframe_ok s fr" by (rule sleeper_frame[OF assms(1) t])
  have "lbolt_addr < knext s" using kinvD(5)[OF assms(1)] by (simp add: objs_ok_def)
  then show False using fr assms(2) by (cases fr) auto
qed

lemma kframe_ok_new:
  assumes "kframe_ok s fr" "knext s \<le> knext s'"
    and "\<And>a. sems s' a \<noteq> None \<Longrightarrow> sems s a \<noteq> None \<or> a = knext s" "\<And>a. locks s' a \<noteq> None \<Longrightarrow> locks s a \<noteq> None \<or> a = knext s"
  shows "kframe_ok s' fr"
proof -
  have "sems s a = None \<Longrightarrow> a < knext s \<Longrightarrow> sems s' a = None" "locks s a = None \<Longrightarrow> a < knext s \<Longrightarrow> locks s' a = None" for a
    using assms(3,4)[of a] by (cases "sems s' a"; cases "locks s' a"; simp)+
  then show ?thesis using assms(1,2) by (cases fr) auto
qed

lemma kinv_new:
  assumes "kinv s" "kts s' = (kts s)\<lparr>kmem := km\<rparr>" "\<forall>n. km n" "kframes s' = kframes s" "knext s' = knext s + 1"
    and sem: "\<And>a x. sems s' a = Some x \<Longrightarrow> sems s a = Some x \<or> a = knext s \<and> 0 \<le> sem_count x \<and> sem_count x < 2 ^ 31"
    and lock: "\<And>a x. locks s' a = Some x \<Longrightarrow> locks s a = Some x \<or> a = knext s \<and> \<not> isHeld x \<and> holder x = None"
    and cv: "\<And>a. cvs s' a \<noteq> None \<Longrightarrow> cvs s a \<noteq> None \<or> a = knext s"
    and one: "sems s' (knext s) \<noteq> None \<Longrightarrow> locks s' (knext s) = None \<and> cvs s' (knext s) = None"
      "locks s' (knext s) \<noteq> None \<Longrightarrow> cvs s' (knext s) = None"
  shows "kinv s'"
proof -
  note i = kinvD[OF assms(1)] and o = objs_okD[OF kinvD(5)[OF assms(1)]]
  have l: "slp (kts s') = slp (kts s)" "rdy (kts s') = rdy (kts s)" "threads (kts s') = threads (kts s)" "placed (kts s') = placed (kts s)"
    "sleeping (kts s') = sleeping (kts s)" "nextid (kts s') = nextid (kts s)"
    by (simp_all add: assms(2) slp_def rdy_def placed_def sleeping_def sleeps_on_def frame_of_def fun_eq_iff)
  have f: "kframe_ok s' fr" if "kframe_ok s fr" for fr
    using that assms(5) by (rule_tac kframe_ok_new[of s]) (auto dest: sem lock)
  have fo: "frames_ok s'" using i(4) f unfolding frames_ok_def l assms(4) by blast
  have ns: "\<not> sleeping (kts s) (knext s)" using not_sleeping_new[OF assms(1)] by simp
  have lb: "lbolt_addr < knext s" using i(5) by (simp add: objs_ok_def)
  have "0 \<le> sem_count x \<and> sem_count x < 2 ^ 31 \<and> (sleeping (kts s) a \<longrightarrow> sem_count x = 0) \<and>
        lbolt_addr < a \<and> a < knext s + 1 \<and> locks s' a = None \<and> cvs s' a = None" if x: "sems s' a = Some x" for a x
  proof (cases "a = knext s")
    case True
    have "sems s (knext s) = None" using o(1)[of "knext s"] by (cases "sems s (knext s)") auto
    then show ?thesis using sem[OF x] one(1) x True ns lb by auto
  next
    case False
    then have y: "sems s a = Some x" using sem[OF x] by simp
    have "locks s' a = None" using lock[of a] False o(1)[OF y] by (cases "locks s' a") auto
    moreover have "cvs s' a = None" using cv[of a] False o(1)[OF y] by (cases "cvs s' a") auto
    ultimately show ?thesis using o(1)[OF y] by auto
  qed
  moreover have "(isHeld x \<longleftrightarrow> holder x \<noteq> None) \<and> (sleeping (kts s) a \<longrightarrow> isHeld x) \<and>
        lbolt_addr < a \<and> a < knext s + 1 \<and> cvs s' a = None" if x: "locks s' a = Some x" for a x
  proof (cases "a = knext s")
    case True
    have "locks s (knext s) = None" using o(2)[of "knext s"] by (cases "locks s (knext s)") auto
    then show ?thesis using lock[OF x] one(2) x True ns lb by auto
  next
    case False
    then have y: "locks s a = Some x" using lock[OF x] by simp
    have "cvs s' a = None" using cv[of a] False o(2)[OF y] by (cases "cvs s' a") auto
    then show ?thesis using o(2)[OF y] by auto
  qed
  moreover have "lbolt_addr < c \<and> c < knext s + 1" if "cvs s' c \<noteq> None" for c using cv[OF that] o(3)[of c] lb by auto
  ultimately have "objs_ok s'" unfolding objs_ok_def l assms(5) using less_SucI[OF lb]
    by (simp only: Suc_eq_plus1 simp_thms) blast
  moreover have "calm (kts s')" using i(3) by (simp add: assms(2) calm_def)
  moreover have "tgood (kts s')"
    using i(1) assms(3) tinv_cong[OF i(2), of "kts s'"] by (simp add: tgood_def assms(2))
  ultimately show ?thesis using fo by (simp add: kinv_def kfit_def)
qed

lemma kinv_kmem:
  assumes "kinv s" "\<forall>n. km n"
  shows "kinv (s\<lparr>kts := (kts s)\<lparr>kmem := km\<rparr>\<rparr>)"
  by (rule kinv_cong[OF assms(1)])
    (use kinvD(1)[OF assms(1)] tinv_cong[OF kinvD(2)[OF assms(1)], of "(kts s)\<lparr>kmem := km\<rparr>"] assms(2) in
      \<open>simp_all add: slp_def rdy_def tgood_def\<close>)

lemma kinv_destroy:
  assumes "kinv s"
  shows "kinv (s\<lparr>sems := (sems s)(a := None)\<rparr>)" "kinv (s\<lparr>locks := (locks s)(a := None)\<rparr>)" "kinv (s\<lparr>cvs := (cvs s)(a := None)\<rparr>)"
proof -
  note i = kinvD[OF assms]
  have f: "kframe_ok s fr \<Longrightarrow> kframe_ok (s\<lparr>sems := (sems s)(a := None)\<rparr>) fr"
    "kframe_ok s fr \<Longrightarrow> kframe_ok (s\<lparr>locks := (locks s)(a := None)\<rparr>) fr"
    "kframe_ok s fr \<Longrightarrow> kframe_ok (s\<lparr>cvs := (cvs s)(a := None)\<rparr>) fr" for fr by (cases fr; simp)+
  have "frames_ok (s\<lparr>sems := (sems s)(a := None)\<rparr>)" "frames_ok (s\<lparr>locks := (locks s)(a := None)\<rparr>)"
    "frames_ok (s\<lparr>cvs := (cvs s)(a := None)\<rparr>)" using i(4) f unfolding frames_ok_def by simp_all
  moreover have "objs_ok (s\<lparr>sems := (sems s)(a := None)\<rparr>)" using i(5) unfolding objs_ok_def by auto
  moreover have "objs_ok (s\<lparr>locks := (locks s)(a := None)\<rparr>)" using i(5) unfolding objs_ok_def by auto
  moreover have "objs_ok (s\<lparr>cvs := (cvs s)(a := None)\<rparr>)" using i(5) unfolding objs_ok_def by auto
  ultimately show "kinv (s\<lparr>sems := (sems s)(a := None)\<rparr>)" "kinv (s\<lparr>locks := (locks s)(a := None)\<rparr>)" "kinv (s\<lparr>cvs := (cvs s)(a := None)\<rparr>)"
    using i(1,3) by (simp_all add: kinv_def kfit_def)
qed

lemma create_post:
  assumes "kinv s" "curthread (kts s) = Some c"
  shows "0 \<le> n \<Longrightarrow> n < 2 ^ 31 \<Longrightarrow> kcall_run (CallSemCreate name n) s = Ok (b, evs) s' \<Longrightarrow> kpost s c b evs s'"
    "kcall_run (CallLockCreate name) s = Ok (b, evs) s' \<Longrightarrow> kpost s c b evs s'"
    "kcall_run (CallCvCreate name) s = Ok (b, evs) s' \<Longrightarrow> kpost s c b evs s'"
proof -
  have km: "kmem (kts s) k" for k using kinvD(6)[OF assms(1)] by blast
  note o = objs_okD[OF kinvD(5)[OF assms(1)]]
  have none: "sems s (knext s) = None" using o(1)[of "knext s"] by (cases "sems s (knext s)") auto
  have none': "locks s (knext s) = None" using o(2)[of "knext s"] by (cases "locks s (knext s)") auto
  have none'': "cvs s (knext s) = None" using o(3)[of "knext s"] by (cases "cvs s (knext s)") auto
  let ?t = "(kts s)\<lparr>kmem := \<lambda>n. kmem (kts s) (Suc (Suc n))\<rparr>"
  show "kpost s c b evs s'" if n: "0 \<le> n" "n < 2 ^ 31" and r: "kcall_run (CallSemCreate name n) s = Ok (b, evs) s'"
  proof -
    have e: "s' = s\<lparr>kts := ?t, sems := (sems s)(knext s \<mapsto> \<lparr>sem_name = name, sem_count = n\<rparr>), knext := knext s + 1\<rparr>" "b = False"
      "evs = [EvInit (knext s) n]" using r km by (auto simp: sem_create_def bind_def)
    have "kinv s'" by (rule kinv_new[OF assms(1), of s' "\<lambda>n. kmem (kts s) (Suc (Suc n))"])
      (use km n none none' none'' in \<open>auto simp: e split: if_splits\<close>)
    moreover have "keff s c evs s'" unfolding keff_def e using none by auto
    ultimately show ?thesis by (simp add: kpost_def e qeff_def rdy_def)
  qed
  show "kpost s c b evs s'" if r: "kcall_run (CallLockCreate name) s = Ok (b, evs) s'"
  proof -
    have e: "s' = s\<lparr>kts := ?t, locks := (locks s)(knext s \<mapsto> \<lparr>lock_name = name, isHeld = False, holder = None\<rparr>), knext := knext s + 1\<rparr>"
      "b = False" "evs = []" using r km by (auto simp: lock_create_def quietly_def bind_def)
    have "kinv s'" by (rule kinv_new[OF assms(1), of s' "\<lambda>n. kmem (kts s) (Suc (Suc n))"])
      (use km none none' none'' in \<open>auto simp: e split: if_splits\<close>)
    moreover have "keff s c evs s'" unfolding keff_def e using none' by auto
    ultimately show ?thesis by (simp add: kpost_def e qeff_def rdy_def)
  qed
  show "kpost s c b evs s'" if r: "kcall_run (CallCvCreate name) s = Ok (b, evs) s'"
  proof -
    have e: "s' = s\<lparr>kts := ?t, cvs := (cvs s)(knext s \<mapsto> \<lparr>cv_name = name\<rparr>), knext := knext s + 1\<rparr>"
      "b = False" "evs = []" using r km by (auto simp: cv_create_def quietly_def bind_def)
    have "kinv s'" by (rule kinv_new[OF assms(1), of s' "\<lambda>n. kmem (kts s) (Suc (Suc n))"])
      (use km none none' none'' in \<open>auto simp: e split: if_splits\<close>)
    moreover have "keff s c evs s'" unfolding keff_def e by auto
    ultimately show ?thesis by (simp add: kpost_def e qeff_def rdy_def)
  qed
qed

lemma hassleepers_same: "thread_hassleepers a ts = Ok h ts' \<Longrightarrow> ts' = ts"
proof -
  have "first_some xs (\<lambda>i. bind (on_sleepers (array_getguy (int i))) (\<lambda>t. bind (t_get t) (\<lambda>x. ret (if t_sleepaddr x = a then Some () else None)))) ts = Ok r ts'
    \<Longrightarrow> ts' = ts" for xs r ts ts'
  proof (induction xs arbitrary: r ts)
    case (Cons i xs)
    have g: "on_sleepers (array_getguy j) ts = Ok t ts1 \<Longrightarrow> ts1 = ts" for j t ts1
      by (cases ts) (auto simp: on_sleepers_def deref_def array_getguy_def bind_def assertk_def
          split: option.splits if_splits outcome.splits)
    show ?case using Cons.prems Cons.IH
      by (auto simp: bind_eq_Ok t_get_def split: option.splits if_splits dest!: g)
  qed simp
  moreover have "on_sleepers (gets f) ts = Ok n ts1 \<Longrightarrow> ts1 = ts" for f :: "_ \<Rightarrow> int" and n ts1 ts
    by (cases ts) (auto simp: on_sleepers_def deref_def split: option.splits)
  ultimately show "thread_hassleepers a ts = Ok h ts' \<Longrightarrow> ts' = ts"
    by (fastforce simp: thread_hassleepers_def bind_eq_Ok assert_spl_def split: if_splits)
qed

lemma destroy_post:
  assumes "kinv s" "curthread (kts s) = Some c" "nextid (kts s) < thread_limit"
  shows "kcall_run (CallSemDestroy a) s = Ok (b, evs) s' \<Longrightarrow> kpost s c b evs s'"
    "kcall_run (CallLockDestroy a) s = Ok (b, evs) s' \<Longrightarrow> kpost s c b evs s'"
    "kcall_run (CallCvDestroy a) s = Ok (b, evs) s' \<Longrightarrow> kpost s c b evs s'"
proof -
  have q: "qeff False (kts s) (kts s)" by (simp add: qeff_def)
  show "kpost s c b evs s'" if r: "kcall_run (CallLockDestroy a) s = Ok (b, evs) s'"
  proof -
    have "s' = s\<lparr>locks := (locks s)(a := None)\<rparr>" "b = False" "evs = []"
      using r by (auto simp: lock_destroy_def quietly_def bind_def lock_get_def split: option.splits)
    then show ?thesis using kinv_destroy(2)[OF assms(1), of a] q by (auto simp: kpost_def keff_def)
  qed
  show "kpost s c b evs s'" if r: "kcall_run (CallCvDestroy a) s = Ok (b, evs) s'"
  proof -
    have "s' = s\<lparr>cvs := (cvs s)(a := None)\<rparr>" "b = False" "evs = []"
      using r by (auto simp: cv_destroy_def quietly_def bind_eq_Ok assertk_def split: option.splits if_splits)
    then show ?thesis using kinv_destroy(3)[OF assms(1), of a] q by (auto simp: kpost_def keff_def)
  qed
  show "kpost s c b evs s'" if r: "kcall_run (CallSemDestroy a) s = Ok (b, evs) s'"
  proof -
    let ?hi = "(kts s)\<lparr>iec := False, curspl := SPL_HIGH\<rparr>" and ?spl = "curspl (kts s)"
    have r': "bind (on_ts (thread_hassleepers a)) (\<lambda>h. bind (assertk (\<not> h) ''thread_hassleepers(sem)==0'') (\<lambda>_.
       bind (on_ts (splx ?spl)) (\<lambda>_. bind (sem_get a) (\<lambda>_. modify (\<lambda>s. s\<lparr>sems := (sems s)(a := None)\<rparr>))))) (s\<lparr>kts := ?hi\<rparr>) = Ok () s'"
      "b = False" "evs = []"
      using r by (auto simp: sem_destroy_def quietly_def bind_eq_Ok assertk_def split: if_splits)
    obtain h s1 where h: "on_ts (thread_hassleepers a) (s\<lparr>kts := ?hi\<rparr>) = Ok h s1"
      "bind (assertk (\<not> h) ''thread_hassleepers(sem)==0'') (\<lambda>_.
       bind (on_ts (splx ?spl)) (\<lambda>_. bind (sem_get a) (\<lambda>_. modify (\<lambda>s. s\<lparr>sems := (sems s)(a := None)\<rparr>)))) s1 = Ok () s'"
      using r'(1) by (rule bind_OkE)
    have s1: "s1 = s\<lparr>kts := ?hi\<rparr>" using h(1) hassleepers_same by (auto simp: on_ts_eq_Ok)
    define e where "e = (if ?spl > 0 then False else if ?spl = 0 then True else False)"
    let ?t = "(kts s)\<lparr>iec := e, curspl := ?spl\<rparr>"
    have e: "s' = s\<lparr>kts := ?t, sems := (sems s)(a := None)\<rparr>"
      using h(2) unfolding s1 by (cases "sems s a"; cases h) (auto simp: bind_def sem_get_def e_def)
    have "kinv (s\<lparr>kts := ?t\<rparr>)"
      by (rule kinv_cong[OF assms(1)])
        (use splhigh_good[OF kinvD(1)[OF assms(1)], where e = e and l = "curspl (kts s)"] in \<open>simp_all add: slp_def rdy_def\<close>)
    then have "kinv s'" using kinv_destroy(1)[of "s\<lparr>kts := ?t\<rparr>" a] by (simp add: e)
    moreover have "keff s c [] s'" by (auto simp: e keff_def)
    moreover have "qeff False (kts s) (kts s')" unfolding e by (simp add: qeff_def rdy_def)
    ultimately show ?thesis using r' by (simp add: kpost_def)
  qed
qed

section \<open>Steps and runs\<close>

lemma kcall_post:
  assumes "kinv s" "curthread (kts s) = Some c" "nextid (kts s) < thread_limit" "kcall_ok op s" "kcall_run op s = Ok (b, evs) s'"
  shows "kpost s c b evs s'"
proof (cases op)
  case (CallSemCreate name n)
  then show ?thesis using create_post(1)[OF assms(1,2), of n name b evs s'] assms(4,5) by simp
next
  case (CallLockCreate name)
  then show ?thesis using create_post(2)[OF assms(1,2), of name b evs s'] assms(5) by simp
next
  case (CallCvCreate name)
  then show ?thesis using create_post(3)[OF assms(1,2), of name b evs s'] assms(5) by simp
next
  case (CallSemDestroy a)
  then show ?thesis using destroy_post(1)[OF assms(1-3), of a b evs s'] assms(5) by simp
next
  case (CallLockDestroy a)
  then show ?thesis using destroy_post(2)[OF assms(1-3), of a b evs s'] assms(5) by simp
next
  case (CallCvDestroy a)
  then show ?thesis using destroy_post(3)[OF assms(1-3), of a b evs s'] assms(5) by simp
next
  case (CallSignal v l)
  then show ?thesis using cv_signal_post[OF assms(1-3), of v l b evs s'] assms(4,5) by simp
next
  case (CallBroadcast v l)
  then show ?thesis using cv_broadcast_post[OF assms(1-3), of v l b evs s'] assms(4,5) by simp
next
  case (CallWait v l)
  then show ?thesis using cv_wait_post[OF assms(1-3), of v l b evs s'] assms(4,5) by simp
qed (use assms P_post[OF assms(1-3)] V_post[OF assms(1-3)] lock_acquire_post[OF assms(1-3)] lock_release_post(1)[OF assms(1-3)] clocksleep_post[OF assms(1-3)] in simp_all)

lemma resume_post:
  assumes "kinv s" "curthread (kts s) = Some c" "nextid (kts s) < thread_limit" "kframes s c = Some fr" "resume fr s = Ok (b, evs) s'"
  shows "kpost s c b evs s'"
proof -
  note i = kinvD[OF assms(1)]
  have c: "c \<notin> set (slp (kts s))" "c \<notin> set (rdy (kts s))" using tinvD(2)[OF i(2)] assms(2) by (auto simp: curl_def)
  have f: "kframe_ok s fr" "asleep_at fr \<noteq> None \<Longrightarrow> placed (kts s) c" using i(4) assms(4) unfolding frames_ok_def by blast+
  have spl: "curspl (kts s) > 0" if "asleep_at fr \<noteq> None" using f(2)[OF that] c by (simp add: placed_def)
  show ?thesis
  proof (cases fr)
    case (In_P a spl')
    then show ?thesis using P_loop_post[OF assms(1-3) spl] assms(5) by simp
  next
    case (In_lock_acquire l spl')
    then show ?thesis using acquire_loop_post[OF assms(1-3) spl] assms(5) by simp
  next
    case (In_cv_wait v l)
    then show ?thesis using cv_wait_sleep_post[OF assms(1-3), of v l] f(1) assms(5) by simp
  next
    case (In_cv_sleep v l spl')
    then show ?thesis using cv_wait_woken_post[OF assms(1-3)] assms(5) by simp
  next
    case (In_clocksleep n spl')
    then show ?thesis using clocksleep_loop_post[OF assms(1-3) spl] assms(5) by simp
  qed
qed

lemma kstep_post:
  assumes "kstep s k evs s'" "kinv s"
  obtains c b es where "k = of_bool b" "evs = map (Pair c) es" "kpost s c b es s'"
  using assms
proof (cases rule: kstep.cases)
  case (kstep_call c op b es)
  then show thesis using kcall_post[OF assms(2), of c op b es s'] by (intro that[of b c es]) simp_all
next
  case (kstep_resume c fr b es)
  then show thesis using resume_post[OF assms(2), of c fr b es s'] by (intro that[of b c es]) simp_all
next
  case (kstep_preempt c)
  obtain t' where t': "thread_yield (kts s) = Ok () t'" "kinv (s\<lparr>kts := t'\<rparr>)" "qeff True (kts s) t'"
    by (rule kinv_preempt[OF assms(2) kstep_preempt(3,4,5)]) blast
  have "s' = s\<lparr>kts := t'\<rparr>" using kstep_preempt(6) t'(1) by (simp add: on_ts_eq_Ok)
  then show thesis using t' kstep_preempt(1,2) keff_same[of s' s c] by (intro that[of True c "[]"]) (simp_all add: kpost_def)
next
  case (kstep_fork c name d1 d2 f t)
  obtain t' where t': "thread_fork name d1 d2 f (kts s) = Ok t t'" "s' = s\<lparr>kts := t'\<rparr>" using kstep_fork(6) by (auto simp: on_ts_eq_Ok)
  then show thesis using kinv_fork[OF assms(2) kstep_fork(3,4) t'(1)] kstep_fork(1,2) keff_same[of s' s c]
    by (intro that[of False c "[]"]) (simp_all add: kpost_def)
next
  case (kstep_exit c)
  obtain t' where t': "thread_exit (kts s) = Ok () t'" "s' = s\<lparr>kts := t'\<rparr>" using kstep_exit(6) by (auto simp: on_ts_eq_Ok)
  then show thesis using kinv_exit[OF assms(2) kstep_exit(3,4,5) t'(1)] kstep_exit(1,2) keff_same[of s' s c]
    by (intro that[of True c "[]"]) (simp_all add: kpost_def)
qed

end
