(* ===== verification/Synch_Claims.thy ===== *)
theory Synch_Claims
  imports Synch_Steps
begin

text \<open>
  What semaphores, locks and condition variables promise to any set of threads that use them, over all
  interleavings.
\<close>

section \<open>Runs\<close>

lemma krun_kinv: "krun s k tr s' \<Longrightarrow> kinv s \<Longrightarrow> kinv s'"
proof (induction rule: krun.induct)
  case (krun_Step s k tr t j evs u)
  then show ?case by (auto elim!: kstep_post simp: kpost_def)
qed simp

lemma krun_spec:
  assumes "krun s k tr s'" "kfresh s"
  shows "(\<forall>te \<in> set tr. ev_addr (snd te) < knext s') \<and>
    (\<forall>a x. sems s' a = Some x \<longrightarrow> sem_run a None tr = Some (Some (sem_count x))) \<and>
    (\<forall>l x. locks s' l = Some x \<longrightarrow> lock_run l None tr = Some (holder x))"
  using assms
proof (induction rule: krun.induct)
  case (krun_Nil s)
  then show ?case by (simp add: kfresh_def)
next
  case (krun_Step s k tr t j evs u)
  note IH = krun_Step.IH[OF krun_Step.prems]
  have "kinv t" by (rule krun_kinv[OF krun_Step.hyps(1) kfresh_kinv[OF krun_Step.prems]])
  then obtain c b es where e: "evs = map (Pair c) es" "kpost t c b es u" by (rule kstep_post[OF krun_Step.hyps(2)])
  then have k: "keff t c es u" by (simp add: kpost_def)
  have "\<forall>te \<in> set (tr @ evs). ev_addr (snd te) < knext u" using IH k e(1) by (auto simp: keff_def)
  moreover have "sem_run a None (tr @ evs) = Some (Some (sem_count x))" if x: "sems u a = Some x" for a x
  proof -
    have st: "sem_run a (map_option sem_count (sems t a)) (map (Pair c) es) = Some (Some (sem_count x))"
      using k x by (simp add: keff_def)
    show ?thesis
    proof (cases "sems t a")
      case None
      then have "knext t \<le> a" using k x unfolding keff_def by blast
      then have "sem_run a None tr = Some None" using IH by (intro sem_run_other) auto
      then show ?thesis using st None e(1) by (simp add: sem_run_append)
    next
      case (Some y)
      then show ?thesis using st e(1) IH by (simp add: sem_run_append)
    qed
  qed
  moreover have "lock_run l None (tr @ evs) = Some (holder x)" if x: "locks u l = Some x" for l x
  proof -
    have st: "lock_run l (Option.bind (locks t l) holder) (map (Pair c) es) = Some (holder x)"
      using k x by (simp add: keff_def)
    show ?thesis
    proof (cases "locks t l")
      case None
      then have "knext t \<le> l" using k x unfolding keff_def by blast
      then have "lock_run l None tr = Some None" using IH by (intro lock_run_other) auto
      then show ?thesis using st None e(1) by (simp add: lock_run_append)
    next
      case (Some y)
      then show ?thesis using st e(1) IH by (simp add: lock_run_append)
    qed
  qed
  ultimately show ?case by blast
qed

text \<open>The run queue is first in, first out: each switch brings a ready thread one place nearer.\<close>

lemma krun_fifo:
  assumes "krun s k tr s'" "kinv s" "i < length (rdy (kts s))"
  shows "(k \<le> i \<longrightarrow> i - k < length (rdy (kts s')) \<and> rdy (kts s') ! (i - k) = rdy (kts s) ! i) \<and>
    (k = Suc i \<longrightarrow> curthread (kts s') = Some (rdy (kts s) ! i))"
  using assms
proof (induction rule: krun.induct)
  case (krun_Step s k tr t j evs u)
  let ?t = "rdy (kts s) ! i"
  note IH = krun_Step.IH[OF krun_Step.prems]
  have "kinv t" by (rule krun_kinv[OF krun_Step.hyps(1) krun_Step.prems(1)])
  then obtain c b es where e: "j = of_bool b" "kpost t c b es u" by (rule kstep_post[OF krun_Step.hyps(2)])
  have q: "qeff b (kts t) (kts u)" "kinv u" using e(2) by (simp_all add: kpost_def)
  show ?case
  proof (cases b)
    case False
    then show ?thesis using q(1) e(1) IH by (auto simp: qeff_def nth_append)
  next
    case True
    then obtain m where m: "rdy (kts t) @ m = the (curthread (kts u)) # rdy (kts u)" using q(1) by (auto simp: qeff_def)
    obtain n where n: "curthread (kts u) = Some n" using kinvD(1)[OF q(2)] by (auto simp: tgood_def)
    show ?thesis
    proof (intro conjI impI)
      assume "k + j \<le> i"
      then have i: "Suc k \<le> i" "i - k < length (rdy (kts t))" "rdy (kts t) ! (i - k) = ?t" using IH True e(1) by auto
      have "(rdy (kts t) @ m) ! (i - k) = ?t" using i by (simp add: nth_append)
      moreover have "i - k = Suc (i - (k + j))" using i(1) True e(1) by simp
      ultimately show "rdy (kts u) ! (i - (k + j)) = ?t" unfolding m by simp
      have "i - k < length (the (curthread (kts u)) # rdy (kts u))" unfolding m[symmetric] using i(2) by simp
      then show "i - (k + j) < length (rdy (kts u))" using i(1) True e(1) by simp
    next
      assume "k + j = Suc i"
      then have "k = i" using True e(1) by simp
      then have "0 < length (rdy (kts t))" "rdy (kts t) ! 0 = ?t" using IH by auto
      then have "(rdy (kts t) @ m) ! 0 = ?t" by (simp add: nth_append)
      then show "curthread (kts u) = Some ?t" unfolding m using n by simp
    qed
  qed
qed simp

text \<open>A thread on the run queue keeps its frame until it runs.\<close>

lemma krun_frame:
  assumes "krun s k tr s'" "kinv s" "i < length (rdy (kts s))" "k \<le> i"
  shows "kframes s' (rdy (kts s) ! i) = kframes s (rdy (kts s) ! i)"
  using assms
proof (induction rule: krun.induct)
  case (krun_Step s k tr t j evs u)
  let ?t = "rdy (kts s) ! i"
  have ki: "kinv t" by (rule krun_kinv[OF krun_Step.hyps(1) krun_Step.prems(1)])
  have k: "k \<le> i" using krun_Step.prems(3) by simp
  then have "i - k < length (rdy (kts t))" "rdy (kts t) ! (i - k) = ?t"
    using krun_fifo[OF krun_Step.hyps(1) krun_Step.prems(1,2)] by simp_all
  then have "?t \<in> set (rdy (kts t))" by (metis nth_mem)
  moreover obtain c where c: "curthread (kts t) = Some c" using kinvD(1)[OF ki] by (auto simp: tgood_def)
  ultimately have ne: "?t \<noteq> c" using tinvD(2)[OF kinvD(2)[OF ki]] by (auto simp: curl_def)
  have "kframes u ?t = kframes t ?t"
    using krun_Step.hyps(2)
  proof (cases rule: kstep.cases)
    case (kstep_call c' op b es)
    then show ?thesis using kcall_post[OF ki, of c' op b es u] c ne by (auto simp: kpost_def keff_def)
  next
    case (kstep_resume c' fr b es)
    then show ?thesis using resume_post[OF ki, of c' fr b es u] c ne by (auto simp: kpost_def keff_def)
  qed (auto simp: on_ts_eq_Ok)
  then show ?case using krun_Step.IH[OF krun_Step.prems(1,2) k] by simp
qed simp

section \<open>Two threads after boot\<close>

definition kboot :: ksync where
  "kboot = \<lparr>kts = (case boot tsys0 of Ok _ s \<Rightarrow> s | _ \<Rightarrow> tsys0), sems = Map.empty, locks = Map.empty, cvs = Map.empty,
     knext = 2, kframes = Map.empty\<rparr>"

lemma kboot_props:
  "kfresh kboot" "curthread (kts kboot) = Some 1" "rdy (kts kboot) = []" "nextid (kts kboot) = 2" "slp (kts kboot) = []"
  "kframes kboot = Map.empty" "sems kboot = Map.empty" "locks kboot = Map.empty" "cvs kboot = Map.empty" "knext kboot = 2"
proof -
  obtain s where s: "boot tsys0 = Ok 1 s" "treach s" "curthread s = Some 1" "rdy s = []" "slp s = []" "nextid s = 2"
    by (rule tsys0_boot)
  have k: "kts kboot = s" by (simp add: kboot_def s(1))
  have "calm s" using s(1)
    by (auto simp: calm_def tsys0_def boot_def scheduler_bootstrap_def thread_bootstrap_def q_create_def array_create_def
        thread_create_def bind_assoc bind_def kmalloc_ok_def t_put_def split: if_splits)
  then show "kfresh kboot" using treach_good[OF s(2)] s(5) k by (simp add: kfresh_def kboot_def lbolt_addr_def)
  show "curthread (kts kboot) = Some 1" "rdy (kts kboot) = []" "nextid (kts kboot) = 2" "slp (kts kboot) = []" using s k by simp_all
qed (simp_all add: kboot_def)

lemma kmem_irrelevant [simp]: "rdy (t\<lparr>kmem := km\<rparr>) = rdy t" "slp (t\<lparr>kmem := km\<rparr>) = slp t"
  by (simp_all add: rdy_def slp_def)

lemma kboot_kinv: "kinv kboot"
  using kfresh_kinv[OF kboot_props(1)] .

lemma fork_step:
  assumes "kinv s" "curthread (kts s) = Some c" "nextid (kts s) < thread_limit" "kframes s c = None"
  obtains t' where "kstep s 0 [] (s\<lparr>kts := t'\<rparr>)" "kinv (s\<lparr>kts := t'\<rparr>)" "rdy t' = rdy (kts s) @ [nextid (kts s)]"
    "nextid t' = nextid (kts s) + 1" "curthread t' = Some c" "slp t' = slp (kts s)" "curspl t' = curspl (kts s)"
    "frame_of t' (nextid (kts s)) = SwStart 0 0 0"
proof -
  note i = kinvD[OF assms(1)]
  from wp_thread_fork[OF i(2) assms(2,3), of "[]" 0 0 0] i(6) obtain t t' where
    f: "thread_fork [] 0 0 0 (kts s) = Ok t t'" "forked (kts s) 0 0 0 t t'" by (auto elim!: wp_cases)
  have "on_ts (thread_fork [] 0 0 0) s = Ok t (s\<lparr>kts := t'\<rparr>)" using f(1) by (simp add: on_ts_eq_Ok)
  then have "kstep s 0 [] (s\<lparr>kts := t'\<rparr>)" using kstep_fork[OF assms(2) _ assms(4)] assms(3) by simp
  moreover have "t = nextid (kts s)" using f(2) by (simp add: forked_def)
  ultimately show thesis using that[of t'] f(2) kinv_fork(1)[OF assms(1-3) f(1)] assms(2) by (simp add: forked_def)
qed

lemma sem_create_step:
  assumes "kinv s" "curthread (kts s) = Some c" "nextid (kts s) < thread_limit" "kframes s c = None" "0 \<le> n" "n < 2 ^ 31"
  obtains s' where "kstep s 0 [(c, EvInit (knext s) n)] s'" "kinv s'"
    "s' = s\<lparr>kts := (kts s)\<lparr>kmem := \<lambda>n. kmem (kts s) (Suc (Suc n))\<rparr>, sems := (sems s)(knext s \<mapsto> \<lparr>sem_name = [], sem_count = n\<rparr>),
       knext := knext s + 1\<rparr>"
proof -
  let ?s = "s\<lparr>kts := (kts s)\<lparr>kmem := \<lambda>n. kmem (kts s) (Suc (Suc n))\<rparr>, sems := (sems s)(knext s \<mapsto> \<lparr>sem_name = [], sem_count = n\<rparr>),
       knext := knext s + 1\<rparr>"
  have "kcall_run (CallSemCreate [] n) s = Ok (False, [EvInit (knext s) n]) ?s"
    using kinvD(6)[OF assms(1)] by (simp add: sem_create_def bind_def)
  note r = kstep_call[OF assms(2) _ assms(4) _ this] kcall_post[OF assms(1-3) _ this]
  show thesis by (rule that[of ?s]) (use r assms(3,5,6) in \<open>simp_all add: kpost_def\<close>)
qed

lemma lock_create_step:
  assumes "kinv s" "curthread (kts s) = Some c" "nextid (kts s) < thread_limit" "kframes s c = None"
  obtains s' where "kstep s 0 [] s'" "kinv s'"
    "s' = s\<lparr>kts := (kts s)\<lparr>kmem := \<lambda>n. kmem (kts s) (Suc (Suc n))\<rparr>,
       locks := (locks s)(knext s \<mapsto> \<lparr>lock_name = [], isHeld = False, holder = None\<rparr>), knext := knext s + 1\<rparr>"
proof -
  let ?s = "s\<lparr>kts := (kts s)\<lparr>kmem := \<lambda>n. kmem (kts s) (Suc (Suc n))\<rparr>,
       locks := (locks s)(knext s \<mapsto> \<lparr>lock_name = [], isHeld = False, holder = None\<rparr>), knext := knext s + 1\<rparr>"
  have "kcall_run (CallLockCreate []) s = Ok (False, []) ?s"
    using kinvD(6)[OF assms(1)] by (simp add: lock_create_def quietly_def bind_def)
  note r = kstep_call[OF assms(2) _ assms(4) _ this] kcall_post[OF assms(1-3) _ this]
  show thesis by (rule that[of ?s]) (use r assms(3) in \<open>simp_all add: kpost_def\<close>)
qed

lemma acquire_step:
  assumes "kinv s" "curthread (kts s) = Some c" "nextid (kts s) < thread_limit" "kframes s c = None"
    "locks s l = Some x" "\<not> isHeld x" "l \<noteq> NULL"
  obtains s' where "kstep s 0 [(c, EvAcquire l)] s'" "kinv s'" "locks s' = (locks s)(l \<mapsto> x\<lparr>isHeld := True, holder := Some c\<rparr>)"
    "curthread (kts s') = Some c" "kframes s' = kframes s" "cvs s' = cvs s" "rdy (kts s') = rdy (kts s)" "slp (kts s') = slp (kts s)"
    "threads (kts s') = threads (kts s)" "nextid (kts s') = nextid (kts s)" "curspl (kts s') = curspl (kts s)"
proof -
  note o = objs_okD(2)[OF kinvD(5)[OF assms(1)] assms(5)]
  let ?h = "s\<lparr>kts := (kts s)\<lparr>iec := False, curspl := SPL_HIGH\<rparr>\<rparr>"
  let ?s = "kdone c (curspl (kts s)) (?h\<lparr>locks := (locks s)(l \<mapsto> x\<lparr>isHeld := True, holder := Some c\<rparr>)\<rparr>)"
  have "lock_acquire l s = Ok (False, [EvAcquire l]) ?s"
    using lock_acquire_run[OF assms(5,7)] assms(2,5,6) o
    by (simp add: lock_acquire_loop_def bind_def lock_get_def lock_put_def)
  then have run: "kcall_run (CallAcquire l) s = Ok (False, [EvAcquire l]) ?s" by simp
  note r = kstep_call[OF assms(2) _ assms(4) _ run] kcall_post[OF assms(1-3) _ run]
  show thesis by (rule that[of ?s]) (use r assms(2-4) in \<open>auto simp: kpost_def kdone_def rdy_def slp_def\<close>)
qed

section \<open>Semaphores\<close>

text \<open>
  C24: Semaphores are counters. In every run of any threads from boot, what was completed on a semaphore is a run of
  a counter that starts at its initial count, that \<open>V\<close> increments, and that \<open>P\<close> decrements, completing only
  when it is positive; \<open>count\<close> is the value of this counter.
\<close>

theorem semaphores_are_counters:
  assumes "kfresh s" "krun s k tr s'" "sems s' a = Some x"
  shows "sem_run a None tr = Some (Some (sem_count x)) \<and> 0 \<le> sem_count x"
  using krun_spec[OF assms(2,1)] objs_okD(1)[OF kinvD(5)[OF krun_kinv[OF assms(2) kfresh_kinv[OF assms(1)]]] assms(3)] assms(3)
  by blast

theorem semaphores_are_counters_witness:
  "\<exists>s' x. krun kboot 0 [(1, EvInit 2 4), (1, EvV 2)] s' \<and> sems s' 2 = Some x \<and> sem_count x = 5 \<and>
     sem_run 2 None [(1, EvInit 2 4), (1, EvV 2)] = Some (Some (sem_count x))"
proof -
  have pre: "nextid (kts kboot) < thread_limit" "kframes kboot 1 = None" "0 \<le> (4 :: int)" "(4 :: int) < 2 ^ 31"
    by (simp_all add: kboot_props)
  obtain s1 where s1: "kstep kboot 0 [(1, EvInit (knext kboot) 4)] s1" "kinv s1"
    "s1 = kboot\<lparr>kts := (kts kboot)\<lparr>kmem := \<lambda>n. kmem (kts kboot) (Suc (Suc n))\<rparr>,
       sems := (sems kboot)(knext kboot \<mapsto> \<lparr>sem_name = [], sem_count = 4\<rparr>), knext := knext kboot + 1\<rparr>"
    by (rule sem_create_step[OF kboot_kinv kboot_props(2) pre])
  let ?x = "\<lparr>sem_name = [], sem_count = 4\<rparr>"
  have f: "curthread (kts s1) = Some 1" "nextid (kts s1) < thread_limit" "sems s1 2 = Some ?x" "kframes s1 1 = None"
    by (simp_all add: s1(3) kboot_props)
  have v: "(2 :: addr) \<noteq> NULL" "s32 (sem_count ?x + 1) > 0" by (simp_all add: s32_def)
  obtain t' where t': "V 2 s1 = Ok (False, [EvV 2]) (kdone 1 (curspl (kts s1)) (s1\<lparr>sems := (sems s1)(2 \<mapsto> ?x\<lparr>sem_count := sem_count ?x + 1\<rparr>), kts := t'\<rparr>))"
    by (rule V_run[OF s1(2) f(1-3) v]) blast
  let ?s = "kdone 1 (curspl (kts s1)) (s1\<lparr>sems := (sems s1)(2 \<mapsto> ?x\<lparr>sem_count := sem_count ?x + 1\<rparr>), kts := t'\<rparr>)"
  have "kstep s1 0 [(1, EvV 2)] ?s" using kstep_call[OF f(1) _ f(4), of "CallV 2" False "[EvV 2]" ?s] t' f(2) by simp
  from krun_Step[OF krun_Step[OF krun_Nil s1(1)] this] have r: "krun kboot 0 [(1, EvInit 2 4), (1, EvV 2)] ?s"
    by (simp add: kboot_props)
  have x: "sems ?s 2 = Some (?x\<lparr>sem_count := sem_count ?x + 1\<rparr>)" by simp
  show ?thesis using semaphores_are_counters[OF kboot_props(1) r x] r x by auto
qed

section \<open>Locks\<close>

lemma lock_run_release: "lock_run l (Some t) tr = Some None \<Longrightarrow> (t, EvRelease l) \<in> set tr"
proof (induction tr)
  case (Cons te tr)
  obtain u e where te: "te = (u, e)" by (cases te)
  show ?case using Cons te by (cases e) (auto split: if_splits)
qed simp

text \<open>
  C25: Mutual exclusion. In every run of any threads from boot, what was completed on a lock that still exists is
  a sequence of acquisitions and releases in which a lock is acquired only when it is free and released only by the thread
  that has acquired it, and \<open>holder\<close> is that thread. So between two acquisitions of a lock, the
  first of the two threads has released it.
\<close>

theorem locks_exclude:
  assumes "kfresh s" "krun s k tr s'" "locks s' l = Some x"
  shows "lock_run l None tr = Some (holder x) \<and>
    (\<forall>pre t mid u post. tr = pre @ (t, EvAcquire l) # mid @ (u, EvAcquire l) # post \<longrightarrow> (t, EvRelease l) \<in> set mid)"
proof -
  have r: "lock_run l None tr = Some (holder x)" using krun_spec[OF assms(2,1)] assms(3) by blast
  have "(t, EvRelease l) \<in> set mid" if tr: "tr = pre @ (t, EvAcquire l) # mid @ (u, EvAcquire l) # post" for pre t mid u post
  proof -
    obtain h1 where h1: "lock_run l None pre = Some h1" using r tr by (cases "lock_run l None pre") (auto simp: lock_run_append)
    then have a: "lock_run l h1 ((t, EvAcquire l) # mid @ (u, EvAcquire l) # post) = Some (holder x)"
      using r tr by (simp add: lock_run_append)
    then have "h1 = None" by (simp split: if_splits)
    then have b: "Option.bind (lock_run l (Some t) mid) (\<lambda>h'. lock_run l h' ((u, EvAcquire l) # post)) = Some (holder x)"
      using a by (simp add: lock_run_append)
    then obtain h2 where h2: "lock_run l (Some t) mid = Some h2" by (cases "lock_run l (Some t) mid") auto
    then have "h2 = None" using b by (auto split: if_splits)
    with h2 show ?thesis using lock_run_release by blast
  qed
  with r show ?thesis by blast
qed

theorem locks_exclude_witness:
  "\<exists>s' x. krun kboot 0 [(1, EvAcquire 2)] s' \<and> locks s' 2 = Some x \<and> lock_run 2 None [(1, EvAcquire 2)] = Some (holder x)"
proof -
  have pre: "nextid (kts kboot) < thread_limit" "kframes kboot 1 = None" by (simp_all add: kboot_props)
  obtain s1 where s1: "kstep kboot 0 [] s1" "kinv s1"
    "s1 = kboot\<lparr>kts := (kts kboot)\<lparr>kmem := \<lambda>n. kmem (kts kboot) (Suc (Suc n))\<rparr>,
       locks := (locks kboot)(knext kboot \<mapsto> \<lparr>lock_name = [], isHeld = False, holder = None\<rparr>), knext := knext kboot + 1\<rparr>"
    by (rule lock_create_step[OF kboot_kinv kboot_props(2) pre])
  let ?x = "\<lparr>lock_name = [], isHeld = False, holder = None\<rparr>"
  have f: "curthread (kts s1) = Some 1" "nextid (kts s1) < thread_limit" "kframes s1 1 = None" "locks s1 2 = Some ?x"
    "\<not> isHeld ?x" "(2 :: addr) \<noteq> NULL"
    by (simp_all add: s1(3) kboot_props)
  obtain s2 where s2: "kstep s1 0 [(1, EvAcquire 2)] s2" "locks s2 = (locks s1)(2 \<mapsto> ?x\<lparr>isHeld := True, holder := Some 1\<rparr>)"
    by (rule acquire_step[OF s1(2) f]) blast
  from krun_Step[OF krun_Step[OF krun_Nil s1(1)] s2(1)] have r: "krun kboot 0 [(1, EvAcquire 2)] s2" by simp
  have x: "locks s2 2 = Some (?x\<lparr>isHeld := True, holder := Some 1\<rparr>)" using s2(2) by simp
  show ?thesis using locks_exclude[OF kboot_props(1) r x] r x by blast
qed

section \<open>No wakeup is lost\<close>

text \<open>After boot: the second thread runs, and the first waits in \<open>P\<close>.\<close>

lemma waiting_example:
  obtains s where "krun kboot 1 [(1, EvInit 2 0)] s" "kinv s" "curthread (kts s) = Some 2" "kframes s 2 = None"
    "nextid (kts s) < thread_limit" "sems s 2 = Some \<lparr>sem_name = [], sem_count = 0\<rparr>" "slp (kts s) = [1]" "sleeps_on (kts s) 2 1" "rdy (kts s) = []"
proof -
  let ?x = "\<lparr>sem_name = [], sem_count = 0\<rparr>"
  have pre: "nextid (kts kboot) < thread_limit" "kframes kboot 1 = None" by (simp_all add: kboot_props)
  obtain t1 where t1: "kstep kboot 0 [] (kboot\<lparr>kts := t1\<rparr>)" "kinv (kboot\<lparr>kts := t1\<rparr>)" "rdy t1 = rdy (kts kboot) @ [nextid (kts kboot)]"
    "nextid t1 = nextid (kts kboot) + 1" "curthread t1 = Some 1" "slp t1 = slp (kts kboot)"
    by (rule fork_step[OF kboot_kinv kboot_props(2) pre]) blast
  let ?s1 = "kboot\<lparr>kts := t1\<rparr>"
  have f1: "curthread (kts ?s1) = Some 1" "nextid (kts ?s1) < thread_limit" "kframes ?s1 1 = None" "0 \<le> (0 :: int)" "(0 :: int) < 2 ^ 31"
    using t1(4,5) by (simp_all add: kboot_props)
  obtain s2 where s2: "kstep ?s1 0 [(1, EvInit (knext ?s1) 0)] s2" "kinv s2"
    "s2 = ?s1\<lparr>kts := (kts ?s1)\<lparr>kmem := \<lambda>n. kmem (kts ?s1) (Suc (Suc n))\<rparr>,
       sems := (sems ?s1)(knext ?s1 \<mapsto> ?x), knext := knext ?s1 + 1\<rparr>"
    by (rule sem_create_step[OF t1(2) f1])
  have f2: "curthread (kts s2) = Some 1" "nextid (kts s2) = 3" "kframes s2 = Map.empty" "sems s2 2 = Some ?x" "rdy (kts s2) = [2]" "slp (kts s2) = []"
    using t1(3-6) by (simp_all add: s2(3) kboot_props)
  let ?h = "(kts s2)\<lparr>iec := False, curspl := SPL_HIGH\<rparr>"
  have k: "kinv (s2\<lparr>kts := ?h\<rparr>)" by (rule kinv_splhigh[OF s2(2)])
  have h: "tinv ?h" "mem_ok ?h" "\<not> in_interrupt ?h" "curthread ?h = Some 1" "nextid ?h \<le> thread_limit" "curspl ?h > 0" "rdy ?h = [2]" "slp ?h = []"
    using kinvD[OF k] tgood_mem_ok[of ?h] f2 by (simp_all add: calm_def SPL_HIGH_def)
  have go: "rdy ?h \<noteq> [] \<or> (\<exists>a. Device a \<in> set (irqs ?h) \<and> (a = 2 \<or> (\<exists>t \<in> set (slp ?h). sleeps_on ?h a t)))" using h(7) by simp
  obtain n t3 m where t3: "thread_sleep 2 ?h = Ok () t3" "curthread t3 = Some n" "rdy ?h @ m = n # rdy t3"
    "rdy ?h \<noteq> [] \<Longrightarrow> m = [] \<and> slp t3 = slp ?h @ [1] \<and> n \<noteq> 1 \<and> curspl t3 = resume_spl (frame_of ?h n) (curspl ?h)"
    by (rule thread_sleep_ok[OF h(1,4,5,2,6,3) go]) blast
  then have n: "n = 2" "rdy t3 = []" "slp t3 = [1]" using h(7,8) by auto
  let ?s3 = "s2\<lparr>kts := t3, kframes := (kframes s2)(1 \<mapsto> In_P 2 (curspl (kts s2)))\<rparr>"
  have run: "kcall_run (CallP 2) s2 = Ok (True, []) ?s3"
    using f2 h(3) t3(1) by (simp add: P_def P_loop_def bind_def sem_get_def block_in_def on_ts_def zoom_def kpush_def here_def cur_def gets_def splhigh_def splx_def SPL_HIGH_def)
  have lim: "nextid (kts s2) < thread_limit" using f2(2) by simp
  have st: "kstep s2 1 [] ?s3" using kstep_call[OF f2(1) _ _ _ run] f2(2,3) by simp
  have k3: "kinv ?s3" using kcall_post[OF s2(2) f2(1) lim _ run] by (simp add: kpost_def)
  from krun_Step[OF krun_Step[OF krun_Step[OF krun_Nil t1(1)] s2(1)] st]
  have r: "krun kboot 1 [(1, EvInit 2 0)] ?s3" by (simp add: kboot_props)
  have sl: "sleeps_on t3 2 1" using kinvD(4)[OF k3] n(3) by (simp add: frames_ok_def sleeps_on_def)
  obtain c b es where "kpost s2 c b es ?s3" using kstep_post[OF st s2(2)] by blast
  have "nextid t3 = 3"
  proof -
    obtain s4 where s4: "thread_sleep 2 ?h = dispatch 1 s4" "tinv s4" "idle_ok s4" "curthread s4 = None" "1 \<in> dom (threads s4)" "nextid s4 = nextid ?h"
      by (rule thread_sleep_put[OF h(1,4,5,2,6,3), of 2]) blast
    have "dispatch 1 s4 = Ok () t3" using s4(1) t3(1) by simp
    from dispatch_Ok_switched[OF s4(2,4,3,5) this] obtain n' where "switched s4 n' t3" .
    then show ?thesis using s4(6) f2(2) by (simp add: switched_def)
  qed
  then show thesis using that[OF r k3] t3(2) n f2 sl by simp
qed

text \<open>
  C26: No wakeup is lost. In every run of any threads from boot, a thread that sleeps on the address of a semaphore is in \<open>P\<close> on
  it and its count is zero, and one that sleeps on the address of a lock is in \<open>lock_acquire\<close> on it and
  somebody holds it. So a thread is never left asleep in front of a semaphore or lock it could have.
\<close>

theorem no_wakeup_is_lost:
  assumes "kfresh s" "krun s k tr s'" "t \<in> set (slp (kts s'))" "sleeps_on (kts s') a t"
  shows "(\<forall>x. sems s' a = Some x \<longrightarrow> sem_count x = 0 \<and> (\<exists>spl. kframes s' t = Some (In_P a spl))) \<and>
    (\<forall>x. locks s' a = Some x \<longrightarrow> holder x \<noteq> None \<and> (\<exists>spl. kframes s' t = Some (In_lock_acquire a spl)))"
proof -
  have k: "kinv s'" by (rule krun_kinv[OF assms(2) kfresh_kinv[OF assms(1)]])
  note o = objs_okD[OF kinvD(5)[OF k]]
  have sl: "sleeping (kts s') a" using assms(3,4) by (auto simp: sleeping_def)
  obtain fr where fr: "kframes s' t = Some fr" "asleep_at fr = Some a" "kframe_ok s' fr"
    by (rule sleeper_frame[OF k assms(3,4)])
  have "sem_count x = 0 \<and> (\<exists>spl. kframes s' t = Some (In_P a spl))" if "sems s' a = Some x" for x
    using that fr o(1)[OF that] sl by (cases fr) auto
  moreover have "holder x \<noteq> None \<and> (\<exists>spl. kframes s' t = Some (In_lock_acquire a spl))" if "locks s' a = Some x" for x
    using that fr o(2)[OF that] sl by (cases fr) auto
  ultimately show ?thesis by blast
qed

theorem no_wakeup_is_lost_witness:
  "\<exists>s' x. krun kboot 1 [(1, EvInit 2 0)] s' \<and> 1 \<in> set (slp (kts s')) \<and> sems s' 2 = Some x \<and> sem_count x = 0 \<and>
     (\<exists>spl. kframes s' 1 = Some (In_P 2 spl))"
proof -
  obtain s where s: "krun kboot 1 [(1, EvInit 2 0)] s" "sems s 2 = Some \<lparr>sem_name = [], sem_count = 0\<rparr>" "slp (kts s) = [1]" "sleeps_on (kts s) 2 1"
    by (rule waiting_example)
  have "1 \<in> set (slp (kts s))" using s(3) by simp
  from no_wakeup_is_lost[OF kboot_props(1) s(1) this s(4)] s show ?thesis by auto
qed

text \<open>
  C27: A waiting thread gets its turn. When a thread calls \<open>V\<close>, every thread that waits in \<open>P\<close> on the semaphore is put
  on the run queue; whatever all threads do then, it is running after a number of switches that is bounded by the number of
  threads that were ready or asleep, is still in its \<open>P\<close>, and its \<open>P\<close> returns at once if the count is positive then.
\<close>

theorem V_lets_waiters_run:
  assumes "kfresh s" "krun s k tr s1" "curthread (kts s1) = Some c" "kframes s1 c = None" "nextid (kts s1) < thread_limit"
    "sems s1 a = Some x" "sem_count x + 1 < 2 ^ 31" "t \<in> set (slp (kts s1))" "sleeps_on (kts s1) a t"
  shows "\<exists>s2 i spl. V a s1 = Ok (False, [EvV a]) s2 \<and> i < length (rdy (kts s1)) + length (slp (kts s1)) \<and>
    (\<forall>tr3 s3 tr4 s4. krun s2 i tr3 s3 \<and> kstep s3 1 tr4 s4 \<longrightarrow>
       curthread (kts s4) = Some t \<and> kframes s4 t = Some (In_P a spl) \<and>
       (\<forall>y. sems s4 a = Some y \<and> sem_count y > 0 \<longrightarrow> (\<exists>s5. resume (In_P a spl) s4 = Ok (False, [EvP a]) s5)))"
proof -
  have k: "kinv s1" by (rule krun_kinv[OF assms(2) kfresh_kinv[OF assms(1)]])
  note o = objs_okD[OF kinvD(5)[OF k]]
  obtain fr where fr: "kframes s1 t = Some fr" "asleep_at fr = Some a" "kframe_ok s1 fr"
    by (rule sleeper_frame[OF k assms(8,9)])
  obtain spl where spl: "fr = In_P a spl" using fr(2,3) o(1)[OF assms(6)] assms(6) by (cases fr) auto
  have nz: "a \<noteq> NULL" "s32 (sem_count x + 1) > 0" using o(1)[OF assms(6)] assms(7) by (auto simp: s32_def lbolt_addr_def)
  obtain t' where t': "V a s1 = Ok (False, [EvV a]) (kdone c (curspl (kts s1)) (s1\<lparr>sems := (sems s1)(a \<mapsto> x\<lparr>sem_count := sem_count x + 1\<rparr>), kts := t'\<rparr>))"
    "kpost s1 c False [EvV a] (kdone c (curspl (kts s1)) (s1\<lparr>sems := (sems s1)(a \<mapsto> x\<lparr>sem_count := sem_count x + 1\<rparr>), kts := t'\<rparr>))"
    "rdy t' = rdy (kts s1) @ filter (sleeps_on (kts s1) a) (slp (kts s1))"
    by (rule V_run[OF k assms(3,5,6) nz])
  define s2 where "s2 = kdone c (curspl (kts s1)) (s1\<lparr>sems := (sems s1)(a \<mapsto> x\<lparr>sem_count := sem_count x + 1\<rparr>), kts := t'\<rparr>)"
  have k2: "kinv s2" using t'(2) by (simp add: kpost_def s2_def)
  have r2: "rdy (kts s2) = rdy (kts s1) @ filter (sleeps_on (kts s1) a) (slp (kts s1))" using t'(3) by (simp add: s2_def kdone_def)
  have "t \<in> set (rdy (kts s2))" using assms(8,9) r2 by simp
  then obtain i where i: "i < length (rdy (kts s2))" "rdy (kts s2) ! i = t" by (metis in_set_conv_nth)
  have il: "i < length (rdy (kts s1)) + length (slp (kts s1))"
    using i(1) length_filter_le[of "sleeps_on (kts s1) a" "slp (kts s1)"] unfolding r2 length_append by linarith
  have tc: "t \<noteq> c" using tinvD(2)[OF kinvD(2)[OF k]] assms(3,8) by (auto simp: curl_def)
  have f2: "kframes s2 t = Some (In_P a spl)" using fr(1) spl tc by (simp add: s2_def)
  have "curthread (kts s4) = Some t \<and> kframes s4 t = Some (In_P a spl) \<and>
       (\<forall>y. sems s4 a = Some y \<and> sem_count y > 0 \<longrightarrow> (\<exists>s5. resume (In_P a spl) s4 = Ok (False, [EvP a]) s5))"
    if r3: "krun s2 i tr3 s3" and st: "kstep s3 1 tr4 s4" for tr3 s3 tr4 s4
  proof -
    have r4: "krun s2 (Suc i) (tr3 @ tr4) s4" using krun_Step[OF r3 st] by simp
    have c4: "curthread (kts s4) = Some t" using krun_fifo[OF r4 k2 i(1)] i(2) by simp
    have k3: "kinv s3" by (rule krun_kinv[OF r3 k2])
    have f3: "kframes s3 t = Some (In_P a spl)" using krun_frame[OF r3 k2 i(1)] f2 i(2) by simp
    have "t \<in> set (rdy (kts s3))" using krun_fifo[OF r3 k2 i(1)] i(2) nth_mem[of 0 "rdy (kts s3)"] by auto
    then have t3: "curthread (kts s3) \<noteq> Some t" using tinvD(2)[OF kinvD(2)[OF k3]] by (auto simp: curl_def)
    have "kframes s4 t = Some (In_P a spl)"
      using st
    proof (cases rule: kstep.cases)
      case (kstep_call c' op b es)
      then show ?thesis using kcall_post[OF k3, of c' op b es s4] f3 t3 by (auto simp: kpost_def keff_def)
    next
      case (kstep_resume c' fr b es)
      then show ?thesis using resume_post[OF k3, of c' fr b es s4] f3 t3 by (auto simp: kpost_def keff_def)
    qed (use f3 in \<open>auto simp: on_ts_eq_Ok\<close>)
    moreover have "\<exists>s5. resume (In_P a spl) s4 = Ok (False, [EvP a]) s5" if "sems s4 a = Some y" "sem_count y > 0" for y
      using that c4 by (simp add: P_loop_def bind_def sem_get_def sem_put_def)
    ultimately show ?thesis using c4 by blast
  qed
  then show ?thesis using t'(1) il unfolding s2_def by blast
qed

theorem V_lets_waiters_run_witness:
  "\<exists>s1 s2 i spl. krun kboot 1 [(1, EvInit 2 0)] s1 \<and> V 2 s1 = Ok (False, [EvV 2]) s2 \<and> i < 1 \<and>
    (\<forall>tr3 s3 tr4 s4. krun s2 i tr3 s3 \<and> kstep s3 1 tr4 s4 \<longrightarrow> curthread (kts s4) = Some 1 \<and> kframes s4 1 = Some (In_P 2 spl))"
proof -
  obtain s where s: "krun kboot 1 [(1, EvInit 2 0)] s" "curthread (kts s) = Some 2" "kframes s 2 = None" "nextid (kts s) < thread_limit"
    "sems s 2 = Some \<lparr>sem_name = [], sem_count = 0\<rparr>" "slp (kts s) = [1]" "sleeps_on (kts s) 2 1" "rdy (kts s) = []"
    by (rule waiting_example)
  have m: "1 \<in> set (slp (kts s))" "sem_count \<lparr>sem_name = [], sem_count = 0\<rparr> + 1 < 2 ^ 31" using s(6) by simp_all
  from V_lets_waiters_run[OF kboot_props(1) s(1-5) m(2,1) s(7)] s(1,6,8) show ?thesis by fastforce
qed

section \<open>Assertions\<close>

fun fine :: "('a, 's) outcome \<Rightarrow> bool" where
  "fine (Ok r s) \<longleftrightarrow> True"
| "fine (Err e s) \<longleftrightarrow> False"
| "fine (Panic msg) \<longleftrightarrow> msg = idle_forever"

lemma block_in_panic:
  assumes "kinv s" "curthread (kts s) = Some c" "nextid (kts s) < thread_limit" "curspl (kts s) > 0"
  shows "fine (block_in fr a s)"
proof -
  note i = kinvD[OF assms(1)]
  have ni: "\<not> in_interrupt (kts s)" using i(3) by (simp add: calm_def)
  have lim: "nextid (kts s) \<le> thread_limit" using assms(3) by simp
  obtain s2 where s2: "thread_sleep a (kts s) = dispatch c s2" "tinv s2" "idle_ok s2" "curthread s2 = None" "c \<in> dom (threads s2)"
    by (rule thread_sleep_put[OF i(2) assms(2) lim tgood_mem_ok[OF i(1)] assms(4) ni, of a]) blast
  show ?thesis using dispatch_panic[OF s2(2,4,3,5)] s2(1) assms(2)
    by (cases "dispatch c s2") (auto simp: block_in_def bind_def on_ts_def zoom_def)
qed

text \<open>
  A call that respects what the header says: the object exists, the lock is not acquired twice,
  and it is held where it has to be. A semaphore that is at the largest \<open>int\<close> is not incremented.
\<close>

fun proper :: "kcall \<Rightarrow> ksync \<Rightarrow> tid \<Rightarrow> bool" where
  "proper (CallP a) s c \<longleftrightarrow> sems s a \<noteq> None"
| "proper (CallV a) s c \<longleftrightarrow> (case sems s a of None \<Rightarrow> False | Some x \<Rightarrow> sem_count x + 1 < 2 ^ 31)"
| "proper (CallAcquire l) s c \<longleftrightarrow> (case locks s l of None \<Rightarrow> False | Some x \<Rightarrow> holder x \<noteq> Some c)"
| "proper (CallRelease l) s c \<longleftrightarrow> (case locks s l of None \<Rightarrow> False | Some x \<Rightarrow> holder x = Some c)"
| "proper (CallWait v l) s c \<longleftrightarrow> cvs s v \<noteq> None \<and> (case locks s l of None \<Rightarrow> False | Some x \<Rightarrow> holder x = Some c)"
| "proper (CallSignal v l) s c \<longleftrightarrow> cvs s v \<noteq> None \<and> (case locks s l of None \<Rightarrow> False | Some x \<Rightarrow> holder x = Some c)"
| "proper (CallBroadcast v l) s c \<longleftrightarrow> cvs s v \<noteq> None \<and> (case locks s l of None \<Rightarrow> False | Some x \<Rightarrow> holder x = Some c)"
| "proper (CallClocksleep n) s c \<longleftrightarrow> True"
| "proper (CallSemCreate name n) s c \<longleftrightarrow> 0 \<le> n \<and> n < 2 ^ 31"
| "proper (CallLockCreate name) s c \<longleftrightarrow> True"
| "proper (CallCvCreate name) s c \<longleftrightarrow> True"
| "proper _ s c \<longleftrightarrow> False"

lemma proper_call:
  assumes "kinv s" "curthread (kts s) = Some c" "nextid (kts s) < thread_limit" "proper op s c"
  shows "fine (kcall_run op s)"
proof -
  let ?h = "s\<lparr>kts := (kts s)\<lparr>iec := False, curspl := SPL_HIGH\<rparr>\<rparr>"
  note o = objs_okD[OF kinvD(5)[OF assms(1)]]
  have ni: "\<not> in_interrupt (kts s)" using kinvD(3)[OF assms(1)] by (simp add: calm_def)
  have pre: "curthread (kts ?h) = Some c" "nextid (kts ?h) < thread_limit" "curspl (kts ?h) > 0" using assms(2,3) by (simp_all add: SPL_HIGH_def)
  note kh = kinv_splhigh[OF assms(1), of False]
  note blk = block_in_panic[OF kh pre]
  have nz: "lbolt_addr < a \<Longrightarrow> a \<noteq> NULL" for a by (simp add: lbolt_addr_def)
  have wake: "\<exists>t'. on_ts (thread_wakeup a) ?h = Ok () (?h\<lparr>kts := t'\<rparr>) \<and> curthread t' = Some c" for a
    by (rule kinv_wakeup[OF kh pre(3,2), of a]) (use pre(1) in auto)
  have wake1: "\<exists>t'. on_ts (thread_wakeup_one a) ?h = Ok () (?h\<lparr>kts := t'\<rparr>) \<and> curthread t' = Some c" for a
    by (rule kinv_wakeup_one[OF kh pre(3,2), of a]) (use pre(1) in auto)
  have rel: "\<exists>s1. lock_release l s = Ok (False, [EvRelease l]) s1 \<and> curthread (kts s1) = Some c"
    if h: "locks s l = Some x" "holder x = Some c" for l x
  proof -
    obtain t' where t': "lock_release l s = Ok (False, [EvRelease l])
      (kdone c (curspl (kts s)) (s\<lparr>locks := (locks s)(l \<mapsto> x\<lparr>holder := None, isHeld := False\<rparr>), kts := t'\<rparr>))" "curthread t' = Some c"
      by (rule lock_release_run[OF assms(1-3) h(1) nz h(2)]) (use o(2)[OF h(1)] in auto)
    then show ?thesis by (simp add: kdone_def)
  qed
  show ?thesis
  proof (cases op)
    case (CallP a)
    then obtain x where x: "sems s a = Some x" using assms(4) by auto
    have "kcall_run op s = P_loop a (curspl (kts s)) ?h" using CallP ni nz o(1)[OF x] by (simp add: P_def bind_def)
    then show ?thesis using x o(1)[OF x] blk[of "In_P a (curspl (kts s))" a] pre(1) by (simp add: P_loop_def bind_def sem_get_def sem_put_def)
  next
    case (CallV a)
    then obtain x where x: "sems s a = Some x" "sem_count x + 1 < 2 ^ 31" using assms(4) by (auto split: option.splits)
    have "s32 (sem_count x + 1) > 0" using x(2) o(1)[OF x(1)] by (simp add: s32_def)
    then show ?thesis by (rule V_run[OF assms(1-3) x(1) nz, rotated]) (use CallV o(1)[OF x(1)] in auto)
  next
    case (CallAcquire l)
    then obtain x where x: "locks s l = Some x" "holder x \<noteq> Some c" using assms(4) by (auto split: option.splits)
    have "kcall_run op s = lock_acquire_loop l (curspl (kts s)) ?h"
      using CallAcquire lock_acquire_run[OF x(1) nz] x(2) o(2)[OF x(1)] assms(2) by simp
    then show ?thesis using x o(2)[OF x(1)] blk[of "In_lock_acquire l (curspl (kts s))" l] pre(1)
      by (simp add: lock_acquire_loop_def bind_def lock_get_def lock_put_def)
  next
    case (CallRelease l)
    then show ?thesis using assms(4) rel[of l] by (auto split: option.splits)
  next
    case (CallWait v l)
    then obtain x where x: "locks s l = Some x" "holder x = Some c" "cvs s v \<noteq> None" using assms(4) by (auto split: option.splits)
    then show ?thesis using CallWait rel[OF x(1,2)] nz o(2)[OF x(1)] o(3)[OF x(3)] by (auto simp: cv_wait_def bind_def)
  next
    case (CallSignal v l)
    then obtain x where x: "locks s l = Some x" "holder x = Some c" "cvs s v \<noteq> None" using assms(4) by (auto split: option.splits)
    then show ?thesis using CallSignal wake1[of v] nz o(3)[OF x(3)] assms(2)
      by (auto simp: cv_signal_def bind_def lock_do_i_hold_def lock_get_def)
  next
    case (CallBroadcast v l)
    then obtain x where x: "locks s l = Some x" "holder x = Some c" "cvs s v \<noteq> None" using assms(4) by (auto split: option.splits)
    then show ?thesis using CallBroadcast wake[of v] nz o(3)[OF x(3)] assms(2)
      by (auto simp: cv_broadcast_def bind_def lock_do_i_hold_def lock_get_def)
  next
    case (CallClocksleep n)
    then show ?thesis using blk[of "In_clocksleep (n - 1) (curspl (kts s))" lbolt_addr] pre(1)
      by (simp add: clocksleep_def clocksleep_loop_def bind_def)
  qed (use assms(4) kinvD(6)[OF assms(1)] in \<open>auto simp: sem_create_def lock_create_def cv_create_def quietly_def bind_def\<close>)
qed



end
