(* ===== verification/Synch_Cv.thy ===== *)
theory Synch_Cv
  imports Synch_Claims
begin

text \<open>
  Condition variables (\<open>src/src/kern/thread/synch.c\<close>): \<open>cv_wait\<close> releases the lock with
  \<open>lock_release\<close>, which turns interrupts back on, and only then turns them off to go to sleep, so a signal
  that is sent in between is missed.
\<close>

section \<open>Steps while nobody sleeps\<close>

definition quiet :: "ksync \<Rightarrow> tid \<Rightarrow> bool" where
  "quiet s c \<longleftrightarrow> kinv s \<and> curthread (kts s) = Some c \<and> nextid (kts s) < thread_limit \<and> slp (kts s) = []"

lemma quietD:
  "quiet s c \<Longrightarrow> kinv s" "quiet s c \<Longrightarrow> curthread (kts s) = Some c" "quiet s c \<Longrightarrow> nextid (kts s) < thread_limit"
  "quiet s c \<Longrightarrow> slp (kts s) = []"
  by (simp_all add: quiet_def)

lemma quiet_nz:
  assumes "quiet s c"
  shows "locks s l = Some x \<Longrightarrow> l \<noteq> NULL" "cvs s v \<noteq> None \<Longrightarrow> v \<noteq> NULL"
proof -
  note o = objs_okD[OF kinvD(5)[OF quietD(1)[OF assms]]]
  show "locks s l = Some x \<Longrightarrow> l \<noteq> NULL" using o(2)[of l x] by (simp add: lbolt_addr_def)
  show "cvs s v \<noteq> None \<Longrightarrow> v \<noteq> NULL" using o(3)[of v] by (simp add: lbolt_addr_def)
qed

lemma quiet_release:
  assumes "quiet s c" "kframes s c = None" "locks s l = Some x" "holder x = Some c"
  obtains s' where "lock_release l s = Ok (False, [EvRelease l]) s'" "kstep s 0 [(c, EvRelease l)] s'" "quiet s' c"
    "locks s' = (locks s)(l \<mapsto> x\<lparr>holder := None, isHeld := False\<rparr>)"
    "kframes s' = kframes s" "cvs s' = cvs s" "rdy (kts s') = rdy (kts s)" "curspl (kts s') = curspl (kts s)"
proof -
  note q = quietD[OF assms(1)]
  let ?s = "\<lambda>t'. kdone c (curspl (kts s)) (s\<lparr>locks := (locks s)(l \<mapsto> x\<lparr>holder := None, isHeld := False\<rparr>), kts := t'\<rparr>)"
  obtain t' where t': "lock_release l s = Ok (False, [EvRelease l]) (?s t')" "kpost s c False [EvRelease l] (?s t')"
    "rdy t' = rdy (kts s) @ filter (sleeps_on (kts s) l) (slp (kts s))" "curthread t' = Some c"
    "nextid t' = nextid (kts s)" "slp t' = filter (\<lambda>t. \<not> sleeps_on (kts s) l t) (slp (kts s))"
    by (rule lock_release_run[OF q(1-3) assms(3) quiet_nz(1)[OF assms(1,3)] assms(4)]) blast
  have r: "kcall_run (CallRelease l) s = Ok (False, [EvRelease l]) (?s t')" using t'(1) by simp
  have st: "kstep s 0 [(c, EvRelease l)] (?s t')" using kstep_call[OF q(2) _ assms(2) _ r] q(3) by simp
  have qq: "quiet (?s t') c" unfolding quiet_def using t'(2,4,5,6) q(3,4) by (simp add: kpost_def kdone_def slp_def)
  show thesis by (rule that[OF t'(1) st qq]) (use t'(3) q(4) assms(2) in \<open>simp_all add: kdone_def rdy_def fun_upd_idem\<close>)
qed

lemma quiet_wait:
  assumes "quiet s c" "kframes s c = None" "locks s l = Some x" "holder x = Some c" "cvs s v \<noteq> None"
  obtains s' where "kstep s 0 [(c, EvRelease l)] s'" "quiet s' c" "locks s' = (locks s)(l \<mapsto> x\<lparr>holder := None, isHeld := False\<rparr>)"
    "kframes s' = (kframes s)(c \<mapsto> In_cv_wait v l)" "cvs s' = cvs s" "rdy (kts s') = rdy (kts s)" "curspl (kts s') = curspl (kts s)"
proof -
  note q = quietD[OF assms(1)]
  obtain s1 where s1: "lock_release l s = Ok (False, [EvRelease l]) s1" "quiet s1 c"
    "locks s1 = (locks s)(l \<mapsto> x\<lparr>holder := None, isHeld := False\<rparr>)"
    "kframes s1 = kframes s" "cvs s1 = cvs s" "rdy (kts s1) = rdy (kts s)" "curspl (kts s1) = curspl (kts s)"
    by (rule quiet_release[OF assms(1-4)]) blast
  note q1 = quietD[OF s1(2)]
  let ?s = "s1\<lparr>kframes := (kframes s1)(c \<mapsto> In_cv_wait v l)\<rparr>"
  have r: "kcall_run (CallWait v l) s = Ok (False, [EvRelease l]) ?s"
    using s1(1) q1(2) quiet_nz(1)[OF assms(1,3)] quiet_nz(2)[OF assms(1,5)] by (simp add: cv_wait_def bind_def)
  have st: "kstep s 0 [(c, EvRelease l)] ?s" using kstep_call[OF q(2) _ assms(2) _ r] q(3) assms(5) by simp
  have "kinv ?s" using kcall_post[OF q(1-3) _ r] assms(5) by (simp add: kpost_def)
  then have qq: "quiet ?s c" using q1 by (simp add: quiet_def)
  show thesis by (rule that[OF st qq]) (use s1 in simp_all)
qed

lemma quiet_signal:
  assumes "quiet s c" "kframes s c = None" "locks s l = Some x" "holder x = Some c" "cvs s v \<noteq> None"
  obtains s' where "kstep s 0 [(c, EvSignal v)] s'" "quiet s' c" "locks s' = locks s"
    "kframes s' = kframes s" "cvs s' = cvs s" "rdy (kts s') = rdy (kts s)" "curspl (kts s') = curspl (kts s)"
proof -
  note q = quietD[OF assms(1)]
  let ?h = "s\<lparr>kts := (kts s)\<lparr>iec := False, curspl := SPL_HIGH\<rparr>\<rparr>"
  have pre: "curspl (kts ?h) > 0" "nextid (kts ?h) < thread_limit" using q(3) by (simp_all add: SPL_HIGH_def)
  obtain t' m where t': "on_ts (thread_wakeup_one v) ?h = Ok () (?h\<lparr>kts := t'\<rparr>)" "curthread t' = curthread (kts ?h)"
    "nextid t' = nextid (kts ?h)" "rdy t' = rdy (kts ?h) @ m" "m = fst (wake_skip (sleeps_on (kts ?h) v) (slp (kts ?h)))"
    "slp t' = snd (wake_skip (sleeps_on (kts ?h) v) (slp (kts ?h)))"
    by (rule kinv_wakeup_one[OF kinv_splhigh[OF q(1)] pre, of v]) blast
  let ?s = "kdone c (curspl (kts s)) (?h\<lparr>kts := t'\<rparr>)"
  have r: "kcall_run (CallSignal v l) s = Ok (False, [EvSignal v]) ?s"
    using t'(1,2) assms(3,4) q(2) quiet_nz(2)[OF assms(1,5)] by (simp add: cv_signal_def lock_do_i_hold_def lock_get_def bind_def)
  have st: "kstep s 0 [(c, EvSignal v)] ?s" using kstep_call[OF q(2) _ assms(2) _ r] q(3) assms(5) by simp
  have ki: "kinv ?s" using kcall_post[OF q(1-3) _ r] assms(5) by (simp add: kpost_def)
  have qq: "quiet ?s c" unfolding quiet_def using ki t'(2,3,6) q by (simp add: kdone_def slp_def)
  show thesis by (rule that[OF st qq]) (use t'(4,5) q(4) assms(2) in \<open>simp_all add: kdone_def rdy_def fun_upd_idem\<close>)
qed

lemma quiet_acquire:
  assumes "quiet s c" "kframes s c = None" "locks s l = Some x" "\<not> isHeld x"
  obtains s' where "kstep s 0 [(c, EvAcquire l)] s'" "quiet s' c" "locks s' = (locks s)(l \<mapsto> x\<lparr>isHeld := True, holder := Some c\<rparr>)"
    "kframes s' = kframes s" "cvs s' = cvs s" "rdy (kts s') = rdy (kts s)" "curspl (kts s') = curspl (kts s)"
proof -
  note q = quietD[OF assms(1)]
  obtain s' where s': "kstep s 0 [(c, EvAcquire l)] s'" "kinv s'" "locks s' = (locks s)(l \<mapsto> x\<lparr>isHeld := True, holder := Some c\<rparr>)"
    "curthread (kts s') = Some c" "kframes s' = kframes s" "cvs s' = cvs s" "rdy (kts s') = rdy (kts s)" "slp (kts s') = slp (kts s)"
    "threads (kts s') = threads (kts s)" "nextid (kts s') = nextid (kts s)" "curspl (kts s') = curspl (kts s)"
    by (rule acquire_step[OF q(1-3) assms(2-4) quiet_nz(1)[OF assms(1,3)]])
  have "quiet s' c" using s'(2,4,8,10) q(3,4) by (simp add: quiet_def)
  then show thesis using that s' by blast
qed

lemma quiet_preempt:
  assumes "quiet s c" "preemptible s c" "rdy (kts s) = n # ns" "n \<noteq> c"
  obtains s' where "kstep s 1 [] s'" "quiet s' n" "locks s' = locks s" "kframes s' = kframes s" "cvs s' = cvs s" "rdy (kts s') = ns @ [c]"
    "curspl (kts s') = resume_spl (frame_of (kts s) n) SPL_HIGH"
proof -
  note q = quietD[OF assms(1)]
  obtain t' where t': "thread_yield (kts s) = Ok () t'" "kinv (s\<lparr>kts := t'\<rparr>)" "rdy (kts s) @ [c] = the (curthread t') # rdy t'"
    "slp t' = slp (kts s)" "curspl t' = (if the (curthread t') = c then curspl (kts s) else resume_spl (frame_of (kts s) (the (curthread t'))) SPL_HIGH)"
    "nextid t' = nextid (kts s)"
    by (rule kinv_preempt[OF q(1-3) assms(2)]) blast
  have n: "the (curthread t') = n" "rdy t' = ns @ [c]" using t'(3) assms(3) by auto
  obtain n' where "curthread t' = Some n'" using kinvD(1)[OF t'(2)] by (auto simp: tgood_def)
  with n have cn: "curthread t' = Some n" by simp
  have st: "kstep s 1 [] (s\<lparr>kts := t'\<rparr>)"
    using kstep_preempt[OF q(2) _ assms(2), of "s\<lparr>kts := t'\<rparr>"] q(3) t'(1) by (auto simp: on_ts_eq_Ok)
  have qq: "quiet (s\<lparr>kts := t'\<rparr>) n" using t'(2,4,6) cn q(3,4) by (simp add: quiet_def)
  show thesis by (rule that[OF st qq]) (use n t'(5) assms(4) in simp_all)
qed

lemma quiet_cv_sleep:
  assumes "quiet s c" "kframes s c = Some (In_cv_wait v l)" "rdy (kts s) = n # ns"
  obtains s' where "kstep s 1 [] s'" "slp (kts s') = [c]" "sleeps_on (kts s') v c" "curthread (kts s') = Some n"
    "locks s' = locks s" "\<exists>spl. kframes s' c = Some (In_cv_sleep v l spl)"
proof -
  note q = quietD[OF assms(1)]
  let ?h = "(kts s)\<lparr>iec := False, curspl := SPL_HIGH\<rparr>"
  have k: "kinv (s\<lparr>kts := ?h\<rparr>)" by (rule kinv_splhigh[OF q(1)])
  have h: "tinv ?h" "mem_ok ?h" "\<not> in_interrupt ?h" "curthread ?h = Some c" "nextid ?h \<le> thread_limit" "curspl ?h > 0" "rdy ?h = n # ns" "slp ?h = []"
    using kinvD[OF k] tgood_mem_ok[of ?h] q assms(3) by (simp_all add: calm_def SPL_HIGH_def)
  have go: "rdy ?h \<noteq> [] \<or> (\<exists>a. Device a \<in> set (irqs ?h) \<and> (a = v \<or> (\<exists>t \<in> set (slp ?h). sleeps_on ?h a t)))" using h(7) by simp
  obtain n' t3 m where t3: "thread_sleep v ?h = Ok () t3" "curthread t3 = Some n'" "rdy ?h @ m = n' # rdy t3"
    "rdy ?h \<noteq> [] \<Longrightarrow> m = [] \<and> slp t3 = slp ?h @ [c] \<and> n' \<noteq> c \<and> curspl t3 = resume_spl (frame_of ?h n') (curspl ?h)"
    by (rule thread_sleep_ok[OF h(1,4,5,2,6,3) go]) blast
  let ?fr = "In_cv_sleep v l (curspl (kts s))"
  let ?s = "s\<lparr>kts := t3, kframes := (kframes s)(c \<mapsto> ?fr)\<rparr>"
  have run: "resume (In_cv_wait v l) s = Ok (True, []) ?s"
    using q(2) t3(1) by (simp add: cv_wait_sleep_def block_in_def bind_def on_ts_def zoom_def kpush_def here_def cur_def gets_def
        splhigh_def splx_def SPL_HIGH_def)
  have st: "kstep s 1 [] ?s" using kstep_resume[OF q(2) _ assms(2) run] q(3) by simp
  have k3: "kinv ?s" using resume_post[OF q(1-3) assms(2) run] by (simp add: kpost_def)
  have sl: "slp t3 = [c]" "n' = n" using t3(3,4) h(7,8) by auto
  have "sleeps_on t3 v c" using kinvD(4)[OF k3] sl(1) by (simp add: frames_ok_def sleeps_on_def)
  then show thesis using that[OF st] sl t3(2) by simp
qed

section \<open>A signal that is missed\<close>


text \<open>The situation arises: the first thread forks, creates a lock and a condition variable and yields, and the second one acquires the lock.\<close>

lemma holding_example:
  obtains s x where "krun kboot 1 [(2, EvAcquire 2)] s" "curthread (kts s) = Some 2" "kframes s 2 = None" "nextid (kts s) < thread_limit"
    "curspl (kts s) = 0" "rdy (kts s) = [1]" "kframes s 1 = None" "slp (kts s) = []" "locks s 2 = Some x" "holder x = Some 2" "cvs s 3 \<noteq> None"
proof -
  let ?x = "\<lparr>lock_name = [], isHeld = False, holder = None\<rparr>"
  have pre: "nextid (kts kboot) < thread_limit" "kframes kboot 1 = None" by (simp_all add: kboot_props)
  obtain t1 where t1: "kstep kboot 0 [] (kboot\<lparr>kts := t1\<rparr>)" "kinv (kboot\<lparr>kts := t1\<rparr>)" "rdy t1 = rdy (kts kboot) @ [nextid (kts kboot)]"
    "nextid t1 = nextid (kts kboot) + 1" "curthread t1 = Some 1" "slp t1 = slp (kts kboot)" "frame_of t1 (nextid (kts kboot)) = SwStart 0 0 0"
    by (rule fork_step[OF kboot_kinv kboot_props(2) pre]) blast
  let ?s1 = "kboot\<lparr>kts := t1\<rparr>"
  have f1: "curthread (kts ?s1) = Some 1" "nextid (kts ?s1) < thread_limit" "kframes ?s1 1 = None"
    using t1(4,5) by (simp_all add: kboot_props)
  obtain s2 where s2: "kstep ?s1 0 [] s2" "kinv s2"
    "s2 = ?s1\<lparr>kts := (kts ?s1)\<lparr>kmem := \<lambda>n. kmem (kts ?s1) (Suc (Suc n))\<rparr>, locks := (locks ?s1)(knext ?s1 \<mapsto> ?x), knext := knext ?s1 + 1\<rparr>"
    by (rule lock_create_step[OF t1(2) f1])
  have f2: "curthread (kts s2) = Some 1" "nextid (kts s2) < thread_limit" "kframes s2 1 = None" "knext s2 = 3"
    using t1(4,5) by (simp_all add: s2(3) kboot_props)
  let ?s3 = "s2\<lparr>kts := (kts s2)\<lparr>kmem := \<lambda>n. kmem (kts s2) (Suc (Suc n))\<rparr>, cvs := (cvs s2)(knext s2 \<mapsto> \<lparr>cv_name = []\<rparr>), knext := knext s2 + 1\<rparr>"
  have r3: "kcall_run (CallCvCreate []) s2 = Ok (False, []) ?s3"
    using kinvD(6)[OF s2(2)] by (simp add: cv_create_def quietly_def bind_def)
  have st3: "kstep s2 0 [] ?s3" using kstep_call[OF f2(1) _ f2(3) _ r3] f2(2) by simp
  have k3: "kinv ?s3" using kcall_post[OF s2(2) f2(1,2) _ r3] by (simp add: kpost_def)
  have q3: "quiet ?s3 1" unfolding quiet_def using k3 f2(1,2) t1(6) by (simp add: s2(3) kboot_props)
  have f3: "preemptible ?s3 1" "rdy (kts ?s3) = 2 # []" "(2 :: tid) \<noteq> 1" using t1(3) by (simp_all add: s2(3) kboot_props preemptible_def)
  obtain s4 where s4: "kstep ?s3 1 [] s4" "quiet s4 2" "locks s4 = locks ?s3" "kframes s4 = kframes ?s3" "cvs s4 = cvs ?s3" "rdy (kts s4) = [] @ [1]"
    "curspl (kts s4) = resume_spl (frame_of (kts ?s3) 2) SPL_HIGH"
    by (rule quiet_preempt[OF q3 f3])
  have fr: "frame_of (kts ?s3) 2 = SwStart 0 0 0" using t1(7) by (simp add: s2(3) kboot_props frame_of_def)
  have f4: "kframes s4 2 = None" "locks s4 2 = Some ?x" "\<not> isHeld ?x" by (simp_all add: s4(3,4) s2(3) kboot_props)
  obtain s5 where s5: "kstep s4 0 [(2, EvAcquire 2)] s5" "quiet s5 2" "locks s5 = (locks s4)(2 \<mapsto> ?x\<lparr>isHeld := True, holder := Some 2\<rparr>)"
    "kframes s5 = kframes s4" "cvs s5 = cvs s4" "rdy (kts s5) = rdy (kts s4)" "curspl (kts s5) = curspl (kts s4)"
    by (rule quiet_acquire[OF s4(2) f4])
  from krun_Step[OF krun_Step[OF krun_Step[OF krun_Step[OF krun_Step[OF krun_Nil t1(1)] s2(1)] st3] s4(1)] s5(1)]
  have "krun kboot 1 [(2, EvAcquire 2)] s5" by simp
  then show thesis
    by (rule that[of s5 "?x\<lparr>isHeld := True, holder := Some 2\<rparr>"]) (use quietD[OF s5(2)] s5(3-7) s4(4-7) fr f2(4) in \<open>simp_all add: s2(3) kboot_props\<close>)
qed


end
