(* ===== verification/Kernel_Uio.thy ===== *)
theory Kernel_Uio
  imports C_Arith
begin

text \<open>
  Moving data: the user/kernel copy functions of \<open>kern/lib/copyinout.c\<close> and the I/O descriptors of
  \<open>kern/userprog/uio.c\<close>.

  A kernel buffer is a list of bytes and a pointer into it an index. The memory an iovec points to is
  byte-addressed memory, user memory or a kernel buffer; touching an unmapped address is \<open>EFAULT\<close>
  through \<open>copyfail\<close> in the copy functions and fatal in \<open>memmove\<close>. The fault handler field
  \<open>pcb_badfaultfunc\<close>, set before and cleared after each copy, is what makes the difference and has no
  other effect.
\<close>

section \<open>User and kernel memory\<close>

definition USERTOP :: nat where "USERTOP = 0x80000000"

text \<open>A kernel buffer and user memory.\<close>

type_synonym kumem = "byte list \<times> mem"

definition copycheck :: "nat \<Rightarrow> nat \<Rightarrow> (nat, 's) kmon" where
  "copycheck userptr len =
     (let bot = userptr; top = u32 (int bot + int len - 1) in
      if top < bot then fail EFAULT
      else if bot \<ge> USERTOP then fail EFAULT
      else if top \<ge> USERTOP then ret (USERTOP - bot)
      else ret len)"

definition copyin :: "nat \<Rightarrow> nat \<Rightarrow> nat \<Rightarrow> (unit, kumem) kmon" where
  "copyin usersrc dest len = bind (copycheck usersrc len) (\<lambda>stoplen.
     if stoplen \<noteq> len then fail EFAULT
     else (\<lambda>(buf, m).
       if \<not> dest + len \<le> length buf then Panic ''kernel memory access''
       else let (xs, ok) = copy_from len usersrc m; buf' = splice_at buf dest xs in
         if ok then Ok () (buf', m) else Err EFAULT (buf', m)))"

definition copyout :: "nat \<Rightarrow> nat \<Rightarrow> nat \<Rightarrow> (unit, kumem) kmon" where
  "copyout src userdest len = bind (copycheck userdest len) (\<lambda>stoplen.
     if stoplen \<noteq> len then fail EFAULT
     else (\<lambda>(buf, m).
       if \<not> src + len \<le> length buf then Panic ''kernel memory access''
       else let (m', ok) = copy_to (take len (drop src buf)) userdest m in
         if ok then Ok () (buf, m') else Err EFAULT (buf, m')))"

text \<open>One byte of a kernel buffer or of user memory, read or written.\<close>

definition kread :: "nat \<Rightarrow> (byte, kumem) kmon" where
  "kread a = (\<lambda>(buf, m). if a < length buf then Ok (buf ! a) (buf, m) else Panic ''kernel memory access'')"

definition kwrite :: "nat \<Rightarrow> byte \<Rightarrow> (unit, kumem) kmon" where
  "kwrite a x = (\<lambda>(buf, m). if a < length buf then Ok () (buf[a := x], m) else Panic ''kernel memory access'')"

definition uread :: "nat \<Rightarrow> (byte, kumem) kmon" where
  "uread a = (\<lambda>(buf, m). case m a of None \<Rightarrow> Err EFAULT (buf, m) | Some x \<Rightarrow> Ok x (buf, m))"

definition uwrite :: "nat \<Rightarrow> byte \<Rightarrow> (unit, kumem) kmon" where
  "uwrite a x = (\<lambda>(buf, m). case m a of None \<Rightarrow> Err EFAULT (buf, m) | Some _ \<Rightarrow> Ok () (buf, m(a \<mapsto> x)))"

text \<open>\<open>copystr\<close>, with the number of rounds its loop has left; it hands back \<open>*gotlen\<close>.\<close>

primrec copystr_loop :: "(nat \<Rightarrow> (byte, 's) kmon) \<Rightarrow> (nat \<Rightarrow> byte \<Rightarrow> (unit, 's) kmon) \<Rightarrow> nat \<Rightarrow> nat \<Rightarrow>
    nat \<Rightarrow> nat \<Rightarrow> (nat, 's) kmon" where
  "copystr_loop src dest maxlen stoplen 0 i = (if stoplen < maxlen then fail EFAULT else fail ENAMETOOLONG)"
| "copystr_loop src dest maxlen stoplen (Suc k) i =
     bind (src i) (\<lambda>c. bind (dest i c) (\<lambda>_.
       if c = 0 then ret (i + 1) else copystr_loop src dest maxlen stoplen k (i + 1)))"

definition copystr :: "(nat \<Rightarrow> (byte, 's) kmon) \<Rightarrow> (nat \<Rightarrow> byte \<Rightarrow> (unit, 's) kmon) \<Rightarrow> nat \<Rightarrow> nat \<Rightarrow>
    (nat, 's) kmon" where
  "copystr src dest maxlen stoplen = copystr_loop src dest maxlen stoplen (min maxlen stoplen) 0"

definition copyinstr :: "nat \<Rightarrow> nat \<Rightarrow> nat \<Rightarrow> (nat, kumem) kmon" where
  "copyinstr usersrc dest len = bind (copycheck usersrc len) (\<lambda>stoplen.
     copystr (\<lambda>i. uread (usersrc + i)) (\<lambda>i. kwrite (dest + i)) len stoplen)"

definition copyoutstr :: "nat \<Rightarrow> nat \<Rightarrow> nat \<Rightarrow> (nat, kumem) kmon" where
  "copyoutstr src userdest len = bind (copycheck userdest len) (\<lambda>stoplen.
     copystr (\<lambda>i. kread (src + i)) (\<lambda>i. uwrite (userdest + i)) len stoplen)"

section \<open>I/O descriptors\<close>

datatype uio_rw = UIO_READ | UIO_WRITE

datatype uio_seg = UIO_USERSPACE | UIO_SYSSPACE | UIO_USERISPACE

text \<open>
  \<open>uio_mem\<close> is the memory \<open>iov_base\<close> points into, and \<open>uio_curspace\<close> the address space of the running
  thread.
\<close>

record uio =
  uio_mem :: mem
  iov_base :: nat
  iov_len :: nat
  uio_offset :: int
  uio_resid :: nat
  uio_segflg :: uio_seg
  uio_rw :: uio_rw
  uio_space :: "nat option"
  uio_curspace :: "nat option"

text \<open>The transfer of one round: \<open>memmove\<close> in kernel space, a copy function otherwise.\<close>

definition uio_memmove :: "nat \<Rightarrow> nat \<Rightarrow> (unit, byte list \<times> uio) kmon" where
  "uio_memmove p sz = (\<lambda>(buf, u).
     if \<not> p + sz \<le> length buf then Panic ''kernel memory access''
     else if uio_rw u = UIO_READ then
       (let (m, ok) = copy_to (take sz (drop p buf)) (iov_base u) (uio_mem u) in
        if ok then Ok () (buf, u\<lparr>uio_mem := m\<rparr>) else Panic ''kernel memory access'')
     else
       (let (xs, ok) = copy_from sz (iov_base u) (uio_mem u) in
        if ok then Ok () (splice_at buf p xs, u) else Panic ''kernel memory access''))"

definition uio_xfer :: "nat \<Rightarrow> nat \<Rightarrow> (unit, byte list \<times> uio) kmon" where
  "uio_xfer p sz = bind (gets snd) (\<lambda>u.
     bind (if uio_segflg u = UIO_SYSSPACE then uio_memmove p sz
           else zoom (\<lambda>(buf, u). (buf, uio_mem u)) (\<lambda>(buf, m) (_, u). (buf, u\<lparr>uio_mem := m\<rparr>))
             (if uio_rw u = UIO_READ then copyout p (iov_base u) sz else copyin (iov_base u) p sz))
     (\<lambda>_. modify (\<lambda>(buf, u). (buf, u\<lparr>iov_base := iov_base u + sz\<rparr>))))"

definition uio_advance :: "nat \<Rightarrow> uio \<Rightarrow> uio" where
  "uio_advance sz u = u\<lparr>iov_len := iov_len u - sz, uio_resid := u32 (int (uio_resid u) - int sz),
     uio_offset := s32 (uio_offset u + int sz)\<rparr>"

function uiomove_loop :: "nat \<Rightarrow> nat \<Rightarrow> (unit, byte list \<times> uio) kmon" where
  "uiomove_loop p n st =
     (if n > 0 \<and> uio_resid (snd st) > 0 then
        let sz = min (iov_len (snd st)) n in
        if sz = 0 then Panic ''uiomove: size reached 0''
        else (case uio_xfer p sz st of
            Ok _ (buf, u) \<Rightarrow> uiomove_loop (p + sz) (n - sz) (buf, uio_advance sz u)
          | Err e st' \<Rightarrow> Err e st'
          | Panic msg \<Rightarrow> Panic msg)
      else Ok () st)"
  by pat_completeness auto
termination by (relation "measure (\<lambda>(p, n, st). n)") auto

declare uiomove_loop.simps [simp del]

definition uio_space_ok :: "uio \<Rightarrow> bool" where
  "uio_space_ok u \<longleftrightarrow> (if uio_segflg u = UIO_SYSSPACE then uio_space u = None else uio_space u = uio_curspace u)"

definition uiomove :: "nat \<Rightarrow> nat \<Rightarrow> (unit, byte list \<times> uio) kmon" where
  "uiomove ptr n = bind (gets snd) (\<lambda>u.
     bind (assertk (uio_space_ok u) ''uio_space'') (\<lambda>_. uiomove_loop ptr n))"

text \<open>\<open>uiomovezeros\<close> sends at most 16 zero bytes at a time.\<close>

function uiomovezeros_loop :: "nat \<Rightarrow> (unit, uio) kmon" where
  "uiomovezeros_loop n u =
     (if n > 0 then
        let amt = min 16 n in
        (case uiomove 0 amt (replicate 16 0, u) of
            Ok _ (_, u') \<Rightarrow> uiomovezeros_loop (n - amt) u'
          | Err e (_, u') \<Rightarrow> Err e u'
          | Panic msg \<Rightarrow> Panic msg)
      else Ok () u)"
  by pat_completeness auto
termination by (relation "measure fst") auto

declare uiomovezeros_loop.simps [simp del]

definition uiomovezeros :: "nat \<Rightarrow> (unit, uio) kmon" where
  "uiomovezeros n = bind (gets uio_rw) (\<lambda>rw.
     bind (assertk (rw = UIO_READ) ''uio->uio_rw == UIO_READ'') (\<lambda>_. uiomovezeros_loop n))"

definition mk_kuio :: "byte list \<Rightarrow> nat \<Rightarrow> int \<Rightarrow> uio_rw \<Rightarrow> uio" where
  "mk_kuio kbuf len pos rw = \<lparr>uio_mem = (\<lambda>a. if a < length kbuf then Some (kbuf ! a) else None),
     iov_base = 0, iov_len = len, uio_offset = pos, uio_resid = len, uio_segflg = UIO_SYSSPACE,
     uio_rw = rw, uio_space = None, uio_curspace = None\<rparr>"

section \<open>Copies\<close>

lemma u32_nat: "0 \<le> x \<Longrightarrow> x < 4294967296 \<Longrightarrow> u32 x = nat x"
  by (rule u32_nonneg) simp_all

lemma copycheck_ok:
  assumes "0 < len" "ptr + len \<le> USERTOP"
  shows "copycheck ptr len s = Ok len s"
proof -
  have "u32 (int ptr + int len - 1) = ptr + len - 1"
    using assms by (subst u32_nat) (auto simp: USERTOP_def)
  then show ?thesis using assms by (auto simp: copycheck_def Let_def USERTOP_def)
qed

lemma copycheck_high:
  assumes "0 < len" "USERTOP < ptr + len" "ptr < 2 ^ 32" "len < 2 ^ 32"
  shows "copycheck ptr len s = Err EFAULT s \<or> ptr < USERTOP \<and> copycheck ptr len s = Ok (USERTOP - ptr) s"
proof (cases "ptr + len - 1 < 2 ^ 32")
  case True
  then have "u32 (int ptr + int len - 1) = ptr + len - 1"
    using assms by (subst u32_nat) auto
  then show ?thesis using assms by (auto simp: copycheck_def Let_def)
next
  case False
  have "u32 (int ptr + int len - 1) = nat (int ptr + int len - 1 - 2 ^ 32)"
  proof -
    have "(int ptr + int len - 1) mod 2 ^ 32 = (int ptr + int len - 1 - 2 ^ 32) mod 2 ^ 32"
      by (metis minus_mod_self2)
    also have "\<dots> = int ptr + int len - 1 - 2 ^ 32"
      using False assms by (intro mod_pos_pos_trivial) auto
    finally show ?thesis by (simp add: u32_def)
  qed
  moreover have "\<dots> < ptr" using False assms by auto
  ultimately show ?thesis by (simp add: copycheck_def Let_def)
qed

lemma copyin_ok:
  assumes "0 < len" "ptr + len \<le> USERTOP" "mapped m ptr len" "dest + len \<le> length buf"
  shows "copyin ptr dest len (buf, m) = Ok () (splice_at buf dest (get_bytes m ptr len), m)"
  using assms by (simp add: copyin_def bind_Ok[OF copycheck_ok] copy_from_mapped)

lemma copyout_ok:
  assumes "0 < len" "ptr + len \<le> USERTOP" "mapped m ptr len" "src + len \<le> length buf"
  shows "copyout src ptr len (buf, m) = Ok () (buf, put_bytes m ptr (take len (drop src buf)))"
  using assms by (simp add: copyout_def bind_Ok[OF copycheck_ok] copy_to_mapped min_absorb2)

text \<open>A range that is not user memory throughout is refused, whatever else holds.\<close>

lemma copyin_fault:
  assumes "0 < len" "dest + len \<le> length buf" "ptr < 2 ^ 32" "len < 2 ^ 32"
    and "\<not> mapped m ptr len \<or> USERTOP < ptr + len"
  shows "\<exists>buf'. copyin ptr dest len (buf, m) = Err EFAULT (buf', m)"
proof (cases "USERTOP < ptr + len")
  case True
  from copycheck_high[OF assms(1) True assms(3,4), of "(buf, m)"] show ?thesis
    using True by (auto simp: copyin_def bind_def)
next
  case False
  with assms(5) have "\<not> snd (copy_from len ptr m)" by (simp add: copy_from_snd)
  then obtain xs where "copy_from len ptr m = (xs, False)" by (cases "copy_from len ptr m") auto
  with False assms show ?thesis by (simp add: copyin_def bind_Ok[OF copycheck_ok] Let_def)
qed

lemma copyout_fault:
  assumes "0 < len" "src + len \<le> length buf" "ptr < 2 ^ 32" "len < 2 ^ 32"
    and "\<not> mapped m ptr len \<or> USERTOP < ptr + len"
  shows "\<exists>m'. copyout src ptr len (buf, m) = Err EFAULT (buf, m')"
proof (cases "USERTOP < ptr + len")
  case True
  from copycheck_high[OF assms(1) True assms(3,4), of "(buf, m)"] show ?thesis
    using True by (auto simp: copyout_def bind_def)
next
  case False
  with assms(2,5) have "\<not> snd (copy_to (take len (drop src buf)) ptr m)" by (simp add: copy_to_snd min_absorb2)
  then obtain m' where "copy_to (take len (drop src buf)) ptr m = (m', False)"
    by (cases "copy_to (take len (drop src buf)) ptr m") auto
  with False assms show ?thesis by (simp add: copyout_def bind_Ok[OF copycheck_ok])
qed

section \<open>What uiomove does\<close>

text \<open>\<open>n\<close> bytes can be moved through the descriptor.\<close>

definition uio_ready :: "uio \<Rightarrow> nat \<Rightarrow> bool" where
  "uio_ready u n \<longleftrightarrow> uio_space_ok u \<and> n \<le> uio_resid u \<and> n \<le> iov_len u \<and> uio_resid u < 2 ^ 32 \<and>
     mapped (uio_mem u) (iov_base u) n \<and> 0 \<le> uio_offset u \<and> uio_offset u + int n < 2 ^ 31 \<and>
     (uio_segflg u \<noteq> UIO_SYSSPACE \<longrightarrow> iov_base u + n \<le> USERTOP)"

text \<open>The descriptor after \<open>n\<close> bytes have been moved and its memory is \<open>m\<close>.\<close>

definition uio_done :: "nat \<Rightarrow> mem \<Rightarrow> uio \<Rightarrow> uio" where
  "uio_done n m u = u\<lparr>uio_mem := m, iov_base := iov_base u + n, iov_len := iov_len u - n,
     uio_resid := uio_resid u - n, uio_offset := uio_offset u + int n\<rparr>"

lemma uio_done_simps [simp]:
  "uio_mem (uio_done n m u) = m" "iov_base (uio_done n m u) = iov_base u + n"
  "iov_len (uio_done n m u) = iov_len u - n" "uio_resid (uio_done n m u) = uio_resid u - n"
  "uio_offset (uio_done n m u) = uio_offset u + int n" "uio_segflg (uio_done n m u) = uio_segflg u"
  "uio_rw (uio_done n m u) = uio_rw u" "uio_space (uio_done n m u) = uio_space u"
  "uio_curspace (uio_done n m u) = uio_curspace u"
  by (simp_all add: uio_done_def)

lemma uio_done_0 [simp]: "uio_done 0 (uio_mem u) u = u"
  by (simp add: uio_done_def)

lemma uio_done_done [simp]: "uio_done k m' (uio_done n m u) = uio_done (n + k) m' u"
  by (simp add: uio_done_def)

lemma uio_ready_mono: "uio_ready u n \<Longrightarrow> k \<le> n \<Longrightarrow> uio_ready u k"
  by (auto simp: uio_ready_def elim: mapped_mono)

lemma uio_ready_done:
  assumes "uio_ready u (n + k)" "mapped m (iov_base u + n) k"
  shows "uio_ready (uio_done n m u) k"
  using assms by (auto simp: uio_ready_def uio_space_ok_def)

lemma uio_xfer_read:
  assumes "uio_ready u n" "0 < n" "uio_rw u = UIO_READ" "p + n \<le> length buf"
  shows "uio_xfer p n (buf, u) = Ok () (buf, u\<lparr>uio_mem := put_bytes (uio_mem u) (iov_base u) (take n (drop p buf)),
    iov_base := iov_base u + n\<rparr>)"
  using assms unfolding uio_ready_def
  by (simp add: uio_xfer_def uio_memmove_def bind_def copy_to_mapped min_absorb2 zoom_def copyout_ok)

lemma uio_xfer_write:
  assumes "uio_ready u n" "0 < n" "uio_rw u = UIO_WRITE" "p + n \<le> length buf"
  shows "uio_xfer p n (buf, u) = Ok () (splice_at buf p (get_bytes (uio_mem u) (iov_base u) n),
    u\<lparr>iov_base := iov_base u + n\<rparr>)"
  using assms unfolding uio_ready_def
  by (simp add: uio_xfer_def uio_memmove_def bind_def copy_from_mapped zoom_def copyin_ok)

lemma uiomove_once:
  assumes "uio_ready u n" "uio_xfer p n (buf, u) = Ok () (buf', u\<lparr>uio_mem := m, iov_base := iov_base u + n\<rparr>)"
    "0 < n"
  shows "uiomove p n (buf, u) = Ok () (buf', uio_done n m u)"
proof -
  have "min (iov_len u) n = n" "uio_resid u > 0" "uio_space_ok u" and
    adv: "uio_advance n (u\<lparr>uio_mem := m, iov_base := iov_base u + n\<rparr>) = uio_done n m u"
    using assms by (auto simp: uio_ready_def uio_advance_def uio_done_def min_def)
  then show ?thesis using assms(2,3)
    by (simp add: uiomove_def bind_def uiomove_loop.simps[of p n "(buf, u)"]
        uiomove_loop.simps[of "p + n" 0])
qed

lemma uiomove_0: "uio_space_ok u \<Longrightarrow> uiomove p 0 (buf, u) = Ok () (buf, u)"
  by (simp add: uiomove_def bind_def uiomove_loop.simps[of p 0])

lemma uiomove_read:
  assumes "uio_ready u n" "uio_rw u = UIO_READ" "p + n \<le> length buf"
  shows "uiomove p n (buf, u) = Ok () (buf,
    uio_done n (put_bytes (uio_mem u) (iov_base u) (take n (drop p buf))) u)"
proof (cases "n = 0")
  case True
  with assms show ?thesis by (simp add: uiomove_0 uio_ready_def)
next
  case False
  then show ?thesis by (intro uiomove_once[OF assms(1) uio_xfer_read[OF assms(1) _ assms(2,3)]]) simp_all
qed

lemma uiomove_write:
  assumes "uio_ready u n" "uio_rw u = UIO_WRITE" "p + n \<le> length buf"
  shows "uiomove p n (buf, u) = Ok () (splice_at buf p (get_bytes (uio_mem u) (iov_base u) n),
    uio_done n (uio_mem u) u)"
proof (cases "n = 0")
  case True
  with assms show ?thesis by (simp add: uiomove_0 uio_ready_def)
next
  case False
  have "uio_xfer p n (buf, u) = Ok () (splice_at buf p (get_bytes (uio_mem u) (iov_base u) n),
      u\<lparr>uio_mem := uio_mem u, iov_base := iov_base u + n\<rparr>)"
    using uio_xfer_write[OF assms(1) _ assms(2,3)] False by simp
  then show ?thesis by (rule uiomove_once[OF assms(1)]) (use False in simp)
qed

lemma uiomovezeros_loop_ok:
  assumes "uio_ready u n" "uio_rw u = UIO_READ"
  shows "uiomovezeros_loop n u = Ok () (uio_done n (put_bytes (uio_mem u) (iov_base u) (replicate n 0)) u)"
  using assms
proof (induction n arbitrary: u rule: less_induct)
  case (less n)
  show ?case
  proof (cases "n = 0")
    case True
    then show ?thesis by (simp add: uiomovezeros_loop.simps[of 0])
  next
    case False
    define a where "a = min 16 n"
    have a: "0 < a" "a \<le> 16" "a \<le> n" "n - a < n" using False by (auto simp: a_def)
    let ?m = "put_bytes (uio_mem u) (iov_base u) (replicate a 0)"
    have r: "uio_ready u a" by (rule uio_ready_mono[OF less.prems(1) a(3)])
    have "mapped (uio_mem u) (iov_base u) (a + (n - a))"
      using less.prems(1) a by (simp add: uio_ready_def)
    then have "mapped ?m (iov_base u + a) (n - a)" by (simp add: mapped_add)
    then have "uio_ready (uio_done a ?m u) (n - a)"
      using uio_ready_done[of u a "n - a"] less.prems(1) a by simp
    from less.IH[OF a(4) this] less.prems(2)
    have "uiomovezeros_loop (n - a) (uio_done a ?m u) =
      Ok () (uio_done n (put_bytes ?m (iov_base u + a) (replicate (n - a) 0)) u)"
      using a by simp
    also have "put_bytes ?m (iov_base u + a) (replicate (n - a) 0) =
      put_bytes (uio_mem u) (iov_base u) (replicate n 0)"
      using put_bytes_append[of "uio_mem u" "iov_base u" "replicate a 0"] a(3)
      by (simp add: replicate_add[symmetric])
    finally show ?thesis
      using uiomove_read[OF r less.prems(2), of 0 "replicate 16 0"] a False
      by (simp add: uiomovezeros_loop.simps[of n] a_def[symmetric] min_absorb1 Let_def)
  qed
qed

lemma uiomovezeros_ok:
  assumes "uio_ready u n" "uio_rw u = UIO_READ"
  shows "uiomovezeros n u = Ok () (uio_done n (put_bytes (uio_mem u) (iov_base u) (replicate n 0)) u)"
  using assms by (simp add: uiomovezeros_def bind_def uiomovezeros_loop_ok)

text \<open>A kernel descriptor is ready for its whole buffer.\<close>

lemma mk_kuio_simps [simp]:
  "iov_base (mk_kuio buf n pos rw) = 0" "iov_len (mk_kuio buf n pos rw) = n"
  "uio_offset (mk_kuio buf n pos rw) = pos" "uio_resid (mk_kuio buf n pos rw) = n"
  "uio_rw (mk_kuio buf n pos rw) = rw" "uio_segflg (mk_kuio buf n pos rw) = UIO_SYSSPACE"
  by (simp_all add: mk_kuio_def)

lemma mk_kuio_mem: "uio_mem (mk_kuio buf n pos rw) a = (if a < length buf then Some (buf ! a) else None)"
  by (simp add: mk_kuio_def)

lemma mk_kuio_ready:
  assumes "n \<le> length buf" "0 \<le> pos" "pos + int n < 2 ^ 31" "n < 2 ^ 31"
  shows "uio_ready (mk_kuio buf n pos rw) n"
  using assms by (auto simp: uio_ready_def uio_space_ok_def mk_kuio_def mapped_def)

lemma get_bytes_kuio [simp]: "n \<le> length buf \<Longrightarrow> get_bytes (uio_mem (mk_kuio buf k pos rw)) 0 n = take n buf"
  by (rule nth_equalityI) (simp_all add: mk_kuio_mem)

end
