(* ===== verification/Block_Device.thy ===== *)
theory Block_Device
  imports Kernel_Uio
begin

text \<open>
  The LAMEbus hard disk driver, \<open>kern/dev/lamebus/lhd.c\<close>.

  The card is hardware: \<open>card\<close> is an arbitrary function that says what the operation number
  \<open>card_time\<close> does, given its direction, its sector, the on-card buffer and the medium; \<open>card_ok\<close> below
  is what the driver relies on. The two semaphores of the driver are their counts. The thread that
  waits for \<open>lh_done\<close> is woken by the interrupt of the operation it started; a thread that waits for
  something nobody will signal is stopped with \<open>Panic\<close>.
\<close>

unbundle bit_operations_syntax

section \<open>The code\<close>

definition LHD_SECTSIZE :: nat where "LHD_SECTSIZE = 512"

definition LHD_IDLE :: nat where "LHD_IDLE = 0"
definition LHD_WORKING :: nat where "LHD_WORKING = 1"
definition LHD_OK :: nat where "LHD_OK = 4"
definition LHD_INVSECT :: nat where "LHD_INVSECT = 12"
definition LHD_MEDIA :: nat where "LHD_MEDIA = 20"
definition LHD_ISWRITE :: nat where "LHD_ISWRITE = 2"
definition LHD_STATEMASK :: nat where "LHD_STATEMASK = 0x1d"

lemmas lhd_codes = LHD_IDLE_def LHD_WORKING_def LHD_OK_def LHD_INVSECT_def LHD_MEDIA_def

type_synonym medium = "nat \<Rightarrow> byte list"
type_synonym card_fun = "nat \<Rightarrow> bool \<Rightarrow> nat \<Rightarrow> byte list \<Rightarrow> medium \<Rightarrow> nat \<times> byte list \<times> medium"

record lhd_softc =
  lh_buf :: "byte list"
  lh_result :: "errno option"
  lh_clear :: int
  lh_done :: int
  d_blocks :: nat
  d_blocksize :: nat
  lh_stat :: nat
  lh_sect :: nat
  card :: card_fun
  card_time :: nat
  medium :: medium

text \<open>The card finishes the operation in its status register.\<close>

definition card_run :: "lhd_softc \<Rightarrow> lhd_softc" where
  "card_run lh =
     (if lh_stat lh AND LHD_STATEMASK = LHD_WORKING then
        (let (code, buf, med) = card lh (card_time lh) (lh_stat lh AND LHD_ISWRITE \<noteq> 0) (lh_sect lh)
               (lh_buf lh) (medium lh) in
         lh\<lparr>lh_stat := code, lh_buf := buf, medium := med, card_time := card_time lh + 1\<rparr>)
      else lh)"

definition lhd_code_to_errno :: "nat \<Rightarrow> errno option" where
  "lhd_code_to_errno code =
     (let c = code AND LHD_STATEMASK in
      if c = LHD_OK then None
      else if c = LHD_INVSECT then Some EINVAL
      else if c = LHD_MEDIA then Some EIO
      else Some EAGAIN)"

definition lhd_iodone :: "errno option \<Rightarrow> (unit, lhd_softc) kmon" where
  "lhd_iodone err = modify (\<lambda>lh. lh\<lparr>lh_result := err, lh_done := lh_done lh + 1\<rparr>)"

definition lhd_irq :: "(unit, lhd_softc) kmon" where
  "lhd_irq = bind (gets lh_stat) (\<lambda>val.
     let c = val AND LHD_STATEMASK in
     if c = LHD_OK \<or> c = LHD_INVSECT \<or> c = LHD_MEDIA then
       bind (modify (\<lambda>lh. lh\<lparr>lh_stat := 0\<rparr>)) (\<lambda>_. lhd_iodone (lhd_code_to_errno val))
     else ret ())"

definition lhd_open :: "nat \<Rightarrow> (unit, lhd_softc) kmon" where
  "lhd_open openflags = ret ()"

definition lhd_close :: "(unit, lhd_softc) kmon" where
  "lhd_close = ret ()"

definition lhd_ioctl :: "int \<Rightarrow> nat \<Rightarrow> (unit, lhd_softc) kmon" where
  "lhd_ioctl code data = fail EIOCTL"

text \<open>\<open>P(lh->lh_clear)\<close>, \<open>V(lh->lh_clear)\<close> and \<open>P(lh->lh_done)\<close>.\<close>

definition P_clear :: "(unit, lhd_softc) kmon" where
  "P_clear lh = (if lh_clear lh > 0 then Ok () (lh\<lparr>lh_clear := lh_clear lh - 1\<rparr>)
     else Panic ''P(lh_clear): asleep for ever'')"

definition V_clear :: "(unit, lhd_softc) kmon" where
  "V_clear = modify (\<lambda>lh. lh\<lparr>lh_clear := lh_clear lh + 1\<rparr>)"

definition P_done :: "(unit, lhd_softc) kmon" where
  "P_done =
     bind (gets lh_done) (\<lambda>c.
     bind (if c = 0 then bind (modify card_run) (\<lambda>_. lhd_irq) else ret ()) (\<lambda>_.
     bind (gets lh_done) (\<lambda>c.
     if c > 0 then modify (\<lambda>lh. lh\<lparr>lh_done := lh_done lh - 1\<rparr>) else panic ''P(lh_done): asleep for ever'')))"

text \<open>The state of an I/O call: the descriptor and the device.\<close>

definition on_dev :: "('a, lhd_softc) kmon \<Rightarrow> ('a, uio \<times> lhd_softc) kmon" where
  "on_dev = zoom snd (\<lambda>lh (u, _). (u, lh))"

definition lhd_move :: "(unit, uio \<times> lhd_softc) kmon" where
  "lhd_move = zoom (\<lambda>(u, lh). (lh_buf lh, u)) (\<lambda>(buf, u) (_, lh). (u, lh\<lparr>lh_buf := buf\<rparr>))
     (uiomove 0 LHD_SECTSIZE)"

text \<open>One round of the loop: sector \<open>sector + i\<close>.\<close>

definition lhd_io_sector :: "nat \<Rightarrow> nat \<Rightarrow> (unit, uio \<times> lhd_softc) kmon" where
  "lhd_io_sector statval sect =
     bind (on_dev P_clear) (\<lambda>_.
     bind (gets (\<lambda>s. uio_rw (fst s))) (\<lambda>rw.
     bind (if rw = UIO_WRITE then attempt lhd_move else ret (Inr ())) (\<lambda>result.
     case result of
       Inl e \<Rightarrow> bind (on_dev V_clear) (\<lambda>_. fail e)
     | Inr _ \<Rightarrow>
         bind (on_dev (modify (\<lambda>lh. lh\<lparr>lh_sect := sect\<rparr>))) (\<lambda>_.
         bind (on_dev (modify (\<lambda>lh. lh\<lparr>lh_stat := statval\<rparr>))) (\<lambda>_.
         bind (on_dev P_done) (\<lambda>_.
         bind (on_dev (gets lh_result)) (\<lambda>result.
         bind (case result of
                 None \<Rightarrow> if rw = UIO_READ then attempt lhd_move else ret (Inr ())
               | Some e \<Rightarrow> ret (Inl e)) (\<lambda>result.
         bind (on_dev V_clear) (\<lambda>_.
         case result of Inl e \<Rightarrow> fail e | Inr _ \<Rightarrow> ret ())))))))))"

definition lhd_io :: "(unit, uio \<times> lhd_softc) kmon" where
  "lhd_io = bind (gets fst) (\<lambda>u. bind (gets (\<lambda>s. d_blocks (snd s))) (\<lambda>blocks.
     let sector = u32 (cdiv (uio_offset u) (int LHD_SECTSIZE));
         sectoff = u32 (crem (uio_offset u) (int LHD_SECTSIZE));
         len = uio_resid u div LHD_SECTSIZE;
         lenoff = uio_resid u mod LHD_SECTSIZE;
         statval = (if uio_rw u = UIO_WRITE then LHD_WORKING OR LHD_ISWRITE else LHD_WORKING)
     in if sectoff \<noteq> 0 \<or> lenoff \<noteq> 0 then fail EINVAL
        else if u32 (int sector + int len) > blocks then fail EINVAL
        else foreach [0..<len] (\<lambda>i. lhd_io_sector statval (u32 (int sector + int i)))))"

section \<open>The contract of the card and of the driver\<close>

text \<open>
  What is documented of the card: an operation on one of its sectors ends with success or with a media
  error; a successful read fills the buffer from the sector, a successful write fills the sector from
  the buffer, and nothing else changes. The medium stays a collection of 512-byte sectors, and a read
  never alters it.
\<close>

definition card_ok :: "nat \<Rightarrow> card_fun \<Rightarrow> bool" where
  "card_ok nsect c \<longleftrightarrow> (\<forall>t w sect buf med code buf' med'.
     sect < nsect \<longrightarrow> length buf = 512 \<longrightarrow> (\<forall>k < nsect. length (med k) = 512) \<longrightarrow>
     c t w sect buf med = (code, buf', med') \<longrightarrow>
       (code AND LHD_STATEMASK = LHD_OK \<or> code AND LHD_STATEMASK = LHD_MEDIA) \<and>
       length buf' = 512 \<and> length (med' sect) = 512 \<and> (\<forall>k. k \<noteq> sect \<longrightarrow> med' k = med k) \<and>
       (\<not> w \<longrightarrow> med' sect = med sect) \<and>
       (code AND LHD_STATEMASK = LHD_OK \<longrightarrow> (if w then med' sect = buf else buf' = med sect)))"

text \<open>No write fails.\<close>

definition writes_ok :: "nat \<Rightarrow> card_fun \<Rightarrow> bool" where
  "writes_ok nsect c \<longleftrightarrow> (\<forall>t sect buf med. sect < nsect \<longrightarrow>
     fst (c t True sect buf med) AND LHD_STATEMASK = LHD_OK)"

definition lhd_inv :: "lhd_softc \<Rightarrow> bool" where
  "lhd_inv lh \<longleftrightarrow> length (lh_buf lh) = 512 \<and> lh_clear lh = 1 \<and> lh_done lh = 0 \<and> d_blocks lh < 2 ^ 22 \<and>
     d_blocksize lh = 512 \<and> card_ok (d_blocks lh) (card lh) \<and> (\<forall>k < d_blocks lh. length (medium lh k) = 512)"

text \<open>The same device, with the same contents.\<close>

definition lhd_same :: "lhd_softc \<Rightarrow> lhd_softc \<Rightarrow> bool" where
  "lhd_same lh lh' \<longleftrightarrow> lhd_inv lh' \<and> d_blocks lh' = d_blocks lh \<and> card lh' = card lh \<and> medium lh' = medium lh"

lemma lhd_sameI:
  "lhd_inv lh' \<Longrightarrow> d_blocks lh' = d_blocks lh \<Longrightarrow> card lh' = card lh \<Longrightarrow> medium lh' = medium lh \<Longrightarrow> lhd_same lh lh'"
  by (simp add: lhd_same_def)

lemma lhd_same_refl: "lhd_inv lh \<Longrightarrow> lhd_same lh lh"
  by (simp add: lhd_same_def)

lemma lhd_same_trans: "lhd_same a b \<Longrightarrow> lhd_same b c \<Longrightarrow> lhd_same a c"
  by (simp add: lhd_same_def)

lemma lhd_sameD: "lhd_same lh lh' \<Longrightarrow> lhd_inv lh'" "lhd_same lh lh' \<Longrightarrow> medium lh' = medium lh"
  "lhd_same lh lh' \<Longrightarrow> d_blocks lh' = d_blocks lh" "lhd_same lh lh' \<Longrightarrow> card lh' = card lh"
  by (simp_all add: lhd_same_def)

text \<open>The status values the driver writes.\<close>

lemma stat_masks [simp]:
  "LHD_WORKING AND LHD_STATEMASK = LHD_WORKING" "(LHD_WORKING OR LHD_ISWRITE) AND LHD_STATEMASK = LHD_WORKING"
  "LHD_WORKING AND LHD_ISWRITE = 0" "(LHD_WORKING OR LHD_ISWRITE) AND LHD_ISWRITE \<noteq> 0"
  by (simp_all add: LHD_WORKING_def LHD_STATEMASK_def LHD_ISWRITE_def)

text \<open>Starting an operation on sector \<open>sect\<close> and waiting for it.\<close>

definition lhd_command :: "nat \<Rightarrow> nat \<Rightarrow> (errno option, lhd_softc) kmon" where
  "lhd_command statval sect =
     bind (modify (\<lambda>lh. lh\<lparr>lh_sect := sect\<rparr>)) (\<lambda>_.
     bind (modify (\<lambda>lh. lh\<lparr>lh_stat := statval\<rparr>)) (\<lambda>_.
     bind P_done (\<lambda>_. gets lh_result)))"

lemma lhd_command_run:
  assumes "lh_done lh = 0" "statval AND LHD_STATEMASK = LHD_WORKING"
    and "card lh (card_time lh) (statval AND LHD_ISWRITE \<noteq> 0) sect (lh_buf lh) (medium lh) = (code, buf, med)"
    and "code AND LHD_STATEMASK = LHD_OK \<or> code AND LHD_STATEMASK = LHD_MEDIA"
  shows "lhd_command statval sect lh = Ok (if code AND LHD_STATEMASK = LHD_OK then None else Some EIO)
    (lh\<lparr>lh_sect := sect, lh_stat := 0, lh_buf := buf, medium := med, card_time := card_time lh + 1,
        lh_result := (if code AND LHD_STATEMASK = LHD_OK then None else Some EIO)\<rparr>)"
proof -
  have "card_run (lh\<lparr>lh_sect := sect, lh_stat := statval\<rparr>) =
    lh\<lparr>lh_sect := sect, lh_stat := code, lh_buf := buf, medium := med, card_time := card_time lh + 1\<rparr>"
    using assms(2,3) by (simp add: card_run_def)
  then show ?thesis using assms(1,4)
    by (cases lh) (auto simp: lhd_command_def P_done_def bind_def lhd_irq_def lhd_iodone_def
        lhd_code_to_errno_def Let_def lhd_codes)
qed

text \<open>The round of the loop in terms of the command.\<close>

lemma lhd_io_sector_alt:
  "lhd_io_sector statval sect =
     bind (on_dev P_clear) (\<lambda>_.
     bind (gets (\<lambda>s. uio_rw (fst s))) (\<lambda>rw.
     bind (if rw = UIO_WRITE then attempt lhd_move else ret (Inr ())) (\<lambda>result.
     case result of
       Inl e \<Rightarrow> bind (on_dev V_clear) (\<lambda>_. fail e)
     | Inr _ \<Rightarrow>
         bind (on_dev (lhd_command statval sect)) (\<lambda>result.
         bind (case result of
                 None \<Rightarrow> if rw = UIO_READ then attempt lhd_move else ret (Inr ())
               | Some e \<Rightarrow> ret (Inl e)) (\<lambda>result.
         bind (on_dev V_clear) (\<lambda>_.
         case result of Inl e \<Rightarrow> fail e | Inr _ \<Rightarrow> ret ()))))))"
proof -
  have zb: "on_dev (bind m f) = bind (on_dev m) (\<lambda>a. on_dev (f a))" for m :: "('x, lhd_softc) kmon" and f :: "'x \<Rightarrow> ('y, lhd_softc) kmon"
    by (auto simp: on_dev_def zoom_def bind_def fun_eq_iff split: outcome.splits)
  show ?thesis unfolding lhd_io_sector_def lhd_command_def zb bind_assoc by (rule refl)
qed

definition lhd_wrote :: "nat \<Rightarrow> byte list \<Rightarrow> lhd_softc \<Rightarrow> lhd_softc \<Rightarrow> bool" where
  "lhd_wrote sect xs lh lh' \<longleftrightarrow> lhd_inv lh' \<and> d_blocks lh' = d_blocks lh \<and> card lh' = card lh \<and>
     medium lh' = (medium lh)(sect := xs)"

lemma lhd_move_read:
  assumes "uio_ready u 512" "uio_rw u = UIO_READ" "length (lh_buf lh) = 512"
  shows "lhd_move (u, lh) = Ok () (uio_done 512 (put_bytes (uio_mem u) (iov_base u) (lh_buf lh)) u, lh)"
  using uiomove_read[OF assms(1,2), of 0 "lh_buf lh"] assms(3)
  by (simp add: lhd_move_def zoom_def LHD_SECTSIZE_def)

lemma lhd_move_write:
  assumes "uio_ready u 512" "uio_rw u = UIO_WRITE" "length (lh_buf lh) = 512"
  shows "lhd_move (u, lh) = Ok () (uio_done 512 (uio_mem u) u,
    lh\<lparr>lh_buf := get_bytes (uio_mem u) (iov_base u) 512\<rparr>)"
  using uiomove_write[OF assms(1,2), of 0 "lh_buf lh"] assms(3)
  by (simp add: lhd_move_def zoom_def LHD_SECTSIZE_def splice_at_def)

lemma lhd_io_sector_read:
  assumes "lhd_inv lh" "sect < d_blocks lh" "uio_rw u = UIO_READ" "uio_ready u 512"
  shows "wp (lhd_io_sector LHD_WORKING sect)
    (\<lambda>_ (u', lh'). lhd_same lh lh' \<and> u' = uio_done 512 (put_bytes (uio_mem u) (iov_base u) (medium lh sect)) u)
    (\<lambda>e (u', lh'). e = EIO \<and> lhd_same lh lh' \<and> u' = u) (u, lh)"
proof -
  note i = assms(1)[unfolded lhd_inv_def]
  obtain code buf med where c: "card lh (card_time lh) False sect (lh_buf lh) (medium lh) = (code, buf, med)"
    by (metis prod_cases3)
  then have k: "code AND LHD_STATEMASK = LHD_OK \<or> code AND LHD_STATEMASK = LHD_MEDIA" "length buf = 512"
      "\<forall>k. k \<noteq> sect \<longrightarrow> med k = medium lh k" "med sect = medium lh sect"
      "code AND LHD_STATEMASK = LHD_OK \<longrightarrow> buf = medium lh sect"
    using i assms(2) unfolding card_ok_def by (metis, metis, metis, metis, metis)
  have med: "med = medium lh" using k(3,4) by (metis ext)
  define lh1 where "lh1 = lh\<lparr>lh_clear := 0\<rparr>"
  define ok where "ok = (code AND LHD_STATEMASK = LHD_OK)"
  define lh2 where "lh2 = lh1\<lparr>lh_sect := sect, lh_stat := 0, lh_buf := buf, medium := med, card_time := card_time lh + 1,
      lh_result := (if ok then None else Some EIO)\<rparr>"
  have cmd: "lhd_command LHD_WORKING sect lh1 = Ok (if ok then None else Some EIO) lh2"
    using lhd_command_run[of lh1 LHD_WORKING sect code buf med] c k(1) i
    by (simp add: lh1_def lh2_def ok_def)
  have pre: "on_dev P_clear (u, lh) = Ok () (u, lh1)"
    using i by (simp add: on_dev_def zoom_def P_clear_def lh1_def)
  have l2: "length (lh_buf lh2) = 512" using k(2) by (simp add: lh2_def)
  have s2: "lhd_same lh (lh2\<lparr>lh_clear := 1\<rparr>)"
    using i k(2) by (simp add: lhd_same_def lhd_inv_def lh2_def lh1_def med)
  have c2: "lh_clear lh2 = 0" by (simp add: lh2_def lh1_def)
  show ?thesis
  proof (cases ok)
    case True
    with k(5) have "lh_buf lh2 = medium lh sect" by (simp add: ok_def lh2_def)
    with True s2 c2 lhd_move_read[OF assms(4,3) l2] assms(3) cmd pre show ?thesis
      by (simp add: lhd_io_sector_alt wp_def bind_def on_dev_def zoom_def attempt_def V_clear_def)
  next
    case False
    with s2 c2 assms(3) cmd pre show ?thesis
      by (simp add: lhd_io_sector_alt wp_def bind_def on_dev_def zoom_def attempt_def V_clear_def)
  qed
qed

lemma lhd_io_sector_write:
  assumes "lhd_inv lh" "sect < d_blocks lh" "uio_rw u = UIO_WRITE" "uio_ready u 512"
  shows "wp (lhd_io_sector (LHD_WORKING OR LHD_ISWRITE) sect)
    (\<lambda>_ (u', lh'). lhd_wrote sect (get_bytes (uio_mem u) (iov_base u) 512) lh lh' \<and> u' = uio_done 512 (uio_mem u) u)
    (\<lambda>e (u', lh'). e = EIO \<and> \<not> writes_ok (d_blocks lh) (card lh) \<and> (\<exists>xs. length xs = 512 \<and> lhd_wrote sect xs lh lh') \<and>
       u' = uio_done 512 (uio_mem u) u) (u, lh)"
proof -
  note i = assms(1)[unfolded lhd_inv_def]
  let ?b = "get_bytes (uio_mem u) (iov_base u) 512"
  define lh1 where "lh1 = lh\<lparr>lh_clear := 0, lh_buf := ?b\<rparr>"
  obtain code buf med where c: "card lh (card_time lh) True sect ?b (medium lh) = (code, buf, med)"
    by (metis prod_cases3)
  then have k: "code AND LHD_STATEMASK = LHD_OK \<or> code AND LHD_STATEMASK = LHD_MEDIA" "length buf = 512"
      "\<forall>k. k \<noteq> sect \<longrightarrow> med k = medium lh k" "length (med sect) = 512"
      "code AND LHD_STATEMASK = LHD_OK \<longrightarrow> med sect = ?b"
    using i assms(2) length_get_bytes[of "uio_mem u" "iov_base u" 512]
    unfolding card_ok_def by (metis, metis, metis, metis, metis)
  define xs where "xs = med sect"
  have med: "med = (medium lh)(sect := xs)" "length xs = 512" using k(3,4) by (auto simp: xs_def)
  define ok where "ok = (code AND LHD_STATEMASK = LHD_OK)"
  define lh2 where "lh2 = lh1\<lparr>lh_sect := sect, lh_stat := 0, lh_buf := buf, medium := med, card_time := card_time lh + 1,
      lh_result := (if ok then None else Some EIO)\<rparr>"
  have cmd: "lhd_command (LHD_WORKING OR LHD_ISWRITE) sect lh1 = Ok (if ok then None else Some EIO) lh2"
    using lhd_command_run[of lh1 "LHD_WORKING OR LHD_ISWRITE" sect code buf med] c k(1) i
    by (simp add: lh1_def lh2_def ok_def)
  have pre: "on_dev P_clear (u, lh) = Ok () (u, lh\<lparr>lh_clear := 0\<rparr>)"
    using i by (simp add: on_dev_def zoom_def P_clear_def)
  have mv: "lhd_move (u, lh\<lparr>lh_clear := 0\<rparr>) = Ok () (uio_done 512 (uio_mem u) u, lh1)"
    using lhd_move_write[OF assms(4,3), of "lh\<lparr>lh_clear := 0\<rparr>"] i by (simp add: lh1_def)
  have s2: "lhd_wrote sect xs lh (lh2\<lparr>lh_clear := 1\<rparr>)"
    using i k(2) med(2) by (simp add: lhd_wrote_def lhd_inv_def lh2_def lh1_def med(1))
  have c2: "lh_clear lh2 = 0" by (simp add: lh2_def lh1_def)
  show ?thesis
  proof (cases ok)
    case True
    with k(5) have "xs = ?b" by (simp add: ok_def xs_def)
    with True s2 c2 mv assms(3) cmd pre show ?thesis
      by (simp add: lhd_io_sector_alt wp_def bind_def on_dev_def zoom_def attempt_def V_clear_def)
  next
    case False
    then have "\<not> writes_ok (d_blocks lh) (card lh)"
      using c assms(2) by (auto simp: ok_def writes_ok_def) (metis fst_conv)
    with False s2 c2 mv med(2) assms(3) cmd pre show ?thesis
      by (auto simp: lhd_io_sector_alt wp_def bind_def on_dev_def zoom_def attempt_def V_clear_def)
  qed
qed

section \<open>Ranges of sectors\<close>

lemma lhd_io_loop:
  assumes "lhd_inv lh" "uio_offset u = 512 * int sector" "uio_resid u = 512 * len" "sector + len \<le> d_blocks lh"
  shows "lhd_io (u, lh) = foreach [0..<len] (\<lambda>i. lhd_io_sector
    (if uio_rw u = UIO_WRITE then LHD_WORKING OR LHD_ISWRITE else LHD_WORKING) (u32 (int sector + int i))) (u, lh)"
proof -
  have lim: "d_blocks lh < 4194304" using assms(1) by (simp add: lhd_inv_def)
  have "u32 (int sector) = sector" using lim assms(4) by (intro u32_id) simp
  moreover have "u32 (int sector + int len) = sector + len"
    using lim assms(4) by (subst u32_nonneg) auto
  moreover have "u32 0 = 0" by (simp add: u32_def)
  ultimately show ?thesis
    using assms(2-4) by (simp add: lhd_io_def bind_def Let_def LHD_SECTSIZE_def)
qed

lemma upt_splitD:
  assumes "[0..<n] = ys @ x # zs"
  shows "x = length ys" "ys = [0..<x]" "x < n"
proof -
  have l: "length ys < n" using arg_cong[OF assms, of length] by simp
  have "[0..<n] ! length ys = x" by (simp add: assms)
  then show x: "x = length ys" using l by simp
  then show "x < n" using l by simp
  have "take (length ys) [0..<n] = ys" by (simp add: assms)
  then show "ys = [0..<x]" using x l by (simp add: take_upt)
qed

definition sectors :: "medium \<Rightarrow> nat \<Rightarrow> nat \<Rightarrow> byte list" where
  "sectors med sector len = concat (map med [sector..<sector + len])"

lemma sectors_0 [simp]: "sectors med sector 0 = []"
  by (simp add: sectors_def)

lemma sectors_Suc: "sectors med sector (Suc len) = sectors med sector len @ med (sector + len)"
  by (simp add: sectors_def)

lemma length_sectors:
  "(\<And>k. sector \<le> k \<Longrightarrow> k < sector + len \<Longrightarrow> length (med k) = 512) \<Longrightarrow> length (sectors med sector len) = 512 * len"
  by (induction len) (simp_all add: sectors_Suc)

lemma uio_ready_chunk:
  assumes "uio_ready u (512 * len)" "i < len" "mapped (uio_mem u) (iov_base u) (512 * len) \<Longrightarrow> mapped m (iov_base u) (512 * len)"
  shows "uio_ready (uio_done (512 * i) m u) 512"
proof -
  have "512 * i + 512 \<le> 512 * len" using assms(2) by simp
  then have r: "uio_ready u (512 * i + 512)" by (rule uio_ready_mono[OF assms(1)])
  have "mapped m (iov_base u) (512 * len)" using assms(1,3) by (simp add: uio_ready_def)
  then have "mapped m (iov_base u) (512 * i + 512)" by (rule mapped_mono) (use assms(2) in simp)
  then show ?thesis by (intro uio_ready_done[OF r]) (simp add: mapped_add)
qed

lemma lhd_io_read:
  assumes "lhd_inv lh" "uio_rw u = UIO_READ" "uio_offset u = 512 * int sector" "uio_resid u = 512 * len"
    and "sector + len \<le> d_blocks lh" "uio_ready u (512 * len)"
  shows "wp lhd_io
    (\<lambda>_ (u', lh'). lhd_same lh lh' \<and>
       u' = uio_done (512 * len) (put_bytes (uio_mem u) (iov_base u) (sectors (medium lh) sector len)) u)
    (\<lambda>e (u', lh'). e = EIO \<and> lhd_same lh lh' \<and> (\<exists>k < len.
       u' = uio_done (512 * k) (put_bytes (uio_mem u) (iov_base u) (sectors (medium lh) sector k)) u)) (u, lh)"
proof -
  let ?m = "\<lambda>k. put_bytes (uio_mem u) (iov_base u) (sectors (medium lh) sector k)"
  define I where "I = (\<lambda>(ys :: nat list) (u', lh'). lhd_same lh lh' \<and> u' = uio_done (512 * length ys) (?m (length ys)) u)"
  let ?E = "\<lambda>e (u', lh'). e = EIO \<and> lhd_same lh lh' \<and> (\<exists>k < len. u' = uio_done (512 * k) (?m k) u)"
  note lim = assms(1)[unfolded lhd_inv_def]
  have step: "wp (lhd_io_sector LHD_WORKING (u32 (int sector + int i))) (\<lambda>_. I (ys @ [i])) ?E st"
    if "[0..<len] = ys @ i # zs" "I ys st" for ys i zs st
  proof -
    obtain u' lh' where st: "st = (u', lh')" by (cases st)
    note sp = upt_splitD[OF that(1)]
    have same: "lhd_same lh lh'" and u': "u' = uio_done (512 * i) (?m i) u"
      using that(2) sp(1) by (simp_all add: I_def st)
    have k: "u32 (int sector + int i) = sector + i" using lim assms(5) sp(3) by (subst u32_nonneg) auto
    have "uio_ready u' 512" unfolding u' by (rule uio_ready_chunk[OF assms(6) sp(3)]) simp
    then have w: "wp (lhd_io_sector LHD_WORKING (sector + i))
      (\<lambda>_ (u'', lh''). lhd_same lh' lh'' \<and> u'' = uio_done 512 (put_bytes (uio_mem u') (iov_base u') (medium lh' (sector + i))) u')
      (\<lambda>e (u'', lh''). e = EIO \<and> lhd_same lh' lh'' \<and> u'' = u') (u', lh')"
      by (intro lhd_io_sector_read) (use same assms(2,5) sp(3) in \<open>auto simp: lhd_sameD u'\<close>)
    have len: "length (sectors (medium lh) sector i) = 512 * i"
      using lim assms(5) sp(3) by (intro length_sectors) auto
    have "put_bytes (?m i) (iov_base u + 512 * i) (medium lh (sector + i)) = ?m (Suc i)"
      using put_bytes_append[of "uio_mem u" "iov_base u" "sectors (medium lh) sector i"]
      by (simp add: sectors_Suc len)
    then have q: "uio_done 512 (put_bytes (uio_mem u') (iov_base u') (medium lh' (sector + i))) u' =
      uio_done (512 * Suc i) (?m (Suc i)) u"
      using same by (simp add: u' lhd_sameD)
    have ok: "I (ys @ [i]) s'" if "(case s' of (u'', lh'') \<Rightarrow> lhd_same lh' lh'' \<and>
        u'' = uio_done 512 (put_bytes (uio_mem u') (iov_base u') (medium lh' (sector + i))) u')" for s'
      using that lhd_same_trans[OF same] sp(1) unfolding q I_def by (cases s') simp
    have er: "?E e s'" if "(case s' of (u'', lh'') \<Rightarrow> e = EIO \<and> lhd_same lh' lh'' \<and> u'' = u')" for e s'
      using that lhd_same_trans[OF same] sp(3) u' by (cases s') blast
    show ?thesis unfolding k st by (rule wp_mono[OF w]) (rule ok er, assumption)+
  qed
  have "wp (foreach [0..<len] (\<lambda>i. lhd_io_sector LHD_WORKING (u32 (int sector + int i)))) (\<lambda>_. I [0..<len]) ?E (u, lh)"
    by (rule wp_foreach) (use step in \<open>auto simp: I_def lhd_same_refl assms(1)\<close>)
  then show ?thesis
    using lhd_io_loop[OF assms(1,3,4,5)] assms(2) by (simp add: wp_def I_def)
qed

text \<open>The medium after sectors from \<open>sector\<close> on have been overwritten with consecutive pieces of \<open>xs\<close>.\<close>

definition medium_put :: "medium \<Rightarrow> nat \<Rightarrow> nat \<Rightarrow> byte list \<Rightarrow> medium" where
  "medium_put med sector len xs = (\<lambda>k. if sector \<le> k \<and> k < sector + len
     then take 512 (drop (512 * (k - sector)) xs) else med k)"

lemma lhd_io_write:
  assumes "lhd_inv lh" "uio_rw u = UIO_WRITE" "uio_offset u = 512 * int sector" "uio_resid u = 512 * len"
    and "sector + len \<le> d_blocks lh" "uio_ready u (512 * len)" "writes_ok (d_blocks lh) (card lh)"
  shows "wp lhd_io
    (\<lambda>_ (u', lh'). lhd_inv lh' \<and> d_blocks lh' = d_blocks lh \<and> card lh' = card lh \<and>
       medium lh' = medium_put (medium lh) sector len (get_bytes (uio_mem u) (iov_base u) (512 * len)) \<and>
       u' = uio_done (512 * len) (uio_mem u) u)
    (\<lambda>_ _. False) (u, lh)"
proof -
  let ?xs = "get_bytes (uio_mem u) (iov_base u) (512 * len)"
  define I where "I = (\<lambda>(ys :: nat list) (u', lh'). lhd_inv lh' \<and> d_blocks lh' = d_blocks lh \<and> card lh' = card lh \<and>
    medium lh' = medium_put (medium lh) sector (length ys) ?xs \<and> u' = uio_done (512 * length ys) (uio_mem u) u)"
  note lim = assms(1)[unfolded lhd_inv_def]
  have step: "wp (lhd_io_sector (LHD_WORKING OR LHD_ISWRITE) (u32 (int sector + int i))) (\<lambda>_. I (ys @ [i])) (\<lambda>_ _. False) st"
    if "[0..<len] = ys @ i # zs" "I ys st" for ys i zs st
  proof -
    obtain u' lh' where st: "st = (u', lh')" by (cases st)
    note sp = upt_splitD[OF that(1)]
    have i: "lhd_inv lh'" "d_blocks lh' = d_blocks lh" "card lh' = card lh"
      "medium lh' = medium_put (medium lh) sector i ?xs" "u' = uio_done (512 * i) (uio_mem u) u"
      using that(2) sp(1) by (simp_all add: I_def st)
    have k: "u32 (int sector + int i) = sector + i" using lim assms(5) sp(3) by (subst u32_nonneg) auto
    have "uio_ready u' 512" unfolding i(5) by (rule uio_ready_chunk[OF assms(6) sp(3)]) simp
    then have w: "wp (lhd_io_sector (LHD_WORKING OR LHD_ISWRITE) (sector + i))
      (\<lambda>_ (u'', lh''). lhd_wrote (sector + i) (get_bytes (uio_mem u') (iov_base u') 512) lh' lh'' \<and> u'' = uio_done 512 (uio_mem u') u')
      (\<lambda>e (u'', lh''). e = EIO \<and> \<not> writes_ok (d_blocks lh') (card lh') \<and> (\<exists>xs. length xs = 512 \<and> lhd_wrote (sector + i) xs lh' lh'') \<and>
         u'' = uio_done 512 (uio_mem u') u') (u', lh')"
      by (intro lhd_io_sector_write) (use i assms(2,5) sp(3) in auto)
    have g: "get_bytes (uio_mem u') (iov_base u') 512 = take 512 (drop (512 * i) ?xs)"
      using sp(3) by (intro nth_equalityI) (auto simp: i(5) add.assoc)
    have m: "(medium_put (medium lh) sector i ?xs)(sector + i := take 512 (drop (512 * i) ?xs)) =
      medium_put (medium lh) sector (Suc i) ?xs"
      by (rule ext) (auto simp: medium_put_def)
    have ok: "I (ys @ [i]) s'" if "(case s' of (u'', lh'') \<Rightarrow>
        lhd_wrote (sector + i) (get_bytes (uio_mem u') (iov_base u') 512) lh' lh'' \<and> u'' = uio_done 512 (uio_mem u') u')" for s'
    proof -
      obtain u'' lh'' where s': "s' = (u'', lh'')" by (cases s')
      have "lhd_wrote (sector + i) (take 512 (drop (512 * i) ?xs)) lh' lh''" "u'' = uio_done 512 (uio_mem u') u'"
        using that unfolding s' g by simp_all
      with i m have "lhd_inv lh''" "d_blocks lh'' = d_blocks lh" "card lh'' = card lh"
        "medium lh'' = medium_put (medium lh) sector (Suc i) ?xs" "u'' = uio_done (512 * Suc i) (uio_mem u) u"
        unfolding lhd_wrote_def by simp_all
      then show ?thesis using sp(1) by (simp add: I_def s')
    qed
    show ?thesis unfolding k st
      by (rule wp_mono[OF w]) (erule ok, use i(2,3) assms(7) in \<open>simp split: prod.splits\<close>)
  qed
  have "wp (foreach [0..<len] (\<lambda>i. lhd_io_sector (LHD_WORKING OR LHD_ISWRITE) (u32 (int sector + int i))))
    (\<lambda>_. I [0..<len]) (\<lambda>_ _. False) (u, lh)"
  proof (rule wp_foreach)
    have "medium_put (medium lh) sector 0 ?xs = medium lh" by (rule ext) (auto simp: medium_put_def)
    then show "I [] (u, lh)" by (simp add: I_def assms(1))
  qed (use step in auto)
  then show ?thesis
    using lhd_io_loop[OF assms(1,3,4,5)] assms(2) by (simp add: wp_def I_def)
qed

text \<open>One sector: what the file system asks for.\<close>

lemma lhd_io_one:
  assumes "lhd_inv lh" "uio_offset u = 512 * int sector" "uio_resid u = 512" "sector < d_blocks lh"
  shows "lhd_io (u, lh) = lhd_io_sector
    (if uio_rw u = UIO_WRITE then LHD_WORKING OR LHD_ISWRITE else LHD_WORKING) sector (u, lh)"
proof -
  have "u32 (int sector) = sector" using assms(1,4) by (intro u32_id) (simp add: lhd_inv_def)
  then show ?thesis
    using lhd_io_loop[OF assms(1,2), of 1] assms(3,4) by simp
qed

end
