(* ===== verification/Vnode_Count.thy ===== *)
theory Vnode_Count
  imports C_Arith
begin

text \<open>
  The vnode layer of \<open>kern/fs/vfs/vnode.c\<close>: reference and open counts under the lock of the vnode, and
  the consistency check made before every operation. The functions that hand over to the file system
  (\<open>vnode_decref\<close> to \<open>VOP_RECLAIM\<close>, \<open>vnode_decopen\<close> to \<open>VOP_CLOSE\<close>) take that operation as an argument,
  together with the pointer through which they reach the vnode in a larger state.
\<close>

section \<open>The code\<close>

text \<open>
  \<open>vn_countlock\<close> is the lock as the running thread sees it: \<open>None\<close> is a null pointer, \<open>Some True\<close> a lock it
  holds. \<open>'o\<close> is the type of operation tables.
\<close>

record 'o vnode =
  vn_refcount :: int
  vn_opencount :: int
  vn_countlock :: "bool option"
  vn_fs :: "nat option"
  vn_data :: "nat option"
  vn_ops :: "'o option"

definition countlock_acquire :: "(unit, 'o vnode) kmon" where
  "countlock_acquire v = (case vn_countlock v of
       None \<Rightarrow> Panic ''lock!=NULL''
     | Some held \<Rightarrow> if held then Panic ''cannot get the lock'' else Ok () (v\<lparr>vn_countlock := Some True\<rparr>))"

definition countlock_release :: "(unit, 'o vnode) kmon" where
  "countlock_release v = (case vn_countlock v of
       None \<Rightarrow> Panic ''lock!=NULL''
     | Some held \<Rightarrow> if held then Ok () (v\<lparr>vn_countlock := Some False\<rparr>) else Panic ''cannot release lock'')"

definition vnode_init :: "bool \<Rightarrow> 'o \<Rightarrow> nat option \<Rightarrow> nat option \<Rightarrow> (unit, 'o vnode) kmon" where
  "vnode_init lock_ok ops fs fsdata =
     bind (modify (\<lambda>v. v\<lparr>vn_ops := Some ops, vn_refcount := 1, vn_opencount := 0,
        vn_countlock := (if lock_ok then Some False else None)\<rparr>)) (\<lambda>_.
     if \<not> lock_ok then fail ENOMEM
     else modify (\<lambda>v. v\<lparr>vn_fs := fs, vn_data := fsdata\<rparr>))"

definition vnode_kill :: "(unit, 'o vnode) kmon" where
  "vnode_kill = bind (gets id) (\<lambda>v.
     bind (assertk (vn_refcount v = 1) ''vn->vn_refcount==1'') (\<lambda>_.
     bind (assertk (vn_opencount v = 0) ''vn->vn_opencount==0'') (\<lambda>_.
     bind (assertk (vn_countlock v \<noteq> None) ''vn->vn_countlock!=NULL'') (\<lambda>_.
     modify (\<lambda>v. v\<lparr>vn_ops := None, vn_refcount := 0, vn_opencount := 0, vn_countlock := None,
       vn_fs := None, vn_data := None\<rparr>)))))"

definition vnode_incref :: "(unit, 'o vnode) kmon" where
  "vnode_incref = bind countlock_acquire (\<lambda>_.
     bind (modify (\<lambda>v. v\<lparr>vn_refcount := s32 (vn_refcount v + 1)\<rparr>)) (\<lambda>_. countlock_release))"

text \<open>The part of \<open>vnode_decref\<close> under the lock; it says whether the vnode is to be reclaimed.\<close>

definition vnode_decref_count :: "(bool, 'o vnode) kmon" where
  "vnode_decref_count = bind countlock_acquire (\<lambda>_.
     bind (gets vn_refcount) (\<lambda>n.
     bind (assertk (n > 0) ''vn->vn_refcount>0'') (\<lambda>_.
     bind (if n > 1 then bind (modify (\<lambda>v. v\<lparr>vn_refcount := vn_refcount v - 1\<rparr>)) (\<lambda>_. ret False)
           else ret True) (\<lambda>actually_do_it.
     bind countlock_release (\<lambda>_. ret actually_do_it)))))"

definition vnode_decref :: "('s \<Rightarrow> 'o vnode option) \<Rightarrow> ('o vnode \<Rightarrow> 's \<Rightarrow> 's) \<Rightarrow> (unit, 's) kmon \<Rightarrow> (unit, 's) kmon" where
  "vnode_decref vget vput reclaim = bind (deref vget vput vnode_decref_count) (\<lambda>actually_do_it.
     if actually_do_it then bind (attempt reclaim) (\<lambda>_. ret ()) else ret ())"

definition vnode_incopen :: "(unit, 'o vnode) kmon" where
  "vnode_incopen = bind countlock_acquire (\<lambda>_.
     bind (modify (\<lambda>v. v\<lparr>vn_opencount := s32 (vn_opencount v + 1)\<rparr>)) (\<lambda>_. countlock_release))"

definition vnode_decopen_count :: "(int, 'o vnode) kmon" where
  "vnode_decopen_count = bind countlock_acquire (\<lambda>_.
     bind (gets vn_opencount) (\<lambda>n.
     bind (assertk (n > 0) ''vn->vn_opencount>0'') (\<lambda>_.
     bind (modify (\<lambda>v. v\<lparr>vn_opencount := vn_opencount v - 1\<rparr>)) (\<lambda>_.
     bind (gets vn_opencount) (\<lambda>opencount.
     bind countlock_release (\<lambda>_. ret opencount))))))"

definition vnode_decopen :: "('s \<Rightarrow> 'o vnode option) \<Rightarrow> ('o vnode \<Rightarrow> 's \<Rightarrow> 's) \<Rightarrow> (unit, 's) kmon \<Rightarrow> (unit, 's) kmon" where
  "vnode_decopen vget vput close = bind (deref vget vput vnode_decopen_count) (\<lambda>opencount.
     if opencount > 0 then ret () else bind (attempt close) (\<lambda>_. ret ()))"

text \<open>\<open>vnode_check\<close>; \<open>reclaim\<close> says that the operation is \<open>VOP_RECLAIM\<close>. It hands back the operation table.\<close>

definition vnode_check :: "bool \<Rightarrow> ('o, 'o vnode) kmon" where
  "vnode_check reclaim = bind (gets vn_ops) (\<lambda>ops. case ops of
       None \<Rightarrow> panic ''vnode_check: null ops pointer''
     | Some ops \<Rightarrow>
         bind countlock_acquire (\<lambda>_.
         bind (gets id) (\<lambda>v.
         if vn_refcount v < 0 then panic ''vnode_check: negative refcount''
         else if vn_refcount v = 0 \<and> \<not> reclaim then panic ''vnode_check: zero refcount''
         else if vn_opencount v < 0 then panic ''vnode_check: negative opencount''
         else bind countlock_release (\<lambda>_. ret ops))))"

section \<open>Counts\<close>

text \<open>A vnode in use: its lock exists and is free, and its counts make sense.\<close>

definition vnode_inv :: "'o vnode \<Rightarrow> bool" where
  "vnode_inv v \<longleftrightarrow> vn_countlock v = Some False \<and> 1 \<le> vn_refcount v \<and> vn_refcount v < 2 ^ 31 \<and>
     0 \<le> vn_opencount v \<and> vn_opencount v < 2 ^ 31 \<and> vn_ops v \<noteq> None"

lemma vnode_init_run [simp]:
  "vnode_init True ops fs d v = Ok () (v\<lparr>vn_ops := Some ops, vn_refcount := 1, vn_opencount := 0,
     vn_countlock := Some False, vn_fs := fs, vn_data := d\<rparr>)"
  by (simp add: vnode_init_def bind_def)

lemma vnode_init_nomem:
  "vnode_init False ops fs d v = Err ENOMEM (v\<lparr>vn_ops := Some ops, vn_refcount := 1, vn_opencount := 0,
     vn_countlock := None\<rparr>)"
  by (simp add: vnode_init_def bind_def)

lemma vnode_incref_run:
  assumes "vnode_inv v" "vn_refcount v + 1 < 2 ^ 31"
  shows "vnode_incref v = Ok () (v\<lparr>vn_refcount := vn_refcount v + 1\<rparr>)"
proof -
  have "s32 (vn_refcount v + 1) = vn_refcount v + 1" using assms by (intro s32_id) (auto simp: vnode_inv_def)
  then show ?thesis using assms
    by (cases v) (simp add: vnode_incref_def vnode_inv_def countlock_acquire_def countlock_release_def bind_def)
qed

lemma vnode_decref_count_run:
  assumes "vnode_inv v"
  shows "vnode_decref_count v = (if vn_refcount v > 1 then Ok False (v\<lparr>vn_refcount := vn_refcount v - 1\<rparr>)
    else Ok True v)"
  using assms by (cases v) (simp add: vnode_decref_count_def vnode_inv_def countlock_acquire_def
      countlock_release_def bind_def)

lemma vnode_incopen_run:
  assumes "vnode_inv v" "vn_opencount v + 1 < 2 ^ 31"
  shows "vnode_incopen v = Ok () (v\<lparr>vn_opencount := vn_opencount v + 1\<rparr>)"
proof -
  have "s32 (vn_opencount v + 1) = vn_opencount v + 1" using assms by (intro s32_id) (auto simp: vnode_inv_def)
  then show ?thesis using assms
    by (cases v) (simp add: vnode_incopen_def vnode_inv_def countlock_acquire_def countlock_release_def bind_def)
qed

lemma vnode_decopen_count_run:
  assumes "vnode_inv v" "vn_opencount v > 0"
  shows "vnode_decopen_count v = Ok (vn_opencount v - 1) (v\<lparr>vn_opencount := vn_opencount v - 1\<rparr>)"
  using assms by (cases v) (simp add: vnode_decopen_count_def vnode_inv_def countlock_acquire_def
      countlock_release_def bind_def)

lemma vnode_check_run:
  assumes "vnode_inv v"
  shows "vnode_check reclaim v = Ok (the (vn_ops v)) v"
  using assms by (cases v) (auto simp: vnode_check_def vnode_inv_def countlock_acquire_def
      countlock_release_def bind_def)

lemma vnode_kill_run:
  assumes "vnode_inv v" "vn_refcount v = 1" "vn_opencount v = 0"
  shows "vnode_kill v = Ok () (v\<lparr>vn_ops := None, vn_refcount := 0, vn_opencount := 0, vn_countlock := None,
    vn_fs := None, vn_data := None\<rparr>)"
  using assms by (auto simp: vnode_kill_def vnode_inv_def bind_def assertk_apply)

end
