(* ===== verification/Sfs_Format.thy ===== *)
theory Sfs_Format
  imports C_Arith
begin

text \<open>
  The on-disk structures of SFS, \<open>kern/include/kern/sfs.h\<close>: the superblock, the inode and the directory
  entry, with the bytes they occupy in memory and on disk. The kernel reads and writes them as raw
  memory, so a structure and its bytes are two views of the same thing; here they are related by an
  encoding and a decoding function.
\<close>

section \<open>Constants\<close>

definition SFS_MAGIC :: nat where "SFS_MAGIC = 0xabadf001"
definition SFS_BLOCKSIZE :: nat where "SFS_BLOCKSIZE = 512"
definition SFS_VOLNAME_SIZE :: nat where "SFS_VOLNAME_SIZE = 32"
definition SFS_NDIRECT :: nat where "SFS_NDIRECT = 15"
definition SFS_DBPERIDB :: nat where "SFS_DBPERIDB = 128"
definition SFS_NAMELEN :: nat where "SFS_NAMELEN = 60"
definition SFS_SB_LOCATION :: nat where "SFS_SB_LOCATION = 0"
definition SFS_ROOT_LOCATION :: nat where "SFS_ROOT_LOCATION = 1"
definition SFS_MAP_LOCATION :: nat where "SFS_MAP_LOCATION = 2"
definition SFS_NOINO :: nat where "SFS_NOINO = 0"
definition SFS_TYPE_INVAL :: nat where "SFS_TYPE_INVAL = 0"
definition SFS_TYPE_FILE :: nat where "SFS_TYPE_FILE = 1"
definition SFS_TYPE_DIR :: nat where "SFS_TYPE_DIR = 2"

definition SFS_BLOCKBITS :: nat where "SFS_BLOCKBITS = SFS_BLOCKSIZE * 8"

definition SFS_ROUNDUP :: "nat \<Rightarrow> nat \<Rightarrow> nat" where
  "SFS_ROUNDUP a b = u32 (int a + int b - 1) div b * b"

definition SFS_BITMAPSIZE :: "nat \<Rightarrow> nat" where
  "SFS_BITMAPSIZE nblocks = SFS_ROUNDUP nblocks SFS_BLOCKBITS"

definition SFS_BITBLOCKS :: "nat \<Rightarrow> nat" where
  "SFS_BITBLOCKS nblocks = SFS_BITMAPSIZE nblocks div SFS_BLOCKBITS"

lemmas sfs_consts = SFS_BLOCKSIZE_def SFS_NDIRECT_def SFS_DBPERIDB_def SFS_NAMELEN_def SFS_SB_LOCATION_def
  SFS_ROOT_LOCATION_def SFS_MAP_LOCATION_def SFS_NOINO_def SFS_TYPE_INVAL_def SFS_TYPE_FILE_def SFS_TYPE_DIR_def
  SFS_BLOCKBITS_def SFS_VOLNAME_SIZE_def

section \<open>Structures\<close>

record sfs_super =
  sp_magic :: nat
  sp_nblocks :: nat
  sp_volname :: "byte list"
  sp_reserved :: "nat list"

record sfs_inode =
  sfi_size :: nat
  sfi_type :: nat
  sfi_linkcount :: nat
  sfi_direct :: "nat list"
  sfi_indirect :: nat
  sfi_waste :: "nat list"

record sfs_dir =
  sfd_ino :: nat
  sfd_name :: "byte list"

text \<open>Arrays of 32-bit integers.\<close>

definition words_bytes :: "nat list \<Rightarrow> byte list" where
  "words_bytes ws = concat (map (be_bytes 4) ws)"

primrec bytes_words :: "nat \<Rightarrow> byte list \<Rightarrow> nat list" where
  "bytes_words 0 bs = []"
| "bytes_words (Suc n) bs = be (take 4 bs) # bytes_words n (drop 4 bs)"

definition super_bytes :: "sfs_super \<Rightarrow> byte list" where
  "super_bytes sp = be_bytes 4 (sp_magic sp) @ be_bytes 4 (sp_nblocks sp) @ sp_volname sp @ words_bytes (sp_reserved sp)"

definition bytes_super :: "byte list \<Rightarrow> sfs_super" where
  "bytes_super bs = \<lparr>sp_magic = be (take 4 bs), sp_nblocks = be (take 4 (drop 4 bs)),
     sp_volname = take 32 (drop 8 bs), sp_reserved = bytes_words 118 (drop 40 bs)\<rparr>"

definition inode_bytes :: "sfs_inode \<Rightarrow> byte list" where
  "inode_bytes i = be_bytes 4 (sfi_size i) @ be_bytes 2 (sfi_type i) @ be_bytes 2 (sfi_linkcount i) @
     words_bytes (sfi_direct i) @ be_bytes 4 (sfi_indirect i) @ words_bytes (sfi_waste i)"

definition bytes_inode :: "byte list \<Rightarrow> sfs_inode" where
  "bytes_inode bs = \<lparr>sfi_size = be (take 4 bs), sfi_type = be (take 2 (drop 4 bs)),
     sfi_linkcount = be (take 2 (drop 6 bs)), sfi_direct = bytes_words 15 (drop 8 bs),
     sfi_indirect = be (take 4 (drop 68 bs)), sfi_waste = bytes_words 110 (drop 72 bs)\<rparr>"

definition dir_bytes :: "sfs_dir \<Rightarrow> byte list" where
  "dir_bytes d = be_bytes 4 (sfd_ino d) @ sfd_name d"

definition bytes_dir :: "byte list \<Rightarrow> sfs_dir" where
  "bytes_dir bs = \<lparr>sfd_ino = be (take 4 bs), sfd_name = take 60 (drop 4 bs)\<rparr>"

text \<open>Values that fit their fields.\<close>

definition words_ok :: "nat list \<Rightarrow> bool" where "words_ok ws \<longleftrightarrow> (\<forall>w \<in> set ws. w < 2 ^ 32)"

definition super_ok :: "sfs_super \<Rightarrow> bool" where
  "super_ok sp \<longleftrightarrow> sp_magic sp < 2 ^ 32 \<and> sp_nblocks sp < 2 ^ 32 \<and> length (sp_volname sp) = 32 \<and>
     length (sp_reserved sp) = 118 \<and> words_ok (sp_reserved sp)"

definition inode_ok :: "sfs_inode \<Rightarrow> bool" where
  "inode_ok i \<longleftrightarrow> sfi_size i < 2 ^ 32 \<and> sfi_type i < 2 ^ 16 \<and> sfi_linkcount i < 2 ^ 16 \<and>
     length (sfi_direct i) = 15 \<and> words_ok (sfi_direct i) \<and> sfi_indirect i < 2 ^ 32 \<and>
     length (sfi_waste i) = 110 \<and> words_ok (sfi_waste i)"

definition dir_ok :: "sfs_dir \<Rightarrow> bool" where
  "dir_ok d \<longleftrightarrow> sfd_ino d < 2 ^ 32 \<and> length (sfd_name d) = 60"

text \<open>A C string in a character array.\<close>

definition cstr :: "byte list \<Rightarrow> byte list" where "cstr bs = takeWhile (\<lambda>b. b \<noteq> 0) bs"

section \<open>Round trips\<close>

lemma length_words_bytes [simp]: "length (words_bytes ws) = 4 * length ws"
  by (induction ws) (simp_all add: words_bytes_def)

lemma length_bytes_words [simp]: "length (bytes_words n bs) = n"
  by (induction n arbitrary: bs) auto

lemma words_bytes_Nil [simp]: "words_bytes [] = []"
  and words_bytes_Cons [simp]: "words_bytes (w # ws) = be_bytes 4 w @ words_bytes ws"
  by (simp_all add: words_bytes_def)

lemma words_ok_simps [simp]: "words_ok []" "words_ok (w # ws) \<longleftrightarrow> w < 2 ^ 32 \<and> words_ok ws"
  by (simp_all add: words_ok_def)

lemma bytes_words_bytes: "words_ok ws \<Longrightarrow> bytes_words (length ws) (words_bytes ws @ xs) = ws"
  by (induction ws) simp_all

lemma words_bytes_words: "4 * n \<le> length bs \<Longrightarrow> words_bytes (bytes_words n bs) = take (4 * n) bs"
proof (induction n arbitrary: bs)
  case (Suc n)
  have "take (4 * Suc n) bs = take 4 bs @ take (4 * n) (drop 4 bs)"
    using take_add[of 4 "4 * n" bs] by simp
  moreover have "be_bytes 4 (be (take 4 bs)) = take 4 bs" using Suc.prems by (intro be_bytes_be) simp
  ultimately show ?case using Suc.IH[of "drop 4 bs"] Suc.prems by simp
qed simp

lemma words_ok_bytes_words: "words_ok (bytes_words n bs)"
proof (induction n arbitrary: bs)
  case (Suc n)
  have "be (take 4 bs) < 256 ^ length (take 4 bs)" by (rule be_less)
  also have "\<dots> \<le> 256 ^ 4" by (rule power_increasing) simp_all
  finally show ?case using Suc by simp
qed simp

lemma nth_bytes_words: "i < n \<Longrightarrow> bytes_words n bs ! i = be (take 4 (drop (4 * i) bs))"
proof (induction n arbitrary: i bs)
  case (Suc n)
  then show ?case by (cases i) (simp_all add: add.commute)
qed simp

lemma be4_take: "be (take 4 bs) < 2 ^ 32" and be2_take: "be (take 2 bs) < 2 ^ 16"
proof -
  have "be (take n bs) < 256 ^ n" for n
  proof -
    have "be (take n bs) < 256 ^ length (take n bs)" by (rule be_less)
    also have "\<dots> \<le> 256 ^ n" by (rule power_increasing) simp_all
    finally show ?thesis .
  qed
  from this[of 4] this[of 2] show "be (take 4 bs) < 2 ^ 32" "be (take 2 bs) < 2 ^ 16" by simp_all
qed

lemma length_super_bytes: "super_ok sp \<Longrightarrow> length (super_bytes sp) = 512"
  and length_inode_bytes: "inode_ok i \<Longrightarrow> length (inode_bytes i) = 512"
  and length_dir_bytes: "dir_ok d \<Longrightarrow> length (dir_bytes d) = 64"
  by (simp_all add: super_bytes_def super_ok_def inode_bytes_def inode_ok_def dir_bytes_def dir_ok_def)

lemma bytes_super_bytes: "super_ok sp \<Longrightarrow> bytes_super (super_bytes sp) = sp"
  using bytes_words_bytes[of "sp_reserved sp" "[]"]
  by (cases sp) (simp add: super_ok_def super_bytes_def bytes_super_def)

lemma bytes_inode_bytes: "inode_ok i \<Longrightarrow> bytes_inode (inode_bytes i) = i"
  using bytes_words_bytes[of "sfi_direct i" "be_bytes 4 (sfi_indirect i) @ words_bytes (sfi_waste i)"]
    bytes_words_bytes[of "sfi_waste i" "[]"]
  by (cases i) (simp add: inode_ok_def inode_bytes_def bytes_inode_def)

lemma bytes_dir_bytes: "dir_ok d \<Longrightarrow> bytes_dir (dir_bytes d) = d"
  by (cases d) (simp add: dir_ok_def dir_bytes_def bytes_dir_def)

lemma super_ok_bytes: "length bs = 512 \<Longrightarrow> super_ok (bytes_super bs)"
  and inode_ok_bytes: "length bs = 512 \<Longrightarrow> inode_ok (bytes_inode bs)"
  and dir_ok_bytes: "length bs = 64 \<Longrightarrow> dir_ok (bytes_dir bs)"
  using be4_take be2_take by (simp_all add: super_ok_def bytes_super_def inode_ok_def bytes_inode_def dir_ok_def
      bytes_dir_def words_ok_bytes_words)

text \<open>Cutting a list into consecutive pieces and putting them together again.\<close>

lemma take_drop_join: "a + b = c \<Longrightarrow> take a xs @ take b (drop a xs) = take c xs"
  by (auto simp: take_add)

lemma super_bytes_bytes:
  assumes "length bs = 512"
  shows "super_bytes (bytes_super bs) = bs"
proof -
  have "super_bytes (bytes_super bs) = take 4 bs @ take 4 (drop 4 bs) @ take 32 (drop 8 bs) @ take 472 (drop 40 bs)"
    using assms words_bytes_words[of 118 "drop 40 bs"] by (simp add: super_bytes_def bytes_super_def)
  also have "\<dots> = take 4 bs @ take 4 (drop 4 bs) @ take 504 (drop 8 bs)"
    using take_drop_join[of 32 472 504 "drop 8 bs"] by simp
  also have "\<dots> = take 512 bs"
    using take_drop_join[of 4 504 508 "drop 4 bs"] take_drop_join[of 4 508 512 bs] by simp
  finally show ?thesis using assms by simp
qed

lemma inode_bytes_bytes:
  assumes "length bs = 512"
  shows "inode_bytes (bytes_inode bs) = bs"
proof -
  have "inode_bytes (bytes_inode bs) = take 4 bs @ take 2 (drop 4 bs) @ take 2 (drop 6 bs) @ take 60 (drop 8 bs) @
      take 4 (drop 68 bs) @ take 440 (drop 72 bs)"
    using assms words_bytes_words[of 15 "drop 8 bs"] words_bytes_words[of 110 "drop 72 bs"]
    by (simp add: inode_bytes_def bytes_inode_def)
  also have "\<dots> = take 4 bs @ take 2 (drop 4 bs) @ take 2 (drop 6 bs) @ take 60 (drop 8 bs) @ take 444 (drop 68 bs)"
    using take_drop_join[of 4 440 444 "drop 68 bs"] by simp
  also have "\<dots> = take 4 bs @ take 2 (drop 4 bs) @ take 2 (drop 6 bs) @ take 504 (drop 8 bs)"
    using take_drop_join[of 60 444 504 "drop 8 bs"] by simp
  also have "\<dots> = take 4 bs @ take 2 (drop 4 bs) @ take 506 (drop 6 bs)"
    using take_drop_join[of 2 504 506 "drop 6 bs"] by simp
  also have "\<dots> = take 512 bs"
    using take_drop_join[of 2 506 508 "drop 4 bs"] take_drop_join[of 4 508 512 bs] by simp
  finally show ?thesis using assms by simp
qed

lemma dir_bytes_bytes:
  assumes "length bs = 64"
  shows "dir_bytes (bytes_dir bs) = bs"
  using assms take_drop_join[of 4 60 64 bs] by (simp add: dir_bytes_def bytes_dir_def)

end
