(* ===== verification/Sfs_Model.thy ===== *)
theory Sfs_Model
  imports Kernel_Array Kernel_Bitmap Block_Device Vnode_Count Sfs_Format
begin

text \<open>
  The SFS file system: \<open>kern/fs/sfs/sfs_io.c\<close>, \<open>kern/fs/sfs/sfs_vnode.c\<close> and \<open>kern/fs/sfs/sfs_fs.c\<close>.

  The state is one mounted file system: the fields of \<open>struct sfs_fs\<close>, the device it is mounted on, and
  the heap of loaded vnodes. A vnode pointer is a number into that heap. \<open>sfs_kmem\<close> holds the outcomes
  of the coming \<open>kmalloc\<close> calls. The file system runs one operation at a time, so its static buffers
  are local to the operation that fills them.
\<close>

section \<open>State\<close>

type_synonym svp = nat

datatype sfs_ops = Sfs_fileops | Sfs_dirops

record sfs_vnode =
  sv_v :: "sfs_ops vnode"
  sv_i :: sfs_inode
  sv_ino :: nat
  sv_dirty :: bool

record sfs_fs =
  sfs_sb :: sfs_super
  sfs_superdirty :: bool
  sfs_device :: lhd_softc
  sfs_vnodes :: "svp array"
  sfs_freemap :: bitmap
  sfs_freemapdirty :: bool
  svs :: "svp \<Rightarrow> sfs_vnode option"
  sv_next :: svp
  sfs_kmem :: "nat \<Rightarrow> bool"

definition sfs_kmalloc :: "(bool, sfs_fs) kmon" where
  "sfs_kmalloc s = Ok (sfs_kmem s 0) (s\<lparr>sfs_kmem := \<lambda>n. sfs_kmem s (Suc n)\<rparr>)"

definition sv_get :: "svp \<Rightarrow> (sfs_vnode, sfs_fs) kmon" where
  "sv_get p s = (case svs s p of None \<Rightarrow> Panic ''dangling vnode pointer'' | Some sv \<Rightarrow> Ok sv s)"

definition sv_put :: "svp \<Rightarrow> (sfs_vnode \<Rightarrow> sfs_vnode) \<Rightarrow> (unit, sfs_fs) kmon" where
  "sv_put p f s = (case svs s p of None \<Rightarrow> Panic ''dangling vnode pointer''
     | Some sv \<Rightarrow> Ok () (s\<lparr>svs := (svs s)(p \<mapsto> f sv)\<rparr>))"

definition sv_inode :: "svp \<Rightarrow> (sfs_inode \<Rightarrow> sfs_inode) \<Rightarrow> (unit, sfs_fs) kmon" where
  "sv_inode p f = sv_put p (\<lambda>sv. sv\<lparr>sv_i := f (sv_i sv), sv_dirty := True\<rparr>)"

definition vnode_of :: "svp \<Rightarrow> sfs_fs \<Rightarrow> sfs_ops vnode option" where
  "vnode_of p s = map_option sv_v (svs s p)"

definition set_vnode :: "svp \<Rightarrow> sfs_ops vnode \<Rightarrow> sfs_fs \<Rightarrow> sfs_fs" where
  "set_vnode p v s = (case svs s p of None \<Rightarrow> s | Some sv \<Rightarrow> s\<lparr>svs := (svs s)(p \<mapsto> sv\<lparr>sv_v := v\<rparr>)\<rparr>)"

definition on_vnode :: "svp \<Rightarrow> ('a, sfs_ops vnode) kmon \<Rightarrow> ('a, sfs_fs) kmon" where
  "on_vnode p = deref (vnode_of p) (set_vnode p)"

definition on_freemap :: "('a, bitmap) kmon \<Rightarrow> ('a, sfs_fs) kmon" where
  "on_freemap = zoom sfs_freemap (\<lambda>b s. s\<lparr>sfs_freemap := b\<rparr>)"

definition on_vnodes :: "('a, svp array) kmon \<Rightarrow> ('a, sfs_fs) kmon" where
  "on_vnodes = zoom sfs_vnodes (\<lambda>a s. s\<lparr>sfs_vnodes := a\<rparr>)"

definition on_fs :: "('a, sfs_fs) kmon \<Rightarrow> ('a, uio \<times> sfs_fs) kmon" where
  "on_fs = zoom snd (\<lambda>s (u, _). (u, s))"

text \<open>A call with a descriptor on the caller's stack; it hands the descriptor back.\<close>

definition with_uio :: "uio \<Rightarrow> (unit, uio \<times> sfs_fs) kmon \<Rightarrow> (uio, sfs_fs) kmon" where
  "with_uio u m s = (case m (u, s) of Ok _ (u', s') \<Rightarrow> Ok u' s' | Err e (_, s') \<Rightarrow> Err e s' | Panic msg \<Rightarrow> Panic msg)"

section \<open>sfs\_io.c: blocks\<close>

definition sfs_d_io :: "(unit, uio \<times> sfs_fs) kmon" where
  "sfs_d_io = zoom (\<lambda>(u, s). (u, sfs_device s)) (\<lambda>(u, d) (_, s). (u, s\<lparr>sfs_device := d\<rparr>)) lhd_io"

text \<open>The retry loop, with the number of retries left.\<close>

primrec sfs_rwblock_tries :: "nat \<Rightarrow> (unit, uio \<times> sfs_fs) kmon" where
  "sfs_rwblock_tries 0 = bind (attempt sfs_d_io) (\<lambda>result. case result of
       Inr _ \<Rightarrow> ret ()
     | Inl e \<Rightarrow> if e = EINVAL then panic ''sfs: d_io returned EINVAL'' else fail e)"
| "sfs_rwblock_tries (Suc k) = bind (attempt sfs_d_io) (\<lambda>result. case result of
       Inr _ \<Rightarrow> ret ()
     | Inl e \<Rightarrow> if e = EINVAL then panic ''sfs: d_io returned EINVAL''
                else if e = EIO then sfs_rwblock_tries k
                else fail e)"

definition sfs_rwblock :: "(unit, uio \<times> sfs_fs) kmon" where
  "sfs_rwblock = sfs_rwblock_tries 10"

definition SFSUIO :: "byte list \<Rightarrow> nat \<Rightarrow> uio_rw \<Rightarrow> uio" where
  "SFSUIO data block rw = mk_kuio data SFS_BLOCKSIZE (s32 (s32 (int block) * int SFS_BLOCKSIZE)) rw"

text \<open>\<open>sfs_rblock\<close> fills a block-sized buffer, which it hands back.\<close>

definition sfs_rblock :: "nat \<Rightarrow> (byte list, sfs_fs) kmon" where
  "sfs_rblock block = bind (with_uio (SFSUIO (replicate SFS_BLOCKSIZE 0) block UIO_READ) sfs_rwblock)
     (\<lambda>u. ret (get_bytes (uio_mem u) 0 SFS_BLOCKSIZE))"

definition sfs_wblock :: "byte list \<Rightarrow> nat \<Rightarrow> (unit, sfs_fs) kmon" where
  "sfs_wblock data block = bind (with_uio (SFSUIO data block UIO_WRITE) sfs_rwblock) (\<lambda>_. ret ())"

section \<open>sfs\_vnode.c: simple things and space allocation\<close>

definition sfs_clearblock :: "nat \<Rightarrow> (unit, sfs_fs) kmon" where
  "sfs_clearblock block = sfs_wblock (replicate SFS_BLOCKSIZE 0) block"

definition sfs_sync_inode :: "svp \<Rightarrow> (unit, sfs_fs) kmon" where
  "sfs_sync_inode p = bind (sv_get p) (\<lambda>sv.
     if sv_dirty sv then
       bind (sfs_wblock (inode_bytes (sv_i sv)) (sv_ino sv)) (\<lambda>_. sv_put p (\<lambda>sv. sv\<lparr>sv_dirty := False\<rparr>))
     else ret ())"

definition sfs_balloc :: "(nat, sfs_fs) kmon" where
  "sfs_balloc = bind (on_freemap bitmap_alloc) (\<lambda>diskblock.
     bind (modify (\<lambda>s. s\<lparr>sfs_freemapdirty := True\<rparr>)) (\<lambda>_.
     bind (gets (\<lambda>s. sp_nblocks (sfs_sb s))) (\<lambda>nblocks.
     if diskblock \<ge> nblocks then panic ''sfs: balloc: invalid block''
     else bind (sfs_clearblock diskblock) (\<lambda>_. ret diskblock))))"

definition sfs_bfree :: "nat \<Rightarrow> (unit, sfs_fs) kmon" where
  "sfs_bfree diskblock = bind (on_freemap (bitmap_unmark diskblock)) (\<lambda>_.
     modify (\<lambda>s. s\<lparr>sfs_freemapdirty := True\<rparr>))"

definition sfs_bused :: "nat \<Rightarrow> (bool, sfs_fs) kmon" where
  "sfs_bused diskblock = bind (gets (\<lambda>s. sp_nblocks (sfs_sb s))) (\<lambda>nblocks.
     if diskblock \<ge> nblocks then panic ''sfs: sfs_bused called on out of range block''
     else on_freemap (bitmap_isset diskblock))"

section \<open>Block mapping\<close>

text \<open>The common end of both halves of \<open>sfs_bmap\<close>: hand back the block.\<close>

definition sfs_bmap_hand :: "nat \<Rightarrow> (nat, sfs_fs) kmon" where
  "sfs_bmap_hand block =
     (if block = 0 then ret 0
      else bind (sfs_bused block) (\<lambda>used. if used then ret block else panic ''sfs: Data block marked free''))"

definition sfs_bmap_direct :: "svp \<Rightarrow> nat \<Rightarrow> bool \<Rightarrow> (nat, sfs_fs) kmon" where
  "sfs_bmap_direct p fileblock doalloc =
     bind (sv_get p) (\<lambda>sv.
     let block = sfi_direct (sv_i sv) ! fileblock in
     bind (if block = 0 \<and> doalloc then
             bind sfs_balloc (\<lambda>block.
             bind (sv_inode p (\<lambda>i. i\<lparr>sfi_direct := (sfi_direct i)[fileblock := block]\<rparr>)) (\<lambda>_. ret block))
           else ret block) (\<lambda>block.
     sfs_bmap_hand block))"

text \<open>The indirect block: its number and its contents.\<close>

definition sfs_bmap_idblock :: "svp \<Rightarrow> nat \<Rightarrow> (nat \<times> nat list, sfs_fs) kmon" where
  "sfs_bmap_idblock p idblock =
     (if idblock = 0 then
        bind sfs_balloc (\<lambda>idblock.
        bind (sv_inode p (\<lambda>i. i\<lparr>sfi_indirect := idblock\<rparr>)) (\<lambda>_.
        ret (idblock, replicate SFS_DBPERIDB 0)))
      else bind (sfs_rblock idblock) (\<lambda>data. ret (idblock, bytes_words SFS_DBPERIDB data)))"

definition sfs_bmap_indirect :: "svp \<Rightarrow> nat \<Rightarrow> bool \<Rightarrow> (nat, sfs_fs) kmon" where
  "sfs_bmap_indirect p fileblock doalloc =
     (let idnum = fileblock div SFS_DBPERIDB; idoff = fileblock mod SFS_DBPERIDB in
      if idnum > 0 then fail EINVAL
      else bind (sv_get p) (\<lambda>sv.
        if sfi_indirect (sv_i sv) = 0 \<and> \<not> doalloc then ret 0
        else bind (sfs_bmap_idblock p (sfi_indirect (sv_i sv))) (\<lambda>(idblock, idbuf).
          bind (if idbuf ! idoff = 0 \<and> doalloc then
                  bind sfs_balloc (\<lambda>block.
                  bind (sfs_wblock (words_bytes (idbuf[idoff := block])) idblock) (\<lambda>_. ret block))
                else ret (idbuf ! idoff)) (\<lambda>block.
          sfs_bmap_hand block))))"

definition sfs_bmap :: "svp \<Rightarrow> nat \<Rightarrow> bool \<Rightarrow> (nat, sfs_fs) kmon" where
  "sfs_bmap p fileblock doalloc =
     (if fileblock < SFS_NDIRECT then sfs_bmap_direct p fileblock doalloc
      else sfs_bmap_indirect p (fileblock - SFS_NDIRECT) doalloc)"

section \<open>File-level I/O\<close>

text \<open>\<open>uiomove\<close> into or out of a local buffer, which is handed back.\<close>

definition move_buf :: "byte list \<Rightarrow> nat \<Rightarrow> nat \<Rightarrow> (byte list, uio \<times> sfs_fs) kmon" where
  "move_buf buf p n = (\<lambda>(u, s). case uiomove p n (buf, u) of
       Ok _ (buf', u') \<Rightarrow> Ok buf' (u', s) | Err e (_, u') \<Rightarrow> Err e (u', s) | Panic msg \<Rightarrow> Panic msg)"

definition sfs_partialio :: "svp \<Rightarrow> nat \<Rightarrow> nat \<Rightarrow> (unit, uio \<times> sfs_fs) kmon" where
  "sfs_partialio p skipstart len =
     bind (gets fst) (\<lambda>u.
     bind (assertk (u32 (int skipstart + int len) \<le> SFS_BLOCKSIZE) ''skipstart + len <= SFS_BLOCKSIZE'') (\<lambda>_.
     let doalloc = (uio_rw u = UIO_WRITE); fileblock = u32 (cdiv (uio_offset u) (int SFS_BLOCKSIZE)) in
     bind (on_fs (sfs_bmap p fileblock doalloc)) (\<lambda>diskblock.
     bind (if diskblock = 0 then
             bind (assertk (uio_rw u = UIO_READ) ''uio->uio_rw == UIO_READ'') (\<lambda>_. ret (replicate SFS_BLOCKSIZE 0))
           else on_fs (sfs_rblock diskblock)) (\<lambda>iobuf.
     bind (move_buf iobuf skipstart len) (\<lambda>iobuf.
     if uio_rw u = UIO_WRITE then on_fs (sfs_wblock iobuf diskblock) else ret ())))))"

definition sfs_blockio :: "svp \<Rightarrow> (unit, uio \<times> sfs_fs) kmon" where
  "sfs_blockio p =
     bind (gets fst) (\<lambda>u.
     let doalloc = (uio_rw u = UIO_WRITE); fileblock = u32 (cdiv (uio_offset u) (int SFS_BLOCKSIZE)) in
     bind (on_fs (sfs_bmap p fileblock doalloc)) (\<lambda>diskblock.
     if diskblock = 0 then
       bind (assertk (uio_rw u = UIO_READ) ''uio->uio_rw == UIO_READ'') (\<lambda>_.
       zoom fst (\<lambda>u (_, s). (u, s)) (uiomovezeros SFS_BLOCKSIZE))
     else
       let saveoff = uio_offset u; diskoff = s32 (int (u32 (int diskblock * int SFS_BLOCKSIZE)));
           saveres = s32 (int (uio_resid u)); diskres = int SFS_BLOCKSIZE in
       bind (modify (\<lambda>(u, s). (u\<lparr>uio_offset := diskoff\<rparr>, s))) (\<lambda>_.
       bind (assertk (uio_resid u \<ge> SFS_BLOCKSIZE) ''uio->uio_resid >= SFS_BLOCKSIZE'') (\<lambda>_.
       bind (modify (\<lambda>(u, s). (u\<lparr>uio_resid := SFS_BLOCKSIZE\<rparr>, s))) (\<lambda>_.
       bind (attempt sfs_rwblock) (\<lambda>result.
       bind (modify (\<lambda>(u, s). (u\<lparr>uio_offset := s32 (uio_offset u - diskoff + saveoff),
               uio_resid := u32 (int (uio_resid u) - diskres + saveres)\<rparr>, s))) (\<lambda>_.
       case result of Inl e \<Rightarrow> fail e | Inr _ \<Rightarrow> ret ())))))))"

text \<open>\<open>sfs_io\<close> between the check for end of file and the label \<open>out\<close>.\<close>

definition sfs_io_blocks :: "svp \<Rightarrow> (unit, uio \<times> sfs_fs) kmon" where
  "sfs_io_blocks p =
     bind (gets fst) (\<lambda>u.
     let blkoff = u32 (crem (uio_offset u) (int SFS_BLOCKSIZE)) in
     bind (if blkoff \<noteq> 0 then sfs_partialio p blkoff (min (u32 (int SFS_BLOCKSIZE - int blkoff)) (uio_resid u))
           else ret ()) (\<lambda>_.
     bind (gets fst) (\<lambda>u.
     if uio_resid u = 0 then ret ()
     else
       bind (assertk (crem (uio_offset u) (int SFS_BLOCKSIZE) = 0) ''uio->uio_offset % SFS_BLOCKSIZE == 0'') (\<lambda>_.
       bind (foreach [0..<uio_resid u div SFS_BLOCKSIZE] (\<lambda>_. sfs_blockio p)) (\<lambda>_.
       bind (gets fst) (\<lambda>u.
       bind (assertk (uio_resid u < SFS_BLOCKSIZE) ''uio->uio_resid < SFS_BLOCKSIZE'') (\<lambda>_.
       if uio_resid u > 0 then sfs_partialio p 0 (uio_resid u) else ret ())))))))"

text \<open>\<open>sfs_io\<close> from there on, with the part after the label \<open>out\<close>.\<close>

definition sfs_io_run :: "svp \<Rightarrow> nat \<Rightarrow> (unit, uio \<times> sfs_fs) kmon" where
  "sfs_io_run p extraresid =
     bind (attempt (sfs_io_blocks p)) (\<lambda>result.
     bind (gets fst) (\<lambda>u.
     bind (on_fs (sv_get p)) (\<lambda>sv.
     bind (if uio_rw u = UIO_WRITE \<and> uio_offset u > s32 (int (sfi_size (sv_i sv)))
           then on_fs (sv_inode p (\<lambda>i. i\<lparr>sfi_size := u32 (uio_offset u)\<rparr>)) else ret ()) (\<lambda>_.
     bind (modify (\<lambda>(u, s). (u\<lparr>uio_resid := u32 (int (uio_resid u) + int extraresid)\<rparr>, s))) (\<lambda>_.
     case result of Inl e \<Rightarrow> fail e | Inr _ \<Rightarrow> ret ())))))"

definition sfs_io :: "svp \<Rightarrow> (unit, uio \<times> sfs_fs) kmon" where
  "sfs_io p =
     bind (gets fst) (\<lambda>u.
     bind (on_fs (sv_get p)) (\<lambda>sv.
     if uio_rw u = UIO_READ then
       (let size = s32 (int (sfi_size (sv_i sv))); endpos = s32 (uio_offset u + int (uio_resid u)) in
        if uio_offset u \<ge> size then ret ()
        else if endpos > size then
          (let extraresid = u32 (endpos - size) in
           bind (assertk (uio_resid u > extraresid) ''uio->uio_resid > extraresid'') (\<lambda>_.
           bind (modify (\<lambda>(u, s). (u\<lparr>uio_resid := uio_resid u - extraresid\<rparr>, s))) (\<lambda>_.
           sfs_io_run p extraresid)))
        else sfs_io_run p 0)
     else sfs_io_run p 0))"

section \<open>Directories\<close>

definition SFS_DIRSIZE :: nat where "SFS_DIRSIZE = 64"

definition sfs_readdir :: "svp \<Rightarrow> int \<Rightarrow> (sfs_dir, sfs_fs) kmon" where
  "sfs_readdir p slot =
     bind (with_uio (mk_kuio (replicate SFS_DIRSIZE 0) SFS_DIRSIZE (s32 (slot * int SFS_DIRSIZE)) UIO_READ) (sfs_io p)) (\<lambda>u.
     if uio_resid u > 0 then panic ''sfs: readdir: Short entry''
     else ret (bytes_dir (get_bytes (uio_mem u) 0 SFS_DIRSIZE)))"

definition sfs_writedir :: "svp \<Rightarrow> sfs_dir \<Rightarrow> int \<Rightarrow> (unit, sfs_fs) kmon" where
  "sfs_writedir p sd slot =
     bind (assertk (slot \<ge> 0) ''slot>=0'') (\<lambda>_.
     bind (with_uio (mk_kuio (dir_bytes sd) SFS_DIRSIZE (s32 (slot * int SFS_DIRSIZE)) UIO_WRITE) (sfs_io p)) (\<lambda>u.
     if uio_resid u > 0 then panic ''sfs: writedir: Short write'' else ret ()))"

definition sfs_dir_nentries :: "svp \<Rightarrow> (int, sfs_fs) kmon" where
  "sfs_dir_nentries p = bind (sv_get p) (\<lambda>sv.
     bind (assertk (sfi_type (sv_i sv) = SFS_TYPE_DIR) ''sv->sv_i.sfi_type == SFS_TYPE_DIR'') (\<lambda>_.
     if sfi_size (sv_i sv) mod SFS_DIRSIZE \<noteq> 0 then panic ''sfs: directory: Invalid size''
     else ret (int (sfi_size (sv_i sv) div SFS_DIRSIZE))))"

text \<open>
  The loop of \<open>sfs_dir_findname\<close>, over the slots still to come. It hands back the inode number and slot
  of the name, if it has been found (the return code \<open>ENOENT\<close> is \<open>None\<close>), and the last empty slot seen.
\<close>

primrec sfs_dir_findname_loop :: "svp \<Rightarrow> byte list \<Rightarrow> nat list \<Rightarrow> (nat \<times> int) option \<Rightarrow> int option \<Rightarrow>
    ((nat \<times> int) option \<times> int option, sfs_fs) kmon" where
  "sfs_dir_findname_loop p name [] found emptyslot = ret (found, emptyslot)"
| "sfs_dir_findname_loop p name (i # is) found emptyslot =
     bind (sfs_readdir p (int i)) (\<lambda>tsd.
     if sfd_ino tsd = SFS_NOINO then sfs_dir_findname_loop p name is found (Some (int i))
     else if cstr ((sfd_name tsd)[SFS_NAMELEN - 1 := 0]) = name then
       bind (assertk (found = None) ''found==0'') (\<lambda>_.
       sfs_dir_findname_loop p name is (Some (sfd_ino tsd, int i)) emptyslot)
     else sfs_dir_findname_loop p name is found emptyslot)"

definition sfs_dir_findname :: "svp \<Rightarrow> byte list \<Rightarrow> ((nat \<times> int) option \<times> int option, sfs_fs) kmon" where
  "sfs_dir_findname p name = bind (sfs_dir_nentries p) (\<lambda>nentries.
     sfs_dir_findname_loop p name [0..<nat nentries] None None)"

definition sfs_dir_link :: "svp \<Rightarrow> byte list \<Rightarrow> nat \<Rightarrow> (int, sfs_fs) kmon" where
  "sfs_dir_link p name ino = bind (sfs_dir_findname p name) (\<lambda>(found, emptyslot).
     if found \<noteq> None then fail EEXIST
     else if length name + 1 > SFS_NAMELEN then fail ENAMETOOLONG
     else
       bind (case emptyslot of None \<Rightarrow> sfs_dir_nentries p | Some i \<Rightarrow> ret i) (\<lambda>emptyslot.
       bind (sfs_writedir p \<lparr>sfd_ino = ino, sfd_name = name @ replicate (SFS_NAMELEN - length name) 0\<rparr> emptyslot) (\<lambda>_.
       ret emptyslot)))"

definition sfs_dir_unlink :: "svp \<Rightarrow> int \<Rightarrow> (unit, sfs_fs) kmon" where
  "sfs_dir_unlink p slot =
     sfs_writedir p \<lparr>sfd_ino = SFS_NOINO, sfd_name = replicate SFS_NAMELEN 0\<rparr> slot"

end
