(* ===== verification/Sfs_Ops.thy ===== *)
theory Sfs_Ops
  imports Sfs_Model
begin

text \<open>
  The rest of \<open>kern/fs/sfs\<close>: truncation, the table of loaded vnodes, the vnode operations and their two
  tables, and the operations on the file system as a whole (sync, unmount, mount).
\<close>

section \<open>Truncation\<close>

definition DIVROUNDUP :: "int \<Rightarrow> int \<Rightarrow> int" where
  "DIVROUNDUP a b = cdiv (s32 (a + b - 1)) b"

text \<open>The loop over the indirect block, with \<open>hasnonzero\<close> and \<open>iddirty\<close>.\<close>

primrec sfs_truncate_idloop :: "nat \<Rightarrow> nat list \<Rightarrow> nat list \<Rightarrow> bool \<Rightarrow> bool \<Rightarrow> (nat list \<times> bool \<times> bool, sfs_fs) kmon" where
  "sfs_truncate_idloop blocklen [] idbuf hasnonzero iddirty = ret (idbuf, hasnonzero, iddirty)"
| "sfs_truncate_idloop blocklen (j # js) idbuf hasnonzero iddirty =
     (if blocklen < SFS_NDIRECT + j \<and> idbuf ! j \<noteq> 0 then
        bind (sfs_bfree (idbuf ! j)) (\<lambda>_.
        sfs_truncate_idloop blocklen js (idbuf[j := 0]) hasnonzero True)
      else sfs_truncate_idloop blocklen js idbuf (hasnonzero \<or> idbuf ! j \<noteq> 0) iddirty)"

definition sfs_truncate_direct :: "svp \<Rightarrow> nat \<Rightarrow> (unit, sfs_fs) kmon" where
  "sfs_truncate_direct p blocklen = foreach [0..<SFS_NDIRECT] (\<lambda>i.
     bind (sv_get p) (\<lambda>sv.
     let block = sfi_direct (sv_i sv) ! i in
     if i \<ge> blocklen \<and> block \<noteq> 0 then
       bind (sfs_bfree block) (\<lambda>_. sv_inode p (\<lambda>n. n\<lparr>sfi_direct := (sfi_direct n)[i := 0]\<rparr>))
     else ret ()))"

definition sfs_truncate_indirect :: "svp \<Rightarrow> nat \<Rightarrow> (unit, sfs_fs) kmon" where
  "sfs_truncate_indirect p blocklen = bind (sv_get p) (\<lambda>sv.
     let idblock = sfi_indirect (sv_i sv); highblock = SFS_NDIRECT + SFS_DBPERIDB - 1 in
     if blocklen < highblock \<and> idblock \<noteq> 0 then
       bind (sfs_rblock idblock) (\<lambda>data.
       bind (sfs_truncate_idloop blocklen [0..<SFS_DBPERIDB] (bytes_words SFS_DBPERIDB data) False False)
         (\<lambda>(idbuf, hasnonzero, iddirty).
       if \<not> hasnonzero then
         bind (sfs_bfree idblock) (\<lambda>_. sv_inode p (\<lambda>n. n\<lparr>sfi_indirect := 0\<rparr>))
       else if iddirty then sfs_wblock (words_bytes idbuf) idblock
       else ret ()))
     else ret ())"

definition sfs_truncate :: "svp \<Rightarrow> int \<Rightarrow> (unit, sfs_fs) kmon" where
  "sfs_truncate p len =
     (let blocklen = u32 (DIVROUNDUP len (int SFS_BLOCKSIZE)) in
      bind (sfs_truncate_direct p blocklen) (\<lambda>_.
      bind (sfs_truncate_indirect p blocklen) (\<lambda>_.
      sv_inode p (\<lambda>n. n\<lparr>sfi_size := u32 len\<rparr>))))"

section \<open>Operation tables\<close>

text \<open>The entries of a table of vnode operations, and what SFS puts into them.\<close>

datatype vop = Vop_open | Vop_close | Vop_reclaim | Vop_read | Vop_readlink | Vop_getdirentry | Vop_write
  | Vop_ioctl | Vop_stat | Vop_gettype | Vop_tryseek | Vop_fsync | Vop_mmap | Vop_truncate | Vop_namefile
  | Vop_creat | Vop_symlink | Vop_mkdir | Vop_link | Vop_remove | Vop_rmdir | Vop_rename | Vop_lookup
  | Vop_lookparent

datatype handler = H_sfs_open | H_sfs_opendir | H_sfs_close | H_sfs_reclaim | H_sfs_read | H_sfs_write
  | H_sfs_ioctl | H_sfs_stat | H_sfs_gettype | H_sfs_tryseek | H_sfs_fsync | H_sfs_mmap | H_sfs_truncate
  | H_sfs_namefile | H_sfs_creat | H_sfs_link | H_sfs_remove | H_sfs_rename | H_sfs_lookup | H_sfs_lookparent
  | NOTDIR | ISDIR | UNIMP

fun sfs_fileops :: "vop \<Rightarrow> handler" where
  "sfs_fileops Vop_open = H_sfs_open"
| "sfs_fileops Vop_close = H_sfs_close"
| "sfs_fileops Vop_reclaim = H_sfs_reclaim"
| "sfs_fileops Vop_read = H_sfs_read"
| "sfs_fileops Vop_readlink = NOTDIR"
| "sfs_fileops Vop_getdirentry = NOTDIR"
| "sfs_fileops Vop_write = H_sfs_write"
| "sfs_fileops Vop_ioctl = H_sfs_ioctl"
| "sfs_fileops Vop_stat = H_sfs_stat"
| "sfs_fileops Vop_gettype = H_sfs_gettype"
| "sfs_fileops Vop_tryseek = H_sfs_tryseek"
| "sfs_fileops Vop_fsync = H_sfs_fsync"
| "sfs_fileops Vop_mmap = H_sfs_mmap"
| "sfs_fileops Vop_truncate = H_sfs_truncate"
| "sfs_fileops _ = NOTDIR"

fun sfs_dirops :: "vop \<Rightarrow> handler" where
  "sfs_dirops Vop_open = H_sfs_opendir"
| "sfs_dirops Vop_close = H_sfs_close"
| "sfs_dirops Vop_reclaim = H_sfs_reclaim"
| "sfs_dirops Vop_read = ISDIR"
| "sfs_dirops Vop_readlink = ISDIR"
| "sfs_dirops Vop_getdirentry = UNIMP"
| "sfs_dirops Vop_write = ISDIR"
| "sfs_dirops Vop_ioctl = H_sfs_ioctl"
| "sfs_dirops Vop_stat = H_sfs_stat"
| "sfs_dirops Vop_gettype = H_sfs_gettype"
| "sfs_dirops Vop_tryseek = UNIMP"
| "sfs_dirops Vop_fsync = H_sfs_fsync"
| "sfs_dirops Vop_mmap = ISDIR"
| "sfs_dirops Vop_truncate = ISDIR"
| "sfs_dirops Vop_namefile = H_sfs_namefile"
| "sfs_dirops Vop_creat = H_sfs_creat"
| "sfs_dirops Vop_symlink = UNIMP"
| "sfs_dirops Vop_mkdir = UNIMP"
| "sfs_dirops Vop_link = H_sfs_link"
| "sfs_dirops Vop_remove = H_sfs_remove"
| "sfs_dirops Vop_rmdir = UNIMP"
| "sfs_dirops Vop_rename = H_sfs_rename"
| "sfs_dirops Vop_lookup = H_sfs_lookup"
| "sfs_dirops Vop_lookparent = H_sfs_lookparent"

text \<open>
  \<open>__VOP(vn, sym)\<close>: check the vnode and take the entry from its table. An entry that is one of the
  three error functions returns its code.
\<close>

definition VOP :: "vop \<Rightarrow> svp \<Rightarrow> (handler, sfs_fs) kmon" where
  "VOP entry p = bind (on_vnode p (vnode_check (entry = Vop_reclaim))) (\<lambda>ops.
     ret (case ops of Sfs_fileops \<Rightarrow> sfs_fileops entry | Sfs_dirops \<Rightarrow> sfs_dirops entry))"

definition sfs_notdir :: "('a, 's) kmon" where "sfs_notdir = fail ENOTDIR"

definition sfs_isdir :: "('a, 's) kmon" where "sfs_isdir = fail EISDIR"

definition sfs_unimp :: "('a, 's) kmon" where "sfs_unimp = fail EUNIMP"

definition handle :: "handler \<Rightarrow> ('a, 's) kmon \<Rightarrow> handler \<Rightarrow> ('a, 's) kmon" where
  "handle expected m h = (if h = expected then m
     else if h = NOTDIR then sfs_notdir
     else if h = ISDIR then sfs_isdir
     else if h = UNIMP then sfs_unimp
     else panic ''wrong entry in a vnode operation table'')"

section \<open>Reference counts and reclaiming\<close>

definition VOP_TRUNCATE :: "svp \<Rightarrow> int \<Rightarrow> (unit, sfs_fs) kmon" where
  "VOP_TRUNCATE p len = bind (VOP Vop_truncate p) (handle H_sfs_truncate (sfs_truncate p len))"

definition sfs_fsync :: "svp \<Rightarrow> (unit, sfs_fs) kmon" where
  "sfs_fsync p = sfs_sync_inode p"

definition VOP_FSYNC :: "svp \<Rightarrow> (unit, sfs_fs) kmon" where
  "VOP_FSYNC p = bind (VOP Vop_fsync p) (handle H_sfs_fsync (sfs_fsync p))"

text \<open>The check at the start of \<open>sfs_reclaim\<close>; it says whether someone else has picked the vnode up.\<close>

definition sfs_reclaim_busy :: "(bool, sfs_ops vnode) kmon" where
  "sfs_reclaim_busy = bind countlock_acquire (\<lambda>_.
     bind (gets vn_refcount) (\<lambda>n.
     if n \<noteq> 1 then
       bind (assertk (n > 1) ''v->vn_refcount>1'') (\<lambda>_.
       bind (modify (\<lambda>v. v\<lparr>vn_refcount := vn_refcount v - 1\<rparr>)) (\<lambda>_.
       bind countlock_release (\<lambda>_. ret True)))
     else bind countlock_release (\<lambda>_. ret False)))"

text \<open>Taking the vnode out of the table.\<close>

definition sfs_reclaim_unlist :: "svp \<Rightarrow> (unit, sfs_fs) kmon" where
  "sfs_reclaim_unlist p =
     bind (on_vnodes (gets array_getnum)) (\<lambda>num.
     bind (first_some [0..<nat num] (\<lambda>i. bind (on_vnodes (array_getguy (int i))) (\<lambda>sv2.
             ret (if sv2 = p then Some (int i) else None)))) (\<lambda>ix.
     case ix of
       None \<Rightarrow> panic ''sfs: reclaim vnode not in vnode pool''
     | Some ix \<Rightarrow> on_vnodes (array_remove ix)))"

definition sfs_reclaim :: "svp \<Rightarrow> (unit, sfs_fs) kmon" where
  "sfs_reclaim p =
     bind (on_vnode p sfs_reclaim_busy) (\<lambda>busy.
     if busy then fail EBUSY
     else
       bind (sv_get p) (\<lambda>sv.
       bind (if sfi_linkcount (sv_i sv) = 0 then VOP_TRUNCATE p 0 else ret ()) (\<lambda>_.
       bind (sfs_sync_inode p) (\<lambda>_.
       bind (sv_get p) (\<lambda>sv.
       bind (if sfi_linkcount (sv_i sv) = 0 then sfs_bfree (sv_ino sv) else ret ()) (\<lambda>_.
       bind (sfs_reclaim_unlist p) (\<lambda>_.
       bind (on_vnode p vnode_kill) (\<lambda>_.
       modify (\<lambda>s. s\<lparr>svs := (svs s)(p := None)\<rparr>)))))))))"

definition VOP_RECLAIM :: "svp \<Rightarrow> (unit, sfs_fs) kmon" where
  "VOP_RECLAIM p = bind (VOP Vop_reclaim p) (handle H_sfs_reclaim (sfs_reclaim p))"

definition VOP_INCREF :: "svp \<Rightarrow> (unit, sfs_fs) kmon" where
  "VOP_INCREF p = on_vnode p vnode_incref"

definition VOP_DECREF :: "svp \<Rightarrow> (unit, sfs_fs) kmon" where
  "VOP_DECREF p = vnode_decref (vnode_of p) (set_vnode p) (VOP_RECLAIM p)"

section \<open>Loading vnodes\<close>

text \<open>The linear search of \<open>sfs_loadvnode\<close>.\<close>

definition sfs_loadvnode_search :: "nat \<Rightarrow> (svp option, sfs_fs) kmon" where
  "sfs_loadvnode_search ino =
     bind (on_vnodes (gets array_getnum)) (\<lambda>num.
     first_some [0..<nat num] (\<lambda>i.
       bind (on_vnodes (array_getguy (int i))) (\<lambda>p.
       bind (sv_get p) (\<lambda>sv.
       bind (sfs_bused (sv_ino sv)) (\<lambda>used.
       if \<not> used then panic ''sfs: Found inode in unallocated block''
       else ret (if sv_ino sv = ino then Some p else None))))))"

text \<open>The part of \<open>sfs_loadvnode\<close> that reads an inode that is not loaded and makes a vnode for it.\<close>

definition sfs_loadvnode_new :: "nat \<Rightarrow> nat \<Rightarrow> (svp, sfs_fs) kmon" where
  "sfs_loadvnode_new ino forcetype =
     bind sfs_kmalloc (\<lambda>ok. if \<not> ok then fail ENOMEM else
     bind (sfs_bused ino) (\<lambda>used. if \<not> used then panic ''sfs: Tried to load inode from unallocated block'' else
     bind (sfs_rblock ino) (\<lambda>data.
     let inode = bytes_inode data in
     bind (assertk (forcetype = SFS_TYPE_INVAL \<or> sfi_type inode = SFS_TYPE_INVAL)
            ''sv->sv_i.sfi_type == SFS_TYPE_INVAL'') (\<lambda>_.
     let dirty = (forcetype \<noteq> SFS_TYPE_INVAL);
         inode = (if dirty then inode\<lparr>sfi_type := forcetype\<rparr> else inode) in
     bind (if sfi_type inode = SFS_TYPE_FILE then ret Sfs_fileops
           else if sfi_type inode = SFS_TYPE_DIR then ret Sfs_dirops
           else panic ''sfs: loadvnode: Invalid inode type'') (\<lambda>ops.
     bind sfs_kmalloc (\<lambda>lock_ok.
     bind (if lock_ok then sfs_kmalloc else ret False) (\<lambda>lock_ok.
     bind (gets sv_next) (\<lambda>p.
     let blank = \<lparr>vn_refcount = 0, vn_opencount = 0, vn_countlock = None, vn_fs = None, vn_data = None, vn_ops = None\<rparr> in
     case vnode_init lock_ok ops (Some 0) (Some p) blank of
       Ok _ v \<Rightarrow>
         bind (modify (\<lambda>s. s\<lparr>svs := (svs s)(p \<mapsto> \<lparr>sv_v = v, sv_i = inode, sv_ino = ino, sv_dirty = dirty\<rparr>),
                 sv_next := p + 1\<rparr>)) (\<lambda>_.
         bind sfs_kmalloc (\<lambda>ok.
         bind (attempt (on_vnodes (array_add ok p))) (\<lambda>result. case result of
           Inr _ \<Rightarrow> ret p
         | Inl e \<Rightarrow>
             bind (on_vnode p vnode_kill) (\<lambda>_.
             bind (modify (\<lambda>s. s\<lparr>svs := (svs s)(p := None)\<rparr>)) (\<lambda>_. fail e)))))
     | Err e v \<Rightarrow> fail e
     | Panic msg \<Rightarrow> panic msg))))))))"

definition sfs_loadvnode :: "nat \<Rightarrow> nat \<Rightarrow> (svp, sfs_fs) kmon" where
  "sfs_loadvnode ino forcetype =
     bind (sfs_loadvnode_search ino) (\<lambda>r. case r of
       Some p \<Rightarrow>
         bind (assertk (forcetype = SFS_TYPE_INVAL) ''forcetype==SFS_TYPE_INVAL'') (\<lambda>_.
         bind (VOP_INCREF p) (\<lambda>_. ret p))
     | None \<Rightarrow> sfs_loadvnode_new ino forcetype)"

definition sfs_getroot :: "(svp, sfs_fs) kmon" where
  "sfs_getroot = bind (attempt (sfs_loadvnode SFS_ROOT_LOCATION SFS_TYPE_INVAL)) (\<lambda>result. case result of
       Inl e \<Rightarrow> panic ''sfs: getroot: Cannot load root vnode''
     | Inr p \<Rightarrow> ret p)"

definition sfs_lookonce :: "svp \<Rightarrow> byte list \<Rightarrow> (svp \<times> int, sfs_fs) kmon" where
  "sfs_lookonce p name = bind (sfs_dir_findname p name) (\<lambda>(found, _). case found of
       None \<Rightarrow> fail ENOENT
     | Some (ino, slot) \<Rightarrow>
         bind (sfs_loadvnode ino SFS_TYPE_INVAL) (\<lambda>q.
         bind (sv_get q) (\<lambda>sv.
         if sfi_linkcount (sv_i sv) = 0 then panic ''sfs: Link count of file found in dir is 0''
         else ret (q, slot))))"

definition sfs_makeobj :: "nat \<Rightarrow> (svp, sfs_fs) kmon" where
  "sfs_makeobj type = bind sfs_balloc (\<lambda>ino. sfs_loadvnode ino type)"

section \<open>Vnode operations\<close>

unbundle bit_operations_syntax

definition O_ACCMODE :: nat where "O_ACCMODE = 3"
definition O_RDONLY :: nat where "O_RDONLY = 0"
definition O_APPEND :: nat where "O_APPEND = 32"

definition sfs_open :: "svp \<Rightarrow> nat \<Rightarrow> (unit, sfs_fs) kmon" where
  "sfs_open p openflags = (if openflags AND O_APPEND \<noteq> 0 then fail EUNIMP else ret ())"

definition sfs_opendir :: "svp \<Rightarrow> nat \<Rightarrow> (unit, sfs_fs) kmon" where
  "sfs_opendir p openflags =
     (if openflags AND O_ACCMODE \<noteq> O_RDONLY then fail EISDIR
      else if openflags AND O_APPEND \<noteq> 0 then fail EISDIR
      else ret ())"

definition sfs_close :: "svp \<Rightarrow> (unit, sfs_fs) kmon" where
  "sfs_close p = VOP_FSYNC p"

definition sfs_read :: "svp \<Rightarrow> (unit, uio \<times> sfs_fs) kmon" where
  "sfs_read p = bind (gets fst) (\<lambda>u.
     bind (assertk (uio_rw u = UIO_READ) ''uio->uio_rw==UIO_READ'') (\<lambda>_. sfs_io p))"

definition sfs_write :: "svp \<Rightarrow> (unit, uio \<times> sfs_fs) kmon" where
  "sfs_write p = bind (gets fst) (\<lambda>u.
     bind (assertk (uio_rw u = UIO_WRITE) ''uio->uio_rw==UIO_WRITE'') (\<lambda>_. sfs_io p))"

definition sfs_ioctl :: "svp \<Rightarrow> int \<Rightarrow> (unit, sfs_fs) kmon" where
  "sfs_ioctl p code = fail EINVAL"

definition S_IFREG :: nat where "S_IFREG = 4096"
definition S_IFDIR :: nat where "S_IFDIR = 8192"

record stat =
  st_mode :: nat
  st_nlink :: nat
  st_size :: int
  st_blocks :: nat

definition sfs_gettype :: "svp \<Rightarrow> (nat, sfs_fs) kmon" where
  "sfs_gettype p = bind (sv_get p) (\<lambda>sv.
     if sfi_type (sv_i sv) = SFS_TYPE_FILE then ret S_IFREG
     else if sfi_type (sv_i sv) = SFS_TYPE_DIR then ret S_IFDIR
     else panic ''sfs: gettype: Invalid inode type'')"

definition VOP_GETTYPE :: "svp \<Rightarrow> (nat, sfs_fs) kmon" where
  "VOP_GETTYPE p = bind (VOP Vop_gettype p) (handle H_sfs_gettype (sfs_gettype p))"

definition sfs_stat :: "svp \<Rightarrow> (stat, sfs_fs) kmon" where
  "sfs_stat p = bind (VOP_GETTYPE p) (\<lambda>mode. bind (sv_get p) (\<lambda>sv.
     ret \<lparr>st_mode = mode, st_nlink = 0, st_size = s32 (int (sfi_size (sv_i sv))), st_blocks = 0\<rparr>))"

definition sfs_tryseek :: "svp \<Rightarrow> int \<Rightarrow> (unit, sfs_fs) kmon" where
  "sfs_tryseek p pos = (if pos < 0 then fail EINVAL else ret ())"

definition sfs_mmap :: "svp \<Rightarrow> (unit, sfs_fs) kmon" where
  "sfs_mmap p = fail EUNIMP"

definition sfs_namefile :: "svp \<Rightarrow> (unit, sfs_fs) kmon" where
  "sfs_namefile p = bind (sv_get p) (\<lambda>sv.
     assertk (sv_ino sv = SFS_ROOT_LOCATION) ''sv->sv_ino == SFS_ROOT_LOCATION'')"

definition sfs_incr_link :: "svp \<Rightarrow> (unit, sfs_fs) kmon" where
  "sfs_incr_link p = sv_inode p (\<lambda>i. i\<lparr>sfi_linkcount := u16 (int (sfi_linkcount i) + 1)\<rparr>)"

definition sfs_decr_link :: "svp \<Rightarrow> (unit, sfs_fs) kmon" where
  "sfs_decr_link p = sv_inode p (\<lambda>i. i\<lparr>sfi_linkcount := u16 (int (sfi_linkcount i) - 1)\<rparr>)"

definition sfs_creat :: "svp \<Rightarrow> byte list \<Rightarrow> bool \<Rightarrow> (svp, sfs_fs) kmon" where
  "sfs_creat p name excl = bind (sfs_dir_findname p name) (\<lambda>(found, _). case found of
       Some (ino, _) \<Rightarrow> if excl then fail EEXIST else sfs_loadvnode ino SFS_TYPE_INVAL
     | None \<Rightarrow>
         bind (sfs_makeobj SFS_TYPE_FILE) (\<lambda>newguy.
         bind (sv_get newguy) (\<lambda>sv.
         bind (attempt (sfs_dir_link p name (sv_ino sv))) (\<lambda>result. case result of
           Inl e \<Rightarrow> bind (VOP_DECREF newguy) (\<lambda>_. fail e)
         | Inr _ \<Rightarrow> bind (sfs_incr_link newguy) (\<lambda>_. ret newguy)))))"

definition sfs_link :: "svp \<Rightarrow> byte list \<Rightarrow> svp \<Rightarrow> (unit, sfs_fs) kmon" where
  "sfs_link p name file = bind (sv_get file) (\<lambda>f.
     bind (sfs_dir_link p name (sv_ino f)) (\<lambda>_. sfs_incr_link file))"

definition sfs_remove :: "svp \<Rightarrow> byte list \<Rightarrow> (unit, sfs_fs) kmon" where
  "sfs_remove p name = bind (sfs_lookonce p name) (\<lambda>(victim, slot).
     bind (attempt (sfs_dir_unlink p slot)) (\<lambda>result.
     bind (case result of
             Inr _ \<Rightarrow> bind (sv_get victim) (\<lambda>sv.
               bind (assertk (sfi_linkcount (sv_i sv) > 0) ''victim->sv_i.sfi_linkcount > 0'') (\<lambda>_.
               sfs_decr_link victim))
           | Inl e \<Rightarrow> ret ()) (\<lambda>_.
     bind (VOP_DECREF victim) (\<lambda>_.
     case result of Inl e \<Rightarrow> fail e | Inr _ \<Rightarrow> ret ()))))"

text \<open>The recovery of \<open>sfs_rename\<close> at the labels \<open>puke_harder\<close> and \<open>puke\<close>.\<close>

definition sfs_rename_puke_harder :: "svp \<Rightarrow> svp \<Rightarrow> int \<Rightarrow> errno \<Rightarrow> (unit, sfs_fs) kmon" where
  "sfs_rename_puke_harder p g1 slot2 result =
     bind (attempt (sfs_dir_unlink p slot2)) (\<lambda>result2. case result2 of
       Inl _ \<Rightarrow> panic ''sfs: rename: Cannot recover''
     | Inr _ \<Rightarrow>
         bind (sv_put g1 (\<lambda>sv. sv\<lparr>sv_i := (sv_i sv)\<lparr>sfi_linkcount := u16 (int (sfi_linkcount (sv_i sv)) - 1)\<rparr>\<rparr>)) (\<lambda>_.
         bind (VOP_DECREF g1) (\<lambda>_. fail result)))"

definition sfs_rename :: "svp \<Rightarrow> byte list \<Rightarrow> svp \<Rightarrow> byte list \<Rightarrow> (unit, sfs_fs) kmon" where
  "sfs_rename d1 n1 d2 n2 =
     bind (assertk (d1 = d2) ''d1==d2'') (\<lambda>_.
     bind (sv_get d1) (\<lambda>sv.
     bind (assertk (sv_ino sv = SFS_ROOT_LOCATION) ''sv->sv_ino == SFS_ROOT_LOCATION'') (\<lambda>_.
     bind (sfs_lookonce d1 n1) (\<lambda>(g1, slot1).
     bind (sv_get g1) (\<lambda>g.
     bind (assertk (sfi_type (sv_i g) = SFS_TYPE_FILE) ''g1->sv_i.sfi_type == SFS_TYPE_FILE'') (\<lambda>_.
     bind (attempt (sfs_dir_link d1 n2 (sv_ino g))) (\<lambda>result. case result of
       Inl e \<Rightarrow> bind (VOP_DECREF g1) (\<lambda>_. fail e)
     | Inr slot2 \<Rightarrow>
         bind (sfs_incr_link g1) (\<lambda>_.
         bind (attempt (sfs_dir_unlink d1 slot1)) (\<lambda>result. case result of
           Inl e \<Rightarrow> sfs_rename_puke_harder d1 g1 slot2 e
         | Inr _ \<Rightarrow>
             bind (sv_get g1) (\<lambda>g.
             bind (assertk (sfi_linkcount (sv_i g) > 0) ''g1->sv_i.sfi_linkcount>0'') (\<lambda>_.
             bind (sfs_decr_link g1) (\<lambda>_. VOP_DECREF g1))))))))))))"

definition sfs_lookparent :: "svp \<Rightarrow> byte list \<Rightarrow> nat \<Rightarrow> (svp \<times> byte list, sfs_fs) kmon" where
  "sfs_lookparent p path buflen = bind (sv_get p) (\<lambda>sv.
     if sfi_type (sv_i sv) \<noteq> SFS_TYPE_DIR then fail ENOTDIR
     else if length path + 1 > buflen then fail ENAMETOOLONG
     else bind (VOP_INCREF p) (\<lambda>_. ret (p, path)))"

definition sfs_lookup :: "svp \<Rightarrow> byte list \<Rightarrow> (svp, sfs_fs) kmon" where
  "sfs_lookup p path = bind (sv_get p) (\<lambda>sv.
     if sfi_type (sv_i sv) \<noteq> SFS_TYPE_DIR then fail ENOTDIR
     else bind (sfs_lookonce p path) (\<lambda>(final, _). ret final))"

section \<open>sfs\_fs.c: the file system as a whole\<close>

definition sfs_mapio_sector :: "uio_rw \<Rightarrow> nat \<Rightarrow> (unit, sfs_fs) kmon" where
  "sfs_mapio_sector rw j =
     bind (gets (\<lambda>s. bitmap_getdata (sfs_freemap s))) (\<lambda>bitdata.
     if \<not> (j + 1) * SFS_BLOCKSIZE \<le> length bitdata then panic ''access past the bitmap''
     else if rw = UIO_READ then
       bind (sfs_rblock (SFS_MAP_LOCATION + j)) (\<lambda>data.
       modify (\<lambda>s. s\<lparr>sfs_freemap := (sfs_freemap s)\<lparr>b_v := splice_at (b_v (sfs_freemap s)) (j * SFS_BLOCKSIZE) data\<rparr>\<rparr>))
     else sfs_wblock (take SFS_BLOCKSIZE (drop (j * SFS_BLOCKSIZE) bitdata)) (SFS_MAP_LOCATION + j))"

definition sfs_mapio :: "uio_rw \<Rightarrow> (unit, sfs_fs) kmon" where
  "sfs_mapio rw = bind (gets (\<lambda>s. SFS_BITBLOCKS (sp_nblocks (sfs_sb s)))) (\<lambda>mapsize.
     foreach [0..<mapsize] (sfs_mapio_sector rw))"

definition sfs_sync :: "(unit, sfs_fs) kmon" where
  "sfs_sync =
     bind (on_vnodes (gets array_getnum)) (\<lambda>num.
     bind (foreach [0..<nat num] (\<lambda>i. bind (on_vnodes (array_getguy (int i))) (\<lambda>p.
             bind (attempt (VOP_FSYNC p)) (\<lambda>_. ret ())))) (\<lambda>_.
     bind (gets sfs_freemapdirty) (\<lambda>d.
     bind (if d then bind (sfs_mapio UIO_WRITE) (\<lambda>_. modify (\<lambda>s. s\<lparr>sfs_freemapdirty := False\<rparr>)) else ret ()) (\<lambda>_.
     bind (gets sfs_superdirty) (\<lambda>d.
     if d then bind (gets sfs_sb) (\<lambda>sb.
       bind (sfs_wblock (super_bytes sb) SFS_SB_LOCATION) (\<lambda>_. modify (\<lambda>s. s\<lparr>sfs_superdirty := False\<rparr>)))
     else ret ())))))"

definition sfs_getvolname :: "sfs_fs \<Rightarrow> byte list" where
  "sfs_getvolname s = cstr (sp_volname (sfs_sb s))"

definition sfs_unmount :: "(unit, sfs_fs) kmon" where
  "sfs_unmount =
     bind (on_vnodes (gets array_getnum)) (\<lambda>num.
     if num > 0 then fail EBUSY
     else
       bind (gets sfs_superdirty) (\<lambda>d. bind (assertk (\<not> d) ''sfs->sfs_superdirty==0'') (\<lambda>_.
       bind (gets sfs_freemapdirty) (\<lambda>d. assertk (\<not> d) ''sfs->sfs_freemapdirty==0''))))"

text \<open>\<open>sfs_domount\<close> fills in a freshly allocated \<open>struct sfs_fs\<close>: what it held before does not matter.\<close>

definition sfs_domount :: "lhd_softc \<Rightarrow> (unit, sfs_fs) kmon" where
  "sfs_domount dev =
     (if d_blocksize dev \<noteq> SFS_BLOCKSIZE then fail ENXIO
      else
        bind sfs_kmalloc (\<lambda>ok. if \<not> ok then fail ENOMEM else
        bind sfs_kmalloc (\<lambda>ok. case array_create ok of None \<Rightarrow> fail ENOMEM | Some vnodes \<Rightarrow>
        bind (modify (\<lambda>s. s\<lparr>sfs_vnodes := vnodes, svs := (\<lambda>_. None), sfs_device := dev\<rparr>)) (\<lambda>_.
        bind (sfs_rblock SFS_SB_LOCATION) (\<lambda>data.
        bind (modify (\<lambda>s. s\<lparr>sfs_sb := bytes_super data\<rparr>)) (\<lambda>_.
        if sp_magic (bytes_super data) \<noteq> SFS_MAGIC then fail EINVAL
        else
          bind (modify (\<lambda>s. s\<lparr>sfs_sb := (sfs_sb s)\<lparr>sp_volname := (sp_volname (sfs_sb s))[SFS_VOLNAME_SIZE - 1 := 0]\<rparr>\<rparr>)) (\<lambda>_.
          bind sfs_kmalloc (\<lambda>ok1.
          bind (if ok1 then sfs_kmalloc else ret False) (\<lambda>ok2.
          bind (bitmap_create ok1 ok2 (SFS_BITMAPSIZE (sp_nblocks (bytes_super data)))) (\<lambda>b. case b of
            None \<Rightarrow> fail ENOMEM
          | Some b \<Rightarrow>
              bind (modify (\<lambda>s. s\<lparr>sfs_freemap := b\<rparr>)) (\<lambda>_.
              bind (sfs_mapio UIO_READ) (\<lambda>_.
              modify (\<lambda>s. s\<lparr>sfs_superdirty := False, sfs_freemapdirty := False\<rparr>)))))))))))))"

end
