(* ===== verification/Sfs_Block.thy ===== *)
theory Sfs_Block
  imports Sfs_Ops
begin

text \<open>
  Block-level facts of SFS: what reading, writing, allocating and freeing a block does to a file system
  whose device accepts every write.
\<close>

section \<open>Rules for the state of the file system\<close>

lemma wp_with_uio [wp_rules]:
  "wp (with_uio u m) Q E s = wp m (\<lambda>_ st. Q (fst st) (snd st)) (\<lambda>e st. E e (snd st)) (u, s)"
  by (auto simp: wp_def with_uio_def split: outcome.splits prod.splits)

lemma wp_on_fs [wp_rules]:
  "wp (on_fs m) Q E st = wp m (\<lambda>a s'. Q a (fst st, s')) (\<lambda>e s'. E e (fst st, s')) (snd st)"
  by (cases st) (simp add: on_fs_def wp_zoom)

lemma wp_on_freemap [wp_rules]:
  "wp (on_freemap m) Q E s = wp m (\<lambda>a b. Q a (s\<lparr>sfs_freemap := b\<rparr>)) (\<lambda>e b. E e (s\<lparr>sfs_freemap := b\<rparr>)) (sfs_freemap s)"
  by (simp add: on_freemap_def wp_zoom)

lemma wp_on_vnodes [wp_rules]:
  "wp (on_vnodes m) Q E s = wp m (\<lambda>a b. Q a (s\<lparr>sfs_vnodes := b\<rparr>)) (\<lambda>e b. E e (s\<lparr>sfs_vnodes := b\<rparr>)) (sfs_vnodes s)"
  by (simp add: on_vnodes_def wp_zoom)

lemma wp_sv_get [wp_rules]: "wp (sv_get p) Q E s = (\<exists>sv. svs s p = Some sv \<and> Q sv s)"
  by (simp add: wp_def sv_get_def split: option.splits)

lemma wp_sv_put [wp_rules]:
  "wp (sv_put p f) Q E s = (\<exists>sv. svs s p = Some sv \<and> Q () (s\<lparr>svs := (svs s)(p \<mapsto> f sv)\<rparr>))"
  by (simp add: wp_def sv_put_def split: option.splits)

lemma wp_sv_inode [wp_rules]:
  "wp (sv_inode p f) Q E s = (\<exists>sv. svs s p = Some sv \<and>
     Q () (s\<lparr>svs := (svs s)(p \<mapsto> sv\<lparr>sv_i := f (sv_i sv), sv_dirty := True\<rparr>)\<rparr>))"
  by (simp add: sv_inode_def wp_sv_put)

section \<open>The invariant of the block layer\<close>

abbreviation disk :: "sfs_fs \<Rightarrow> nat \<Rightarrow> byte list" where "disk s \<equiv> medium (sfs_device s)"

abbreviation nblk :: "sfs_fs \<Rightarrow> nat" where "nblk s \<equiv> sp_nblocks (sfs_sb s)"

text \<open>The blocks in use.\<close>

definition usedset :: "sfs_fs \<Rightarrow> nat set" where
  "usedset s = {b. b < nblk s \<and> bitmap_used (sfs_freemap s) b}"

text \<open>
  The device works and accepts every write, the file system fits on it, the map covers the file system,
  and the bits of the map past its end are set, as is the bit of the superblock.
\<close>

definition fs_ok :: "sfs_fs \<Rightarrow> bool" where
  "fs_ok s \<longleftrightarrow> lhd_inv (sfs_device s) \<and> writes_ok (d_blocks (sfs_device s)) (card (sfs_device s)) \<and>
     bitmap_inv (sfs_freemap s) \<and> nblk s \<le> b_nbits (sfs_freemap s) \<and> nblk s \<le> d_blocks (sfs_device s) \<and>
     (\<forall>b < b_nbits (sfs_freemap s). nblk s \<le> b \<longrightarrow> bitmap_used (sfs_freemap s) b) \<and> 0 \<in> usedset s"

text \<open>What no operation on a file changes.\<close>

definition fs_frame :: "sfs_fs \<Rightarrow> sfs_fs \<Rightarrow> bool" where
  "fs_frame s s' \<longleftrightarrow> fs_ok s' \<and> sfs_sb s' = sfs_sb s \<and> sfs_superdirty s' = sfs_superdirty s \<and>
     sfs_vnodes s' = sfs_vnodes s \<and> sv_next s' = sv_next s \<and> sfs_kmem s' = sfs_kmem s \<and>
     d_blocks (sfs_device s') = d_blocks (sfs_device s) \<and> card (sfs_device s') = card (sfs_device s)"

definition fs_same :: "sfs_fs \<Rightarrow> sfs_fs \<Rightarrow> bool" where
  "fs_same s s' \<longleftrightarrow> fs_frame s s' \<and> disk s' = disk s \<and> sfs_freemap s' = sfs_freemap s \<and>
     sfs_freemapdirty s' = sfs_freemapdirty s \<and> svs s' = svs s"

definition fs_wrote :: "nat \<Rightarrow> byte list \<Rightarrow> sfs_fs \<Rightarrow> sfs_fs \<Rightarrow> bool" where
  "fs_wrote b data s s' \<longleftrightarrow> fs_frame s s' \<and> disk s' = (disk s)(b := data) \<and> sfs_freemap s' = sfs_freemap s \<and>
     sfs_freemapdirty s' = sfs_freemapdirty s \<and> svs s' = svs s"

lemma fs_okD:
  assumes "fs_ok s"
  shows "lhd_inv (sfs_device s)" "writes_ok (d_blocks (sfs_device s)) (card (sfs_device s))"
    "bitmap_inv (sfs_freemap s)" "nblk s \<le> b_nbits (sfs_freemap s)" "nblk s \<le> d_blocks (sfs_device s)"
    "nblk s < 2 ^ 22" "0 < nblk s"
  using assms by (auto simp: fs_ok_def lhd_inv_def usedset_def)

lemma disk_length: "fs_ok s \<Longrightarrow> b < nblk s \<Longrightarrow> length (disk s b) = 512"
  by (auto simp: fs_ok_def lhd_inv_def)

lemma fs_frame_refl: "fs_ok s \<Longrightarrow> fs_frame s s"
  by (simp add: fs_frame_def)

lemma fs_frame_trans: "fs_frame a b \<Longrightarrow> fs_frame b c \<Longrightarrow> fs_frame a c"
  by (simp add: fs_frame_def)

lemma fs_same_refl: "fs_ok s \<Longrightarrow> fs_same s s"
  by (simp add: fs_same_def fs_frame_refl)

lemma fs_same_trans: "fs_same a b \<Longrightarrow> fs_same b c \<Longrightarrow> fs_same a c"
  unfolding fs_same_def using fs_frame_trans by metis

lemma fs_frameD: "fs_frame s s' \<Longrightarrow> fs_ok s'" "fs_frame s s' \<Longrightarrow> sfs_sb s' = sfs_sb s"
  by (simp_all add: fs_frame_def)

lemma fs_sameD:
  assumes "fs_same s s'"
  shows "fs_frame s s'" "fs_ok s'" "disk s' = disk s" "svs s' = svs s" "nblk s' = nblk s" "usedset s' = usedset s"
    "sfs_freemap s' = sfs_freemap s" "sfs_sb s' = sfs_sb s"
  using assms by (simp_all add: fs_same_def fs_frame_def usedset_def)

lemma fs_wroteD:
  assumes "fs_wrote b data s s'"
  shows "fs_frame s s'" "fs_ok s'" "disk s' = (disk s)(b := data)" "svs s' = svs s" "nblk s' = nblk s"
    "usedset s' = usedset s" "sfs_freemap s' = sfs_freemap s"
  using assms by (simp_all add: fs_wrote_def fs_frame_def usedset_def)

lemma fs_same_device:
  assumes "fs_ok s" "lhd_same (sfs_device s) d"
  shows "fs_same s (s\<lparr>sfs_device := d\<rparr>)"
  using assms by (auto simp: fs_same_def fs_frame_def fs_ok_def lhd_same_def usedset_def)

lemma fs_wrote_device:
  assumes "fs_ok s" "lhd_wrote b data (sfs_device s) d"
  shows "fs_wrote b data s (s\<lparr>sfs_device := d\<rparr>)"
  using assms by (auto simp: fs_wrote_def fs_frame_def fs_ok_def lhd_wrote_def usedset_def)

section \<open>Reading and writing one block\<close>

lemma wp_sfs_d_io:
  "wp sfs_d_io Q E (u, s) = wp lhd_io (\<lambda>a st. Q a (fst st, s\<lparr>sfs_device := snd st\<rparr>))
     (\<lambda>e st. E e (fst st, s\<lparr>sfs_device := snd st\<rparr>)) (u, sfs_device s)"
  by (simp add: sfs_d_io_def wp_zoom split_beta)

lemma wp_sfs_d_io_read:
  assumes "fs_ok s" "uio_rw u = UIO_READ" "uio_offset u = 512 * int b" "uio_resid u = 512"
    and "b < d_blocks (sfs_device s)" "uio_ready u 512"
  shows "wp sfs_d_io
    (\<lambda>_ st. fs_same s (snd st) \<and> fst st = uio_done 512 (put_bytes (uio_mem u) (iov_base u) (disk s b)) u)
    (\<lambda>e st. e = EIO \<and> fs_same s (snd st) \<and> fst st = u) (u, s)"
proof -
  note i = fs_okD(1)[OF assms(1)]
  have "lhd_io (u, sfs_device s) = lhd_io_sector LHD_WORKING b (u, sfs_device s)"
    using lhd_io_one[OF i assms(3,4,5)] assms(2) by simp
  then have r: "wp lhd_io Q E (u, sfs_device s) = wp (lhd_io_sector LHD_WORKING b) Q E (u, sfs_device s)" for Q E
    by (rule wp_run)
  show ?thesis unfolding wp_sfs_d_io r
    by (rule wp_mono[OF lhd_io_sector_read[OF i assms(5,2,6)]]) (auto simp: fs_same_device[OF assms(1)])
qed

lemma wp_sfs_d_io_write:
  assumes "fs_ok s" "uio_rw u = UIO_WRITE" "uio_offset u = 512 * int b" "uio_resid u = 512"
    and "b < d_blocks (sfs_device s)" "uio_ready u 512"
  shows "wp sfs_d_io
    (\<lambda>_ st. fs_wrote b (get_bytes (uio_mem u) (iov_base u) 512) s (snd st) \<and> fst st = uio_done 512 (uio_mem u) u)
    (\<lambda>_ _. False) (u, s)"
proof -
  note i = fs_okD(1)[OF assms(1)]
  have "lhd_io (u, sfs_device s) = lhd_io_sector (LHD_WORKING OR LHD_ISWRITE) b (u, sfs_device s)"
    using lhd_io_one[OF i assms(3,4,5)] assms(2) by simp
  then have r: "wp lhd_io Q E (u, sfs_device s) = wp (lhd_io_sector (LHD_WORKING OR LHD_ISWRITE) b) Q E (u, sfs_device s)" for Q E
    by (rule wp_run)
  show ?thesis unfolding wp_sfs_d_io r
    by (rule wp_mono[OF lhd_io_sector_write[OF i assms(5,2,6)]])
      (use fs_okD(2)[OF assms(1)] in \<open>auto simp: fs_wrote_device[OF assms(1)]\<close>)
qed

lemma wp_sfs_rwblock_read:
  assumes "fs_ok s" "uio_rw u = UIO_READ" "uio_offset u = 512 * int b" "uio_resid u = 512"
    and "b < d_blocks (sfs_device s)" "uio_ready u 512"
  shows "wp sfs_rwblock
    (\<lambda>_ st. fs_same s (snd st) \<and> fst st = uio_done 512 (put_bytes (uio_mem u) (iov_base u) (disk s b)) u)
    (\<lambda>e st. e = EIO \<and> fs_same s (snd st) \<and> fst st = u) (u, s)"
proof -
  let ?Q = "\<lambda>_ st. fs_same s (snd st) \<and> fst st = uio_done 512 (put_bytes (uio_mem u) (iov_base u) (disk s b)) u"
  let ?E = "\<lambda>e st. e = EIO \<and> fs_same s (snd st) \<and> fst st = u"
  have "wp (sfs_rwblock_tries k) ?Q ?E (u, t)" if "fs_same s t" for k t
    using that
  proof (induction k arbitrary: t)
    case 0
    note t = fs_sameD[OF 0]
    have "d_blocks (sfs_device t) = d_blocks (sfs_device s)" using t(1) by (simp add: fs_frame_def)
    with wp_sfs_d_io_read[OF t(2) assms(2,3,4) _ assms(6)] assms(5) t(3)
    have "wp sfs_d_io (\<lambda>_ st. fs_same t (snd st) \<and> fst st = uio_done 512 (put_bytes (uio_mem u) (iov_base u) (disk s b)) u)
      (\<lambda>e st. e = EIO \<and> fs_same t (snd st) \<and> fst st = u) (u, t)" by simp
    then show ?case
      unfolding sfs_rwblock_tries.simps wp_bind wp_attempt sum.case
      by (rule wp_mono) (use fs_same_trans[OF 0] in \<open>auto simp: wp_rules\<close>)
  next
    case (Suc k)
    note t = fs_sameD[OF Suc.prems]
    have "d_blocks (sfs_device t) = d_blocks (sfs_device s)" using t(1) by (simp add: fs_frame_def)
    with wp_sfs_d_io_read[OF t(2) assms(2,3,4) _ assms(6)] assms(5) t(3)
    have "wp sfs_d_io (\<lambda>_ st. fs_same t (snd st) \<and> fst st = uio_done 512 (put_bytes (uio_mem u) (iov_base u) (disk s b)) u)
      (\<lambda>e st. e = EIO \<and> fs_same t (snd st) \<and> fst st = u) (u, t)" by simp
    then show ?case
      unfolding sfs_rwblock_tries.simps wp_bind wp_attempt sum.case
      by (rule wp_mono) (use fs_same_trans[OF Suc.prems] Suc.IH in \<open>auto simp: wp_rules\<close>)
  qed
  then show ?thesis unfolding sfs_rwblock_def using fs_same_refl[OF assms(1)] by blast
qed

lemma wp_sfs_rwblock_write:
  assumes "fs_ok s" "uio_rw u = UIO_WRITE" "uio_offset u = 512 * int b" "uio_resid u = 512"
    and "b < d_blocks (sfs_device s)" "uio_ready u 512"
  shows "wp sfs_rwblock
    (\<lambda>_ st. fs_wrote b (get_bytes (uio_mem u) (iov_base u) 512) s (snd st) \<and> fst st = uio_done 512 (uio_mem u) u)
    (\<lambda>_ _. False) (u, s)"
proof -
  have "10 = Suc 9" by simp
  show ?thesis
    unfolding sfs_rwblock_def \<open>10 = Suc 9\<close> sfs_rwblock_tries.simps wp_bind wp_attempt sum.case
    by (rule wp_mono[OF wp_sfs_d_io_write[OF assms]]) (auto simp: wp_rules)
qed

lemma SFSUIO_props:
  assumes "b + 1 < 2 ^ 22" "length data = 512"
  shows "uio_offset (SFSUIO data b rw) = 512 * int b" "uio_resid (SFSUIO data b rw) = 512"
    "uio_rw (SFSUIO data b rw) = rw" "uio_ready (SFSUIO data b rw) 512" "iov_base (SFSUIO data b rw) = 0"
    "get_bytes (uio_mem (SFSUIO data b rw)) 0 512 = data"
proof -
  have b: "int b + 1 < 2 ^ 22" using assms(1) by simp
  have off: "s32 (s32 (int b) * int SFS_BLOCKSIZE) = 512 * int b"
    using b by (simp add: SFS_BLOCKSIZE_def)
  show "uio_offset (SFSUIO data b rw) = 512 * int b" "uio_resid (SFSUIO data b rw) = 512"
    "uio_rw (SFSUIO data b rw) = rw" "iov_base (SFSUIO data b rw) = 0"
    "get_bytes (uio_mem (SFSUIO data b rw)) 0 512 = data"
    using off assms(2) by (simp_all add: SFSUIO_def SFS_BLOCKSIZE_def)
  show "uio_ready (SFSUIO data b rw) 512"
    unfolding SFSUIO_def off SFS_BLOCKSIZE_def using assms(2) b by (intro mk_kuio_ready) simp_all
qed

lemma get_put_bytes_whole: "length xs = n \<Longrightarrow> get_bytes (put_bytes m a xs) a n = xs"
  using get_put_bytes[of m a xs] by simp

lemma wp_sfs_rblock:
  assumes "fs_ok s" "b < nblk s"
  shows "wp (sfs_rblock b) (\<lambda>data s'. data = disk s b \<and> fs_same s s') (\<lambda>e s'. e = EIO \<and> fs_same s s') s"
proof -
  have lim: "b < d_blocks (sfs_device s)" "b + 1 < 2 ^ 22" using assms(2) fs_okD(5,6)[OF assms(1)] by auto
  let ?u = "SFSUIO (replicate SFS_BLOCKSIZE 0) b UIO_READ"
  note p = SFSUIO_props[OF lim(2), of "replicate SFS_BLOCKSIZE 0" UIO_READ, simplified SFS_BLOCKSIZE_def, simplified]
  note w = wp_sfs_rwblock_read[OF assms(1), of "SFSUIO (replicate 512 0) b UIO_READ" b, OF p(3,1,2) lim(1) p(4)]
  show ?thesis
    unfolding sfs_rblock_def wp_bind wp_with_uio SFS_BLOCKSIZE_def
    by (rule wp_mono[OF w]) (use disk_length[OF assms] p in \<open>auto simp: wp_rules get_put_bytes_whole\<close>)
qed

lemma wp_sfs_wblock:
  assumes "fs_ok s" "b < nblk s" "length data = 512"
  shows "wp (sfs_wblock data b) (\<lambda>_ s'. fs_wrote b data s s') (\<lambda>_ _. False) s"
proof -
  have lim: "b < d_blocks (sfs_device s)" "b + 1 < 2 ^ 22" using assms(2) fs_okD(5,6)[OF assms(1)] by auto
  note p = SFSUIO_props[OF lim(2) assms(3), of UIO_WRITE]
  note w = wp_sfs_rwblock_write[OF assms(1), of "SFSUIO data b UIO_WRITE" b, OF p(3,1,2) lim(1) p(4)]
  show ?thesis
    unfolding sfs_wblock_def wp_bind wp_with_uio
    by (rule wp_mono[OF w]) (use p in \<open>auto simp: wp_rules\<close>)
qed

section \<open>Allocating and freeing\<close>

definition zero_block :: "byte list" where "zero_block = replicate 512 0"

lemma length_zero_block [simp]: "length zero_block = 512"
  by (simp add: zero_block_def)

definition fs_alloced :: "nat \<Rightarrow> sfs_fs \<Rightarrow> sfs_fs \<Rightarrow> bool" where
  "fs_alloced b s s' \<longleftrightarrow> fs_frame s s' \<and> b < nblk s \<and> b \<notin> usedset s \<and> usedset s' = insert b (usedset s) \<and>
     disk s' = (disk s)(b := zero_block) \<and> svs s' = svs s \<and> sfs_freemapdirty s'"

lemma wp_sfs_balloc:
  assumes "fs_ok s"
  shows "wp sfs_balloc (\<lambda>b s'. fs_alloced b s s') (\<lambda>e s'. e = ENOSPC \<and> fs_same s s' \<and> usedset s = {..<nblk s}) s"
proof -
  note ok = fs_okD[OF assms]
  let ?t = "\<lambda>c. s\<lparr>sfs_freemap := c, sfs_freemapdirty := True\<rparr>"
  have step: "i < nblk s \<and> wp (sfs_clearblock i) (\<lambda>_ s'. fs_alloced i s s') (\<lambda>_ _. False) (?t c)"
    if c: "bitmap_inv c" "b_nbits c = b_nbits (sfs_freemap s)" "i < b_nbits (sfs_freemap s)"
      "\<not> bitmap_used (sfs_freemap s) i"
      "\<forall>j < b_nbits (sfs_freemap s). bitmap_used c j = (bitmap_used (sfs_freemap s) j \<or> j = i)" for i c
  proof -
    have i: "i < nblk s" using c(3,4) assms by (auto simp: fs_ok_def not_le[symmetric])
    have us: "usedset (?t c) = insert i (usedset s)" using c(5) i ok(4) by (auto simp: usedset_def)
    have t: "fs_ok (?t c)" using assms c us unfolding fs_ok_def by auto
    have z: "length (replicate SFS_BLOCKSIZE 0) = 512" by (simp add: SFS_BLOCKSIZE_def)
    have "wp (sfs_wblock (replicate SFS_BLOCKSIZE 0) i) (\<lambda>_ s'. fs_wrote i (replicate SFS_BLOCKSIZE 0) (?t c) s')
      (\<lambda>_ _. False) (?t c)"
      by (rule wp_sfs_wblock[OF t _ z]) (use i in simp)
    then have "wp (sfs_clearblock i) (\<lambda>_ s'. fs_alloced i s s') (\<lambda>_ _. False) (?t c)"
      unfolding sfs_clearblock_def
    proof (rule wp_mono)
      fix a s' assume w: "fs_wrote i (replicate SFS_BLOCKSIZE 0) (?t c) s'"
      note d = fs_wroteD[OF w]
      have "fs_frame s s'" using d(1) by (simp add: fs_frame_def)
      moreover have "i \<notin> usedset s" using c(4) by (simp add: usedset_def)
      moreover have "sfs_freemapdirty s'" using w by (simp add: fs_wrote_def)
      ultimately show "fs_alloced i s s'"
        using i us d by (simp add: fs_alloced_def zero_block_def SFS_BLOCKSIZE_def)
    qed simp
    with i show ?thesis by simp
  qed
  show ?thesis
    unfolding sfs_balloc_def wp_bind wp_on_freemap
  proof (rule wp_mono[OF wp_bitmap_alloc[OF ok(3)]])
    fix i c assume "bitmap_alloc_post (sfs_freemap s) i c"
    then have c: "bitmap_inv c" "b_nbits c = b_nbits (sfs_freemap s)" "i < b_nbits (sfs_freemap s)"
      "\<not> bitmap_used (sfs_freemap s) i"
      "\<forall>j < b_nbits (sfs_freemap s). bitmap_used c j = (bitmap_used (sfs_freemap s) j \<or> j = i)"
      by (simp_all add: bitmap_alloc_post_def)
    note st = step[OF c]
    have "wp (sfs_clearblock i) (\<lambda>_. wp (ret i) (\<lambda>b s'. fs_alloced b s s') E) E (?t c)" for E
      by (rule wp_mono[OF conjunct2[OF st]]) (simp_all add: wp_rules)
    with conjunct1[OF st] show "wp (modify (\<lambda>s. s\<lparr>sfs_freemapdirty := True\<rparr>))
      (\<lambda>a. wp (gets (\<lambda>s. sp_nblocks (sfs_sb s)))
        (\<lambda>aa. wp (if aa \<le> i then panic ''sfs: balloc: invalid block'' else bind (sfs_clearblock i) (\<lambda>_. ret i))
          (\<lambda>b. fs_alloced b s) (\<lambda>e s'. e = ENOSPC \<and> fs_same s s' \<and> usedset s = {..<nblk s}))
        (\<lambda>e s'. e = ENOSPC \<and> fs_same s s' \<and> usedset s = {..<nblk s}))
      (\<lambda>e s'. e = ENOSPC \<and> fs_same s s' \<and> usedset s = {..<nblk s}) (s\<lparr>sfs_freemap := c\<rparr>)"
      by (simp add: wp_rules)
  next
    fix e b' assume "e = ENOSPC \<and> b' = sfs_freemap s \<and> (\<forall>j < b_nbits (sfs_freemap s). bitmap_used (sfs_freemap s) j)"
    then show "e = ENOSPC \<and> fs_same s (s\<lparr>sfs_freemap := b'\<rparr>) \<and> usedset s = {..<nblk s}"
      using ok(4) fs_same_refl[OF assms] by (auto simp: usedset_def)
  qed
qed

lemma wp_sfs_bused:
  assumes "fs_ok s" "b < nblk s"
  shows "wp (sfs_bused b) Q E s = Q (b \<in> usedset s) s"
proof -
  have "bitmap_isset b (sfs_freemap s) = Ok (bitmap_used (sfs_freemap s) b) (sfs_freemap s)"
    by (rule bitmap_isset_used) (use fs_okD[OF assms(1)] assms(2) in auto)
  then have "sfs_bused b s = Ok (b \<in> usedset s) s"
    using assms(2) by (simp add: sfs_bused_def bind_def on_freemap_def zoom_def usedset_def)
  then show ?thesis by (simp add: wp_def)
qed

definition fs_freed :: "nat \<Rightarrow> sfs_fs \<Rightarrow> sfs_fs \<Rightarrow> bool" where
  "fs_freed b s s' \<longleftrightarrow> fs_frame s s' \<and> usedset s' = usedset s - {b} \<and> disk s' = disk s \<and> svs s' = svs s \<and>
     sfs_freemapdirty s'"

lemma wp_sfs_bfree:
  assumes "fs_ok s" "b \<in> usedset s" "b \<noteq> 0"
  shows "wp (sfs_bfree b) (\<lambda>_ s'. fs_freed b s s') (\<lambda>_ _. False) s"
proof -
  note ok = fs_okD[OF assms(1)]
  have b: "b < b_nbits (sfs_freemap s)" "bitmap_used (sfs_freemap s) b" "b < nblk s"
    using assms(2) ok(4) by (auto simp: usedset_def)
  show ?thesis unfolding sfs_bfree_def wp_bind wp_on_freemap
  proof (rule wp_mono[OF wp_bitmap_unmark[OF ok(3) b(1,2)]])
    fix a c assume c: "bitmap_inv c \<and> b_nbits c = b_nbits (sfs_freemap s) \<and>
      (\<forall>j < b_nbits (sfs_freemap s). bitmap_used c j = (bitmap_used (sfs_freemap s) j \<and> j \<noteq> b))"
    let ?t = "s\<lparr>sfs_freemap := c, sfs_freemapdirty := True\<rparr>"
    have us: "usedset ?t = usedset s - {b}" using c ok(4) by (auto simp: usedset_def)
    have "fs_ok ?t" using assms c us b(3) unfolding fs_ok_def by auto
    with us show "wp (modify (\<lambda>s. s\<lparr>sfs_freemapdirty := True\<rparr>)) (\<lambda>_ s'. fs_freed b s s') (\<lambda>_ _. False) (s\<lparr>sfs_freemap := c\<rparr>)"
      by (simp add: wp_rules fs_freed_def fs_frame_def)
  qed simp
qed

end
