(* ===== verification/Sfs_Bmap.thy ===== *)
theory Sfs_Bmap
  imports Sfs_Block
begin

text \<open>
  The blocks of one file. An inode and the disk give a map from file blocks to disk blocks, and with it
  the contents of the file as a function from byte positions. \<open>sfs_bmap\<close> looks blocks up in that map;
  when it allocates, it extends the map by zeroed blocks that were free, which leaves the contents of
  this and of every other file as they were.
\<close>

section \<open>The block map of an inode\<close>

abbreviation max_fileblocks :: nat where "max_fileblocks \<equiv> 143"

definition bmap_fun :: "sfs_inode \<Rightarrow> (nat \<Rightarrow> byte list) \<Rightarrow> nat \<Rightarrow> nat" where
  "bmap_fun i d k = (if k < 15 then sfi_direct i ! k
     else if k < max_fileblocks \<and> sfi_indirect i \<noteq> 0 then bytes_words 128 (d (sfi_indirect i)) ! (k - 15)
     else 0)"

definition owned :: "sfs_inode \<Rightarrow> (nat \<Rightarrow> byte list) \<Rightarrow> nat set" where
  "owned i d = {b. b \<noteq> 0 \<and> (b = sfi_indirect i \<or> (\<exists>k < max_fileblocks. bmap_fun i d k = b))}"

text \<open>
  An inode whose blocks are all in use, no two of them the same, and whose size its block map can hold.
\<close>

definition file_ok :: "nat set \<Rightarrow> sfs_inode \<Rightarrow> (nat \<Rightarrow> byte list) \<Rightarrow> bool" where
  "file_ok U i d \<longleftrightarrow> inode_ok i \<and> sfi_size i \<le> max_fileblocks * 512 \<and> owned i d \<subseteq> U \<and>
     (\<forall>j < max_fileblocks. \<forall>k < max_fileblocks. bmap_fun i d j = bmap_fun i d k \<longrightarrow> bmap_fun i d j \<noteq> 0 \<longrightarrow> j = k) \<and>
     (\<forall>k < max_fileblocks. bmap_fun i d k \<noteq> 0 \<longrightarrow> bmap_fun i d k \<noteq> sfi_indirect i)"

text \<open>The byte at a position of the file; where no block is mapped it is zero.\<close>

definition file_byte :: "sfs_inode \<Rightarrow> (nat \<Rightarrow> byte list) \<Rightarrow> nat \<Rightarrow> byte" where
  "file_byte i d x = (let b = bmap_fun i d (x div 512) in if b = 0 then 0 else d b ! (x mod 512))"

lemma bmap_fun_big: "max_fileblocks \<le> k \<Longrightarrow> bmap_fun i d k = 0"
  by (simp add: bmap_fun_def)

lemma bmap_owned: "bmap_fun i d k \<noteq> 0 \<Longrightarrow> bmap_fun i d k \<in> owned i d"
  using bmap_fun_big[of k i d] by (cases "k < max_fileblocks") (auto simp: owned_def)

lemma indirect_owned: "sfi_indirect i \<noteq> 0 \<Longrightarrow> sfi_indirect i \<in> owned i d"
  by (simp add: owned_def)

lemma file_okD:
  assumes "file_ok U i d"
  shows "inode_ok i" "sfi_size i \<le> max_fileblocks * 512" "owned i d \<subseteq> U"
    "\<And>j k. bmap_fun i d j = bmap_fun i d k \<Longrightarrow> bmap_fun i d j \<noteq> 0 \<Longrightarrow> j = k"
    "\<And>k. bmap_fun i d k \<noteq> 0 \<Longrightarrow> bmap_fun i d k \<noteq> sfi_indirect i"
proof -
  show "inode_ok i" "sfi_size i \<le> max_fileblocks * 512" "owned i d \<subseteq> U" using assms by (simp_all add: file_ok_def)
  have small: "k < max_fileblocks" if "bmap_fun i d k \<noteq> 0" for k
    using that bmap_fun_big[of k i d] linorder_not_less by blast
  show "j = k" if "bmap_fun i d j = bmap_fun i d k" "bmap_fun i d j \<noteq> 0" for j k
    using assms that small[of j] small[of k] unfolding file_ok_def by metis
  show "bmap_fun i d k \<noteq> sfi_indirect i" if "bmap_fun i d k \<noteq> 0" for k
    using assms that small[of k] unfolding file_ok_def by metis
qed

lemma file_okI:
  assumes "inode_ok i" "sfi_size i \<le> max_fileblocks * 512" "owned i d \<subseteq> U"
    and "\<And>j k. bmap_fun i d j = bmap_fun i d k \<Longrightarrow> bmap_fun i d j \<noteq> 0 \<Longrightarrow> j = k"
    and "\<And>k. bmap_fun i d k \<noteq> 0 \<Longrightarrow> bmap_fun i d k \<noteq> sfi_indirect i"
  shows "file_ok U i d"
proof -
  have "\<forall>j < max_fileblocks. \<forall>k < max_fileblocks. bmap_fun i d j = bmap_fun i d k \<longrightarrow> bmap_fun i d j \<noteq> 0 \<longrightarrow> j = k"
    using assms(4) by blast
  moreover have "\<forall>k < max_fileblocks. bmap_fun i d k \<noteq> 0 \<longrightarrow> bmap_fun i d k \<noteq> sfi_indirect i" using assms(5) by blast
  ultimately show ?thesis unfolding file_ok_def using assms(1-3) by blast
qed

text \<open>Blocks that keep their number and contents, and holes that become zeroed blocks, are not seen.\<close>

lemma file_byte_same:
  assumes "\<And>k. bmap_fun i' d' k = bmap_fun i d k \<and> (bmap_fun i d k \<noteq> 0 \<longrightarrow> d' (bmap_fun i d k) = d (bmap_fun i d k)) \<or>
    bmap_fun i d k = 0 \<and> bmap_fun i' d' k \<noteq> 0 \<and> d' (bmap_fun i' d' k) = zero_block"
  shows "file_byte i' d' = file_byte i d"
proof (rule ext)
  fix x :: nat
  have "x mod 512 < 512" by simp
  with assms[of "x div 512"] show "file_byte i' d' x = file_byte i d x"
    by (auto simp: file_byte_def Let_def zero_block_def)
qed

lemma file_ok_direct: "file_ok U i d \<Longrightarrow> length (sfi_direct i) = 15"
  by (simp add: file_ok_def inode_ok_def)

text \<open>An inode without blocks.\<close>

lemma owned_cong: "sfi_indirect i' = sfi_indirect i \<Longrightarrow> bmap_fun i' d' = bmap_fun i d \<Longrightarrow> owned i' d' = owned i d"
  by (simp add: owned_def)

section \<open>Growing a file\<close>

text \<open>
  From one inode, disk and set of used blocks to the next: blocks may have been added to the file, all
  of them free before, and blocks in use that are not the file's have kept their contents.
\<close>

definition grown :: "sfs_inode \<Rightarrow> (nat \<Rightarrow> byte list) \<Rightarrow> nat set \<Rightarrow> sfs_inode \<Rightarrow> (nat \<Rightarrow> byte list) \<Rightarrow> nat set \<Rightarrow> bool" where
  "grown i d U i' d' U' \<longleftrightarrow> file_ok U' i' d' \<and> U' = U \<union> owned i' d' \<and> owned i d \<subseteq> owned i' d' \<and>
     owned i' d' \<inter> U \<subseteq> owned i d \<and> (\<forall>b \<in> U. b \<notin> owned i d \<longrightarrow> d' b = d b) \<and>
     sfi_size i' = sfi_size i \<and> sfi_type i' = sfi_type i \<and> sfi_linkcount i' = sfi_linkcount i"

lemma grown_refl: "file_ok U i d \<Longrightarrow> grown i d U i d U"
  by (auto simp: grown_def file_ok_def)

lemma grown_trans:
  assumes "grown i d U i1 d1 U1" "grown i1 d1 U1 i2 d2 U2"
  shows "grown i d U i2 d2 U2"
proof -
  have "d2 b = d b" if "b \<in> U" "b \<notin> owned i d" for b
  proof -
    have "b \<notin> owned i1 d1" "b \<in> U1" using that assms(1) by (auto simp: grown_def)
    with that assms show ?thesis by (simp add: grown_def)
  qed
  with assms show ?thesis unfolding grown_def by auto
qed

text \<open>One block is added to the map.\<close>

lemma grown_add:
  assumes ok: "file_ok U i d" and b: "b \<notin> U" "b \<noteq> 0" and k: "k < max_fileblocks" "bmap_fun i d k = 0"
    and i': "inode_ok i'" "sfi_indirect i' = sfi_indirect i" "sfi_size i' = sfi_size i" "sfi_type i' = sfi_type i"
      "sfi_linkcount i' = sfi_linkcount i"
    and bm: "bmap_fun i' d' = (bmap_fun i d)(k := b)"
    and d': "\<And>c. c \<in> U \<Longrightarrow> c \<notin> owned i d \<Longrightarrow> d' c = d c"
  shows "grown i d U i' d' (insert b U)"
proof -
  note ok' = file_okD[OF ok]
  have ow: "owned i' d' = insert b (owned i d)"
  proof -
    have "(\<exists>j < max_fileblocks. ((bmap_fun i d)(k := b)) j = c) \<longleftrightarrow> c = b \<or> (\<exists>j < max_fileblocks. bmap_fun i d j = c)"
      if "c \<noteq> 0" for c
      using k that by (metis fun_upd_apply)
    then show ?thesis using b(2) unfolding owned_def bm i'(2) by blast
  qed
  have nb: "bmap_fun i d j \<noteq> b" for j
    using bmap_owned[of i d j] ok'(3) b by (metis subsetD)
  have inj: "j = l" if "bmap_fun i' d' j = bmap_fun i' d' l" "bmap_fun i' d' j \<noteq> 0" for j l
    using that nb ok'(4)[of j l] by (auto simp: bm split: if_splits)
  have ni: "bmap_fun i' d' j \<noteq> sfi_indirect i'" if "bmap_fun i' d' j \<noteq> 0" for j
  proof (cases "j = k")
    case True
    have "b \<noteq> sfi_indirect i" using indirect_owned[of i d] ok'(3) b by auto
    with True show ?thesis by (simp add: bm i'(2))
  next
    case False
    with that ok'(5)[of j] show ?thesis by (simp add: bm i'(2))
  qed
  have "file_ok (insert b U) i' d'"
    by (rule file_okI[OF i'(1) _ _ inj ni]) (use i' ok'(2,3) ow in auto)
  with ow b d' i' ok'(3) show ?thesis unfolding grown_def by auto
qed

lemma words_ok_update: "words_ok ws \<Longrightarrow> b < 2 ^ 32 \<Longrightarrow> words_ok (ws[k := b])"
  by (auto simp: words_ok_def dest!: set_update_subset_insert[THEN subsetD])

text \<open>A block for a direct pointer.\<close>

lemma add_direct:
  assumes ok: "file_ok U i d" and b: "b \<notin> U" "b \<noteq> 0" "b < 2 ^ 32" and k: "k < 15" "sfi_direct i ! k = 0"
  defines "i' \<equiv> i\<lparr>sfi_direct := (sfi_direct i)[k := b]\<rparr>" and "d' \<equiv> d(b := zero_block)"
  shows "bmap_fun i' d' = (bmap_fun i d)(k := b)" "grown i d U i' d' (insert b U)"
    "file_byte i' d' = file_byte i d"
proof -
  note ok' = file_okD[OF ok]
  have "sfi_indirect i \<noteq> 0 \<Longrightarrow> sfi_indirect i \<noteq> b" using indirect_owned[of i d] ok'(3) b by auto
  then show bm: "bmap_fun i' d' = (bmap_fun i d)(k := b)"
    using k file_ok_direct[OF ok] by (auto simp: bmap_fun_def i'_def d'_def fun_eq_iff)
  have "bmap_fun i d k = 0" using k by (simp add: bmap_fun_def)
  moreover have "inode_ok i'" using ok'(1) b(3) by (simp add: i'_def inode_ok_def words_ok_update)
  ultimately show "grown i d U i' d' (insert b U)"
    using k b by (intro grown_add[OF ok b(1,2) _ _ _ _ _ _ _ bm]) (auto simp: i'_def d'_def)
  have nb: "bmap_fun i d j \<noteq> b" for j
    using bmap_owned[of i d j] ok'(3) b by (metis subsetD)
  show "file_byte i' d' = file_byte i d"
  proof (rule file_byte_same)
    show "bmap_fun i' d' j = bmap_fun i d j \<and> (bmap_fun i d j \<noteq> 0 \<longrightarrow> d' (bmap_fun i d j) = d (bmap_fun i d j)) \<or>
      bmap_fun i d j = 0 \<and> bmap_fun i' d' j \<noteq> 0 \<and> d' (bmap_fun i' d' j) = zero_block" for j
      unfolding bm using nb[of j] b(2) \<open>bmap_fun i d k = 0\<close> by (simp add: d'_def)
  qed
qed

text \<open>An indirect block.\<close>

lemma bytes_words_zero: "bytes_words n (replicate (4 * n) 0) = replicate n 0"
proof (induction n)
  case (Suc n)
  have "take 4 (replicate (4 * Suc n) 0) = (replicate 4 0 :: byte list)" by (simp add: min_def)
  moreover have "be (replicate 4 0) = 0" by (simp add: be_def eval_nat_numeral)
  ultimately show ?case using Suc by simp
qed simp

lemma words_zero_block: "bytes_words 128 zero_block = replicate 128 0"
  using bytes_words_zero[of 128] by (simp add: zero_block_def)

lemma add_indirect:
  assumes ok: "file_ok U i d" and b: "b \<notin> U" "b \<noteq> 0" "b < 2 ^ 32" and k: "sfi_indirect i = 0"
  defines "i' \<equiv> i\<lparr>sfi_indirect := b\<rparr>" and "d' \<equiv> d(b := zero_block)"
  shows "bmap_fun i' d' = bmap_fun i d" "grown i d U i' d' (insert b U)" "file_byte i' d' = file_byte i d"
proof -
  note ok' = file_okD[OF ok]
  show bm: "bmap_fun i' d' = bmap_fun i d"
    using k b(2) by (auto simp: bmap_fun_def i'_def d'_def fun_eq_iff words_zero_block nth_replicate)
  have nb: "bmap_fun i d j \<noteq> b" for j
    using bmap_owned[of i d j] ok'(3) b by (metis subsetD)
  have ow: "owned i' d' = insert b (owned i d)"
    using b(2) k unfolding owned_def bm by (auto simp: i'_def)
  have inj: "j = l" if "bmap_fun i' d' j = bmap_fun i' d' l" "bmap_fun i' d' j \<noteq> 0" for j l
    using that ok'(4) unfolding bm by blast
  have ni: "bmap_fun i' d' j \<noteq> sfi_indirect i'" if "bmap_fun i' d' j \<noteq> 0" for j
    using nb[of j] unfolding bm by (simp add: i'_def)
  have "inode_ok i'" using ok'(1) b(3) by (simp add: i'_def inode_ok_def)
  then have "file_ok (insert b U) i' d'"
    by (rule file_okI[OF _ _ _ inj ni]) (use ok'(2,3) ow in \<open>auto simp: i'_def\<close>)
  with ow b ok'(3) show "grown i d U i' d' (insert b U)" unfolding grown_def
    by (auto simp: i'_def d'_def)
  show "file_byte i' d' = file_byte i d"
  proof (rule file_byte_same)
    show "bmap_fun i' d' j = bmap_fun i d j \<and> (bmap_fun i d j \<noteq> 0 \<longrightarrow> d' (bmap_fun i d j) = d (bmap_fun i d j)) \<or>
      bmap_fun i d j = 0 \<and> bmap_fun i' d' j \<noteq> 0 \<and> d' (bmap_fun i' d' j) = zero_block" for j
      unfolding bm using nb[of j] by (simp add: d'_def)
  qed
qed

text \<open>A block for a pointer in the indirect block.\<close>

lemma add_in_indirect:
  assumes ok: "file_ok U i d" and b: "b \<notin> U" "b \<noteq> 0" "b < 2 ^ 32" and k: "k < 128" "sfi_indirect i \<noteq> 0"
    "bytes_words 128 (d (sfi_indirect i)) ! k = 0"
  defines "d' \<equiv> d(b := zero_block, sfi_indirect i := words_bytes ((bytes_words 128 (d (sfi_indirect i)))[k := b]))"
  shows "bmap_fun i d' = (bmap_fun i d)(15 + k := b)" "grown i d U i d' (insert b U)"
    "file_byte i d' = file_byte i d"
proof -
  note ok' = file_okD[OF ok]
  let ?ws = "bytes_words 128 (d (sfi_indirect i))"
  have bi: "sfi_indirect i \<noteq> b" using indirect_owned[of i d] ok'(3) b k by auto
  have ok2: "words_ok (?ws[k := b])" by (rule words_ok_update[OF words_ok_bytes_words b(3)])
  have rt: "bytes_words 128 (words_bytes (?ws[k := b])) = ?ws[k := b]"
    using bytes_words_bytes[OF ok2, of "[]"] by simp
  show bm: "bmap_fun i d' = (bmap_fun i d)(15 + k := b)"
  proof (rule ext)
    fix x
    have "x - 15 = k \<longleftrightarrow> x = 15 + k" if "\<not> x < 15" using that by auto
    then show "bmap_fun i d' x = ((bmap_fun i d)(15 + k := b)) x"
      using k rt by (auto simp: bmap_fun_def d'_def nth_list_update)
  qed
  have z: "bmap_fun i d (15 + k) = 0" using k by (simp add: bmap_fun_def)
  have own: "sfi_indirect i \<in> owned i d" using k(2) by (rule indirect_owned)
  show "grown i d U i d' (insert b U)"
    using k(1) own b(1) by (intro grown_add[OF ok b(1,2) _ z ok'(1) refl refl refl refl bm]) (auto simp: d'_def)
  have nb: "bmap_fun i d j \<noteq> b" for j
    using bmap_owned[of i d j] ok'(3) b by (metis subsetD)
  have ni: "bmap_fun i d j \<noteq> 0 \<Longrightarrow> bmap_fun i d j \<noteq> sfi_indirect i" for j by (rule ok'(5))
  show "file_byte i d' = file_byte i d"
  proof (rule file_byte_same)
    show "bmap_fun i d' j = bmap_fun i d j \<and> (bmap_fun i d j \<noteq> 0 \<longrightarrow> d' (bmap_fun i d j) = d (bmap_fun i d j)) \<or>
      bmap_fun i d j = 0 \<and> bmap_fun i d' j \<noteq> 0 \<and> d' (bmap_fun i d' j) = zero_block" for j
      unfolding bm using nb[of j] ni[of j] z b(2) bi by (simp add: d'_def)
  qed
qed

text \<open>The data of one mapped block is replaced.\<close>

lemma put_block:
  assumes ok: "file_ok U i d" and b: "bmap_fun i d k = b" "b \<noteq> 0"
  shows "bmap_fun i (d(b := data)) = bmap_fun i d" "grown i d U i (d(b := data)) U"
    "file_byte i (d(b := data)) x = (if x div 512 = k then data ! (x mod 512) else file_byte i d x)"
proof -
  note ok' = file_okD[OF ok]
  have bi: "sfi_indirect i \<noteq> b" using ok'(5)[of k] b by auto
  then show bm: "bmap_fun i (d(b := data)) = bmap_fun i d"
    by (auto simp: bmap_fun_def fun_eq_iff)
  then have ow: "owned i (d(b := data)) = owned i d" by (simp add: owned_def)
  have "b \<in> owned i d" using bmap_owned[of i d k] b by simp
  then have oth: "(d(b := data)) c = d c" if "c \<notin> owned i d" for c using that by auto
  have "file_ok U i (d(b := data))" using ok unfolding file_ok_def bm ow .
  then show "grown i d U i (d(b := data)) U"
    using ok'(3) oth by (simp only: grown_def ow) blast
  show "file_byte i (d(b := data)) x = (if x div 512 = k then data ! (x mod 512) else file_byte i d x)"
  proof (cases "x div 512 = k")
    case True
    then show ?thesis using b unfolding file_byte_def bm Let_def by simp
  next
    case False
    then have "bmap_fun i d (x div 512) \<noteq> b" using ok'(4)[of k "x div 512"] b by metis
    with False show ?thesis unfolding file_byte_def bm Let_def by simp
  qed
qed

section \<open>Files of a file system\<close>

definition fino :: "sfs_fs \<Rightarrow> svp \<Rightarrow> sfs_inode" where "fino s p = sv_i (the (svs s p))"

definition fcont :: "sfs_fs \<Rightarrow> svp \<Rightarrow> nat \<Rightarrow> byte" where "fcont s p = file_byte (fino s p) (disk s)"

definition fvalid :: "svp \<Rightarrow> sfs_fs \<Rightarrow> bool" where
  "fvalid p s \<longleftrightarrow> fs_ok s \<and> svs s p \<noteq> None \<and> file_ok (usedset s) (fino s p) (disk s)"

text \<open>
  From one state to the next, the file has at most grown, other vnodes are untouched, and what has
  changed of the inode and of the free map is marked dirty.
\<close>

definition fgrown :: "svp \<Rightarrow> sfs_fs \<Rightarrow> sfs_fs \<Rightarrow> bool" where
  "fgrown p s s' \<longleftrightarrow> fs_frame s s' \<and> (\<forall>q. q \<noteq> p \<longrightarrow> svs s' q = svs s q) \<and>
     (\<exists>sv sv'. svs s p = Some sv \<and> svs s' p = Some sv' \<and> sv_v sv' = sv_v sv \<and> sv_ino sv' = sv_ino sv \<and>
        (sv_i sv' = sv_i sv \<and> sv_dirty sv' = sv_dirty sv \<or> sv_dirty sv')) \<and>
     (sfs_freemap s' = sfs_freemap s \<and> sfs_freemapdirty s' = sfs_freemapdirty s \<or> sfs_freemapdirty s') \<and>
     grown (fino s p) (disk s) (usedset s) (fino s' p) (disk s') (usedset s')"

lemma fvalidD:
  assumes "fvalid p s"
  shows "fs_ok s" "file_ok (usedset s) (fino s p) (disk s)" "svs s p = Some (the (svs s p))"
  using assms by (auto simp: fvalid_def)

lemma fvalidE:
  assumes "fvalid p s"
  obtains sv where "svs s p = Some sv" "sv_i sv = fino s p"
  using assms by (auto simp: fvalid_def fino_def)

lemma fgrown_refl: "fvalid p s \<Longrightarrow> fgrown p s s"
  by (auto simp: fgrown_def fvalid_def fs_frame_refl grown_refl)

lemma fgrown_trans:
  assumes "fgrown p s t" "fgrown p t v"
  shows "fgrown p s v"
proof -
  have "fs_frame s v" using assms fs_frame_trans unfolding fgrown_def by blast
  moreover have "\<forall>q. q \<noteq> p \<longrightarrow> svs v q = svs s q" using assms unfolding fgrown_def by metis
  moreover have "\<exists>sv sv'. svs s p = Some sv \<and> svs v p = Some sv' \<and> sv_v sv' = sv_v sv \<and> sv_ino sv' = sv_ino sv \<and>
        (sv_i sv' = sv_i sv \<and> sv_dirty sv' = sv_dirty sv \<or> sv_dirty sv')"
  proof -
    obtain a b where 1: "svs s p = Some a" "svs t p = Some b" "sv_v b = sv_v a" "sv_ino b = sv_ino a"
        "sv_i b = sv_i a \<and> sv_dirty b = sv_dirty a \<or> sv_dirty b"
      using assms(1) unfolding fgrown_def by blast
    moreover obtain b' c where 2: "svs t p = Some b'" "svs v p = Some c" "sv_v c = sv_v b'" "sv_ino c = sv_ino b'"
        "sv_i c = sv_i b' \<and> sv_dirty c = sv_dirty b' \<or> sv_dirty c"
      using assms(2) unfolding fgrown_def by blast
    ultimately show ?thesis by auto
  qed
  moreover have "sfs_freemap v = sfs_freemap s \<and> sfs_freemapdirty v = sfs_freemapdirty s \<or> sfs_freemapdirty v"
    using assms unfolding fgrown_def by metis
  moreover have "grown (fino s p) (disk s) (usedset s) (fino v p) (disk v) (usedset v)"
    using assms grown_trans unfolding fgrown_def by blast
  ultimately show ?thesis unfolding fgrown_def by blast
qed

lemma fgrown_valid: "fgrown p s s' \<Longrightarrow> fvalid p s'"
  by (auto simp: fgrown_def fvalid_def fs_frameD grown_def)

lemma fgrown_frame: "fgrown p s s' \<Longrightarrow> fs_frame s s'"
  by (simp add: fgrown_def)

lemma fgrown_inode:
  assumes "fgrown p s s'"
  shows "sfi_size (fino s' p) = sfi_size (fino s p)" "sfi_type (fino s' p) = sfi_type (fino s p)"
    "sfi_linkcount (fino s' p) = sfi_linkcount (fino s p)"
  using assms by (simp_all add: fgrown_def grown_def)

lemma fs_same_fvalid:
  assumes "fs_same s s'" "fvalid p s"
  shows "fvalid p s'" "fino s' p = fino s p" "fcont s' p = fcont s p" "fgrown p s s'"
proof -
  note d = fs_sameD[OF assms(1)]
  show f: "fino s' p = fino s p" by (simp add: fino_def d)
  show "fcont s' p = fcont s p" by (simp add: fcont_def f d)
  show "fvalid p s'" using assms(2) d f by (simp add: fvalid_def)
  have "sfs_freemapdirty s' = sfs_freemapdirty s" using assms(1) by (simp add: fs_same_def)
  then show "fgrown p s s'" using assms(2) d f by (auto simp: fgrown_def fvalid_def grown_refl)
qed

text \<open>Blocks of a valid file are blocks of the file system.\<close>

lemma fvalid_block:
  assumes "fvalid p s" "bmap_fun (fino s p) (disk s) k \<noteq> 0"
  shows "bmap_fun (fino s p) (disk s) k \<in> usedset s" "bmap_fun (fino s p) (disk s) k < nblk s"
proof -
  show u: "bmap_fun (fino s p) (disk s) k \<in> usedset s"
    using bmap_owned[OF assms(2)] file_okD(3)[OF fvalidD(2)[OF assms(1)]] by auto
  then show "bmap_fun (fino s p) (disk s) k < nblk s" by (simp add: usedset_def)
qed

lemma fvalid_indirect:
  assumes "fvalid p s" "sfi_indirect (fino s p) \<noteq> 0"
  shows "sfi_indirect (fino s p) \<in> usedset s" "sfi_indirect (fino s p) < nblk s"
proof -
  show u: "sfi_indirect (fino s p) \<in> usedset s"
    using indirect_owned[OF assms(2)] file_okD(3)[OF fvalidD(2)[OF assms(1)]] by auto
  then show "sfi_indirect (fino s p) < nblk s" by (simp add: usedset_def)
qed

lemma wp_bmap_hand:
  assumes "fs_ok s" "b \<noteq> 0 \<Longrightarrow> b \<in> usedset s"
  shows "wp (sfs_bmap_hand b) Q E s = Q b s"
proof (cases "b = 0")
  case False
  then have "b \<in> usedset s" "b < nblk s" using assms(2) by (auto simp: usedset_def)
  with False assms(1) show ?thesis by (simp add: sfs_bmap_hand_def wp_bind wp_sfs_bused wp_ret)
qed (simp add: sfs_bmap_hand_def wp_ret)

section \<open>Looking blocks up\<close>

lemma wp_sfs_bmap_lookup:
  assumes "fvalid p s"
  shows "wp (sfs_bmap p k False)
    (\<lambda>b s'. fs_same s s' \<and> k < max_fileblocks \<and> b = bmap_fun (fino s p) (disk s) k)
    (\<lambda>e s'. fs_same s s' \<and> (e = EINVAL \<and> max_fileblocks \<le> k \<or> e = EIO \<and> k < max_fileblocks)) s"
proof -
  note v = fvalidD[OF assms]
  let ?i = "fino s p"
  obtain sv where sv: "svs s p = Some sv" "sv_i sv = ?i" using fvalidE[OF assms] .
  have hand: "wp (sfs_bmap_hand (bmap_fun ?i (disk s) k)) Q E s' = Q (bmap_fun ?i (disk s) k) s'"
    if "fs_same s s'" for s' Q E
    using fs_sameD[OF that] fvalid_block[OF assms, of k] by (intro wp_bmap_hand) auto
  consider "k < 15" | "15 \<le> k" "k < 143" | "143 \<le> k" by linarith
  then show ?thesis
  proof cases
    case 1
    then have "sfi_direct ?i ! k = bmap_fun ?i (disk s) k" by (simp add: bmap_fun_def)
    with 1 sv hand[OF fs_same_refl[OF v(1)]] show ?thesis
      by (simp add: sfs_bmap_def SFS_NDIRECT_def sfs_bmap_direct_def wp_rules Let_def fs_same_refl v(1))
  next
    case 2
    then have j: "k - 15 < 128" by simp
    show ?thesis
    proof (cases "sfi_indirect ?i = 0")
      case True
      with 2 j sv show ?thesis
        by (simp add: sfs_bmap_def SFS_NDIRECT_def SFS_DBPERIDB_def sfs_bmap_indirect_def wp_rules Let_def
            fs_same_refl v(1) bmap_fun_def)
    next
      case False
      note ib = fvalid_indirect[OF assms False]
      have bm: "bytes_words 128 (disk s (sfi_indirect ?i)) ! (k - 15) = bmap_fun ?i (disk s) k"
        using 2 False by (simp add: bmap_fun_def)
      have "wp (sfs_rblock (sfi_indirect ?i))
        (\<lambda>data s'. wp (sfs_bmap_hand (bytes_words 128 data ! (k - 15)))
           (\<lambda>b s'. fs_same s s' \<and> k < max_fileblocks \<and> b = bmap_fun ?i (disk s) k)
           (\<lambda>e s'. fs_same s s' \<and> (e = EINVAL \<and> max_fileblocks \<le> k \<or> e = EIO \<and> k < max_fileblocks)) s')
        (\<lambda>e s'. fs_same s s' \<and> (e = EINVAL \<and> max_fileblocks \<le> k \<or> e = EIO \<and> k < max_fileblocks)) s"
        by (rule wp_mono[OF wp_sfs_rblock[OF v(1) ib(2)]]) (use 2 bm hand in auto)
      with 2 j False sv show ?thesis
        by (simp add: sfs_bmap_def SFS_NDIRECT_def SFS_DBPERIDB_def sfs_bmap_indirect_def
            sfs_bmap_idblock_def wp_rules Let_def)
    qed
  next
    case 3
    then have "(k - 15) div 128 > 0" by (simp add: div_greater_zero_iff)
    with 3 show ?thesis
      by (simp add: sfs_bmap_def SFS_NDIRECT_def SFS_DBPERIDB_def sfs_bmap_indirect_def wp_rules
          fs_same_refl v(1))
  qed
qed

section \<open>Allocating blocks\<close>

text \<open>The file has grown, and its contents are what they were.\<close>

definition fkept :: "svp \<Rightarrow> sfs_fs \<Rightarrow> sfs_fs \<Rightarrow> bool" where
  "fkept p s s' \<longleftrightarrow> fgrown p s s' \<and> fcont s' p = fcont s p"

lemma fkept_refl: "fvalid p s \<Longrightarrow> fkept p s s"
  by (simp add: fkept_def fgrown_refl)

lemma fkept_trans: "fkept p s t \<Longrightarrow> fkept p t v \<Longrightarrow> fkept p s v"
  unfolding fkept_def using fgrown_trans by metis

lemma fkept_valid: "fkept p s s' \<Longrightarrow> fvalid p s'"
  unfolding fkept_def using fgrown_valid by blast

lemma fs_same_fkept: "fs_same s s' \<Longrightarrow> fvalid p s \<Longrightarrow> fkept p s s'"
  by (simp add: fkept_def fs_same_fvalid)

lemma fs_alloced_fresh:
  assumes "fs_ok s" "fs_alloced b s t"
  shows "b \<notin> usedset s" "b \<noteq> 0" "b < 2 ^ 32" "usedset t = insert b (usedset s)" "disk t = (disk s)(b := zero_block)"
    "svs t = svs s" "fs_frame s t" "sfs_freemapdirty t" "b < nblk s"
proof -
  show nu: "b \<notin> usedset s" and "usedset t = insert b (usedset s)" "disk t = (disk s)(b := zero_block)"
    "svs t = svs s" "fs_frame s t" "sfs_freemapdirty t" and lt: "b < nblk s"
    using assms(2) by (simp_all add: fs_alloced_def)
  have "0 \<in> usedset s" using assms(1) by (simp add: fs_ok_def)
  with nu show "b \<noteq> 0" by metis
  show "b < 2 ^ 32" using lt fs_okD(6)[OF assms(1)] by simp
qed

lemma usedset_svs [simp]: "usedset (t\<lparr>svs := h\<rparr>) = usedset t"
  by (simp add: usedset_def)

lemma fs_ok_svs [simp]: "fs_ok (t\<lparr>svs := h\<rparr>) = fs_ok t"
  by (simp add: fs_ok_def)

lemma fs_frame_svs: "fs_frame s t \<Longrightarrow> fs_frame s (t\<lparr>svs := h\<rparr>)"
  by (simp add: fs_frame_def)

lemma fkept_alloc_inode:
  assumes "fvalid p s" "fs_alloced b s t" "svs t p = Some sv"
    and "grown (fino s p) (disk s) (usedset s) i' (disk t) (usedset t)" "file_byte i' (disk t) = file_byte (fino s p) (disk s)"
    and "sv' = sv\<lparr>sv_i := i', sv_dirty := True\<rparr>"
  shows "fkept p s (t\<lparr>svs := (svs t)(p \<mapsto> sv')\<rparr>)"
    "fino (t\<lparr>svs := (svs t)(p \<mapsto> sv')\<rparr>) p = i'"
proof -
  note a = fs_alloced_fresh[OF fvalidD(1)[OF assms(1)] assms(2)]
  let ?s = "t\<lparr>svs := (svs t)(p \<mapsto> sv')\<rparr>"
  show i: "fino ?s p = i'" by (simp add: fino_def assms(6))
  have "usedset ?s = usedset t" by (simp add: usedset_def)
  then have "fgrown p s ?s"
    unfolding fgrown_def using assms(3,4,6) a i fs_frame_svs[OF a(7)] by auto
  then show "fkept p s ?s" using assms(5) i by (simp add: fkept_def fcont_def)
qed

lemma wp_sfs_bmap_direct_alloc:
  assumes "fvalid p s" "k < 15"
  shows "wp (sfs_bmap_direct p k True)
    (\<lambda>b s'. fkept p s s' \<and> b \<noteq> 0 \<and> b = bmap_fun (fino s' p) (disk s') k)
    (\<lambda>e s'. fkept p s s' \<and> e = ENOSPC) s"
proof -
  note v = fvalidD[OF assms(1)]
  let ?i = "fino s p"
  obtain sv where sv: "svs s p = Some sv" "sv_i sv = ?i" using fvalidE[OF assms(1)] .
  have bm: "sfi_direct ?i ! k = bmap_fun ?i (disk s) k" using assms(2) by (simp add: bmap_fun_def)
  show ?thesis
  proof (cases "sfi_direct ?i ! k = 0")
    case False
    then have "wp (sfs_bmap_hand (sfi_direct ?i ! k)) Q E s = Q (sfi_direct ?i ! k) s" for Q E
      using bm fvalid_block[OF assms(1), of k] v(1) by (intro wp_bmap_hand) auto
    with False sv bm fkept_refl[OF assms(1)] show ?thesis
      by (simp add: sfs_bmap_direct_def wp_rules Let_def)
  next
    case True
    let ?upd = "\<lambda>b i. i\<lparr>sfi_direct := (sfi_direct i)[k := b]\<rparr>"
    have "wp sfs_balloc (\<lambda>b. wp (sv_inode p (?upd b)) (\<lambda>_. wp (sfs_bmap_hand b)
        (\<lambda>b s'. fkept p s s' \<and> b \<noteq> 0 \<and> b = bmap_fun (fino s' p) (disk s') k) (\<lambda>e s'. fkept p s s' \<and> e = ENOSPC))
        (\<lambda>e s'. fkept p s s' \<and> e = ENOSPC)) (\<lambda>e s'. fkept p s s' \<and> e = ENOSPC) s"
    proof (rule wp_mono[OF wp_sfs_balloc[OF v(1)]])
      fix b t assume b: "fs_alloced b s t"
      note a = fs_alloced_fresh[OF v(1) b]
      note g = add_direct[OF v(2) a(1,2,3) assms(2) True, folded a(5,4)]
      have svt: "svs t p = Some sv" using a(6) sv(1) by simp
      let ?sv = "sv\<lparr>sv_i := ?upd b ?i, sv_dirty := True\<rparr>"
      note f = fkept_alloc_inode[OF assms(1) b svt g(2,3) refl]
      have bb: "bmap_fun (?upd b ?i) (disk t) k = b" by (simp add: g(1))
      have "wp (sfs_bmap_hand b) Q E (t\<lparr>svs := (svs t)(p \<mapsto> ?sv)\<rparr>) = Q b (t\<lparr>svs := (svs t)(p \<mapsto> ?sv)\<rparr>)" for Q E
        using fvalidD(1)[OF fkept_valid[OF f(1)]] a(4) by (intro wp_bmap_hand) (auto simp: usedset_def)
      with svt sv(2) f bb a(2) show "wp (sv_inode p (?upd b)) (\<lambda>_. wp (sfs_bmap_hand b)
          (\<lambda>b s'. fkept p s s' \<and> b \<noteq> 0 \<and> b = bmap_fun (fino s' p) (disk s') k) (\<lambda>e s'. fkept p s s' \<and> e = ENOSPC))
          (\<lambda>e s'. fkept p s s' \<and> e = ENOSPC) t"
        by (simp add: wp_sv_inode)
    qed (auto intro: fs_same_fkept assms(1))
    with True sv show ?thesis by (simp add: sfs_bmap_direct_def wp_rules Let_def)
  qed
qed

lemma wp_sfs_bmap_idblock:
  assumes "fvalid p s"
  shows "wp (sfs_bmap_idblock p (sfi_indirect (fino s p)))
    (\<lambda>r s'. fkept p s s' \<and> fst r = sfi_indirect (fino s' p) \<and> fst r \<noteq> 0 \<and> snd r = bytes_words 128 (disk s' (fst r)))
    (\<lambda>e s'. fkept p s s' \<and> (e = EIO \<or> e = ENOSPC)) s"
proof -
  note v = fvalidD[OF assms(1)]
  let ?i = "fino s p"
  obtain sv where sv: "svs s p = Some sv" "sv_i sv = ?i" using fvalidE[OF assms(1)] .
  show ?thesis
  proof (cases "sfi_indirect ?i = 0")
    case False
    note ib = fvalid_indirect[OF assms False]
    have "wp (sfs_rblock (sfi_indirect ?i)) (\<lambda>data s'. fkept p s s' \<and> sfi_indirect ?i = sfi_indirect (fino s' p) \<and>
        bytes_words 128 data = bytes_words 128 (disk s' (sfi_indirect ?i)))
      (\<lambda>e s'. fkept p s s' \<and> (e = EIO \<or> e = ENOSPC)) s"
      by (rule wp_mono[OF wp_sfs_rblock[OF v(1) ib(2)]])
        (auto intro: fs_same_fkept assms(1) simp: fs_same_fvalid(2)[OF _ assms(1)] fs_sameD)
    with False show ?thesis by (simp add: sfs_bmap_idblock_def wp_rules SFS_DBPERIDB_def)
  next
    case True
    have "wp sfs_balloc (\<lambda>b. wp (sv_inode p (\<lambda>i. i\<lparr>sfi_indirect := b\<rparr>)) (\<lambda>_ s'. fkept p s s' \<and>
         b = sfi_indirect (fino s' p) \<and> b \<noteq> 0 \<and> replicate 128 0 = bytes_words 128 (disk s' b))
        (\<lambda>e s'. fkept p s s' \<and> (e = EIO \<or> e = ENOSPC))) (\<lambda>e s'. fkept p s s' \<and> (e = EIO \<or> e = ENOSPC)) s"
    proof (rule wp_mono[OF wp_sfs_balloc[OF v(1)]])
      fix b t assume b: "fs_alloced b s t"
      note a = fs_alloced_fresh[OF v(1) b]
      note g = add_indirect[OF v(2) a(1,2,3) True, folded a(5,4)]
      have svt: "svs t p = Some sv" using a(6) sv(1) by simp
      note f = fkept_alloc_inode[OF assms(1) b svt g(2,3) refl]
      have "disk t b = zero_block" by (simp add: a(5))
      with svt sv(2) f a(2) show "wp (sv_inode p (\<lambda>i. i\<lparr>sfi_indirect := b\<rparr>)) (\<lambda>_ s'. fkept p s s' \<and>
         b = sfi_indirect (fino s' p) \<and> b \<noteq> 0 \<and> replicate 128 0 = bytes_words 128 (disk s' b))
        (\<lambda>e s'. fkept p s s' \<and> (e = EIO \<or> e = ENOSPC)) t"
        by (simp add: wp_sv_inode words_zero_block)
    qed (auto intro: fs_same_fkept assms(1))
    with True show ?thesis by (simp add: sfs_bmap_idblock_def wp_rules SFS_DBPERIDB_def)
  qed
qed

lemma fkept_wrote_indirect:
  assumes "fvalid p s" "fs_alloced b s t" "fs_wrote ib (words_bytes ((bytes_words 128 (disk s ib))[k := b])) t s'"
    and "ib = sfi_indirect (fino s p)" "ib \<noteq> 0" "k < 128" "bytes_words 128 (disk s ib) ! k = 0"
  shows "fkept p s s'" "bmap_fun (fino s' p) (disk s') (15 + k) = b" "b \<noteq> 0" "b \<in> usedset s'"
proof -
  note v = fvalidD[OF assms(1)]
  note a = fs_alloced_fresh[OF v(1) assms(2)]
  note w = fs_wroteD[OF assms(3)]
  note g = add_in_indirect[OF v(2) a(1,2,3) assms(6), folded assms(4), OF assms(5,7)]
  have i: "fino s' p = fino s p" by (simp add: fino_def w a)
  have d: "disk s' = (disk s)(b := zero_block, ib := words_bytes ((bytes_words 128 (disk s ib))[k := b]))"
    by (simp add: w a)
  obtain sv where sv: "svs s p = Some sv" using fvalidE[OF assms(1)] .
  have u: "usedset s' = insert b (usedset s)" by (simp add: w a)
  have "sfs_freemapdirty s'" using assms(3) a(8) by (simp add: fs_wrote_def)
  moreover have "fs_frame s s'" using fs_frame_trans[OF a(7) w(1)] .
  ultimately have "fgrown p s s'"
    using g(2)[folded d] sv unfolding fgrown_def by (auto simp: w a u i)
  moreover have "fcont s' p = fcont s p" using g(3)[folded d] by (simp add: fcont_def i)
  ultimately show "fkept p s s'" by (simp add: fkept_def)
  show "bmap_fun (fino s' p) (disk s') (15 + k) = b" using g(1)[folded d] by (simp add: i)
  show "b \<noteq> 0" "b \<in> usedset s'" using a(2) u by simp_all
qed

lemma wp_sfs_bmap_alloc:
  assumes "fvalid p s"
  shows "wp (sfs_bmap p k True)
    (\<lambda>b s'. fkept p s s' \<and> k < max_fileblocks \<and> b \<noteq> 0 \<and> b = bmap_fun (fino s' p) (disk s') k)
    (\<lambda>e s'. fkept p s s' \<and> (e = EINVAL \<and> max_fileblocks \<le> k \<or> (e = EIO \<or> e = ENOSPC) \<and> k < max_fileblocks)) s"
    (is "wp _ ?Q ?E s")
proof -
  note v = fvalidD[OF assms(1)]
  consider "k < 15" | "15 \<le> k" "k < 143" | "143 \<le> k" by linarith
  then show ?thesis
  proof cases
    case 1
    then show ?thesis unfolding sfs_bmap_def SFS_NDIRECT_def
      by (simp, intro wp_mono[OF wp_sfs_bmap_direct_alloc[OF assms]]) auto
  next
    case 3
    then have "(k - 15) div 128 > 0" by (simp add: div_greater_zero_iff)
    with 3 show ?thesis
      by (simp add: sfs_bmap_def SFS_NDIRECT_def SFS_DBPERIDB_def sfs_bmap_indirect_def wp_rules
          fkept_refl[OF assms])
  next
    case 2
    define j where "j = k - 15"
    have j: "j < 128" "k = 15 + j" using 2 by (auto simp: j_def)
    let ?rest = "\<lambda>r. bind (if snd r ! j = 0 then bind sfs_balloc (\<lambda>block.
           bind (sfs_wblock (words_bytes ((snd r)[j := block])) (fst r)) (\<lambda>_. ret block)) else ret (snd r ! j))
         sfs_bmap_hand"
    have rest: "wp (?rest r) ?Q ?E t" if t: "fkept p s t" "fst r = sfi_indirect (fino t p)" "fst r \<noteq> 0"
        "snd r = bytes_words 128 (disk t (fst r))" for r t
    proof -
      have vt: "fvalid p t" by (rule fkept_valid[OF t(1)])
      note vt' = fvalidD[OF vt]
      have bm: "snd r ! j = bmap_fun (fino t p) (disk t) k"
        using j t(2-4) by (simp add: bmap_fun_def)
      show ?thesis
      proof (cases "snd r ! j = 0")
        case False
        then have "wp (sfs_bmap_hand (snd r ! j)) Q E t = Q (snd r ! j) t" for Q E
          using bm fvalid_block[OF vt, of k] vt'(1) by (intro wp_bmap_hand) auto
        with False bm t(1) 2 show ?thesis by (simp add: wp_rules)
      next
        case True
        have "wp sfs_balloc (\<lambda>b. wp (sfs_wblock (words_bytes ((snd r)[j := b])) (fst r)) (\<lambda>_. wp (sfs_bmap_hand b) ?Q ?E) ?E) ?E t"
        proof (rule wp_mono[OF wp_sfs_balloc[OF vt'(1)]])
          fix b t1 assume b: "fs_alloced b t t1"
          note a = fs_alloced_fresh[OF vt'(1) b]
          have "fst r < nblk t1"
            using fvalid_indirect[OF vt] t(2,3) fs_frameD(2)[OF a(7)] by simp
          then show "wp (sfs_wblock (words_bytes ((snd r)[j := b])) (fst r)) (\<lambda>_. wp (sfs_bmap_hand b) ?Q ?E) ?E t1"
          proof (rule wp_mono[OF wp_sfs_wblock[OF fs_frameD(1)[OF a(7)]]])
            show "length (words_bytes ((snd r)[j := b])) = 512" by (simp add: t(4))
            fix x t2 assume w: "fs_wrote (fst r) (words_bytes ((snd r)[j := b])) t1 t2"
            note k = fkept_wrote_indirect[OF vt b w[unfolded t(4)] t(2,3) j(1) True[unfolded t(4)]]
            have "wp (sfs_bmap_hand b) ?Q ?E t2 = ?Q b t2"
              by (rule wp_bmap_hand[OF fvalidD(1)[OF fkept_valid[OF k(1)]]]) (rule k(4))
            then show "wp (sfs_bmap_hand b) ?Q ?E t2"
              using k(2,3) fkept_trans[OF t(1) k(1)] 2 j(2) by simp
          qed simp
        next
          fix e t1 assume "e = ENOSPC \<and> fs_same t t1 \<and> usedset t = {..<nblk t}"
          then show "?E e t1" using 2 fkept_trans[OF t(1) fs_same_fkept[OF _ vt]] by auto
        qed
        with True show ?thesis by (simp add: wp_rules)
      qed
    qed
    have main: "wp (sfs_bmap_idblock p (sfi_indirect (fino s p))) (\<lambda>r. wp (?rest r) ?Q ?E) ?E s"
      by (rule wp_mono[OF wp_sfs_bmap_idblock[OF assms]]) (use rest 2 in auto)
    obtain sv where "svs s p = Some sv" "sv_i sv = fino s p" using fvalidE[OF assms(1)] .
    with main[unfolded j_def] 2 show ?thesis
      by (simp add: sfs_bmap_def SFS_NDIRECT_def SFS_DBPERIDB_def sfs_bmap_indirect_def
          wp_bind wp_sv_get split_beta Let_def)
  qed
qed

end
