(* ===== verification/Sfs_File.thy ===== *)
theory Sfs_File
  imports Sfs_Bmap
begin

text \<open>
  Reading and writing files: \<open>sfs_io\<close> moves exactly the bytes of the file that the descriptor asks for,
  through partial blocks at the ends and whole blocks in between.
\<close>

section \<open>The structure of an I/O operation\<close>

text \<open>
  The leading partial block, the whole blocks and the trailing partial block, for any predicate that
  each of the two block routines advances.
\<close>

lemma sfs_io_blocks_rule:
  fixes n off :: nat
  assumes I: "\<And>k st. I k st \<Longrightarrow> k \<le> n \<Longrightarrow> uio_resid (fst st) = n - k \<and> uio_offset (fst st) = int (off + k)"
    and part: "\<And>k m st. I k st \<Longrightarrow> k + m \<le> n \<Longrightarrow> (off + k) mod 512 + m \<le> 512 \<Longrightarrow> 0 < m \<Longrightarrow>
      k + m = n \<or> (off + k + m) mod 512 = 0 \<Longrightarrow> wp (sfs_partialio p ((off + k) mod 512) m) (\<lambda>_. I (k + m)) E st"
    and whole: "\<And>k st. I k st \<Longrightarrow> k + 512 \<le> n \<Longrightarrow> (off + k) mod 512 = 0 \<Longrightarrow>
      wp (sfs_blockio p) (\<lambda>_. I (k + 512)) E st"
    and init: "I 0 st" and lim: "off + n < 2 ^ 31" and pos: "0 < n"
  shows "wp (sfs_io_blocks p) (\<lambda>_. I n) E st"
proof -
  let ?b = "off mod 512"
  have crem: "crem (int (off + k)) 512 = int ((off + k) mod 512)" for k
    by (simp add: zmod_int)
  define R where "R = bind (gets fst) (\<lambda>u.
     if uio_resid u = 0 then ret ()
     else
       bind (assertk (crem (uio_offset u) (int SFS_BLOCKSIZE) = 0) ''uio->uio_offset % SFS_BLOCKSIZE == 0'') (\<lambda>_.
       bind (foreach [0..<uio_resid u div SFS_BLOCKSIZE] (\<lambda>_. sfs_blockio p)) (\<lambda>_.
       bind (gets fst) (\<lambda>u.
       bind (assertk (uio_resid u < SFS_BLOCKSIZE) ''uio->uio_resid < SFS_BLOCKSIZE'') (\<lambda>_.
       if uio_resid u > 0 then sfs_partialio p 0 (uio_resid u) else ret ())))))"
  have blocks: "sfs_io_blocks p = bind (gets fst) (\<lambda>u. let blkoff = u32 (crem (uio_offset u) (int SFS_BLOCKSIZE)) in
     bind (if blkoff \<noteq> 0 then sfs_partialio p blkoff (min (u32 (int SFS_BLOCKSIZE - int blkoff)) (uio_resid u))
           else ret ()) (\<lambda>_. R))"
    unfolding sfs_io_blocks_def R_def ..
  have rest: "wp R (\<lambda>_. I n) E st1"
    if st1: "I k st1" "k \<le> n" "k < n \<Longrightarrow> (off + k) mod 512 = 0" for k st1
  proof (cases "k = n")
    case True
    with st1 I[OF st1(1,2)] show ?thesis by (simp add: R_def wp_rules)
  next
    case False
    define q where "q = (n - k) div 512"
    have q: "k + 512 * q \<le> n" "n - (k + 512 * q) < 512"
    proof -
      have "512 * q + (n - k) mod 512 = n - k" by (simp add: q_def)
      moreover have "(n - k) mod 512 < 512" by simp
      ultimately show "k + 512 * q \<le> n" "n - (k + 512 * q) < 512" using st1(2) by linarith+
    qed
    have al: "(off + k) mod 512 = 0" using st1 False by simp
    then have al': "(off + (k + 512 * i)) mod 512 = 0" for i
      by (metis add.assoc mod_mult_self2)
    have loop: "wp (foreach [0..<q] (\<lambda>_. sfs_blockio p)) (\<lambda>_. I (k + 512 * q)) E st1"
    proof -
      have "wp (foreach [0..<q] (\<lambda>_. sfs_blockio p)) (\<lambda>_. I (k + 512 * length [0..<q])) E st1"
      proof (rule wp_foreach[where I = "\<lambda>ys. I (k + 512 * length ys)"])
        fix ys zs t and x :: nat assume x: "[0..<q] = ys @ x # zs" "I (k + 512 * length ys) t"
        have "512 * Suc x \<le> 512 * q" using upt_splitD(3)[OF x(1)] by simp
        then have "k + 512 * length ys + 512 \<le> n" using upt_splitD(1)[OF x(1)] q(1) by simp
        from whole[OF x(2) this al'] show "wp (sfs_blockio p) (\<lambda>_. I (k + 512 * length (ys @ [x]))) E t"
          by (simp add: ac_simps)
      qed (use st1 in simp)
      then show ?thesis by simp
    qed
    let ?tail = "bind (gets fst) (\<lambda>u. bind (assertk (uio_resid u < SFS_BLOCKSIZE) ''uio->uio_resid < SFS_BLOCKSIZE'') (\<lambda>_.
       if uio_resid u > 0 then sfs_partialio p 0 (uio_resid u) else ret ()))"
    have tail: "wp ?tail (\<lambda>_. I n) E t" if t: "I (k + 512 * q) t" for t
    proof -
      note r = I[OF t q(1)]
      show ?thesis
      proof (cases "k + 512 * q = n")
        case True
        with r t show ?thesis by (simp add: wp_rules SFS_BLOCKSIZE_def)
      next
        case False
        then have "wp (sfs_partialio p 0 (n - (k + 512 * q))) (\<lambda>_. I (k + 512 * q + (n - (k + 512 * q)))) E t"
          using part[OF t, of "n - (k + 512 * q)"] q al'[of q] by simp
        with r q False show ?thesis by (simp add: wp_rules SFS_BLOCKSIZE_def)
      qed
    qed
    have "wp (foreach [0..<q] (\<lambda>_. sfs_blockio p)) (\<lambda>_. wp ?tail (\<lambda>_. I n) E) E st1"
      by (rule wp_mono[OF loop]) (auto intro: tail)
    then show ?thesis
      using I[OF st1(1,2)] False st1(2) al crem[of k]
      by (simp add: R_def wp_bind wp_gets wp_assertk SFS_BLOCKSIZE_def q_def)
  qed
  note r0 = I[OF init, simplified]
  have u32: "u32 (int ?b) = ?b" by (intro u32_id) (simp add: less_trans[of _ 512])
  show ?thesis
  proof (cases "?b = 0")
    case True
    with rest[OF init] r0 u32 crem[of 0] show ?thesis
      by (simp add: blocks wp_bind wp_gets wp_ret SFS_BLOCKSIZE_def Let_def)
  next
    case False
    define m where "m = min (512 - ?b) n"
    have b: "?b < 512" by simp
    have m: "0 < m" "m \<le> n" "?b + m \<le> 512" using pos b by (auto simp: m_def)
    have al: "(off + m) mod 512 = 0" if "m < n"
    proof -
      have "m = 512 - ?b" using that by (auto simp: m_def min_def split: if_splits)
      moreover have "off = 512 * (off div 512) + ?b" by simp
      ultimately have "off + m = 512 * (off div 512) + 512" using b by linarith
      then show ?thesis by simp
    qed
    have sub: "u32 (512 - int ?b) = 512 - ?b"
    proof -
      have "512 - int ?b = int 512 - int ?b" by simp
      also have "u32 \<dots> = 512 - ?b" using b by (intro u32_diff) simp_all
      finally show ?thesis .
    qed
    have "wp (sfs_partialio p ?b m) (\<lambda>_. I m) E st" using part[OF init, of m] m al by fastforce
    then have "wp (sfs_partialio p ?b m) (\<lambda>_. wp R (\<lambda>_. I n) E) E st"
      by (rule wp_mono) (auto intro: rest m al)
    then show ?thesis
      using False r0 u32 sub crem[of 0] unfolding m_def
      by (simp add: blocks wp_bind wp_gets SFS_BLOCKSIZE_def Let_def)
  qed
qed

section \<open>Bytes and blocks of a file\<close>

definition fslice :: "sfs_fs \<Rightarrow> svp \<Rightarrow> nat \<Rightarrow> nat \<Rightarrow> byte list" where
  "fslice s p off n = map (fcont s p) [off..<off + n]"

definition fput :: "(nat \<Rightarrow> byte) \<Rightarrow> nat \<Rightarrow> byte list \<Rightarrow> nat \<Rightarrow> byte" where
  "fput f off xs = (\<lambda>x. if off \<le> x \<and> x < off + length xs then xs ! (x - off) else f x)"

lemma length_fslice [simp]: "length (fslice s p off n) = n"
  by (simp add: fslice_def)

lemma fslice_0 [simp]: "fslice s p off 0 = []"
  by (simp add: fslice_def)

lemma fslice_add: "fslice s p off (n + k) = fslice s p off n @ fslice s p (off + n) k"
  using upt_add_eq_append[of off "off + n" k] by (simp add: fslice_def add.assoc)

lemma fput_Nil [simp]: "fput f off [] = f"
  by (rule ext) (auto simp: fput_def)

lemma fput_append: "fput (fput f off xs) (off + length xs) ys = fput f off (xs @ ys)"
  by (rule ext) (auto simp: fput_def nth_append)

lemma file_block:
  assumes "fvalid p s"
  shows "fslice s p (512 * k) 512 =
    (let b = bmap_fun (fino s p) (disk s) k in if b = 0 then zero_block else disk s b)"
proof -
  let ?b = "bmap_fun (fino s p) (disk s) k"
  have div: "(512 * k + j) div 512 = k" "(512 * k + j) mod 512 = j" if "j < 512" for j
    using that by simp_all
  have "fslice s p (512 * k) 512 ! j = (if ?b = 0 then zero_block else disk s ?b) ! j" if "j < 512" for j
    using that by (simp add: fslice_def fcont_def file_byte_def Let_def div zero_block_def)
  moreover have "?b \<noteq> 0 \<Longrightarrow> length (disk s ?b) = 512"
    using disk_length[OF fvalidD(1)[OF assms]] fvalid_block(2)[OF assms] by simp
  ultimately show ?thesis by (intro nth_equalityI) (auto simp: Let_def)
qed

lemma fslice_in_block:
  assumes "off mod 512 + len \<le> 512"
  shows "take len (drop (off mod 512) (fslice s p (512 * (off div 512)) 512)) = fslice s p off len"
proof -
  have "512 = off mod 512 + (len + (512 - (off mod 512 + len)))" using assms by simp
  then have "fslice s p (512 * (off div 512)) 512 = fslice s p (512 * (off div 512)) (off mod 512) @
      fslice s p (512 * (off div 512) + off mod 512) len @
      fslice s p (512 * (off div 512) + off mod 512 + len) (512 - (off mod 512 + len))"
    by (metis fslice_add)
  then show ?thesis by simp
qed

lemma wp_move_buf:
  "wp (move_buf buf a n) Q E st = wp (uiomove a n) (\<lambda>_ st'. Q (fst st') (snd st', snd st)) (\<lambda>e st'. E e (snd st', snd st)) (buf, fst st)"
  by (cases st) (auto simp: wp_def move_buf_def split: outcome.splits)

lemma wp_on_fs_fun: "wp (on_fs m) Q E = (\<lambda>st. wp m (\<lambda>a s'. Q a (fst st, s')) (\<lambda>e s'. E e (fst st, s')) (snd st))"
  by (rule ext) (simp add: wp_on_fs)

lemma fileblock: "0 \<le> x \<Longrightarrow> x < 2 ^ 31 \<Longrightarrow> u32 (cdiv x 512) = nat x div 512"
proof -
  assume x: "0 \<le> x" "x < 2 ^ 31"
  have "x div 512 \<le> x" using int_div_less_self[of x 512] x(1) by (cases "x = 0") simp_all
  then have "x div 512 < 2 ^ 32" using x by simp
  then show ?thesis using x by (simp add: u32_nonneg nat_div_distrib)
qed

section \<open>Reading\<close>

lemma wp_partialio_read:
  assumes "fvalid p s" "uio_rw u = UIO_READ" "uio_ready u len" "off = nat (uio_offset u)" "off mod 512 + len \<le> 512"
  shows "wp (sfs_partialio p (off mod 512) len)
    (\<lambda>_ st. fs_same s (snd st) \<and> fst st = uio_done len (put_bytes (uio_mem u) (iov_base u) (fslice s p off len)) u)
    (\<lambda>e st. fs_same s (snd st) \<and> fst st = u \<and> (e = EIO \<or> e = EINVAL \<and> max_fileblocks \<le> off div 512)) (u, s)"
    (is "wp _ ?Q ?E _")
proof -
  have o: "0 \<le> uio_offset u" "uio_offset u < 2 ^ 31" using assms(3) by (auto simp: uio_ready_def)
  note fb = fileblock[OF o, folded assms(4)]
  have u: "u32 (int (off mod 512) + int len) \<le> 512" using assms(5) by (subst u32_nonneg) auto
  note v = fvalidD[OF assms(1)]
  let ?b = "bmap_fun (fino s p) (disk s) (off div 512)"
  have move: "wp (move_buf buf (off mod 512) len) (\<lambda>_. ?Q ()) ?E (u, s')"
    if "buf = fslice s p (512 * (off div 512)) 512" "fs_same s s'" for buf s'
  proof -
    have "uiomove (off mod 512) len (buf, u) = Ok () (buf, uio_done len (put_bytes (uio_mem u) (iov_base u) (fslice s p off len)) u)"
      using uiomove_read[OF assms(3,2), of "off mod 512" buf] assms(5) that(1) fslice_in_block[OF assms(5), of s p] by simp
    then show ?thesis using that(2) unfolding wp_move_buf by (simp add: wp_def)
  qed
  have after: "wp (if b = 0 then ret (replicate 512 0) else on_fs (sfs_rblock b))
      (\<lambda>iobuf. wp (move_buf iobuf (off mod 512) len) (\<lambda>_. ?Q ()) ?E) ?E (u, s')"
    if s': "fs_same s s'" and b: "b = ?b" for b s'
  proof (cases "b = 0")
    case True
    then show ?thesis using move[OF _ s'] file_block[OF assms(1), of "off div 512"] b
      by (simp add: wp_ret zero_block_def)
  next
    case False
    note d = fs_sameD[OF s']
    have lt: "b < nblk s'" using fvalid_block(2)[OF assms(1)] False b d(5) by simp
    have "disk s b = fslice s p (512 * (off div 512)) 512"
      using file_block[OF assms(1), of "off div 512"] False b by (simp add: Let_def)
    then have "wp (sfs_rblock b) (\<lambda>iobuf s''. wp (move_buf iobuf (off mod 512) len) (\<lambda>_. ?Q ()) ?E (u, s''))
        (\<lambda>e s''. ?E e (u, s'')) s'"
      using d(3) fs_same_trans[OF s'] by (intro wp_mono[OF wp_sfs_rblock[OF d(2) lt]]) (auto intro: move)
    with False show ?thesis by (simp add: wp_on_fs)
  qed
  have "wp (sfs_bmap p (off div 512) False) (\<lambda>b s'. wp (if b = 0 then ret (replicate 512 0) else on_fs (sfs_rblock b))
      (\<lambda>iobuf. wp (move_buf iobuf (off mod 512) len) (\<lambda>_. ?Q ()) ?E) ?E (u, s')) (\<lambda>e s'. ?E e (u, s')) s"
    by (rule wp_mono[OF wp_sfs_bmap_lookup[OF assms(1)]]) (use after in auto)
  then show ?thesis
    using u assms(2) fb by (simp add: sfs_partialio_def wp_rules SFS_BLOCKSIZE_def Let_def cong: if_cong)
qed

lemma uio_restore:
  assumes "0 \<le> uio_offset u" "uio_offset u + 512 < 2 ^ 31" "512 \<le> uio_resid u" "uio_resid u < 2 ^ 31"
  shows "(uio_done 512 m (u\<lparr>uio_offset := x, uio_resid := 512\<rparr>))
      \<lparr>uio_offset := s32 (x + 512 - x + uio_offset u), uio_resid := u32 (0 - 512 + s32 (int (uio_resid u)))\<rparr> = uio_done 512 m u"
    "(u\<lparr>uio_offset := x, uio_resid := 512\<rparr>)
      \<lparr>uio_offset := s32 (x - x + uio_offset u), uio_resid := u32 (512 - 512 + s32 (int (uio_resid u)))\<rparr> = u"
proof -
  have "s32 (512 + uio_offset u) = 512 + uio_offset u" "s32 (uio_offset u) = uio_offset u" using assms by simp_all
  moreover have "s32 (int (uio_resid u)) = int (uio_resid u)" using assms(4) by (intro s32_id) auto
  moreover have "u32 (int (uio_resid u) - 512) = uio_resid u - 512" using assms(3,4) u32_diff[of 512 "uio_resid u"] by simp
  moreover have "u32 (int (uio_resid u)) = uio_resid u" using assms(4) by simp
  ultimately show "(uio_done 512 m (u\<lparr>uio_offset := x, uio_resid := 512\<rparr>))
      \<lparr>uio_offset := s32 (x + 512 - x + uio_offset u), uio_resid := u32 (0 - 512 + s32 (int (uio_resid u)))\<rparr> = uio_done 512 m u"
    "(u\<lparr>uio_offset := x, uio_resid := 512\<rparr>)
      \<lparr>uio_offset := s32 (x - x + uio_offset u), uio_resid := u32 (512 - 512 + s32 (int (uio_resid u)))\<rparr> = u"
    by (cases u, simp add: uio_done_def add.commute)+
qed

text \<open>A whole block, from what the block map and the device do.\<close>

abbreviation on_block :: "nat \<Rightarrow> uio \<Rightarrow> uio" where
  "on_block b u \<equiv> u\<lparr>uio_offset := 512 * int b, uio_resid := 512\<rparr>"

lemma on_block_ready:
  assumes "uio_ready u 512" "b + 1 < 2 ^ 22"
  shows "uio_ready (on_block b u) 512"
proof -
  have "512 * int b + 512 < 2 ^ 31" using assms(2) by simp
  then show ?thesis using assms(1) by (auto simp: uio_ready_def uio_space_ok_def)
qed

lemma wp_sfs_blockio:
  assumes u: "uio_ready u 512" "uio_resid u < 2 ^ 31" and off: "off = nat (uio_offset u)"
    and bm: "wp (sfs_bmap p (off div 512) (uio_rw u = UIO_WRITE)) P (\<lambda>e s'. E e (u, s')) s"
    and hole: "\<And>s'. P 0 s' \<Longrightarrow>
      uio_rw u = UIO_READ \<and> Q () (uio_done 512 (put_bytes (uio_mem u) (iov_base u) zero_block) u, s')"
    and lim: "\<And>b s'. P b s' \<Longrightarrow> b + 1 < 2 ^ 22"
    and dev: "\<And>b s'. P b s' \<Longrightarrow> b \<noteq> 0 \<Longrightarrow>
      wp sfs_rwblock (\<lambda>_ st. \<exists>m. fst st = uio_done 512 m (on_block b u) \<and> Q () (uio_done 512 m u, snd st))
          (\<lambda>e st. fst st = on_block b u \<and> E e (u, snd st)) (on_block b u, s')"
  shows "wp (sfs_blockio p) Q E (u, s)"
proof -
  have o: "0 \<le> uio_offset u" "uio_offset u < 2 ^ 31" "uio_offset u + 512 < 2 ^ 31" "512 \<le> uio_resid u"
    using u by (auto simp: uio_ready_def)
  note fb = fileblock[OF o(1,2), folded off]
  define R where "R u b = (let saveoff = uio_offset u; diskoff = s32 (int (u32 (int b * int SFS_BLOCKSIZE)));
           saveres = s32 (int (uio_resid u)); diskres = int SFS_BLOCKSIZE in
       bind (modify (\<lambda>(u, s). (u\<lparr>uio_offset := diskoff\<rparr>, s))) (\<lambda>_.
       bind (assertk (uio_resid u \<ge> SFS_BLOCKSIZE) ''uio->uio_resid >= SFS_BLOCKSIZE'') (\<lambda>_.
       bind (modify (\<lambda>(u, s). (u\<lparr>uio_resid := SFS_BLOCKSIZE\<rparr>, s))) (\<lambda>_.
       bind (attempt sfs_rwblock) (\<lambda>result.
       bind (modify (\<lambda>(u, s). (u\<lparr>uio_offset := s32 (uio_offset u - diskoff + saveoff),
               uio_resid := u32 (int (uio_resid u) - diskres + saveres)\<rparr>, s))) (\<lambda>_.
       case result of Inl e \<Rightarrow> fail e | Inr _ \<Rightarrow> ret ()))))))" for u :: uio and b
  have blk: "sfs_blockio p = bind (gets fst) (\<lambda>u.
     let doalloc = (uio_rw u = UIO_WRITE); fileblock = u32 (cdiv (uio_offset u) (int SFS_BLOCKSIZE)) in
     bind (on_fs (sfs_bmap p fileblock doalloc)) (\<lambda>diskblock.
     if diskblock = 0 then
       bind (assertk (uio_rw u = UIO_READ) ''uio->uio_rw == UIO_READ'') (\<lambda>_.
       zoom fst (\<lambda>u (_, s). (u, s)) (uiomovezeros SFS_BLOCKSIZE))
     else R u diskblock))"
    unfolding sfs_blockio_def R_def ..
  have R: "wp (R u b) Q E (u, s')" if P: "P b s'" "b \<noteq> 0" for b s'
  proof -
    note b = lim[OF P(1)]
    have d: "s32 (int (u32 (int b * 512))) = 512 * int b"
    proof -
      have "int b * 512 < 2 ^ 31" using b by simp
      then show ?thesis by (simp add: u32_nonneg)
    qed
    note r = uio_restore[OF o(1,3,4) u(2), where x = "512 * int b"]
    let ?R = "\<lambda>result st. wp (case result of Inl e \<Rightarrow> fail e | Inr _ \<Rightarrow> ret ()) Q E
        ((fst st)\<lparr>uio_offset := s32 (uio_offset (fst st) - 512 * int b + uio_offset u),
               uio_resid := u32 (int (uio_resid (fst st)) - 512 + s32 (int (uio_resid u)))\<rparr>, snd st)"
    have "wp sfs_rwblock (\<lambda>x. ?R (Inr x)) (\<lambda>e. ?R (Inl e)) (on_block b u, s')"
      by (rule wp_mono[OF dev[OF P]]) (use r in \<open>auto simp: wp_rules\<close>)
    with o(4) show ?thesis
      unfolding R_def Let_def wp_bind wp_modify wp_assertk wp_attempt
      by (simp add: wp_modify SFS_BLOCKSIZE_def d case_prod_beta)
  qed
  have zeros: "wp (uiomovezeros 512) Q' E' u = Q' () (uio_done 512 (put_bytes (uio_mem u) (iov_base u) zero_block) u)"
    if "uio_rw u = UIO_READ" for Q' E'
    using uiomovezeros_ok[OF u(1) that] unfolding zero_block_def by (rule wp_Ok)
  have "wp (sfs_bmap p (off div 512) (uio_rw u = UIO_WRITE)) (\<lambda>b s'. wp (if b = 0 then
       bind (assertk (uio_rw u = UIO_READ) ''uio->uio_rw == UIO_READ'') (\<lambda>_.
       zoom fst (\<lambda>u (_, s). (u, s)) (uiomovezeros SFS_BLOCKSIZE)) else R u b) Q E (u, s')) (\<lambda>e s'. E e (u, s')) s"
    by (rule wp_mono[OF bm]) (use hole in \<open>auto simp: wp_rules zeros SFS_BLOCKSIZE_def R\<close>)
  then show ?thesis
    by (simp add: blk wp_rules fb SFS_BLOCKSIZE_def cong: if_cong)
qed

lemma wp_blockio_read:
  assumes "fvalid p s" "uio_rw u = UIO_READ" "uio_ready u 512" "uio_resid u < 2 ^ 31" "off = nat (uio_offset u)" "off mod 512 = 0"
  shows "wp (sfs_blockio p)
    (\<lambda>_ st. fs_same s (snd st) \<and> fst st = uio_done 512 (put_bytes (uio_mem u) (iov_base u) (fslice s p off 512)) u)
    (\<lambda>e st. fs_same s (snd st) \<and> fst st = u \<and> (e = EIO \<or> e = EINVAL \<and> max_fileblocks \<le> off div 512)) (u, s)"
    (is "wp _ ?Q ?E _")
proof -
  let ?b = "bmap_fun (fino s p) (disk s) (off div 512)"
  let ?P = "\<lambda>b s'. fs_same s s' \<and> off div 512 < max_fileblocks \<and> b = ?b"
  have off: "512 * (off div 512) = off" using assms(6) by auto
  note fb = file_block[OF assms(1), of "off div 512", unfolded off Let_def]
  have in_range: "b < nblk s'" if "?P b s'" for b s'
    using that fvalid_block(2)[OF assms(1), of "off div 512"] fs_sameD[of s s'] fs_okD(7)[of s'] by (cases "b = 0") auto
  show ?thesis
  proof (rule wp_sfs_blockio[OF assms(3,4,5), where P = ?P])
    show "wp (sfs_bmap p (off div 512) (uio_rw u = UIO_WRITE)) ?P (\<lambda>e s'. ?E e (u, s')) s"
      using assms(2) by (auto intro: wp_mono[OF wp_sfs_bmap_lookup[OF assms(1)]])
  next
    fix b s' assume P: "?P b s'"
    then show "b + 1 < 2 ^ 22" using in_range[OF P] fs_sameD[of s s'] fs_okD(6)[of s'] by auto
  next
    fix s' assume "?P 0 s'"
    then show "uio_rw u = UIO_READ \<and> ?Q () (uio_done 512 (put_bytes (uio_mem u) (iov_base u) zero_block) u, s')"
      using fb assms(2) by simp
  next
    fix b s' assume P: "?P b s'" "b \<noteq> 0"
    note d = fs_sameD[OF conjunct1[OF P(1)]]
    have lim: "b < d_blocks (sfs_device s')" "b + 1 < 2 ^ 22" using in_range[OF P(1)] fs_okD(5,6)[OF d(2)] by auto
    show "wp sfs_rwblock (\<lambda>_ st. \<exists>m. fst st = uio_done 512 m (on_block b u) \<and> ?Q () (uio_done 512 m u, snd st))
      (\<lambda>e st. fst st = on_block b u \<and> ?E e (u, snd st)) (on_block b u, s')"
      by (rule wp_mono[OF wp_sfs_rwblock_read[OF d(2), of "on_block b u" b]])
        (use assms(2) lim on_block_ready[OF assms(3) lim(2)] fb P d(3) fs_same_trans[OF conjunct1[OF P(1)]] in auto)
  qed
qed

section \<open>Writing\<close>

lemma fwrite_block:
  assumes "fvalid p s" "bmap_fun (fino s p) (disk s) k = b" "b \<noteq> 0" "fs_wrote b data s s'"
  shows "fgrown p s s'" "fcont s' p x = (if x div 512 = k then data ! (x mod 512) else fcont s p x)"
proof -
  note w = fs_wroteD[OF assms(4)]
  have f: "fino s' p = fino s p" by (simp add: fino_def w)
  note pb = put_block[OF fvalidD(2)[OF assms(1)] assms(2,3), of data]
  from fvalidE[OF assms(1)] obtain sv where sv: "svs s p = Some sv" .
  show "fgrown p s s'" unfolding fgrown_def using w pb(2) f sv assms(4) by (auto simp: fs_wrote_def)
  show "fcont s' p x = (if x div 512 = k then data ! (x mod 512) else fcont s p x)"
    using pb(3) f w(3) by (simp add: fcont_def)
qed

lemma fput_in_block:
  assumes "fvalid p s" "fs_wrote b (splice_at (fslice s p (512 * (off div 512)) 512) (off mod 512) xs) s s'"
    and "bmap_fun (fino s p) (disk s) (off div 512) = b" "b \<noteq> 0" "off mod 512 + length xs \<le> 512"
  shows "fgrown p s s'" "fcont s' p = fput (fcont s p) off xs"
proof -
  note w = fwrite_block[OF assms(1,3,4,2)]
  show "fgrown p s s'" by (rule w(1))
  show "fcont s' p = fput (fcont s p) off xs"
  proof
    fix x :: nat
    have x: "512 * (x div 512) + x mod 512 = x" "512 * (off div 512) + off mod 512 = off" by simp_all
    show "fcont s' p x = fput (fcont s p) off xs x"
    proof (cases "x div 512 = off div 512")
      case True
      then have iff: "off \<le> x \<and> x < off + length xs \<longleftrightarrow> off mod 512 \<le> x mod 512 \<and> x mod 512 < off mod 512 + length xs"
        and sub: "x - off = x mod 512 - off mod 512" using x by linarith+
      have "fcont s p x = fslice s p (512 * (off div 512)) 512 ! (x mod 512)"
        using True x by (simp add: fslice_def)
      with True iff sub assms(5) show ?thesis
        by (simp add: w(2) fput_def nth_splice_at)
    next
      case False
      have "\<not> (off \<le> x \<and> x < off + length xs)"
      proof
        assume "off \<le> x \<and> x < off + length xs"
        then have "512 * (off div 512) \<le> x" "x < 512 * (off div 512) + 512" using x assms(5) by linarith+
        then have "x div 512 = off div 512" by (simp add: div_nat_eqI)
        with False show False ..
      qed
      with False show ?thesis unfolding fput_def w(2) by auto
    qed
  qed
qed

lemma wp_partialio_write:
  assumes "fvalid p s" "uio_rw u = UIO_WRITE" "uio_ready u len" "off = nat (uio_offset u)" "off mod 512 + len \<le> 512"
  shows "wp (sfs_partialio p (off mod 512) len)
    (\<lambda>_ st. fgrown p s (snd st) \<and> fcont (snd st) p = fput (fcont s p) off (get_bytes (uio_mem u) (iov_base u) len) \<and>
      fst st = uio_done len (uio_mem u) u \<and> off div 512 < max_fileblocks)
    (\<lambda>e st. fkept p s (snd st) \<and> fst st = u \<and> (e = EIO \<or> e = ENOSPC \<or> e = EINVAL \<and> max_fileblocks \<le> off div 512)) (u, s)"
    (is "wp _ ?Q ?E _")
proof -
  have o: "0 \<le> uio_offset u" "uio_offset u < 2 ^ 31" using assms(3) by (auto simp: uio_ready_def)
  note fb = fileblock[OF o, folded assms(4)]
  have u: "u32 (int (off mod 512) + int len) \<le> 512" using assms(5) by (subst u32_nonneg) auto
  let ?x = "get_bytes (uio_mem u) (iov_base u) len"
  let ?P = "\<lambda>b s'. fkept p s s' \<and> off div 512 < max_fileblocks \<and> b \<noteq> 0 \<and> b = bmap_fun (fino s' p) (disk s') (off div 512)"
  have tail: "wp (sfs_rblock b) (\<lambda>buf s''. wp (move_buf buf (off mod 512) len)
      (\<lambda>buf st. wp (sfs_wblock buf b) (\<lambda>_ s3. ?Q () (fst st, s3)) (\<lambda>e s3. ?E e (fst st, s3)) (snd st)) ?E (u, s''))
      (\<lambda>e s''. ?E e (u, s'')) s'" if P: "?P b s'" for b s'
  proof -
    have k: "fkept p s s'" "off div 512 < max_fileblocks" "b \<noteq> 0" "bmap_fun (fino s' p) (disk s') (off div 512) = b"
      using P by auto
    have c: "fgrown p s s'" "fcont s' p = fcont s p" using k(1) by (simp_all add: fkept_def)
    note v = fkept_valid[OF k(1)]
    have lt: "b < nblk s'" using fvalid_block(2)[OF v, of "off div 512"] k by simp
    show ?thesis
    proof (rule wp_mono[OF wp_sfs_rblock[OF fvalidD(1)[OF v] lt]])
      fix buf s'' assume h: "buf = disk s' b \<and> fs_same s' s''"
      then have same: "fs_same s' s''" ..
      note sv = fs_same_fvalid[OF same v]
      note d = fs_sameD[OF same]
      have buf: "buf = fslice s'' p (512 * (off div 512)) 512"
        using file_block[OF sv(1), of "off div 512"] h k(3,4) sv(2) d(3) by (simp add: Let_def)
      then have len: "length buf = 512" by simp
      have "uiomove (off mod 512) len (buf, u) = Ok () (splice_at buf (off mod 512) ?x, uio_done len (uio_mem u) u)"
        using uiomove_write[OF assms(3,2)] len assms(5) by simp
      then have mv: "wp (uiomove (off mod 512) len) Q' E' (buf, u) =
        Q' () (splice_at buf (off mod 512) ?x, uio_done len (uio_mem u) u)" for Q' E' by (rule wp_Ok)
      have "wp (sfs_wblock (splice_at buf (off mod 512) ?x) b)
        (\<lambda>_ s3. ?Q () (uio_done len (uio_mem u) u, s3)) (\<lambda>e s3. ?E e (uio_done len (uio_mem u) u, s3)) s''"
      proof (rule wp_mono[OF wp_sfs_wblock[OF d(2)]])
        show "b < nblk s''" using lt d(5) by simp
        show "length (splice_at buf (off mod 512) ?x) = 512" using len assms(5) by simp
        fix a s3 assume "fs_wrote b (splice_at buf (off mod 512) ?x) s'' s3"
        note w = fput_in_block[OF sv(1) this[unfolded buf]]
        have "fgrown p s'' s3" "fcont s3 p = fput (fcont s'' p) off ?x"
          using w k(3,4) sv(2) d(3) assms(5) by simp_all
        then show "?Q () (uio_done len (uio_mem u) u, s3)"
          using fgrown_trans[OF fgrown_trans[OF c(1) sv(4)]] c(2) sv(3) k(2) by simp
      qed simp
      then show "wp (move_buf buf (off mod 512) len)
        (\<lambda>buf st. wp (sfs_wblock buf b) (\<lambda>_ s3. ?Q () (fst st, s3)) (\<lambda>e s3. ?E e (fst st, s3)) (snd st)) ?E (u, s'')"
        unfolding wp_move_buf by (simp add: mv)
    qed (use fkept_trans[OF k(1)] fs_same_fkept[OF _ v] in auto)
  qed
  have "wp (sfs_bmap p (off div 512) True) (\<lambda>b s'. b \<noteq> 0 \<and> wp (sfs_rblock b) (\<lambda>buf s''. wp (move_buf buf (off mod 512) len)
      (\<lambda>buf st. wp (sfs_wblock buf b) (\<lambda>_ s3. ?Q () (fst st, s3)) (\<lambda>e s3. ?E e (fst st, s3)) (snd st)) ?E (u, s''))
      (\<lambda>e s''. ?E e (u, s'')) s') (\<lambda>e s'. ?E e (u, s')) s"
    by (rule wp_mono[OF wp_sfs_bmap_alloc[OF assms(1)]]) (use tail in auto)
  note bm = this
  define R where "R u b = bind (if b = 0 then
             bind (assertk (uio_rw u = UIO_READ) ''uio->uio_rw == UIO_READ'') (\<lambda>_. ret (replicate SFS_BLOCKSIZE 0))
           else on_fs (sfs_rblock b)) (\<lambda>iobuf.
     bind (move_buf iobuf (off mod 512) len) (\<lambda>iobuf.
     if uio_rw u = UIO_WRITE then on_fs (sfs_wblock iobuf b) else ret ()))" for u :: uio and b
  have pio: "sfs_partialio p (off mod 512) len = bind (gets fst) (\<lambda>u.
     bind (assertk (u32 (int (off mod 512) + int len) \<le> SFS_BLOCKSIZE) ''skipstart + len <= SFS_BLOCKSIZE'') (\<lambda>_.
     let doalloc = (uio_rw u = UIO_WRITE); fileblock = u32 (cdiv (uio_offset u) (int SFS_BLOCKSIZE)) in
     bind (on_fs (sfs_bmap p fileblock doalloc)) (R u)))"
    unfolding sfs_partialio_def R_def ..
  have R: "wp (R u b) ?Q ?E (u, s') = wp (sfs_rblock b) (\<lambda>buf s''. wp (move_buf buf (off mod 512) len)
      (\<lambda>buf st. wp (sfs_wblock buf b) (\<lambda>_ s3. ?Q () (fst st, s3)) (\<lambda>e s3. ?E e (fst st, s3)) (snd st)) ?E (u, s''))
      (\<lambda>e s''. ?E e (u, s'')) s'" if "b \<noteq> 0" for b s'
    using that assms(2) by (simp add: R_def wp_bind wp_on_fs_fun)
  have "wp (sfs_bmap p (off div 512) True) (\<lambda>b s'. wp (R u b) ?Q ?E (u, s')) (\<lambda>e s'. ?E e (u, s')) s"
    by (rule wp_mono[OF bm]) (simp_all add: R)
  then show ?thesis using u assms(2) fb
    by (simp add: pio wp_bind wp_gets wp_on_fs wp_assertk SFS_BLOCKSIZE_def)
qed

lemma wp_blockio_write:
  assumes "fvalid p s" "uio_rw u = UIO_WRITE" "uio_ready u 512" "uio_resid u < 2 ^ 31" "off = nat (uio_offset u)" "off mod 512 = 0"
  shows "wp (sfs_blockio p)
    (\<lambda>_ st. fgrown p s (snd st) \<and> fcont (snd st) p = fput (fcont s p) off (get_bytes (uio_mem u) (iov_base u) 512) \<and>
      fst st = uio_done 512 (uio_mem u) u \<and> off div 512 < max_fileblocks)
    (\<lambda>e st. fkept p s (snd st) \<and> fst st = u \<and> (e = EIO \<or> e = ENOSPC \<or> e = EINVAL \<and> max_fileblocks \<le> off div 512)) (u, s)"
    (is "wp _ ?Q ?E _")
proof -
  let ?P = "\<lambda>b s'. fkept p s s' \<and> off div 512 < max_fileblocks \<and> b \<noteq> 0 \<and> b = bmap_fun (fino s' p) (disk s') (off div 512)"
  let ?x = "get_bytes (uio_mem u) (iov_base u) 512"
  have in_range: "b < nblk s' \<and> fvalid p s'" if "?P b s'" for b s'
    using that fvalid_block(2)[of p s' "off div 512"] fkept_valid[of p s s'] by auto
  show ?thesis
  proof (rule wp_sfs_blockio[OF assms(3,4,5), where P = ?P])
    show "wp (sfs_bmap p (off div 512) (uio_rw u = UIO_WRITE)) ?P (\<lambda>e s'. ?E e (u, s')) s"
      using assms(2) by (auto intro: wp_mono[OF wp_sfs_bmap_alloc[OF assms(1)]])
  next
    fix b s' assume P: "?P b s'"
    then show "b + 1 < 2 ^ 22" using in_range[OF P] fvalidD(1)[of p s'] fs_okD(6)[of s'] by auto
  next
    fix s' assume "?P 0 s'"
    then show "uio_rw u = UIO_READ \<and> ?Q () (uio_done 512 (put_bytes (uio_mem u) (iov_base u) zero_block) u, s')"
      by simp
  next
    fix b s' assume P: "?P b s'" "b \<noteq> 0"
    then have k: "fgrown p s s'" "fcont s' p = fcont s p" "off div 512 < max_fileblocks"
      "bmap_fun (fino s' p) (disk s') (off div 512) = b" by (auto simp: fkept_def)
    have v: "fvalid p s'" "fs_ok s'" using in_range[OF P(1)] fvalidD(1) by auto
    have lim: "b < d_blocks (sfs_device s')" "b + 1 < 2 ^ 22" using in_range[OF P(1)] fs_okD(5,6)[OF v(2)] by auto
    show "wp sfs_rwblock (\<lambda>_ st. \<exists>m. fst st = uio_done 512 m (on_block b u) \<and> ?Q () (uio_done 512 m u, snd st))
      (\<lambda>e st. fst st = on_block b u \<and> ?E e (u, snd st)) (on_block b u, s')"
    proof (rule wp_mono[OF wp_sfs_rwblock_write[OF v(2), of "on_block b u" b]])
      fix a st assume h: "fs_wrote b (get_bytes (uio_mem (on_block b u)) (iov_base (on_block b u)) 512) s' (snd st) \<and>
        fst st = uio_done 512 (uio_mem (on_block b u)) (on_block b u)"
      then have w: "fs_wrote b ?x s' (snd st)" by simp
      then have "fs_wrote b (splice_at (fslice s' p (512 * (off div 512)) 512) (off mod 512) ?x) s' (snd st)"
        using assms(6) by (simp add: splice_at_def)
      note g = fput_in_block[OF v(1) this k(4) P(2)]
      show "\<exists>m. fst st = uio_done 512 m (on_block b u) \<and> ?Q () (uio_done 512 m u, snd st)"
        using g assms(6) k(2,3) fgrown_trans[OF k(1)] h by (intro exI[of _ "uio_mem u"]) auto
    qed (use assms(2) lim on_block_ready[OF assms(3) lim(2)] in auto)
  qed
qed

section \<open>The whole operation\<close>

lemma uio_done_trim:
  "n \<le> r \<Longrightarrow> (uio_done n m (u\<lparr>uio_resid := r\<rparr>))\<lparr>uio_resid := uio_resid u - n\<rparr> = uio_done n m u"
  by (cases u) (simp add: uio_done_def)

lemma uio_ready_rest:
  assumes "uio_ready u n" "k + m \<le> n"
  shows "uio_ready (uio_done k (put_bytes (uio_mem u) a xs) u) m"
proof -
  note r = uio_ready_mono[OF assms]
  then have "mapped (uio_mem u) (iov_base u + k) m"
    using mapped_add[of "uio_mem u" "iov_base u" k m] by (simp add: uio_ready_def)
  then show ?thesis using r by (intro uio_ready_done) simp_all
qed

text \<open>Reading \<open>n\<close> bytes that lie in the file.\<close>

lemma wp_io_blocks_read:
  assumes "fvalid p s" "uio_rw u = UIO_READ" "uio_ready u n" "uio_resid u = n" "0 < n" "off = nat (uio_offset u)"
    and "off + n \<le> sfi_size (fino s p)"
  defines "U \<equiv> \<lambda>k. uio_done k (put_bytes (uio_mem u) (iov_base u) (fslice s p off k)) u"
  shows "wp (sfs_io_blocks p) (\<lambda>_ st. fs_same s (snd st) \<and> fst st = U n)
    (\<lambda>e st. e = EIO \<and> fs_same s (snd st) \<and> (\<exists>k < n. fst st = U k)) (u, s)"
    (is "wp _ _ ?E _")
proof -
  let ?I = "\<lambda>k st. fs_same s (snd st) \<and> fst st = U k"
  have o: "uio_offset u = int off" "off + n < 2 ^ 31"
    using assms(3,6) by (auto simp: uio_ready_def)
  have size: "off + n \<le> 512 * max_fileblocks"
    using assms(7) fvalidD(2)[OF assms(1)] by (auto simp: file_ok_def)
  have ready: "uio_ready (U k) m" if "k + m \<le> n" for k m
    unfolding U_def by (rule uio_ready_rest[OF assms(3) that])
  have U: "uio_rw (U k) = UIO_READ" "uio_resid (U k) = n - k" "uio_offset (U k) = int (off + k)" for k
    using assms(2,4) o by (simp_all add: U_def)
  have more: "uio_done m (put_bytes (uio_mem (U k)) (iov_base (U k)) (fslice s' p (off + k) m)) (U k) = U (k + m)"
    if "fs_same s s'" for k m s'
  proof -
    have "fslice s' p (off + k) m = fslice s p (off + k) m"
      using fs_same_fvalid(3)[OF that assms(1)] by (simp add: fslice_def)
    then show ?thesis
      using put_bytes_append[of "uio_mem u" "iov_base u" "fslice s p off k" "fslice s p (off + k) m"] fslice_add[of s p off k m]
      by (simp add: U_def)
  qed
  have low: "\<not> max_fileblocks \<le> (off + k) div 512" if "k < n" for k
  proof -
    have "(off + k) div 512 < max_fileblocks" using that size by (intro less_mult_imp_div_less) (simp add: mult.commute)
    then show ?thesis by simp
  qed
  show ?thesis
  proof (rule sfs_io_blocks_rule[where I = ?I and off = off])
    fix k st assume "?I k st" "k \<le> n"
    then show "uio_resid (fst st) = n - k \<and> uio_offset (fst st) = int (off + k)" by (simp add: U)
  next
    fix k m st assume I: "?I k st" and m: "k + m \<le> n" "(off + k) mod 512 + m \<le> 512" "0 < m"
    obtain s' where st: "st = (U k, s')" and same: "fs_same s s'" using I by (cases st) auto
    have off: "off + k = nat (uio_offset (U k))" and k: "k < n" using m by (simp_all add: U)
    show "wp (sfs_partialio p ((off + k) mod 512) m) (\<lambda>_. ?I (k + m)) ?E st" unfolding st
      by (rule wp_mono[OF wp_partialio_read[OF fs_same_fvalid(1)[OF same assms(1)] U(1) ready[OF m(1)] off m(2)]])
        (use low[OF k] k more[OF same] fs_same_trans[OF same] in auto)
  next
    fix k st assume I: "?I k st" and m: "k + 512 \<le> n" "(off + k) mod 512 = 0"
    obtain s' where st: "st = (U k, s')" and same: "fs_same s s'" using I by (cases st) auto
    have off: "off + k = nat (uio_offset (U k))" and k: "k < n" "uio_resid (U k) < 2 ^ 31" using m o by (simp_all add: U)
    show "wp (sfs_blockio p) (\<lambda>_. ?I (k + 512)) ?E st" unfolding st
      by (rule wp_mono[OF wp_blockio_read[OF fs_same_fvalid(1)[OF same assms(1)] U(1) ready[OF m(1)] k(2) off m(2)]])
        (use low[OF k(1)] k(1) more[OF same] fs_same_trans[OF same] in auto)
  qed (use fs_same_refl[OF fvalidD(1)[OF assms(1)]] o assms(5) in \<open>auto simp: U_def\<close>)
qed

text \<open>Writing: after \<open>k\<close> bytes the file holds them at the offset, and has no others changed.\<close>

definition fwriting :: "svp \<Rightarrow> nat \<Rightarrow> byte list \<Rightarrow> sfs_fs \<Rightarrow> sfs_fs \<Rightarrow> bool" where
  "fwriting p off xs s s' \<longleftrightarrow> fgrown p s s' \<and> fcont s' p = fput (fcont s p) off xs \<and>
     (xs \<noteq> [] \<longrightarrow> off + length xs \<le> 512 * max_fileblocks)"

lemma fwriting_more:
  assumes "fwriting p off xs s s'" "fgrown p s' t" "fcont t p = fput (fcont s' p) (off + length xs) ys"
    "(off + length xs) div 512 < max_fileblocks" "(off + length xs) mod 512 + length ys \<le> 512"
  shows "fwriting p off (xs @ ys) s t"
proof -
  have "512 * ((off + length xs) div 512) + (off + length xs) mod 512 = off + length xs" by simp
  moreover have "512 * ((off + length xs) div 512) + 512 \<le> 512 * max_fileblocks" using assms(4) by simp
  ultimately have "off + length xs + length ys \<le> 512 * max_fileblocks" using assms(5) by linarith
  with assms(1-3) show ?thesis
    by (auto simp: fwriting_def fput_append add.assoc intro: fgrown_trans)
qed

lemma fwriting_kept: "fwriting p off xs s s' \<Longrightarrow> fkept p s' t \<Longrightarrow> fwriting p off xs s t"
  unfolding fwriting_def fkept_def by (auto intro: fgrown_trans)

lemma fwriting_valid: "fwriting p off xs s s' \<Longrightarrow> fvalid p s'"
  unfolding fwriting_def using fgrown_valid by blast

lemma wp_io_blocks_write:
  assumes "fvalid p s" "uio_rw u = UIO_WRITE" "uio_ready u n" "uio_resid u = n" "0 < n" "off = nat (uio_offset u)"
  defines "U \<equiv> \<lambda>k. uio_done k (uio_mem u) u" and "X \<equiv> get_bytes (uio_mem u) (iov_base u)"
  shows "wp (sfs_io_blocks p) (\<lambda>_ st. fwriting p off (X n) s (snd st) \<and> fst st = U n)
    (\<lambda>e st. e \<in> {EIO, ENOSPC, EINVAL} \<and> (\<exists>k < n. (k = 0 \<or> (off + k) mod 512 = 0) \<and>
      fwriting p off (X k) s (snd st) \<and> fst st = U k)) (u, s)"
    (is "wp _ _ ?E _")
proof -
  let ?I = "\<lambda>k st. (k = 0 \<or> k = n \<or> (off + k) mod 512 = 0) \<and> fwriting p off (X k) s (snd st) \<and> fst st = U k"
  have o: "uio_offset u = int off" "off + n < 2 ^ 31"
    using assms(3,6) by (auto simp: uio_ready_def)
  have ready: "uio_ready (U k) m" if "k + m \<le> n" for k m
    using uio_ready_rest[OF assms(3) that, of 0 "[]"] by (simp add: U_def)
  have U: "uio_rw (U k) = UIO_WRITE" "uio_resid (U k) = n - k" "uio_offset (U k) = int (off + k)" "uio_mem (U k) = uio_mem u"
    "iov_base (U k) = iov_base u + k" "uio_done m (uio_mem u) (U k) = U (k + m)" for k m
    using assms(2,4) o by (simp_all add: U_def)
  have X: "length (X k) = k" "X (k + m) = X k @ get_bytes (uio_mem u) (iov_base u + k) m" for k m
    by (simp_all add: X_def get_bytes_add)
  have more: "fwriting p off (X (k + m)) s t"
    if "fwriting p off (X k) s s'" "fgrown p s' t" "fcont t p = fput (fcont s' p) (off + k) (get_bytes (uio_mem u) (iov_base u + k) m)"
      "(off + k) div 512 < max_fileblocks" "(off + k) mod 512 + m \<le> 512" for k m s' t
    using fwriting_more[OF that(1,2), unfolded X(1), OF that(3,4)] that(5) by (simp add: X(2))
  have stop: "\<exists>j < n. (j = 0 \<or> (off + j) mod 512 = 0) \<and> fwriting p off (X j) s t \<and> U k = U j"
    if "fwriting p off (X k) s s'" "fkept p s' t" "k < n" "k = 0 \<or> (off + k) mod 512 = 0" for k s' t
    using fwriting_kept[OF that(1,2)] that(3,4) by (intro exI[of _ k] conjI) simp_all
  have "wp (sfs_io_blocks p) (\<lambda>_. ?I n) ?E (u, s)"
  proof (rule sfs_io_blocks_rule[where I = ?I and off = off])
    fix k st assume "?I k st" "k \<le> n"
    then show "uio_resid (fst st) = n - k \<and> uio_offset (fst st) = int (off + k)" by (simp add: U)
  next
    fix k m st assume I: "?I k st" and m: "k + m \<le> n" "(off + k) mod 512 + m \<le> 512" "0 < m"
      "k + m = n \<or> (off + k + m) mod 512 = 0"
    obtain s' where st: "st = (U k, s')" and w: "fwriting p off (X k) s s'" using I by (cases st) auto
    have off: "off + k = nat (uio_offset (U k))" and k: "k < n" using m by (simp_all add: U)
    then have al: "k = 0 \<or> (off + k) mod 512 = 0" using I by simp
    show "wp (sfs_partialio p ((off + k) mod 512) m) (\<lambda>_. ?I (k + m)) ?E st" unfolding st
      by (rule wp_mono[OF wp_partialio_write[OF fwriting_valid[OF w] U(1) ready[OF m(1)] off m(2), unfolded U]])
        (use m more[OF w] stop[OF w _ k al] in \<open>auto simp: add.assoc\<close>)
  next
    fix k st assume I: "?I k st" and m: "k + 512 \<le> n" "(off + k) mod 512 = 0"
    obtain s' where st: "st = (U k, s')" and w: "fwriting p off (X k) s s'" using I by (cases st) auto
    have off: "off + k = nat (uio_offset (U k))" and k: "k < n" "uio_resid (U k) < 2 ^ 31" using m o by (simp_all add: U)
    show "wp (sfs_blockio p) (\<lambda>_. ?I (k + 512)) ?E st" unfolding st
      by (rule wp_mono[OF wp_blockio_write[OF fwriting_valid[OF w] U(1) ready[OF m(1)] k(2) off m(2), unfolded U]])
        (use m more[OF w] stop[OF w _ k(1)] mod_add_self2[of "off + k" 512] in \<open>auto simp: add.assoc\<close>)
  qed (use fgrown_refl[OF assms(1)] o assms(5) in \<open>auto simp: U_def X_def fwriting_def\<close>)
  then show ?thesis by (rule wp_mono) auto
qed

text \<open>The part of \<open>sfs_io\<close> that ends a read, and the one that ends a write.\<close>

lemma wp_sfs_io_run_read:
  assumes "wp (sfs_io_blocks p) (\<lambda>_ st. uio_rw (fst st) = UIO_READ \<and> svs (snd st) p \<noteq> None \<and>
      Q () ((fst st)\<lparr>uio_resid := u32 (int (uio_resid (fst st)) + int x)\<rparr>, snd st))
    (\<lambda>e st. uio_rw (fst st) = UIO_READ \<and> svs (snd st) p \<noteq> None \<and>
      E e ((fst st)\<lparr>uio_resid := u32 (int (uio_resid (fst st)) + int x)\<rparr>, snd st)) st"
  shows "wp (sfs_io_run p x) Q E st"
  unfolding sfs_io_run_def wp_bind wp_attempt
  by (rule wp_mono[OF assms]) (auto simp: wp_rules)

definition set_size :: "svp \<Rightarrow> nat \<Rightarrow> sfs_fs \<Rightarrow> sfs_fs" where
  "set_size p n s = (let sv = the (svs s p) in
     s\<lparr>svs := (svs s)(p \<mapsto> sv\<lparr>sv_i := (sv_i sv)\<lparr>sfi_size := n\<rparr>, sv_dirty := True\<rparr>)\<rparr>)"

definition wrote_size :: "svp \<Rightarrow> nat \<Rightarrow> sfs_fs \<Rightarrow> sfs_fs" where
  "wrote_size p n s = (if sfi_size (fino s p) < n then set_size p n s else s)"

lemma wp_sfs_io_run_write:
  assumes "wp (sfs_io_blocks p)
    (\<lambda>_ st. uio_rw (fst st) = UIO_WRITE \<and> uio_resid (fst st) < 2 ^ 32 \<and> (\<exists>x. uio_offset (fst st) = int x \<and> x < 2 ^ 31 \<and>
       svs (snd st) p \<noteq> None \<and> sfi_size (fino (snd st) p) < 2 ^ 31 \<and> Q () (fst st, wrote_size p x (snd st))))
    (\<lambda>e st. uio_rw (fst st) = UIO_WRITE \<and> uio_resid (fst st) < 2 ^ 32 \<and> (\<exists>x. uio_offset (fst st) = int x \<and> x < 2 ^ 31 \<and>
       svs (snd st) p \<noteq> None \<and> sfi_size (fino (snd st) p) < 2 ^ 31 \<and> E e (fst st, wrote_size p x (snd st)))) st"
  shows "wp (sfs_io_run p 0) Q E st"
proof -
  have fin: "wp (bind (gets fst) (\<lambda>u.
     bind (on_fs (sv_get p)) (\<lambda>sv.
     bind (if uio_rw u = UIO_WRITE \<and> uio_offset u > s32 (int (sfi_size (sv_i sv)))
           then on_fs (sv_inode p (\<lambda>i. i\<lparr>sfi_size := u32 (uio_offset u)\<rparr>)) else ret ()) (\<lambda>_.
     bind (modify (\<lambda>(u, s). (u\<lparr>uio_resid := u32 (int (uio_resid u) + int 0)\<rparr>, s))) (\<lambda>_.
     case result of Inl e \<Rightarrow> fail e | Inr _ \<Rightarrow> ret ()))))) Q E st'"
    if h: "uio_rw (fst st') = UIO_WRITE" "uio_resid (fst st') < 2 ^ 32" "uio_offset (fst st') = int x" "x < 2 ^ 31"
      "svs (snd st') p \<noteq> None" "sfi_size (fino (snd st') p) < 2 ^ 31"
      "case result of Inl e \<Rightarrow> E e (fst st', wrote_size p x (snd st')) | Inr _ \<Rightarrow> Q () (fst st', wrote_size p x (snd st'))"
    for st' x and result :: "errno + unit"
  proof -
    obtain u s where st': "st' = (u, s)" by (cases st')
    obtain sv where sv: "svs s p = Some sv" using h(5) st' by auto
    have u: "u\<lparr>uio_resid := uio_resid u\<rparr> = u" by simp
    show ?thesis using h sv u unfolding st'
      by (auto simp: wp_rules wrote_size_def set_size_def fino_def Let_def simp del: bind_modify split: sum.splits)
  qed
  show ?thesis unfolding sfs_io_run_def wp_bind[where m = "attempt _"] wp_attempt
    by (rule wp_mono[OF assms]) (use fin[of _ _ "Inr ()"] fin[of _ _ "Inl _"] in auto)
qed

theorem wp_sfs_io_read:
  assumes "fvalid p s" "uio_rw u = UIO_READ" "uio_ready u n" "uio_resid u = n" "0 < n" "off = nat (uio_offset u)"
  defines "U \<equiv> \<lambda>k. uio_done k (put_bytes (uio_mem u) (iov_base u) (fslice s p off k)) u"
    and "m \<equiv> min n (sfi_size (fino s p) - off)"
  shows "wp (sfs_io p) (\<lambda>_ st. fs_same s (snd st) \<and> fst st = U m)
    (\<lambda>e st. e = EIO \<and> fs_same s (snd st) \<and> (\<exists>k < m. fst st = U k)) (u, s)"
    (is "wp _ ?Q ?E _")
proof -
  let ?size = "sfi_size (fino s p)"
  have o: "uio_offset u = int off" "off + n < 2 ^ 31" using assms(3,6) by (auto simp: uio_ready_def)
  have "?size \<le> max_fileblocks * 512" using fvalidD(2)[OF assms(1)] by (simp add: file_ok_def)
  then have size: "?size < 2 ^ 31" by simp
  obtain sv where sv: "svs s p = Some sv" "sv_i sv = fino s p" by (rule fvalidE[OF assms(1)])
  have s32: "s32 (int ?size) = int ?size" "s32 (int off + int n) = int (off + n)" using size o(2) by simp_all
  show ?thesis
  proof (cases "?size \<le> off")
    case True
    then have "m = 0" by (simp add: m_def)
    then have "U m = u" by (simp add: U_def)
    with True show ?thesis
      using sv assms(2) o s32 fs_same_refl[OF fvalidD(1)[OF assms(1)]]
      by (simp add: sfs_io_def wp_rules Let_def)
  next
    case False
    define v where "v = u\<lparr>uio_resid := m\<rparr>"
    have m: "0 < m" "m \<le> n" "off + m \<le> ?size" using False assms(5) by (auto simp: m_def)
    have "uio_ready v m" using uio_ready_mono[OF assms(3) m(2)] assms(4) m(2) by (auto simp: v_def uio_ready_def uio_space_ok_def)
    then have blocks: "wp (sfs_io_blocks p)
       (\<lambda>_ st. fs_same s (snd st) \<and> fst st = uio_done m (put_bytes (uio_mem u) (iov_base u) (fslice s p off m)) v)
       (\<lambda>e st. e = EIO \<and> fs_same s (snd st) \<and> (\<exists>k < m. fst st = uio_done k (put_bytes (uio_mem u) (iov_base u) (fslice s p off k)) v)) (v, s)"
      using wp_io_blocks_read[OF assms(1), of v m off] assms(2,6) m by (simp add: v_def)
    have whole: "(uio_done k x v)\<lparr>uio_resid := u32 (int (m - k) + int (n - m))\<rparr> = uio_done k x u" if "k \<le> m" for k x
    proof -
      have "int (m - k) + int (n - m) = int (n - k)" using that m(2) by simp
      moreover have "u32 (int (n - k)) = n - k" using o(2) by (intro u32_id) simp
      ultimately show ?thesis using assms(4) by (cases u) (simp add: v_def uio_done_def)
    qed
    have run: "wp (sfs_io_run p (n - m)) ?Q ?E (v, s)"
      by (rule wp_sfs_io_run_read, rule wp_mono[OF blocks])
        (use sv(1) assms(2) whole whole[of m] in \<open>auto simp: fs_sameD U_def v_def\<close>)
    show ?thesis
    proof (cases "off + n \<le> ?size")
      case True
      then have "m = n" by (simp add: m_def)
      then have "v = u" using assms(4) by (simp add: v_def)
      with run \<open>m = n\<close> have "wp (sfs_io_run p 0) ?Q ?E (u, s)" by simp
      then show ?thesis using False True sv assms(2,4) o s32 by (simp add: sfs_io_def wp_bind wp_gets wp_on_fs wp_sv_get Let_def)
    next
      case over: False
      then have m': "m = ?size - off" by (simp add: m_def)
      have x: "u32 (int (off + n) - int ?size) = n - m"
      proof -
        have "int (off + n) - int ?size = int (n - m)" using over m' False by simp
        then show ?thesis using o(2) by (simp del: of_nat_diff)
      qed
      have "uio_resid u - (n - m) = m" using assms(4) m(2) by simp
      with run show ?thesis
        using False over sv assms(2,4) o s32 x m
        by (simp add: sfs_io_def wp_bind wp_gets wp_on_fs wp_sv_get wp_assertk wp_modify Let_def v_def del: bind_modify)
    qed
  qed
qed

text \<open>
  What a write leaves: the contents are spliced, the size is the larger of the old one and the end of
  what was written, and nothing else of the file or of any other block in use has changed.
\<close>

definition fwrote :: "svp \<Rightarrow> nat \<Rightarrow> byte list \<Rightarrow> sfs_fs \<Rightarrow> sfs_fs \<Rightarrow> bool" where
  "fwrote p off xs s s' \<longleftrightarrow> (\<exists>t. fwriting p off xs s t \<and> s' = wrote_size p (off + length xs) t)"

theorem wp_sfs_io_write:
  assumes "fvalid p s" "uio_rw u = UIO_WRITE" "uio_ready u n" "uio_resid u = n" "0 < n" "off = nat (uio_offset u)"
  defines "U \<equiv> \<lambda>k. uio_done k (uio_mem u) u" and "X \<equiv> get_bytes (uio_mem u) (iov_base u)"
  shows "wp (sfs_io p) (\<lambda>_ st. fwrote p off (X n) s (snd st) \<and> fst st = U n)
    (\<lambda>e st. e \<in> {EIO, ENOSPC, EINVAL} \<and> (\<exists>k < n. (k = 0 \<or> (off + k) mod 512 = 0) \<and>
      fwrote p off (X k) s (snd st) \<and> fst st = U k)) (u, s)"
    (is "wp _ ?Q ?E _")
proof -
  have o: "uio_offset u = int off" "off + n < 2 ^ 31" using assms(3,6) by (auto simp: uio_ready_def)
  have U: "uio_rw (U k) = UIO_WRITE" "uio_resid (U k) < 2 ^ 32" "uio_offset (U k) = int (off + k)" for k
    using assms(2,4) o by (simp_all add: U_def)
  have w: "svs t p \<noteq> None" "sfi_size (fino t p) < 2 ^ 31" "fwrote p off (X k) s (wrote_size p (off + k) t)"
    if "fwriting p off (X k) s t" for k t
  proof -
    note v = fwriting_valid[OF that]
    show "svs t p \<noteq> None" using v by (auto simp: fvalid_def)
    have "sfi_size (fino t p) \<le> max_fileblocks * 512" using fvalidD(2)[OF v] by (simp add: file_ok_def)
    then show "sfi_size (fino t p) < 2 ^ 31" by simp
    show "fwrote p off (X k) s (wrote_size p (off + k) t)" using that by (auto simp: fwrote_def X_def)
  qed
  obtain sv where sv: "svs s p = Some sv" by (rule fvalidE[OF assms(1)])
  have blocks: "wp (sfs_io_blocks p) (\<lambda>_ st. fwriting p off (X n) s (snd st) \<and> fst st = U n)
    (\<lambda>e st. e \<in> {EIO, ENOSPC, EINVAL} \<and> (\<exists>k < n. (k = 0 \<or> (off + k) mod 512 = 0) \<and>
      fwriting p off (X k) s (snd st) \<and> fst st = U k)) (u, s)"
    unfolding U_def X_def by (rule wp_io_blocks_write[OF assms(1-6)])
  have "wp (sfs_io_run p 0) ?Q ?E (u, s)"
  proof (rule wp_sfs_io_run_write, rule wp_mono[OF blocks])
    fix a st assume h: "fwriting p off (X n) s (snd st) \<and> fst st = U n"
    then show "uio_rw (fst st) = UIO_WRITE \<and> uio_resid (fst st) < 2 ^ 32 \<and> (\<exists>x. uio_offset (fst st) = int x \<and> x < 2 ^ 31 \<and>
       svs (snd st) p \<noteq> None \<and> sfi_size (fino (snd st) p) < 2 ^ 31 \<and> ?Q () (fst st, wrote_size p x (snd st)))"
      using w[of n "snd st"] U[of n] o by (intro conjI exI[of _ "off + n"]) auto
  next
    fix e st assume h: "e \<in> {EIO, ENOSPC, EINVAL} \<and> (\<exists>k < n. (k = 0 \<or> (off + k) mod 512 = 0) \<and>
      fwriting p off (X k) s (snd st) \<and> fst st = U k)"
    then obtain k where k: "e \<in> {EIO, ENOSPC, EINVAL}" "k < n" "k = 0 \<or> (off + k) mod 512 = 0"
      "fwriting p off (X k) s (snd st)" "fst st = U k" by (elim conjE exE)
    have E: "?E e (fst st, wrote_size p (off + k) (snd st))"
      using k(1,2,3,5) w(3)[OF k(4)] by (intro conjI exI[of _ k]) simp_all
    have o': "uio_offset (fst st) = int (off + k)" "off + k < 2 ^ 31" using U(3)[of k] k(2,5) o(2) by simp_all
    show "uio_rw (fst st) = UIO_WRITE \<and> uio_resid (fst st) < 2 ^ 32 \<and> (\<exists>x. uio_offset (fst st) = int x \<and> x < 2 ^ 31 \<and>
       svs (snd st) p \<noteq> None \<and> sfi_size (fino (snd st) p) < 2 ^ 31 \<and> ?E e (fst st, wrote_size p x (snd st)))"
      using U(1,2)[of k] k(5) by (intro conjI, simp, simp) (rule exI[of _ "off + k"], intro conjI o' w(1,2)[OF k(4)] E[THEN conjunct1] E[THEN conjunct2])
  qed
  then show ?thesis using sv assms(2) by (simp add: sfs_io_def wp_bind wp_gets wp_on_fs wp_sv_get)
qed

section \<open>What a write leaves\<close>

lemma size_irrelevant [simp]:
  "bmap_fun (i\<lparr>sfi_size := n\<rparr>) d = bmap_fun i d" "owned (i\<lparr>sfi_size := n\<rparr>) d = owned i d"
  "file_byte (i\<lparr>sfi_size := n\<rparr>) d = file_byte i d"
  by (auto simp: bmap_fun_def owned_def file_byte_def fun_eq_iff)

text \<open>
  The vnode keeps its identity and its counts, and what has changed of its inode, or of the free map, is
  marked dirty.
\<close>

definition marked :: "svp \<Rightarrow> sfs_fs \<Rightarrow> sfs_fs \<Rightarrow> bool" where
  "marked p s s' \<longleftrightarrow> (\<exists>sv sv'. svs s p = Some sv \<and> svs s' p = Some sv' \<and> sv_v sv' = sv_v sv \<and> sv_ino sv' = sv_ino sv \<and>
        (sv_i sv' = sv_i sv \<and> sv_dirty sv' = sv_dirty sv \<or> sv_dirty sv')) \<and>
     (sfs_freemap s' = sfs_freemap s \<and> sfs_freemapdirty s' = sfs_freemapdirty s \<or> sfs_freemapdirty s')"

lemma fgrown_marked: "fgrown p s s' \<Longrightarrow> marked p s s'"
  unfolding fgrown_def marked_def by blast

lemma markedE:
  assumes "marked p s s'"
  obtains sv sv' where "svs s p = Some sv" "svs s' p = Some sv'" "sv_v sv' = sv_v sv" "sv_ino sv' = sv_ino sv"
    "sv_dirty sv' \<or> sv_i sv' = sv_i sv \<and> sv_dirty sv' = sv_dirty sv"
  using assms unfolding marked_def by blast

lemma marked_trans:
  assumes "marked p s t" "marked p t v"
  shows "marked p s v"
proof -
  obtain a b where 1: "svs s p = Some a" "svs t p = Some b" "sv_v b = sv_v a" "sv_ino b = sv_ino a"
    "sv_dirty b \<or> sv_i b = sv_i a \<and> sv_dirty b = sv_dirty a" by (rule markedE[OF assms(1)])
  obtain b' c where 2: "svs t p = Some b'" "svs v p = Some c" "sv_v c = sv_v b'" "sv_ino c = sv_ino b'"
    "sv_dirty c \<or> sv_i c = sv_i b' \<and> sv_dirty c = sv_dirty b'" by (rule markedE[OF assms(2)])
  have "sv_v c = sv_v a \<and> sv_ino c = sv_ino a \<and> (sv_i c = sv_i a \<and> sv_dirty c = sv_dirty a \<or> sv_dirty c)"
    using 1 2 by auto
  moreover have "sfs_freemap v = sfs_freemap s \<and> sfs_freemapdirty v = sfs_freemapdirty s \<or> sfs_freemapdirty v"
    using assms unfolding marked_def by metis
  ultimately show ?thesis unfolding marked_def using 1(1) 2(2) by blast
qed

lemma wrote_size_marked: "svs s p \<noteq> None \<Longrightarrow> marked p s (wrote_size p n s)"
  by (auto simp: marked_def wrote_size_def set_size_def Let_def)

definition file_written :: "svp \<Rightarrow> nat \<Rightarrow> byte list \<Rightarrow> sfs_fs \<Rightarrow> sfs_fs \<Rightarrow> bool" where
  "file_written p off xs s s' \<longleftrightarrow>
     fs_frame s s' \<and> (\<forall>q. q \<noteq> p \<longrightarrow> svs s' q = svs s q) \<and> marked p s s' \<and>
     fcont s' p = fput (fcont s p) off xs \<and>
     sfi_size (fino s' p) = max (sfi_size (fino s p)) (off + length xs) \<and>
     sfi_type (fino s' p) = sfi_type (fino s p) \<and> sfi_linkcount (fino s' p) = sfi_linkcount (fino s p) \<and>
     usedset s' = usedset s \<union> owned (fino s' p) (disk s') \<and>
     owned (fino s' p) (disk s') \<inter> usedset s \<subseteq> owned (fino s p) (disk s) \<and>
     (\<forall>b \<in> usedset s. b \<notin> owned (fino s p) (disk s) \<longrightarrow> disk s' b = disk s b) \<and>
     (off + length xs \<le> 512 * max_fileblocks \<longrightarrow> fvalid p s')"

lemma wrote_size_simps:
  assumes "svs s p = Some sv"
  shows "fino (wrote_size p n s) p = (fino s p)\<lparr>sfi_size := max (sfi_size (fino s p)) n\<rparr>"
    "q \<noteq> p \<Longrightarrow> svs (wrote_size p n s) q = svs s q" "sfs_device (wrote_size p n s) = sfs_device s"
    "usedset (wrote_size p n s) = usedset s" "svs (wrote_size p n s) p \<noteq> None"
    "fs_ok (wrote_size p n s) = fs_ok s" "fs_frame t (wrote_size p n s) = fs_frame t s"
  using assms by (auto simp: wrote_size_def set_size_def fino_def Let_def usedset_def fs_ok_def fs_frame_def max_def)

lemma fwrote_written:
  assumes "fvalid p s" "fwrote p off xs s s'"
  shows "file_written p off xs s s'"
proof -
  from assms(2) obtain t where t: "fwriting p off xs s t" "s' = wrote_size p (off + length xs) t"
    by (auto simp: fwrote_def)
  note v = fwriting_valid[OF t(1)]
  from v obtain sv where sv: "svs t p = Some sv" by (rule fvalidE)
  note w = wrote_size_simps[OF sv, where n = "off + length xs", folded t(2)]
  have g: "fgrown p s t" "fcont t p = fput (fcont s p) off xs" using t(1) by (simp_all add: fwriting_def)
  then have gr: "grown (fino s p) (disk s) (usedset s) (fino t p) (disk t) (usedset t)" by (simp add: fgrown_def)
  have valid: "fvalid p s'" if "off + length xs \<le> 512 * max_fileblocks"
    using v that w(5) unfolding fvalid_def w(1,3,4,6) by (auto simp: file_ok_def inode_ok_def)
  have "marked p s s'" using marked_trans[OF fgrown_marked[OF g(1)] wrote_size_marked] sv t(2) by simp
  then show ?thesis
    unfolding file_written_def
    using g gr w valid by (auto simp: fgrown_def grown_def fcont_def)
qed

text \<open>Files that have no block in common.\<close>

definition separate :: "svp \<Rightarrow> svp \<Rightarrow> sfs_fs \<Rightarrow> bool" where
  "separate p q s \<longleftrightarrow> owned (fino s p) (disk s) \<inter> owned (fino s q) (disk s) = {}"

lemma disk_irrelevant:
  assumes "file_ok U i d" "\<And>b. b \<in> owned i d \<Longrightarrow> d' b = d b"
  shows "bmap_fun i d' = bmap_fun i d" "owned i d' = owned i d" "file_byte i d' = file_byte i d" "file_ok U i d'"
proof -
  have "sfi_indirect i \<noteq> 0 \<Longrightarrow> d' (sfi_indirect i) = d (sfi_indirect i)"
    using assms(2) indirect_owned by blast
  then show b: "bmap_fun i d' = bmap_fun i d" by (auto simp: bmap_fun_def fun_eq_iff)
  then show o: "owned i d' = owned i d" by (simp add: owned_def)
  show "file_byte i d' = file_byte i d"
    unfolding file_byte_def b fun_eq_iff Let_def using assms(2) bmap_owned by metis
  show "file_ok U i d'" using assms(1) by (simp add: file_ok_def b o)
qed

lemma file_ok_more: "file_ok U i d \<Longrightarrow> U \<subseteq> V \<Longrightarrow> file_ok V i d"
  by (auto simp: file_ok_def)

lemma file_written_other:
  assumes "fvalid q s" "p \<noteq> q" "separate p q s" "file_written p off xs s s'"
  shows "fino s' q = fino s q" "fcont s' q = fcont s q" "fvalid q s'" "separate p q s'"
proof -
  note v = fvalidD[OF assms(1)]
  have ow: "owned (fino s q) (disk s) \<subseteq> usedset s" using file_okD(3)[OF v(2)] .
  note w = assms(4)[unfolded file_written_def]
  have f: "fino s' q = fino s q" using w assms(2) by (simp add: fino_def)
  have d: "disk s' b = disk s b" if "b \<in> owned (fino s q) (disk s)" for b
    using that ow assms(3) w by (auto simp: separate_def)
  note di = disk_irrelevant[OF v(2) d]
  show "fino s' q = fino s q" by (rule f)
  show "fcont s' q = fcont s q" by (simp add: fcont_def f di)
  have "svs s' q \<noteq> None" using w assms(1,2) by (auto simp: fvalid_def)
  moreover have "fs_ok s'" "usedset s \<subseteq> usedset s'" using w by (auto simp: fs_frameD)
  ultimately show "fvalid q s'" using file_ok_more[OF di(4)] by (simp add: fvalid_def f)
  show "separate p q s'" using w ow assms(3) by (auto simp: separate_def f di)
qed

end
