(* ===== verification/Sfs_Example.thy ===== *)
theory Sfs_Example
  imports Sfs_File Sfs_Ops
begin

text \<open>
  A small file system, on a disk of 16 blocks that never fails: the root directory in inode 1 with one
  entry, the free map in block 2, and a file of 700 bytes in inode 3 with the blocks 4 and 5. The
  theorems about SFS are applied to it.
\<close>

definition ex_card :: card_fun where
  "ex_card t w sect buf med = (if w then (LHD_OK, buf, med(sect := buf)) else (LHD_OK, med sect, med))"

definition ex_super :: sfs_super where
  "ex_super = \<lparr>sp_magic = SFS_MAGIC, sp_nblocks = 16, sp_volname = replicate 32 0, sp_reserved = replicate 118 0\<rparr>"

definition ex_root :: sfs_inode where
  "ex_root = \<lparr>sfi_size = 64, sfi_type = SFS_TYPE_DIR, sfi_linkcount = 1, sfi_direct = 6 # replicate 14 0,
     sfi_indirect = 0, sfi_waste = replicate 110 0\<rparr>"

definition ex_file :: sfs_inode where
  "ex_file = \<lparr>sfi_size = 700, sfi_type = SFS_TYPE_FILE, sfi_linkcount = 1, sfi_direct = 4 # 5 # replicate 13 0,
     sfi_indirect = 0, sfi_waste = replicate 110 0\<rparr>"

definition ex_entry :: sfs_dir where
  "ex_entry = \<lparr>sfd_ino = 3, sfd_name = 97 # replicate 59 0\<rparr>"

definition ex_map :: bitmap where
  "ex_map = \<lparr>b_nbits = 4096, b_v = 127 # 0 # replicate 510 255\<rparr>"

definition ex_medium :: medium where
  "ex_medium b =
     (if b = 0 then super_bytes ex_super else if b = 1 then inode_bytes ex_root else if b = 2 then b_v ex_map
      else if b = 3 then inode_bytes ex_file else if b = 6 then dir_bytes ex_entry @ replicate 448 0
      else replicate 512 (of_nat b))"

definition ex_device :: lhd_softc where
  "ex_device = \<lparr>lh_buf = replicate 512 0, lh_result = None, lh_clear = 1, lh_done = 0, d_blocks = 16, d_blocksize = 512,
     lh_stat = 0, lh_sect = 0, card = ex_card, card_time = 0, medium = ex_medium\<rparr>"

definition ex_vnode :: "sfs_ops \<Rightarrow> svp \<Rightarrow> sfs_ops vnode" where
  "ex_vnode ops p = \<lparr>vn_refcount = 1, vn_opencount = 0, vn_countlock = Some False, vn_fs = Some 0, vn_data = Some p,
     vn_ops = Some ops\<rparr>"

definition ex_fs :: sfs_fs where
  "ex_fs = \<lparr>sfs_sb = ex_super, sfs_superdirty = False, sfs_device = ex_device,
     sfs_vnodes = \<lparr>a_num = 2, a_max = 2, a_v = Some [Some 0, Some 1]\<rparr>,
     sfs_freemap = ex_map, sfs_freemapdirty = False,
     svs = [0 \<mapsto> \<lparr>sv_v = ex_vnode Sfs_dirops 0, sv_i = ex_root, sv_ino = 1, sv_dirty = False\<rparr>,
            1 \<mapsto> \<lparr>sv_v = ex_vnode Sfs_fileops 1, sv_i = ex_file, sv_ino = 3, sv_dirty = False\<rparr>],
     sv_next = 2, sfs_kmem = (\<lambda>_. True)\<rparr>"

lemma ex_fs_simps [simp]:
  "sfs_sb ex_fs = ex_super" "sfs_device ex_fs = ex_device" "sfs_freemap ex_fs = ex_map" "sp_nblocks ex_super = 16"
  "sp_magic ex_super = SFS_MAGIC" "b_nbits ex_map = 4096" "length (b_v ex_map) = 512" "sfs_freemapdirty ex_fs = False"
  "sfs_superdirty ex_fs = False" "sfs_kmem ex_fs = (\<lambda>_. True)" "sv_next ex_fs = 2"
  "d_blocks ex_device = 16" "card ex_device = ex_card" "medium ex_device = ex_medium"
  "svs ex_fs 0 = Some \<lparr>sv_v = ex_vnode Sfs_dirops 0, sv_i = ex_root, sv_ino = 1, sv_dirty = False\<rparr>"
  "svs ex_fs (Suc 0) = Some \<lparr>sv_v = ex_vnode Sfs_fileops 1, sv_i = ex_file, sv_ino = 3, sv_dirty = False\<rparr>"
  "svs ex_fs p = None \<longleftrightarrow> p \<noteq> 0 \<and> p \<noteq> 1"
  by (simp_all add: ex_fs_def ex_super_def ex_map_def ex_device_def)

lemma ex_formats: "super_ok ex_super" "inode_ok ex_root" "inode_ok ex_file" "dir_ok ex_entry"
  by (simp_all add: super_ok_def inode_ok_def dir_ok_def words_ok_def ex_super_def ex_root_def ex_file_def ex_entry_def
      sfs_consts SFS_MAGIC_def)

lemma ex_card_ok: "card_ok n ex_card" "writes_ok n ex_card"
  by (auto simp: card_ok_def writes_ok_def ex_card_def LHD_OK_def LHD_STATEMASK_def)

lemma ex_map_used: "b < 4096 \<Longrightarrow> bitmap_used ex_map b \<longleftrightarrow> b < 7 \<or> 16 \<le> b"
proof -
  assume b: "b < 4096"
  have "b < 8 \<or> (8 \<le> b \<and> b < 16) \<or> 16 \<le> b" by linarith
  then consider "b < 8" | "8 \<le> b" "b < 16" | "16 \<le> b" by blast
  then show ?thesis
  proof cases
    case 1
    then have "b div 8 = 0" "b mod 8 = b" by simp_all
    moreover have "bit (127 :: 8 word) b \<longleftrightarrow> b < 7"
      using 1 by (auto simp: numeral_eq_Suc less_Suc_eq)
    ultimately show ?thesis using 1 by (simp add: bitmap_used_def ex_map_def)
  next
    case 2
    then have "b div 8 = 1" by simp
    then show ?thesis using 2 by (simp add: bitmap_used_def ex_map_def)
  next
    case 3
    then have "2 \<le> b div 8" "b div 8 < 512" using b by auto
    then have k: "b div 8 = Suc (Suc (b div 8 - 2))" "b div 8 - 2 < 510" by simp_all
    have "(255 :: 8 word) = mask 8" by (simp add: mask_eq_exp_minus_1)
    moreover have "bit (mask 8 :: 8 word) (b mod 8)" by (simp add: bit_mask_iff)
    ultimately have "bit (255 :: 8 word) (b mod 8)" by (simp only:)
    moreover have "b_v ex_map ! (b div 8) = 255" unfolding ex_map_def using k(2) by (subst k(1)) simp
    ultimately show ?thesis using 3 by (simp add: bitmap_used_def)
  qed
qed

lemma ex_usedset: "usedset ex_fs = {..<7}"
  by (auto simp: usedset_def ex_map_used)

lemma ex_medium_length: "length (ex_medium b) = 512"
  using ex_formats by (auto simp: ex_medium_def length_super_bytes super_ok_def inode_ok_def dir_ok_def inode_bytes_def dir_bytes_def ex_map_def)

lemma ex_fs_ok: "fs_ok ex_fs"
proof -
  have "lhd_inv ex_device"
    by (simp add: lhd_inv_def ex_device_def ex_card_ok ex_medium_length)
  moreover have "bitmap_inv ex_map" by (simp add: bitmap_inv_def)
  moreover have "0 \<in> usedset ex_fs" by (simp add: ex_usedset)
  ultimately show ?thesis by (simp add: fs_ok_def ex_card_ok ex_map_used)
qed

lemma ex_inodes [simp]: "fino ex_fs 0 = ex_root" "fino ex_fs (Suc 0) = ex_file" "fino ex_fs 1 = ex_file"
  by (simp_all add: fino_def)

lemma ex_bmap:
  "bmap_fun ex_root d k = (if k = 0 then 6 else 0)" "bmap_fun ex_file d k = (if k = 0 then 4 else if k = 1 then 5 else 0)"
  by (auto simp: bmap_fun_def ex_root_def ex_file_def nth_Cons' )

lemma ex_inode_simps [simp]:
  "sfi_indirect ex_root = 0" "sfi_indirect ex_file = 0" "sfi_size ex_root = 64" "sfi_size ex_file = 700"
  "sfi_type ex_root = SFS_TYPE_DIR" "sfi_type ex_file = SFS_TYPE_FILE" "sfi_linkcount ex_file = 1"
  by (simp_all add: ex_root_def ex_file_def)

lemma ex_owned: "owned ex_root d = {6}" "owned ex_file d = {4, 5}"
  by (auto simp: owned_def ex_bmap split: if_splits)

lemma ex_valid: "fvalid 0 ex_fs" "fvalid 1 ex_fs"
  by (auto simp: fvalid_def ex_fs_ok file_ok_def ex_formats ex_owned ex_usedset ex_bmap split: if_splits)

end
