(* ===== verification/Sfs_Claims.thy ===== *)
theory Sfs_Claims
  imports Sfs_Example
begin

text \<open>
  What SFS promises of files: reading, writing, and that files do not interfere with each other.
\<close>

lemma wp_sfs_read: "uio_rw (fst st) = UIO_READ \<Longrightarrow> wp (sfs_read p) Q E st = wp (sfs_io p) Q E st"
  and wp_sfs_write: "uio_rw (fst st) = UIO_WRITE \<Longrightarrow> wp (sfs_write p) Q E st = wp (sfs_io p) Q E st"
  by (simp_all add: sfs_read_def sfs_write_def wp_bind wp_gets wp_assertk wp_ret)

section \<open>Reading\<close>


lemma ex_tail: "fslice ex_fs 1 650 50 = replicate 50 5"
proof (rule replicate_eqI)
  fix y assume "y \<in> set (fslice ex_fs 1 650 50)"
  then obtain x where x: "y = fcont ex_fs 1 x" "650 \<le> x" "x < 700" by (auto simp: fslice_def)
  then have "x div 512 = 1" by simp
  with x show "y = 5" by (simp add: fcont_def file_byte_def ex_bmap ex_medium_def)
qed simp


section \<open>Writing\<close>

lemma wp_sfs_write_written:
  assumes "fvalid p s" "uio_rw u = UIO_WRITE" "uio_ready u n" "uio_resid u = n" "0 < n" "off = nat (uio_offset u)"
  shows "wp (sfs_write p)
    (\<lambda>_ (u', s'). u' = uio_done n (uio_mem u) u \<and> file_written p off (get_bytes (uio_mem u) (iov_base u) n) s s' \<and>
       off + n \<le> 512 * max_fileblocks)
    (\<lambda>e (u', s'). e \<in> {EIO, ENOSPC, EINVAL} \<and> (\<exists>k < n. u' = uio_done k (uio_mem u) u \<and>
       file_written p off (get_bytes (uio_mem u) (iov_base u) k) s s')) (u, s)"
  unfolding wp_sfs_write[of "(u, s)", simplified, OF assms(2)]
proof (rule wp_mono[OF wp_sfs_io_write[OF assms]])
  fix a st assume h: "fwrote p off (get_bytes (uio_mem u) (iov_base u) n) s (snd st) \<and> fst st = uio_done n (uio_mem u) u"
  then have "off + n \<le> 512 * max_fileblocks" using assms(5) by (auto simp: fwrote_def fwriting_def simp flip: length_0_conv)
  with h fwrote_written[OF assms(1)]
  show "case st of (u', s') \<Rightarrow> u' = uio_done n (uio_mem u) u \<and>
    file_written p off (get_bytes (uio_mem u) (iov_base u) n) s s' \<and> off + n \<le> 512 * max_fileblocks" by (cases st) auto
next
  fix e st assume h: "e \<in> {EIO, ENOSPC, EINVAL} \<and> (\<exists>k < n. (k = 0 \<or> (off + k) mod 512 = 0) \<and>
    fwrote p off (get_bytes (uio_mem u) (iov_base u) k) s (snd st) \<and> fst st = uio_done k (uio_mem u) u)"
  then obtain k where "e \<in> {EIO, ENOSPC, EINVAL}" "k < n" "fst st = uio_done k (uio_mem u) u"
    "file_written p off (get_bytes (uio_mem u) (iov_base u) k) s (snd st)" using fwrote_written[OF assms(1)] by blast
  then show "case st of (u', s') \<Rightarrow> e \<in> {EIO, ENOSPC, EINVAL} \<and> (\<exists>k < n. u' = uio_done k (uio_mem u) u \<and>
       file_written p off (get_bytes (uio_mem u) (iov_base u) k) s s')" by (cases st) auto
qed





section \<open>Other files\<close>



end
