(* ===== verification/Sfs_Dir.thy ===== *)
theory Sfs_Dir
  imports Sfs_File
begin

text \<open>
  Directories: the entries of a directory as a list, and what the directory routines of
  \<open>sfs_vnode.c\<close> do to it. A directory is a finite map from names to inode numbers.
\<close>

section \<open>Entries\<close>

definition dvalid :: "svp \<Rightarrow> sfs_fs \<Rightarrow> bool" where
  "dvalid d s \<longleftrightarrow> fvalid d s \<and> sfi_type (fino s d) = SFS_TYPE_DIR \<and> sfi_size (fino s d) mod 64 = 0"

definition dents :: "sfs_fs \<Rightarrow> svp \<Rightarrow> sfs_dir list" where
  "dents s d = map (\<lambda>i. bytes_dir (fslice s d (64 * i) 64)) [0..<sfi_size (fino s d) div 64]"

lemma length_dents: "length (dents s d) = sfi_size (fino s d) div 64"
  by (simp add: dents_def)

lemma nth_dents: "i < length (dents s d) \<Longrightarrow> dents s d ! i = bytes_dir (fslice s d (64 * i) 64)"
  by (simp add: dents_def)

lemma dvalidD:
  assumes "dvalid d s"
  shows "fvalid d s" "sfi_type (fino s d) = SFS_TYPE_DIR" "sfi_size (fino s d) = 64 * length (dents s d)"
    "length (dents s d) \<le> 1144"
proof -
  show v: "fvalid d s" "sfi_type (fino s d) = SFS_TYPE_DIR" using assms by (simp_all add: dvalid_def)
  show s: "sfi_size (fino s d) = 64 * length (dents s d)" using assms by (auto simp: dvalid_def length_dents)
  have "sfi_size (fino s d) \<le> max_fileblocks * 512" using fvalidD(2)[OF v(1)] by (simp add: file_ok_def)
  then show "length (dents s d) \<le> 1144" using s by linarith
qed

lemma fs_same_dir:
  assumes "fs_same s t" "dvalid d s"
  shows "dvalid d t" "dents t d = dents s d"
proof -
  note v = fs_same_fvalid[OF assms(1) dvalidD(1)[OF assms(2)]]
  show "dvalid d t" using assms(2) v by (simp add: dvalid_def)
  show "dents t d = dents s d" using v by (simp add: dents_def fslice_def)
qed

lemma dents_ok: "sd \<in> set (dents s d) \<Longrightarrow> dir_ok sd"
  by (auto simp: dents_def dir_ok_def bytes_dir_def be4_take[simplified])

lemma wp_sfs_dir_nentries:
  assumes "dvalid d s"
  shows "wp (sfs_dir_nentries d) Q E s = Q (int (length (dents s d))) s"
proof -
  obtain sv where sv: "svs s d = Some sv" "sv_i sv = fino s d" by (rule fvalidE[OF dvalidD(1)[OF assms]])
  then show ?thesis using assms by (simp add: sfs_dir_nentries_def wp_rules dvalid_def SFS_DIRSIZE_def length_dents)
qed

lemma slot_pos: "i \<le> 1144 \<Longrightarrow> s32 (int i * int 64) = int (64 * i)"
  by simp

lemma wp_sfs_readdir:
  assumes "dvalid d s" "i < length (dents s d)"
  shows "wp (sfs_readdir d (int i)) (\<lambda>sd s'. sd = dents s d ! i \<and> fs_same s s') (\<lambda>e s'. e = EIO \<and> fs_same s s') s"
proof -
  note v = dvalidD[OF assms(1)]
  let ?u = "mk_kuio (replicate 64 0) 64 (int (64 * i)) UIO_READ"
  have i: "i \<le> 1144" "64 * i + 64 \<le> sfi_size (fino s d)" using assms(2) v(3,4) by auto
  have r: "uio_ready ?u 64" using i(1) by (intro mk_kuio_ready) simp_all
  have m: "min 64 (sfi_size (fino s d) - 64 * i) = 64" using i(2) by simp
  show ?thesis
    unfolding sfs_readdir_def wp_bind wp_with_uio SFS_DIRSIZE_def slot_pos[OF i(1)]
    by (rule wp_mono[OF wp_sfs_io_read[OF v(1) _ r, of "64 * i", unfolded m]])
      (use nth_dents[OF assms(2)] in \<open>auto simp: wp_rules get_put_bytes_whole\<close>)
qed

section \<open>Changing one entry\<close>

lemma file_written_dir:
  assumes "dvalid d s" "i \<le> length (dents s d)" "dir_ok sd" "file_written d (64 * i) (dir_bytes sd) s s'" "64 * i + 64 \<le> 512 * max_fileblocks"
  shows "dvalid d s'" "dents s' d = (if i < length (dents s d) then (dents s d)[i := sd] else dents s d @ [sd])"
proof -
  note v = dvalidD[OF assms(1)]
  note w = assms(4)[unfolded file_written_def]
  have len: "length (dir_bytes sd) = 64" using assms(3) by (simp add: dir_bytes_def dir_ok_def)
  have size: "sfi_size (fino s' d) = 64 * max (length (dents s d)) (i + 1)" using w v(3) len by (simp add: max_def)
  have valid: "fvalid d s'" using w len assms(5) by simp
  have "sfi_type (fino s' d) = SFS_TYPE_DIR" using w v(2) by simp
  with valid show "dvalid d s'" unfolding dvalid_def size by simp
  have n: "length (dents s' d) = max (length (dents s d)) (i + 1)" using size by (simp add: length_dents)
  have slice: "fslice s' d (64 * j) 64 = (if j = i then dir_bytes sd else fslice s d (64 * j) 64)" for j
  proof (rule nth_equalityI)
    fix k assume k: "k < length (fslice s' d (64 * j) 64)"
    then have k': "k < 64" by simp
    have "fslice s' d (64 * j) 64 ! k = fput (fcont s d) (64 * i) (dir_bytes sd) (64 * j + k)"
      using k' w by (simp add: fslice_def)
    also have "\<dots> = (if j = i then dir_bytes sd ! k else fcont s d (64 * j + k))"
    proof (cases "j = i")
      case False
      then have "Suc j \<le> i \<or> Suc i \<le> j" by linarith
      then have "\<not> (64 * i \<le> 64 * j + k \<and> 64 * j + k < 64 * i + 64)" using k' by linarith
      then show ?thesis using False len by (auto simp: fput_def)
    qed (use k' len in \<open>simp add: fput_def\<close>)
    finally show "fslice s' d (64 * j) 64 ! k = (if j = i then dir_bytes sd else fslice s d (64 * j) 64) ! k"
      using k' by (simp add: fslice_def)
  qed (simp add: len)
  have "dents s' d ! j = (if j = i then sd else dents s d ! j)" if "j < length (dents s' d)" for j
  proof (cases "j = i")
    case False
    then have "j < length (dents s d)" using that assms(2) unfolding n by (auto simp: max_def split: if_splits)
    then show ?thesis using False that slice[of j] by (simp add: nth_dents)
  qed (use that slice[of i] bytes_dir_bytes[OF assms(3)] in \<open>simp add: nth_dents\<close>)
  then show "dents s' d = (if i < length (dents s d) then (dents s d)[i := sd] else dents s d @ [sd])"
    by (intro nth_equalityI) (use n assms(2) in \<open>auto simp: nth_append nth_list_update max_def\<close>)
qed

lemma file_written_none:
  assumes "dvalid d s" "off \<le> sfi_size (fino s d)" "file_written d off [] s s'"
  shows "dvalid d s'" "dents s' d = dents s d"
proof -
  note v = dvalidD[OF assms(1)]
  note w = assms(3)[unfolded file_written_def]
  have size: "sfi_size (fino s' d) = sfi_size (fino s d)" using w assms(2) by simp
  have "sfi_size (fino s d) \<le> max_fileblocks * 512" using fvalidD(2)[OF v(1)] by (simp add: file_ok_def)
  then have "fvalid d s'" using w assms(2) by simp
  then show "dvalid d s'" using assms(1) w unfolding dvalid_def size by simp
  show "dents s' d = dents s d" using w size by (simp add: dents_def fslice_def)
qed

text \<open>
  An entry lies in one block, so a write of it that fails leaves the directory as it was.
\<close>

lemma wp_sfs_writedir:
  assumes "dvalid d s" "i \<le> length (dents s d)" "dir_ok sd"
  shows "wp (sfs_writedir d sd (int i))
    (\<lambda>_ s'. file_written d (64 * i) (dir_bytes sd) s s' \<and> dvalid d s' \<and>
       dents s' d = (if i < length (dents s d) then (dents s d)[i := sd] else dents s d @ [sd]))
    (\<lambda>e s'. e \<in> {EIO, ENOSPC, EINVAL} \<and> file_written d (64 * i) [] s s' \<and> dvalid d s' \<and> dents s' d = dents s d) s"
proof -
  note v = dvalidD[OF assms(1)]
  let ?u = "mk_kuio (dir_bytes sd) 64 (int (64 * i)) UIO_WRITE"
  have i: "i \<le> 1144" "64 * i \<le> sfi_size (fino s d)" using assms(2) v(3,4) by linarith+
  have len: "length (dir_bytes sd) = 64" using assms(3) by (simp add: dir_bytes_def dir_ok_def)
  have r: "uio_ready ?u 64" using i(1) len by (intro mk_kuio_ready) simp_all
  have k: "k = 0" if "k < 64" "k = 0 \<or> (64 * i + k) mod 512 = 0" for k
    using that mod_mod_cancel[of 64 512 "64 * i + k"] by auto
  have ok: "wp (if uio_resid (fst st) > 0 then panic ''sfs: writedir: Short write'' else ret ())
      (\<lambda>_ s'. file_written d (64 * i) (dir_bytes sd) s s' \<and> dvalid d s' \<and>
       dents s' d = (if i < length (dents s d) then (dents s d)[i := sd] else dents s d @ [sd])) E (snd st)"
    if h: "fwrote d (64 * i) (get_bytes (uio_mem ?u) (iov_base ?u) 64) s (snd st) \<and> fst st = uio_done 64 (uio_mem ?u) ?u" for st E
  proof -
    have f: "fwrote d (64 * i) (dir_bytes sd) s (snd st)" using h len by simp
    then have "64 * i + 64 \<le> 512 * max_fileblocks" using len by (auto simp: fwrote_def fwriting_def simp flip: length_0_conv)
    note d = file_written_dir[OF assms fwrote_written[OF v(1) f] this]
    show ?thesis using h d fwrote_written[OF v(1) f] by (simp add: wp_rules)
  qed
  show ?thesis
    unfolding sfs_writedir_def wp_bind wp_with_uio wp_assertk SFS_DIRSIZE_def slot_pos[OF i(1)]
  proof (rule conjI[OF _ wp_mono[OF wp_sfs_io_write[OF v(1) _ r, of "64 * i"]]])
    fix e st assume h: "e \<in> {EIO, ENOSPC, EINVAL} \<and> (\<exists>k < 64. (k = 0 \<or> (64 * i + k) mod 512 = 0) \<and>
      fwrote d (64 * i) (get_bytes (uio_mem ?u) (iov_base ?u) k) s (snd st) \<and> fst st = uio_done k (uio_mem ?u) ?u)"
    then obtain j where e: "e \<in> {EIO, ENOSPC, EINVAL}" and j: "j < 64" "j = 0 \<or> (64 * i + j) mod 512 = 0"
      "fwrote d (64 * i) (get_bytes (uio_mem ?u) (iov_base ?u) j) s (snd st)" by (elim conjE exE)
    then have f: "fwrote d (64 * i) [] s (snd st)" using k[OF j(1,2)] j(3) by simp
    note w = fwrote_written[OF v(1) f]
    show "e \<in> {EIO, ENOSPC, EINVAL} \<and> file_written d (64 * i) [] s (snd st) \<and> dvalid d (snd st) \<and> dents (snd st) d = dents s d"
      using e w file_written_none[OF assms(1) i(2) w] by blast
  qed (use ok in simp_all)
qed

section \<open>Names\<close>

definition dlive :: "sfs_dir \<Rightarrow> bool" where "dlive sd \<longleftrightarrow> sfd_ino sd \<noteq> SFS_NOINO"

definition dname :: "sfs_dir \<Rightarrow> byte list" where "dname sd = cstr ((sfd_name sd)[SFS_NAMELEN - 1 := 0])"

definition dentry :: "byte list \<Rightarrow> nat \<Rightarrow> sfs_dir" where
  "dentry name ino = \<lparr>sfd_ino = ino, sfd_name = name @ replicate (SFS_NAMELEN - length name) 0\<rparr>"

definition dfree :: sfs_dir where
  "dfree = \<lparr>sfd_ino = SFS_NOINO, sfd_name = replicate SFS_NAMELEN 0\<rparr>"

text \<open>A directory is well-formed when no name appears twice; then it is a map.\<close>

definition dnames :: "sfs_dir list \<Rightarrow> byte list list" where "dnames ds = map dname (filter dlive ds)"

definition dmap :: "sfs_dir list \<Rightarrow> byte list \<Rightarrow> nat option" where
  "dmap ds = map_of (map (\<lambda>sd. (dname sd, sfd_ino sd)) (filter dlive ds))"

lemma dentry_simps:
  assumes "length name < 60" "0 \<notin> set name" "ino \<noteq> 0" "ino < 2 ^ 32"
  shows "dlive (dentry name ino)" "dname (dentry name ino) = name" "sfd_ino (dentry name ino) = ino" "dir_ok (dentry name ino)"
proof -
  have "(replicate (60 - length name) 0)[59 - length name := 0] = replicate (60 - length name) (0 :: byte)"
    using assms(1) by (simp add: list_update_same_conv)
  moreover have "takeWhile (\<lambda>b. b \<noteq> 0) (name @ replicate (60 - length name) 0) = name"
    using assms(1,2) by (subst takeWhile_append2) (auto simp: takeWhile_eq_Nil_iff)
  ultimately have "takeWhile (\<lambda>b. b \<noteq> 0) (name @ (replicate (60 - length name) 0)[59 - length name := 0]) = name" by simp
  then show "dname (dentry name ino) = name"
    using assms(1) by (simp add: dname_def dentry_def SFS_NAMELEN_def cstr_def list_update_append)
qed (use assms in \<open>simp_all add: dlive_def dentry_def SFS_NOINO_def dir_ok_def SFS_NAMELEN_def\<close>)

lemma dfree_simps [simp]: "\<not> dlive dfree" "dir_ok dfree"
  by (simp_all add: dlive_def dfree_def dir_ok_def SFS_NOINO_def SFS_NAMELEN_def)

abbreviation dwf :: "sfs_dir list \<Rightarrow> bool" where "dwf ds \<equiv> distinct (dnames ds)"

lemma dnames_append [simp]: "dnames (xs @ ys) = dnames xs @ dnames ys"
  "dnames (x # xs) = (if dlive x then dname x # dnames xs else dnames xs)" "dnames [] = []"
  by (simp_all add: dnames_def)

lemma in_dnames: "name \<in> set (dnames ds) \<longleftrightarrow> (\<exists>i < length ds. dlive (ds ! i) \<and> dname (ds ! i) = name)"
  by (auto simp: dnames_def in_set_conv_nth Bex_def)

lemma dom_dmap: "dom (dmap ds) = set (dnames ds)"
  by (simp add: dmap_def dnames_def dom_map_of_conv_image_fst image_comp comp_def)

lemma dmap_append [simp]: "dmap (xs @ ys) = dmap ys ++ dmap xs" "dmap [] = Map.empty"
  "dmap (x # xs) = (if dlive x then (dmap xs)(dname x \<mapsto> sfd_ino x) else dmap xs)"
  by (simp_all add: dmap_def)

lemma split_at: "i < length xs \<Longrightarrow> xs = take i xs @ xs ! i # drop (Suc i) xs"
  by (rule id_take_nth_drop)

lemma dwf_slot:
  assumes "dwf ds" "i < length ds" "j < length ds" "dlive (ds ! i)" "dlive (ds ! j)" "dname (ds ! i) = dname (ds ! j)"
  shows "i = j"
proof (rule ccontr)
  have False if "i < j" "j < length ds" "dlive (ds ! i)" "dlive (ds ! j)" "dname (ds ! i) = dname (ds ! j)" for i j
  proof -
    have "dwf (take j ds @ ds ! j # drop (Suc j) ds)" using assms(1) split_at[OF that(2)] by simp
    then have "dname (ds ! j) \<notin> set (dnames (take j ds))" using that(4) by simp
    moreover have "dname (ds ! i) \<in> set (dnames (take j ds))"
      unfolding in_dnames using that by (intro exI[of _ i]) simp
    ultimately show False using that(5) by simp
  qed
  moreover assume "i \<noteq> j"
  ultimately show False using assms(2-6) by (metis linorder_neqE_nat)
qed

lemma dmap_slot:
  assumes "dwf ds" "i < length ds" "dlive (ds ! i)"
  shows "dmap ds (dname (ds ! i)) = Some (sfd_ino (ds ! i))"
proof -
  have "dwf (take i ds @ ds ! i # drop (Suc i) ds)" using assms(1) split_at[OF assms(2)] by simp
  then have "dname (ds ! i) \<notin> dom (dmap (take i ds))" using assms(3) by (simp add: dom_dmap)
  moreover have "dmap ds = dmap (take i ds @ ds ! i # drop (Suc i) ds)" using split_at[OF assms(2)] by simp
  ultimately show ?thesis using assms(3) by (simp add: map_add_Some_iff domIff)
qed

lemma dmap_none: "dmap ds name = None \<longleftrightarrow> name \<notin> set (dnames ds)"
  using dom_dmap[of ds] by (auto simp: domIff)

text \<open>Putting an entry into an empty slot or at the end, and taking one out.\<close>

lemma dir_put:
  assumes "dwf ds" "i < length ds \<Longrightarrow> \<not> dlive (ds ! i)" "name \<notin> set (dnames ds)" "dlive e" "dname e = name"
  defines "ds' \<equiv> if i < length ds then ds[i := e] else ds @ [e]"
  shows "dwf ds'" "dmap ds' = (dmap ds)(name \<mapsto> sfd_ino e)"
proof -
  obtain xs ys where d: "dnames ds = dnames xs @ dnames ys" "dmap ds = dmap ys ++ dmap xs" "ds' = xs @ e # ys"
  proof (cases "i < length ds")
    case True
    let ?x = "take i ds" and ?y = "drop (Suc i) ds"
    have ds: "ds = ?x @ ds ! i # ?y" by (rule split_at[OF True])
    have "dnames ds = dnames ?x @ dnames ?y" using assms(2)[OF True] by (subst ds) simp
    moreover have "dmap ds = dmap ?y ++ dmap ?x" using assms(2)[OF True] by (subst ds) simp
    moreover have "ds' = ?x @ e # ?y" using True by (simp add: ds'_def upd_conv_take_nth_drop)
    ultimately show ?thesis by (rule that)
  next
    case False
    then show ?thesis using that[of ds "[]"] by (simp add: ds'_def)
  qed
  show "dwf ds'" using assms(1,3-5) d by auto
  have "name \<notin> dom (dmap xs)" using assms(3) d by (simp add: dom_dmap)
  then show "dmap ds' = (dmap ds)(name \<mapsto> sfd_ino e)"
    using assms(4,5) d by (auto simp: fun_eq_iff map_add_def domIff split: option.splits)
qed

lemma dir_take:
  assumes "dwf ds" "i < length ds" "dlive (ds ! i)" "\<not> dlive e"
  shows "dwf (ds[i := e])" "dmap (ds[i := e]) = (dmap ds)(dname (ds ! i) := None)"
proof -
  let ?x = "take i ds" and ?y = "drop (Suc i) ds"
  have ds: "ds = ?x @ ds ! i # ?y" by (rule split_at[OF assms(2)])
  have ds': "ds[i := e] = ?x @ e # ?y" using assms(2) by (simp add: upd_conv_take_nth_drop)
  have n: "dnames ds = dnames ?x @ dname (ds ! i) # dnames ?y" using assms(3) by (subst ds) simp
  then show "dwf (ds[i := e])" using assms(1,4) by (simp add: ds')
  have "dname (ds ! i) \<notin> dom (dmap ?x)" "dname (ds ! i) \<notin> dom (dmap ?y)" using assms(1) n by (auto simp: dom_dmap)
  moreover have "dmap ds = (dmap ?y)(dname (ds ! i) \<mapsto> sfd_ino (ds ! i)) ++ dmap ?x" using assms(3) by (subst ds) simp
  ultimately show "dmap (ds[i := e]) = (dmap ds)(dname (ds ! i) := None)"
    using assms(4) by (auto simp: ds' fun_eq_iff map_add_def domIff split: option.splits)
qed

section \<open>Searching, linking and unlinking\<close>

text \<open>What the search finds: a slot with the name, and an empty slot.\<close>

definition found_ok :: "byte list \<Rightarrow> sfs_dir list \<Rightarrow> nat set \<Rightarrow> (nat \<times> int) option \<Rightarrow> bool" where
  "found_ok name ds I found \<longleftrightarrow> (case found of
       None \<Rightarrow> \<forall>i \<in> I. dlive (ds ! i) \<longrightarrow> dname (ds ! i) \<noteq> name
     | Some (ino, slot) \<Rightarrow> \<exists>i \<in> I. slot = int i \<and> ino = sfd_ino (ds ! i) \<and> dlive (ds ! i) \<and> dname (ds ! i) = name)"

definition empty_ok :: "sfs_dir list \<Rightarrow> nat set \<Rightarrow> int option \<Rightarrow> bool" where
  "empty_ok ds I e \<longleftrightarrow> (case e of
       None \<Rightarrow> \<forall>i \<in> I. dlive (ds ! i) | Some slot \<Rightarrow> \<exists>i \<in> I. slot = int i \<and> \<not> dlive (ds ! i))"

lemma wp_findname_loop:
  assumes "dvalid d s" "dwf (dents s d)"
  shows "set is \<union> I \<subseteq> {..<length (dents s d)} \<Longrightarrow> set is \<inter> I = {} \<Longrightarrow> distinct is \<Longrightarrow> fs_same s t \<Longrightarrow>
     found_ok name (dents s d) I found \<Longrightarrow> empty_ok (dents s d) I e \<Longrightarrow>
     wp (sfs_dir_findname_loop d name is found e)
       (\<lambda>(found, e) s'. fs_same s s' \<and> found_ok name (dents s d) (set is \<union> I) found \<and> empty_ok (dents s d) (set is \<union> I) e)
       (\<lambda>err s'. err = EIO \<and> fs_same s s') t"
proof (induction "is" arbitrary: I t found e)
  case Nil
  then show ?case by (simp add: wp_rules)
next
  case (Cons i "is")
  let ?ds = "dents s d"
  note t = fs_same_dir[OF Cons.prems(4) assms(1)]
  have i: "i < length ?ds" "i \<notin> I" "i \<notin> set is" using Cons.prems by auto
  let ?Q = "\<lambda>(found, e) s'. fs_same s s' \<and> found_ok name ?ds (set (i # is) \<union> I) found \<and> empty_ok ?ds (set (i # is) \<union> I) e"
  have un: "set is \<union> insert i I = set (i # is) \<union> I" by auto
  have rec: "wp (sfs_dir_findname_loop d name is found' e') ?Q (\<lambda>err s'. err = EIO \<and> fs_same s s') t'"
    if "fs_same s t'" "found_ok name ?ds (insert i I) found'" "empty_ok ?ds (insert i I) e'" for found' e' t'
    using Cons.IH[of "insert i I" t' found' e'] that Cons.prems(1-3) i unfolding un by auto
  have one: "found = None" if "dlive (?ds ! i)" "dname (?ds ! i) = name"
  proof (cases found)
    case (Some x)
    then obtain j where "j \<in> I" "dlive (?ds ! j)" "dname (?ds ! j) = name"
      using Cons.prems(5) by (auto simp: found_ok_def)
    with dwf_slot[OF assms(2) i(1), of j] that i Cons.prems(1) show ?thesis by auto
  qed simp
  have step: "wp (if sfd_ino tsd = SFS_NOINO then sfs_dir_findname_loop d name is found (Some (int i))
     else if cstr ((sfd_name tsd)[SFS_NAMELEN - 1 := 0]) = name then
       bind (assertk (found = None) ''found==0'') (\<lambda>_.
       sfs_dir_findname_loop d name is (Some (sfd_ino tsd, int i)) e)
     else sfs_dir_findname_loop d name is found e) ?Q (\<lambda>err s'. err = EIO \<and> fs_same s s') t'"
    if tsd: "tsd = ?ds ! i" and t': "fs_same s t'" for tsd t'
  proof (cases "dlive (?ds ! i)")
    case False
    then have "found_ok name ?ds (insert i I) found" "empty_ok ?ds (insert i I) (Some (int i))"
      using Cons.prems(5) by (auto simp: found_ok_def empty_ok_def split: option.splits)
    from rec[OF t' this] False show ?thesis by (simp add: tsd dlive_def)
  next
    case live: True
    have e: "empty_ok ?ds (insert i I) e" using Cons.prems(6) live by (auto simp: empty_ok_def split: option.splits)
    show ?thesis
    proof (cases "dname (?ds ! i) = name")
      case True
      have "found_ok name ?ds (insert i I) (Some (sfd_ino tsd, int i))" using live True tsd by (auto simp: found_ok_def)
      from rec[OF t' this e] live True one[OF live True] show ?thesis
        by (simp add: tsd dlive_def dname_def wp_bind wp_assertk wp_ret)
    next
      case False
      then have "found_ok name ?ds (insert i I) found" using Cons.prems(5) by (auto simp: found_ok_def split: option.splits)
      from rec[OF t' this e] live False show ?thesis by (simp add: tsd dlive_def dname_def)
    qed
  qed
  show ?case unfolding sfs_dir_findname_loop.simps wp_bind
    by (rule wp_mono[OF wp_sfs_readdir[OF t(1), of i, unfolded t(2), OF i(1)]])
      (use fs_same_trans[OF Cons.prems(4)] step in auto)
qed

lemma wp_sfs_dir_findname:
  assumes "dvalid d s" "dwf (dents s d)"
  shows "wp (sfs_dir_findname d name)
    (\<lambda>(found, e) s'. fs_same s s' \<and> found_ok name (dents s d) {..<length (dents s d)} found \<and>
       empty_ok (dents s d) {..<length (dents s d)} e)
    (\<lambda>err s'. err = EIO \<and> fs_same s s') s"
  unfolding sfs_dir_findname_def wp_bind wp_sfs_dir_nentries[OF assms(1)]
  using wp_findname_loop[OF assms, of "[0..<length (dents s d)]" "{}" s name None None]
    fs_same_refl[OF fvalidD(1)[OF dvalidD(1)[OF assms(1)]]]
  by (simp add: found_ok_def empty_ok_def atLeast0LessThan)

text \<open>In terms of the map: what is found is what the map has.\<close>

lemma found_dmap:
  assumes "dwf ds" "found_ok name ds {..<length ds} found"
  shows "dmap ds name = map_option fst found"
    "found = Some (ino, slot) \<Longrightarrow> \<exists>i < length ds. slot = int i \<and> dlive (ds ! i) \<and> dname (ds ! i) = name \<and> ino = sfd_ino (ds ! i)"
proof -
  show "dmap ds name = map_option fst found"
    using assms dmap_slot[OF assms(1)] by (auto simp: found_ok_def dmap_none in_dnames split: option.splits)
  show "found = Some (ino, slot) \<Longrightarrow> \<exists>i < length ds. slot = int i \<and> dlive (ds ! i) \<and> dname (ds ! i) = name \<and> ino = sfd_ino (ds ! i)"
    using assms(2) by (auto simp: found_ok_def)
qed

text \<open>
  The outcome of an operation that changes no byte of the file; it may have attached a block of zeros
  before it failed.
\<close>

abbreviation file_same :: "svp \<Rightarrow> sfs_fs \<Rightarrow> sfs_fs \<Rightarrow> bool" where
  "file_same p s s' \<equiv> file_written p 0 [] s s'"

lemma fs_same_file_same: "fs_same s s' \<Longrightarrow> fvalid p s \<Longrightarrow> file_same p s s'"
  using fs_same_fvalid[of s s' p] fs_sameD[of s s'] file_okD(3)[OF fvalidD(2), of p s] fgrown_marked[of p s s']
  by (auto simp: file_written_def)

lemma file_written_file_same:
  assumes "file_written p off [] s s'" "off \<le> sfi_size (fino s p)" "fvalid p s"
  shows "file_same p s s'"
proof -
  have "sfi_size (fino s p) \<le> max_fileblocks * 512" using fvalidD(2)[OF assms(3)] by (simp add: file_ok_def)
  then show ?thesis using assms(1,2) by (auto simp: file_written_def max_def)
qed

lemma fs_same_file_written:
  assumes "fs_same s t" "fvalid p s" "file_written p off xs t s'"
  shows "file_written p off xs s s'"
  using assms(3) fs_same_fvalid[OF assms(1,2)] fs_sameD[OF assms(1)] fs_frame_trans[of s t s']
    marked_trans[OF fgrown_marked, of p s t s']
  by (simp add: file_written_def)

lemma wp_sfs_dir_link:
  assumes "dvalid d s" "dwf (dents s d)" "0 \<notin> set name" "ino \<noteq> 0" "ino < 2 ^ 32"
  shows "wp (sfs_dir_link d name ino)
    (\<lambda>slot s'. \<exists>i. slot = int i \<and> i \<le> length (dents s d) \<and> (i < length (dents s d) \<longrightarrow> \<not> dlive (dents s d ! i)) \<and>
       dmap (dents s d) name = None \<and> length name < 60 \<and>
       file_written d (64 * i) (dir_bytes (dentry name ino)) s s' \<and> dvalid d s' \<and>
       dents s' d = (if i < length (dents s d) then (dents s d)[i := dentry name ino] else dents s d @ [dentry name ino]))
    (\<lambda>e s'. file_same d s s' \<and> dvalid d s' \<and> dents s' d = dents s d \<and>
       (e = EEXIST \<and> dmap (dents s d) name \<noteq> None \<or> e = ENAMETOOLONG \<and> 60 \<le> length name \<or> e \<in> {EIO, ENOSPC, EINVAL})) s"
    (is "wp _ ?Q ?E s")
proof -
  let ?ds = "dents s d"
  note v = dvalidD[OF assms(1)]
  have same: "file_same d s t \<and> dvalid d t \<and> dents t d = ?ds" if "fs_same s t" for t
    using fs_same_file_same[OF that v(1)] fs_same_dir[OF that assms(1)] by blast
  have put: "wp (bind (sfs_writedir d \<lparr>sfd_ino = ino, sfd_name = name @ replicate (SFS_NAMELEN - length name) 0\<rparr> (int i)) (\<lambda>_.
       ret (int i))) ?Q ?E t"
    if t: "fs_same s t" and i: "i \<le> length ?ds" "i < length ?ds \<longrightarrow> \<not> dlive (?ds ! i)" and new: "dmap ?ds name = None"
      and len: "length name < 60" for t i
  proof -
    note d = fs_same_dir[OF t assms(1)]
    note e = dentry_simps[OF len assms(3,4,5)]
    have off: "64 * i \<le> sfi_size (fino s d)" using i(1) v(3) by linarith
    have "wp (sfs_writedir d (dentry name ino) (int i)) (\<lambda>_. wp (ret (int i)) ?Q ?E) ?E t"
    proof (rule wp_mono[OF wp_sfs_writedir[OF d(1) _ e(4), of i, unfolded d(2), OF i(1)]])
      fix a s' assume "file_written d (64 * i) (dir_bytes (dentry name ino)) t s' \<and> dvalid d s' \<and>
        dents s' d = (if i < length ?ds then ?ds[i := dentry name ino] else ?ds @ [dentry name ino])"
      then show "wp (ret (int i)) ?Q ?E s'"
        using fs_same_file_written[OF t v(1)] i new len unfolding wp_ret by blast
    next
      fix err s' assume h: "err \<in> {EIO, ENOSPC, EINVAL} \<and> file_written d (64 * i) [] t s' \<and> dvalid d s' \<and> dents s' d = ?ds"
      then have "file_same d s s'" using file_written_file_same[OF fs_same_file_written[OF t v(1)] off v(1)] by blast
      with h show "?E err s'" by blast
    qed
    then show ?thesis by (simp add: wp_bind dentry_def)
  qed
  show ?thesis
    unfolding sfs_dir_link_def wp_bind[where m = "sfs_dir_findname _ _"]
  proof (rule wp_mono[OF wp_sfs_dir_findname[OF assms(1,2)]])
    fix r t assume h: "(\<lambda>(found, e) s'. fs_same s s' \<and> found_ok name ?ds {..<length ?ds} found \<and>
       empty_ok ?ds {..<length ?ds} e) r t"
    obtain found e where r: "r = (found, e)" by (cases r)
    have f: "fs_same s t" "found_ok name ?ds {..<length ?ds} found" "empty_ok ?ds {..<length ?ds} e" using h r by auto
    note fd = found_dmap(1)[OF assms(2) f(2)]
    have "wp (bind (case e of None \<Rightarrow> sfs_dir_nentries d | Some i \<Rightarrow> ret i) (\<lambda>emptyslot.
       bind (sfs_writedir d \<lparr>sfd_ino = ino, sfd_name = name @ replicate (SFS_NAMELEN - length name) 0\<rparr> emptyslot) (\<lambda>_.
       ret emptyslot))) ?Q ?E t" if "found = None" "length name < 60"
    proof (cases e)
      case None
      then have "wp (sfs_dir_nentries d) (\<lambda>emptyslot. wp (bind (sfs_writedir d
        \<lparr>sfd_ino = ino, sfd_name = name @ replicate (SFS_NAMELEN - length name) 0\<rparr> emptyslot) (\<lambda>_. ret emptyslot)) ?Q ?E) ?E t"
        unfolding wp_sfs_dir_nentries[OF fs_same_dir(1)[OF f(1) assms(1)]] fs_same_dir(2)[OF f(1) assms(1)]
        using put[OF f(1), of "length ?ds"] fd that by simp
      with None show ?thesis by (simp add: wp_bind)
    next
      case (Some slot)
      then obtain i where "i < length ?ds" "slot = int i" "\<not> dlive (?ds ! i)" using f(3) by (auto simp: empty_ok_def)
      with Some put[OF f(1), of i] fd that show ?thesis by simp
    qed
    then show "wp (case r of (found, emptyslot) \<Rightarrow> if found \<noteq> None then fail EEXIST
     else if length name + 1 > SFS_NAMELEN then fail ENAMETOOLONG
     else bind (case emptyslot of None \<Rightarrow> sfs_dir_nentries d | Some i \<Rightarrow> ret i) (\<lambda>emptyslot.
       bind (sfs_writedir d \<lparr>sfd_ino = ino, sfd_name = name @ replicate (SFS_NAMELEN - length name) 0\<rparr> emptyslot) (\<lambda>_.
       ret emptyslot))) ?Q ?E t"
      using same[OF f(1)] fd unfolding r prod.case
      by (cases "found = None"; cases "length name < 60") (simp_all add: wp_fail SFS_NAMELEN_def)
  qed (use same in auto)
qed

lemma wp_sfs_dir_unlink:
  assumes "dvalid d s" "i < length (dents s d)"
  shows "wp (sfs_dir_unlink d (int i))
    (\<lambda>_ s'. file_written d (64 * i) (dir_bytes dfree) s s' \<and> dvalid d s' \<and> dents s' d = (dents s d)[i := dfree])
    (\<lambda>e s'. file_same d s s' \<and> dvalid d s' \<and> dents s' d = dents s d \<and> e \<in> {EIO, ENOSPC, EINVAL}) s"
proof -
  note v = dvalidD[OF assms(1)]
  have off: "64 * i \<le> sfi_size (fino s d)" using assms(2) v(3) by linarith
  show ?thesis
    unfolding sfs_dir_unlink_def dfree_def[symmetric]
    by (rule wp_mono[OF wp_sfs_writedir[OF assms(1) less_imp_le[OF assms(2)] dfree_simps(2)]])
      (use assms(2) file_written_file_same[OF _ off v(1)] in auto)
qed

section \<open>The contract of a directory\<close>

text \<open>
  What the vnode operations rely on: the directory is a map from names to numbers, a search changes
  nothing and reports what the map has, with a handle on the place, a link adds a name that was not
  there, and unlinking the place removes its name. An operation that fails leaves the map alone.
\<close>

locale name_store =
  fixes inv :: "'s \<Rightarrow> bool"
    and tab :: "'s \<Rightarrow> 'n \<Rightarrow> nat option"
    and place :: "'s \<Rightarrow> 'h \<Rightarrow> 'n \<Rightarrow> bool"
    and good :: "'n \<Rightarrow> nat \<Rightarrow> bool"
    and find :: "'n \<Rightarrow> ((nat \<times> 'h) option \<times> 'h option, 's) kmon"
    and link :: "'n \<Rightarrow> nat \<Rightarrow> ('h, 's) kmon"
    and unlink :: "'h \<Rightarrow> (unit, 's) kmon"
  assumes find: "inv s \<Longrightarrow> wp (find n)
        (\<lambda>(r, _) s'. inv s' \<and> tab s' = tab s \<and> tab s n = map_option fst r \<and> (\<forall>v h. r = Some (v, h) \<longrightarrow> place s' h n))
        (\<lambda>e s'. inv s' \<and> tab s' = tab s \<and> e = EIO) s"
    and link: "inv s \<Longrightarrow> good n v \<Longrightarrow> wp (link n v)
        (\<lambda>_ s'. inv s' \<and> tab s n = None \<and> tab s' = (tab s)(n \<mapsto> v))
        (\<lambda>e s'. inv s' \<and> tab s' = tab s \<and> (e = EEXIST \<longrightarrow> tab s n \<noteq> None)) s"
    and unlink: "inv s \<Longrightarrow> place s h n \<Longrightarrow> wp (unlink h)
        (\<lambda>_ s'. inv s' \<and> tab s' = (tab s)(n := None)) (\<lambda>e s'. inv s' \<and> tab s' = tab s \<and> e \<noteq> ENOENT) s"
begin

text \<open>The sequence in which the vnode operations use a directory: search and unlink.\<close>

lemma remove_name:
  assumes "inv s"
  shows "wp (bind (find n) (\<lambda>(r, _). case r of None \<Rightarrow> fail ENOENT | Some (_, h) \<Rightarrow> unlink h))
    (\<lambda>_ s'. inv s' \<and> tab s n \<noteq> None \<and> tab s' = (tab s)(n := None))
    (\<lambda>e s'. inv s' \<and> tab s' = tab s \<and> (e = ENOENT \<longrightarrow> tab s n = None)) s"
  unfolding wp_bind
proof (rule wp_mono[OF find[OF assms]])
  fix r s' assume h: "(\<lambda>(r, _) s'. inv s' \<and> tab s' = tab s \<and> tab s n = map_option fst r \<and>
    (\<forall>v h. r = Some (v, h) \<longrightarrow> place s' h n)) r s'"
  obtain x y where r: "r = (x, y)" by (cases r)
  show "wp (case r of (r, _) \<Rightarrow> case r of None \<Rightarrow> fail ENOENT | Some (_, h) \<Rightarrow> unlink h)
    (\<lambda>_ s'. inv s' \<and> tab s n \<noteq> None \<and> tab s' = (tab s)(n := None))
    (\<lambda>e s'. inv s' \<and> tab s' = tab s \<and> (e = ENOENT \<longrightarrow> tab s n = None)) s'"
  proof (cases x)
    case None
    with h r show ?thesis by (simp add: wp_fail)
  next
    case (Some vh)
    obtain v hd where vh: "vh = (v, hd)" by (cases vh)
    from h r Some vh have "inv s'" "place s' hd n" "tab s n = Some v" "tab s' = tab s" by auto
    then show ?thesis unfolding r Some vh prod.case option.case by (intro wp_mono[OF unlink]) auto
  qed
qed auto

lemma link_then_find:
  assumes "inv s" "good n v"
  shows "wp (bind (link n v) (\<lambda>_. find n)) (\<lambda>(r, _) s'. inv s' \<and> map_option fst r = Some v) (\<lambda>_ s'. inv s') s"
  unfolding wp_bind
proof (rule wp_mono[OF link[OF assms]])
  fix a s' assume h: "inv s' \<and> tab s n = None \<and> tab s' = (tab s)(n \<mapsto> v)"
  then have i: "inv s'" and t: "tab s' n = Some v" by auto
  show "wp (find n) (\<lambda>(r, _) s'. inv s' \<and> map_option fst r = Some v) (\<lambda>_ s'. inv s') s'"
    by (rule wp_mono[OF find[OF i]]) (auto simp: t split: option.splits dest: sym)
qed auto

end

definition dinv :: "svp \<Rightarrow> sfs_fs \<Rightarrow> bool" where "dinv d s \<longleftrightarrow> dvalid d s \<and> dwf (dents s d)"

definition dplace :: "svp \<Rightarrow> sfs_fs \<Rightarrow> int \<Rightarrow> byte list \<Rightarrow> bool" where
  "dplace d s slot name \<longleftrightarrow> (\<exists>i < length (dents s d). slot = int i \<and> dlive (dents s d ! i) \<and> dname (dents s d ! i) = name)"

definition dgood :: "byte list \<Rightarrow> nat \<Rightarrow> bool" where "dgood name ino \<longleftrightarrow> 0 \<notin> set name \<and> ino \<noteq> 0 \<and> ino < 2 ^ 32"

interpretation sdir: name_store "dinv d" "\<lambda>s. dmap (dents s d)" "dplace d" dgood
  "sfs_dir_findname d" "sfs_dir_link d" "sfs_dir_unlink d" for d
proof
  fix s name
  assume "dinv d s"
  then have d: "dvalid d s" "dwf (dents s d)" by (simp_all add: dinv_def)
  show "wp (sfs_dir_findname d name)
     (\<lambda>(r, _) s'. dinv d s' \<and> dmap (dents s' d) = dmap (dents s d) \<and> dmap (dents s d) name = map_option fst r \<and>
       (\<forall>v h. r = Some (v, h) \<longrightarrow> dplace d s' h name))
     (\<lambda>e s'. dinv d s' \<and> dmap (dents s' d) = dmap (dents s d) \<and> e = EIO) s"
    by (rule wp_mono[OF wp_sfs_dir_findname[OF d]])
      (auto simp: dinv_def dplace_def d fs_same_dir[OF _ d(1)] dest: found_dmap(1)[OF d(2)] found_dmap(2)[OF d(2)])
next
  fix s name ino
  assume "dinv d s" "dgood name ino"
  then have d: "dvalid d s" "dwf (dents s d)" and g: "0 \<notin> set name" "ino \<noteq> 0" "ino < 2 ^ 32"
    by (simp_all add: dinv_def dgood_def)
  show "wp (sfs_dir_link d name ino)
     (\<lambda>_ s'. dinv d s' \<and> dmap (dents s d) name = None \<and> dmap (dents s' d) = (dmap (dents s d))(name \<mapsto> ino))
     (\<lambda>e s'. dinv d s' \<and> dmap (dents s' d) = dmap (dents s d) \<and> (e = EEXIST \<longrightarrow> dmap (dents s d) name \<noteq> None)) s"
  proof (rule wp_mono[OF wp_sfs_dir_link[OF d g]])
    fix slot s'
    assume "\<exists>i. slot = int i \<and> i \<le> length (dents s d) \<and> (i < length (dents s d) \<longrightarrow> \<not> dlive (dents s d ! i)) \<and>
       dmap (dents s d) name = None \<and> length name < 60 \<and>
       file_written d (64 * i) (dir_bytes (dentry name ino)) s s' \<and> dvalid d s' \<and>
       dents s' d = (if i < length (dents s d) then (dents s d)[i := dentry name ino] else dents s d @ [dentry name ino])"
    then obtain i where i: "i < length (dents s d) \<longrightarrow> \<not> dlive (dents s d ! i)" "dmap (dents s d) name = None"
      "length name < 60" "dvalid d s'"
      "dents s' d = (if i < length (dents s d) then (dents s d)[i := dentry name ino] else dents s d @ [dentry name ino])"
      by blast
    note e = dentry_simps[OF i(3) g]
    have "name \<notin> set (dnames (dents s d))" using i(2) by (simp add: dmap_none)
    note p = dir_put[OF d(2) i(1)[rule_format] this e(1,2)]
    show "dinv d s' \<and> dmap (dents s d) name = None \<and> dmap (dents s' d) = (dmap (dents s d))(name \<mapsto> ino)"
      unfolding dinv_def i(5) using i(2,4) p e(3) by metis
  qed (auto simp: dinv_def d)
next
  fix s slot name
  assume "dinv d s" "dplace d s slot name"
  then obtain i where d: "dvalid d s" "dwf (dents s d)"
    and i: "i < length (dents s d)" "slot = int i" "dlive (dents s d ! i)" "dname (dents s d ! i) = name"
    by (auto simp: dinv_def dplace_def)
  note t = dir_take[OF d(2) i(1,3) dfree_simps(1)]
  show "wp (sfs_dir_unlink d slot) (\<lambda>_ s'. dinv d s' \<and> dmap (dents s' d) = (dmap (dents s d))(name := None))
     (\<lambda>e s'. dinv d s' \<and> dmap (dents s' d) = dmap (dents s d) \<and> e \<noteq> ENOENT) s"
    unfolding i(2) by (rule wp_mono[OF wp_sfs_dir_unlink[OF d(1) i(1)]]) (auto simp: dinv_def d t i(4))
qed

section \<open>Sequences of operations on a directory\<close>

datatype dop = Dfind "byte list" | Dlink "byte list" nat | Dremove "byte list"

datatype dres = Dnum "nat option" | Ddone | Dfailed errno

definition dir_remove :: "svp \<Rightarrow> byte list \<Rightarrow> (unit, sfs_fs) kmon" where
  "dir_remove d n = bind (sfs_dir_findname d n) (\<lambda>(r, _). case r of None \<Rightarrow> fail ENOENT | Some (_, h) \<Rightarrow> sfs_dir_unlink d h)"

fun dir_do :: "svp \<Rightarrow> dop \<Rightarrow> (dres, sfs_fs) kmon" where
  "dir_do d (Dfind n) = bind (attempt (sfs_dir_findname d n)) (\<lambda>r. ret (case r of Inl e \<Rightarrow> Dfailed e | Inr (f, _) \<Rightarrow> Dnum (map_option fst f)))"
| "dir_do d (Dlink n v) = bind (attempt (sfs_dir_link d n v)) (\<lambda>r. ret (case r of Inl e \<Rightarrow> Dfailed e | Inr _ \<Rightarrow> Ddone))"
| "dir_do d (Dremove n) = bind (attempt (dir_remove d n)) (\<lambda>r. ret (case r of Inl e \<Rightarrow> Dfailed e | Inr _ \<Rightarrow> Ddone))"

primrec dir_run :: "svp \<Rightarrow> dop list \<Rightarrow> (dres list, sfs_fs) kmon" where
  "dir_run d [] = ret []"
| "dir_run d (x # xs) = bind (dir_do d x) (\<lambda>r. bind (dir_run d xs) (\<lambda>rs. ret (r # rs)))"

text \<open>The same operations on a map.\<close>

fun dir_spec :: "dop \<Rightarrow> (byte list \<Rightarrow> nat option) \<Rightarrow> dres \<Rightarrow> (byte list \<Rightarrow> nat option) \<Rightarrow> bool" where
  "dir_spec (Dfind n) m r m' \<longleftrightarrow> m' = m \<and> (r = Dnum (m n) \<or> r = Dfailed EIO)"
| "dir_spec (Dlink n v) m r m' \<longleftrightarrow> (r = Ddone \<and> m n = None \<and> m' = m(n \<mapsto> v)) \<or>
     (\<exists>e. r = Dfailed e \<and> m' = m \<and> (e = EEXIST \<longrightarrow> m n \<noteq> None))"
| "dir_spec (Dremove n) m r m' \<longleftrightarrow> (r = Ddone \<and> m n \<noteq> None \<and> m' = m(n := None)) \<or>
     (\<exists>e. r = Dfailed e \<and> m' = m \<and> (e = ENOENT \<longrightarrow> m n = None))"

inductive dir_specs :: "dop list \<Rightarrow> (byte list \<Rightarrow> nat option) \<Rightarrow> dres list \<Rightarrow> (byte list \<Rightarrow> nat option) \<Rightarrow> bool" where
  "dir_specs [] m [] m"
| "dir_spec x m r m' \<Longrightarrow> dir_specs xs m' rs m'' \<Longrightarrow> dir_specs (x # xs) m (r # rs) m''"

fun dop_ok :: "dop \<Rightarrow> bool" where
  "dop_ok (Dlink n v) = dgood n v"
| "dop_ok _ = True"

lemma wp_dir_do:
  assumes "dinv d s" "dop_ok x"
  shows "wp (dir_do d x) (\<lambda>r s'. dinv d s' \<and> dir_spec x (dmap (dents s d)) r (dmap (dents s' d))) (\<lambda>_ _. False) s"
proof (cases x)
  case (Dfind n)
  show ?thesis unfolding Dfind dir_do.simps wp_bind wp_attempt
    by (rule wp_mono[OF sdir.find[OF assms(1)]]) (auto simp: wp_rules)
next
  case (Dlink n v)
  then have g: "dgood n v" using assms(2) by simp
  show ?thesis unfolding Dlink dir_do.simps wp_bind wp_attempt
    by (rule wp_mono[OF sdir.link[OF assms(1) g]]) (auto simp: wp_rules)
next
  case (Dremove n)
  show ?thesis unfolding Dremove dir_do.simps wp_bind wp_attempt dir_remove_def
    unfolding wp_bind[symmetric] by (rule wp_mono[OF sdir.remove_name[OF assms(1)]]) (auto simp: wp_rules)
qed

lemma wp_dir_run:
  "dinv d s \<Longrightarrow> \<forall>x \<in> set xs. dop_ok x \<Longrightarrow>
   wp (dir_run d xs) (\<lambda>rs s'. dinv d s' \<and> dir_specs xs (dmap (dents s d)) rs (dmap (dents s' d))) (\<lambda>_ _. False) s"
proof (induction xs arbitrary: s)
  case (Cons x xs)
  have "wp (dir_run d xs) (\<lambda>rs. wp (ret (r # rs))
      (\<lambda>rs s'. dinv d s' \<and> dir_specs (x # xs) (dmap (dents s d)) rs (dmap (dents s' d))) (\<lambda>_ _. False)) (\<lambda>_ _. False) t"
    if "dinv d t" "dir_spec x (dmap (dents s d)) r (dmap (dents t d))" for r t
    by (rule wp_mono[OF Cons.IH[OF that(1)]]) (use Cons.prems that(2) in \<open>auto simp: wp_rules intro: dir_specs.intros\<close>)
  then show ?case unfolding dir_run.simps wp_bind
    by (intro wp_mono[OF wp_dir_do[OF Cons.prems(1)]]) (use Cons.prems in auto)
qed (auto simp: wp_rules intro: dir_specs.intros)

end
