(* ===== verification/Sfs_Trunc.thy ===== *)
theory Sfs_Trunc
  imports Sfs_Dir Sfs_Ops
begin

text \<open>
  Truncation: which blocks \<open>sfs_truncate\<close> frees, and that what is left is a file again.
\<close>

section \<open>Steps on one vnode\<close>

definition tstep :: "svp \<Rightarrow> sfs_fs \<Rightarrow> sfs_fs \<Rightarrow> bool" where
  "tstep p s s' \<longleftrightarrow> fs_frame s s' \<and> (\<forall>q. q \<noteq> p \<longrightarrow> svs s' q = svs s q) \<and> marked p s s'"

lemma tstep_refl: "fs_ok s \<Longrightarrow> svs s p \<noteq> None \<Longrightarrow> tstep p s s"
  by (auto simp: tstep_def fs_frame_refl marked_def)

lemma tstep_trans: "tstep p s t \<Longrightarrow> tstep p t v \<Longrightarrow> tstep p s v"
  unfolding tstep_def using fs_frame_trans marked_trans by metis

lemma tstepD:
  assumes "tstep p s s'"
  shows "fs_ok s'" "svs s' p \<noteq> None" "fs_frame s s'" "nblk s' = nblk s"
  using assms by (auto simp: tstep_def fs_frame_def marked_def)

lemma fs_same_tstep: "fs_same s t \<Longrightarrow> svs s p \<noteq> None \<Longrightarrow> tstep p s t"
  unfolding tstep_def marked_def fs_same_def by auto

lemma fs_freed_tstep: "fs_freed b s t \<Longrightarrow> svs s p \<noteq> None \<Longrightarrow> tstep p s t"
  unfolding tstep_def marked_def fs_freed_def by auto

lemma fs_wrote_tstep: "fs_wrote b x s t \<Longrightarrow> svs s p \<noteq> None \<Longrightarrow> tstep p s t"
  unfolding tstep_def marked_def fs_wrote_def by auto

lemma wp_sv_inode_step:
  assumes "fs_ok s" "svs s p \<noteq> None"
  shows "wp (sv_inode p f) (\<lambda>_ s'. tstep p s s' \<and> fino s' p = f (fino s p) \<and> disk s' = disk s \<and> usedset s' = usedset s)
    (\<lambda>_ _. False) s"
  using assms by (auto simp: wp_sv_inode tstep_def fs_frame_def fs_ok_def usedset_def marked_def fino_def)

section \<open>Direct blocks\<close>

definition cut :: "nat \<Rightarrow> nat \<Rightarrow> nat list \<Rightarrow> nat list" where
  "cut lo n xs = map (\<lambda>j. if lo \<le> j \<and> j < n then 0 else xs ! j) [0..<length xs]"

definition cutset :: "nat \<Rightarrow> nat \<Rightarrow> nat list \<Rightarrow> nat set" where
  "cutset lo n xs = {xs ! j |j. lo \<le> j \<and> j < n \<and> xs ! j \<noteq> 0}"

lemma length_cut [simp]: "length (cut lo n xs) = length xs"
  by (simp add: cut_def)

lemma nth_cut [simp]: "j < length xs \<Longrightarrow> cut lo n xs ! j = (if lo \<le> j \<and> j < n then 0 else xs ! j)"
  by (simp add: cut_def)

lemma cut_0: "cut lo 0 xs = xs" and cutset_0 [simp]: "cutset lo 0 xs = {}"
  by (auto simp: cut_def cutset_def map_nth)

lemma cut_Suc: "n < length xs \<Longrightarrow> cut lo (Suc n) xs = (if lo \<le> n then (cut lo n xs)[n := 0] else cut lo n xs)"
  by (rule nth_equalityI) (auto simp: nth_list_update less_Suc_eq)

lemma cutset_Suc: "cutset lo (Suc n) xs = (if lo \<le> n \<and> xs ! n \<noteq> 0 then insert (xs ! n) (cutset lo n xs) else cutset lo n xs)"
  by (auto simp: cutset_def less_Suc_eq)

lemma cut_zero: "n < length xs \<Longrightarrow> xs ! n = 0 \<Longrightarrow> (cut lo n xs)[n := 0] = cut lo n xs"
  by (rule nth_equalityI) (auto simp: nth_list_update)

lemma words_ok_cut: "words_ok xs \<Longrightarrow> words_ok (cut lo n xs)"
  by (auto simp: words_ok_def cut_def)

text \<open>The blocks named in a list, one at a time: none of them is freed twice.\<close>

lemma cutset_fresh:
  assumes "n < length xs" "xs ! n \<noteq> 0" "\<And>j k. j < length xs \<Longrightarrow> k < length xs \<Longrightarrow> xs ! j = xs ! k \<Longrightarrow> xs ! j \<noteq> 0 \<Longrightarrow> j = k"
  shows "xs ! n \<notin> cutset lo n xs"
proof
  assume "xs ! n \<in> cutset lo n xs"
  then obtain j where "j < n" "xs ! j = xs ! n" "xs ! j \<noteq> 0" by (auto simp: cutset_def)
  then show False using assms(3)[of j n] assms(1) by auto
qed

lemma fvalid_direct:
  assumes "fvalid p s"
  shows "length (sfi_direct (fino s p)) = 15"
    "j < 15 \<Longrightarrow> k < 15 \<Longrightarrow> sfi_direct (fino s p) ! j = sfi_direct (fino s p) ! k \<Longrightarrow> sfi_direct (fino s p) ! j \<noteq> 0 \<Longrightarrow> j = k"
    "j < 15 \<Longrightarrow> sfi_direct (fino s p) ! j \<noteq> 0 \<Longrightarrow> sfi_direct (fino s p) ! j \<in> owned (fino s p) (disk s)"
    "j < 15 \<Longrightarrow> sfi_direct (fino s p) ! j \<noteq> 0 \<Longrightarrow> sfi_direct (fino s p) ! j \<in> usedset s"
proof -
  note ok = file_okD[OF fvalidD(2)[OF assms]]
  have b: "bmap_fun (fino s p) (disk s) j = sfi_direct (fino s p) ! j" if "j < 15" for j using that by (simp add: bmap_fun_def)
  show "length (sfi_direct (fino s p)) = 15" using ok(1) by (simp add: inode_ok_def)
  show "j < 15 \<Longrightarrow> k < 15 \<Longrightarrow> sfi_direct (fino s p) ! j = sfi_direct (fino s p) ! k \<Longrightarrow> sfi_direct (fino s p) ! j \<noteq> 0 \<Longrightarrow> j = k"
    using ok(4)[of j k] b by simp
  show o: "j < 15 \<Longrightarrow> sfi_direct (fino s p) ! j \<noteq> 0 \<Longrightarrow> sfi_direct (fino s p) ! j \<in> owned (fino s p) (disk s)"
    using bmap_owned[of "fino s p" "disk s" j] b[of j] by simp
  show "j < 15 \<Longrightarrow> sfi_direct (fino s p) ! j \<noteq> 0 \<Longrightarrow> sfi_direct (fino s p) ! j \<in> usedset s" using o ok(3) by auto
qed

lemma wp_truncate_direct:
  assumes "fvalid p s"
  defines "D \<equiv> sfi_direct (fino s p)"
  shows "wp (sfs_truncate_direct p bl)
    (\<lambda>_ s'. tstep p s s' \<and> disk s' = disk s \<and> fino s' p = (fino s p)\<lparr>sfi_direct := cut bl 15 D\<rparr> \<and>
      usedset s' = usedset s - cutset bl 15 D) (\<lambda>_ _. False) s"
proof -
  let ?I = "\<lambda>ys s'. tstep p s s' \<and> disk s' = disk s \<and> fino s' p = (fino s p)\<lparr>sfi_direct := cut bl (length ys) D\<rparr> \<and>
      usedset s' = usedset s - cutset bl (length ys) D"
  note dir = fvalid_direct[OF assms(1), folded D_def]
  have sp: "svs s p \<noteq> None" using assms(1) by (simp add: fvalid_def)
  have "wp (sfs_truncate_direct p bl) (\<lambda>_. ?I [0..<15]) (\<lambda>_ _. False) s"
    unfolding sfs_truncate_direct_def SFS_NDIRECT_def
  proof (rule wp_foreach)
    show "?I [] s" using tstep_refl[OF fvalidD(1)[OF assms(1)] sp] by (simp add: cut_0 D_def)
  next
    fix ys i zs t assume sp: "[0..<15] = ys @ i # zs" and I: "?I ys t"
    note ix = upt_splitD[OF sp]
    then have n: "length ys = i" "i < 15" by simp_all
    obtain sv where sv: "svs t p = Some sv" using tstepD(2)[of p s t] I by auto
    then have svi: "sv_i sv = fino t p" by (simp add: fino_def)
    have blk: "sfi_direct (sv_i sv) ! i = D ! i" using I n dir(1) by (simp add: svi)
    have skipped: "?I (ys @ [i]) t" if "\<not> (bl \<le> i \<and> D ! i \<noteq> 0)"
      using that I n dir(1) cut_zero[of i D bl] by (auto simp: cut_Suc cutset_Suc)
    have freed: "wp (bind (sfs_bfree (D ! i)) (\<lambda>_. sv_inode p (\<lambda>n. n\<lparr>sfi_direct := (sfi_direct n)[i := 0]\<rparr>)))
        (\<lambda>_. ?I (ys @ [i])) (\<lambda>_ _. False) t" if c: "bl \<le> i" "D ! i \<noteq> 0"
    proof -
      have "D ! i \<in> usedset t" using I n dir(4)[OF n(2) c(2)] cutset_fresh[of i D bl] dir(1,2) c(2) by auto
      then have "wp (sfs_bfree (D ! i)) (\<lambda>_ t'. fs_freed (D ! i) t t') (\<lambda>_ _. False) t"
        using c(2) tstepD(1)[of p s t] I by (intro wp_sfs_bfree) auto
      then show ?thesis unfolding wp_bind
      proof (rule wp_mono)
        fix a t' assume f: "fs_freed (D ! i) t t'"
        have f': "svs t' = svs t" "disk t' = disk t" "usedset t' = usedset t - {D ! i}" using f by (simp_all add: fs_freed_def)
        then have f2: "fino t' p = fino t p" by (simp add: fino_def)
        have ok: "fs_ok t'" "svs t' p \<noteq> None" using f sv f' by (simp_all add: fs_freed_def fs_frame_def)
        have st: "tstep p s t'" using tstep_trans fs_freed_tstep[OF f] I sv by blast
        show "wp (sv_inode p (\<lambda>n. n\<lparr>sfi_direct := (sfi_direct n)[i := 0]\<rparr>)) (\<lambda>_. ?I (ys @ [i])) (\<lambda>_ _. False) t'"
          by (rule wp_mono[OF wp_sv_inode_step[OF ok]])
            (use f' f2 I n dir(1) c tstep_trans[OF st] in \<open>auto simp: cut_Suc cutset_Suc\<close>)
      qed simp
    qed
    show "wp (bind (sv_get p) (\<lambda>sv. let block = sfi_direct (sv_i sv) ! i in
       if i \<ge> bl \<and> block \<noteq> 0 then
         bind (sfs_bfree block) (\<lambda>_. sv_inode p (\<lambda>n. n\<lparr>sfi_direct := (sfi_direct n)[i := 0]\<rparr>))
       else ret ())) (\<lambda>_. ?I (ys @ [i])) (\<lambda>_ _. False) t"
      using sv blk skipped freed by (cases "bl \<le> i \<and> D ! i \<noteq> 0") (auto simp: wp_bind wp_sv_get wp_ret Let_def)
  qed
  then show ?thesis by simp
qed

section \<open>Indirect blocks\<close>

definition unmapped :: "nat set \<Rightarrow> sfs_fs \<Rightarrow> sfs_fs \<Rightarrow> bool" where
  "unmapped B s s' \<longleftrightarrow> fs_frame s s' \<and> disk s' = disk s \<and> svs s' = svs s \<and> usedset s' = usedset s - B \<and>
     (sfs_freemap s' = sfs_freemap s \<and> sfs_freemapdirty s' = sfs_freemapdirty s \<or> sfs_freemapdirty s')"

lemma unmapped_freed: "unmapped B s t \<Longrightarrow> fs_freed b t t' \<Longrightarrow> unmapped (insert b B) s t'"
  unfolding unmapped_def fs_freed_def using fs_frame_trans by auto

lemma unmapped_tstep: "unmapped B s t \<Longrightarrow> svs s p \<noteq> None \<Longrightarrow> tstep p s t"
  unfolding tstep_def marked_def unmapped_def by auto

lemma unmappedD:
  assumes "unmapped B s s'"
  shows "fs_ok s'" "disk s' = disk s" "fino s' p = fino s p" "svs s' = svs s" "usedset s' = usedset s - B"
  using assms by (auto simp: unmapped_def fs_frame_def fino_def)

definition any_in :: "nat list \<Rightarrow> nat \<Rightarrow> (nat \<Rightarrow> bool) \<Rightarrow> bool" where
  "any_in xs n P \<longleftrightarrow> (\<exists>j < n. P j \<and> xs ! j \<noteq> 0)"

lemma any_in_simps [simp]: "\<not> any_in xs 0 P" "any_in xs (Suc n) P \<longleftrightarrow> any_in xs n P \<or> P n \<and> xs ! n \<noteq> 0"
  by (auto simp: any_in_def less_Suc_eq)

lemma wp_truncate_idloop:
  fixes X :: "nat list"
  assumes X: "length X = 128" "\<And>j k. j < 128 \<Longrightarrow> k < 128 \<Longrightarrow> X ! j = X ! k \<Longrightarrow> X ! j \<noteq> 0 \<Longrightarrow> j = k"
      "\<And>j. j < 128 \<Longrightarrow> X ! j \<noteq> 0 \<Longrightarrow> X ! j \<in> usedset s"
    and "k \<le> 128" "unmapped (cutset lo k X) s t" "lo = bl - 14"
  shows "wp (sfs_truncate_idloop bl [k..<128] (cut lo k X) (any_in X k (\<lambda>j. j < lo)) (any_in X k (\<lambda>j. lo \<le> j)))
    (\<lambda>(buf, h, d) s'. buf = cut lo 128 X \<and> h = any_in X 128 (\<lambda>j. j < lo) \<and> d = any_in X 128 (\<lambda>j. lo \<le> j) \<and>
       unmapped (cutset lo 128 X) s s') (\<lambda>_ _. False) t"
  using assms(4,5)
proof (induction "128 - k" arbitrary: k t)
  case 0
  then show ?case by (simp add: wp_ret)
next
  case (Suc n)
  then have k: "k < 128" "[k..<128] = k # [Suc k..<128]" "n = 128 - Suc k" "Suc k \<le> 128" by (simp_all add: upt_conv_Cons)
  note IH = Suc.hyps(1)[OF k(3,4)]
  have at: "cut lo k X ! k = X ! k" using k(1) X(1) by simp
  have c: "bl < SFS_NDIRECT + k \<longleftrightarrow> lo \<le> k" using assms(6) by (auto simp: SFS_NDIRECT_def)
  show ?case
  proof (cases "lo \<le> k \<and> X ! k \<noteq> 0")
    case True
    then have u: "X ! k \<in> usedset t" using Suc.prems(2) X k(1) cutset_fresh[of k X lo] by (auto simp: unmapped_def)
    have step: "wp (sfs_truncate_idloop bl [Suc k..<128] ((cut lo k X)[k := 0]) (any_in X k (\<lambda>j. j < lo)) True)
      (\<lambda>(buf, h, d) s'. buf = cut lo 128 X \<and> h = any_in X 128 (\<lambda>j. j < lo) \<and> d = any_in X 128 (\<lambda>j. lo \<le> j) \<and>
         unmapped (cutset lo 128 X) s s') (\<lambda>_ _. False) t'" if "fs_freed (X ! k) t t'" for t'
      using IH[of t'] unmapped_freed[OF Suc.prems(2) that] True k(1) X(1) by (auto simp: cut_Suc cutset_Suc)
    have "wp (sfs_bfree (X ! k)) (\<lambda>_ t'. fs_freed (X ! k) t t') (\<lambda>_ _. False) t"
      using u True unmappedD(1)[OF Suc.prems(2)] by (intro wp_sfs_bfree) auto
    then have "wp (bind (sfs_bfree (X ! k)) (\<lambda>_. sfs_truncate_idloop bl [Suc k..<128] ((cut lo k X)[k := 0]) (any_in X k (\<lambda>j. j < lo)) True))
      (\<lambda>(buf, h, d) s'. buf = cut lo 128 X \<and> h = any_in X 128 (\<lambda>j. j < lo) \<and> d = any_in X 128 (\<lambda>j. lo \<le> j) \<and>
         unmapped (cutset lo 128 X) s s') (\<lambda>_ _. False) t"
      unfolding wp_bind by (rule wp_mono) (auto intro: step)
    then show ?thesis using True c at k(2) by simp
  next
    case False
    then have e: "cut lo (Suc k) X = cut lo k X" "cutset lo (Suc k) X = cutset lo k X"
        "any_in X (Suc k) (\<lambda>j. j < lo) = (any_in X k (\<lambda>j. j < lo) \<or> X ! k \<noteq> 0)"
        "any_in X (Suc k) (\<lambda>j. lo \<le> j) = any_in X k (\<lambda>j. lo \<le> j)"
      using k(1) X(1) cut_zero[of k X lo] by (auto simp: cut_Suc cutset_Suc)
    have "sfs_truncate_idloop bl [k..<128] (cut lo k X) (any_in X k (\<lambda>j. j < lo)) (any_in X k (\<lambda>j. lo \<le> j)) =
      sfs_truncate_idloop bl [Suc k..<128] (cut lo (Suc k) X) (any_in X (Suc k) (\<lambda>j. j < lo)) (any_in X (Suc k) (\<lambda>j. lo \<le> j))"
      using False c at unfolding k(2) e by auto
    then show ?thesis using IH[of t] Suc.prems(2) e(2) by simp
  qed
qed

section \<open>What is left of a file\<close>

text \<open>
  A file of which the blocks with an index in \<open>K\<close> are left, and whose size is \<open>n\<close>: its block map is the old one
  on \<open>K\<close>, the blocks it has lost are free, and only its own indirect block is written.
\<close>

definition shrunk :: "(nat \<Rightarrow> bool) \<Rightarrow> sfs_inode \<Rightarrow> (nat \<Rightarrow> byte list) \<Rightarrow> sfs_inode \<Rightarrow> (nat \<Rightarrow> byte list) \<Rightarrow> bool" where
  "shrunk K i d i' d' \<longleftrightarrow> (\<forall>k. bmap_fun i' d' k = (if K k then bmap_fun i d k else 0)) \<and>
     (sfi_indirect i' = sfi_indirect i \<or> sfi_indirect i' = 0) \<and>
     (\<forall>b. b \<noteq> sfi_indirect i \<or> b = 0 \<longrightarrow> d' b = d b) \<and>
     sfi_type i' = sfi_type i \<and> sfi_linkcount i' = sfi_linkcount i \<and> inode_ok i'"

definition fcut :: "svp \<Rightarrow> (nat \<Rightarrow> bool) \<Rightarrow> nat \<Rightarrow> sfs_fs \<Rightarrow> sfs_fs \<Rightarrow> bool" where
  "fcut p K n s s' \<longleftrightarrow> tstep p s s' \<and> shrunk K (fino s p) (disk s) (fino s' p) (disk s') \<and> sfi_size (fino s' p) = n \<and>
     usedset s' = usedset s - (owned (fino s p) (disk s) - owned (fino s' p) (disk s'))"

lemma shrunk_owned:
  assumes "file_ok U i d" "shrunk K i d i' d'"
  shows "owned i' d' = owned i d - ({bmap_fun i d k |k. \<not> K k} \<union> (if sfi_indirect i' = 0 then {sfi_indirect i} else {}))"
proof -
  note ok = file_okD[OF assms(1)] and sh = assms(2)[unfolded shrunk_def]
  have "b \<in> owned i' d' \<longleftrightarrow> b \<in> owned i d \<and> (\<forall>k. \<not> K k \<longrightarrow> b \<noteq> bmap_fun i d k) \<and> (sfi_indirect i' = 0 \<longrightarrow> b \<noteq> sfi_indirect i)" for b
  proof (cases "b = sfi_indirect i")
    case True
    have nb: "bmap_fun i d k \<noteq> b" "bmap_fun i' d' k \<noteq> b" if "b \<noteq> 0" for k
      using True that ok(5)[of k] sh by (simp_all, metis+)
    have l: "b \<in> owned i' d' \<longleftrightarrow> b \<noteq> 0 \<and> sfi_indirect i' = b" unfolding owned_def using nb by blast
    have r: "b \<in> owned i d \<longleftrightarrow> b \<noteq> 0" unfolding owned_def using True by simp
    have "sfi_indirect i' = b \<or> sfi_indirect i' = 0" using sh True by simp
    then show ?thesis unfolding l r using nb(1) True by metis
  next
    case False
    then have n: "b \<noteq> 0 \<Longrightarrow> b \<noteq> sfi_indirect i'" using sh by auto
    have bm: "bmap_fun i' d' k = (if K k then bmap_fun i d k else 0)" for k using sh by simp
    have l: "b \<in> owned i' d' \<longleftrightarrow> b \<noteq> 0 \<and> (\<exists>k < max_fileblocks. K k \<and> bmap_fun i d k = b)"
      unfolding owned_def bm using n by auto
    have r: "b \<in> owned i d \<longleftrightarrow> b \<noteq> 0 \<and> (\<exists>k < max_fileblocks. bmap_fun i d k = b)"
      unfolding owned_def using False by auto
    have inj: "j = k" if "b \<noteq> 0" "bmap_fun i d j = b" "bmap_fun i d k = b" for j k using ok(4)[of j k] that by simp
    show ?thesis unfolding l r using False inj by blast
  qed
  then show ?thesis by auto
qed

lemma shrunkD:
  assumes "shrunk K i d i' d'"
  shows "\<And>k. bmap_fun i' d' k = (if K k then bmap_fun i d k else 0)"
    "sfi_indirect i' = sfi_indirect i \<or> sfi_indirect i' = 0"
    "\<And>b. b \<noteq> sfi_indirect i \<or> b = 0 \<Longrightarrow> d' b = d b" "inode_ok i'"
proof -
  note a = assms[unfolded shrunk_def]
  show "bmap_fun i' d' k = (if K k then bmap_fun i d k else 0)" for k using conjunct1[OF a] ..
  show "sfi_indirect i' = sfi_indirect i \<or> sfi_indirect i' = 0" using conjunct1[OF conjunct2[OF a]] .
  show "d' b = d b" if "b \<noteq> sfi_indirect i \<or> b = 0" for b using conjunct1[OF conjunct2[OF conjunct2[OF a]]] that by simp
  show "inode_ok i'" using a by simp
qed

lemma shrunk_ok:
  assumes "file_ok U i d" "shrunk K i d i' d'" "sfi_size i' \<le> 512 * max_fileblocks" "owned i' d' \<subseteq> U'"
  shows "file_ok U' i' d'"
proof -
  note ok = file_okD[OF assms(1)] and sh = shrunkD[OF assms(2)]
  have "bmap_fun i' d' k \<noteq> sfi_indirect i'" if "bmap_fun i' d' k \<noteq> 0" for k
    using that ok(5)[of k] sh(2) unfolding sh(1) by (cases "K k") auto
  moreover have "j = k" if "bmap_fun i' d' j = bmap_fun i' d' k" "bmap_fun i' d' j \<noteq> 0" for j k
    using that ok(4)[of j k] unfolding sh(1) by (cases "K k"; cases "K j") auto
  ultimately show ?thesis unfolding file_ok_def using assms(3,4) sh(4) by (simp add: mult.commute)
qed

lemma shrunk_byte:
  assumes "file_ok U i d" "shrunk K i d i' d'"
  shows "file_byte i' d' x = (if K (x div 512) then file_byte i d x else 0)"
  using shrunkD(3)[OF assms(2), of "bmap_fun i d (x div 512)"] file_okD(5)[OF assms(1), of "x div 512"]
  unfolding file_byte_def shrunkD(1)[OF assms(2)] Let_def by simp

lemma shrunk_disk: "shrunk K i d i' d' \<Longrightarrow> b \<notin> owned i d \<Longrightarrow> d' b = d b"
  using indirect_owned[of i d] shrunkD(3)[of K i d i' d' b] by fastforce

lemma fcut_valid:
  assumes "fvalid p s" "fcut p K n s s'" "n \<le> 512 * max_fileblocks"
  shows "fvalid p s'" "fcont s' p x = (if K (x div 512) then fcont s p x else 0)"
proof -
  note v = fvalidD[OF assms(1)] and c = assms(2)[unfolded fcut_def]
  have sh: "shrunk K (fino s p) (disk s) (fino s' p) (disk s')" using c by simp
  have "owned (fino s' p) (disk s') \<subseteq> usedset s'" using c shrunk_owned[OF v(2) sh] file_okD(3)[OF v(2)] by auto
  then show "fvalid p s'" using shrunk_ok[OF v(2) sh] c assms(3) tstepD(1,2)[of p s s'] by (simp add: fvalid_def)
  show "fcont s' p x = (if K (x div 512) then fcont s p x else 0)" using shrunk_byte[OF v(2) sh] by (simp add: fcont_def)
qed

text \<open>The two loops, as cuts.\<close>

definition keep_direct :: "nat \<Rightarrow> nat \<Rightarrow> bool" where "keep_direct bl k \<longleftrightarrow> k < bl \<or> 15 \<le> k"

definition keep_indirect :: "nat \<Rightarrow> nat \<Rightarrow> bool" where "keep_indirect bl k \<longleftrightarrow> k < 15 \<or> k \<le> bl"

definition keep :: "nat \<Rightarrow> nat \<Rightarrow> bool" where "keep bl k \<longleftrightarrow> (if k < 15 then k < bl else k \<le> bl)"

lemma direct_shrunk:
  assumes "inode_ok i"
  shows "shrunk (keep_direct bl) i d (i\<lparr>sfi_direct := cut bl 15 (sfi_direct i)\<rparr>) d"
  using assms words_ok_cut by (auto simp: shrunk_def keep_direct_def bmap_fun_def inode_ok_def)

lemma indirect_list:
  assumes "file_ok U i d" "sfi_indirect i \<noteq> 0"
  defines "X \<equiv> bytes_words 128 (d (sfi_indirect i))"
  shows "k < 128 \<Longrightarrow> X ! k = bmap_fun i d (k + 15)" "length X = 128" "words_ok X"
    "j < 128 \<Longrightarrow> k < 128 \<Longrightarrow> X ! j = X ! k \<Longrightarrow> X ! j \<noteq> 0 \<Longrightarrow> j = k" "k < 128 \<Longrightarrow> X ! k \<noteq> 0 \<Longrightarrow> X ! k \<in> U"
    "k < 128 \<Longrightarrow> X ! k \<noteq> 0 \<Longrightarrow> X ! k \<noteq> sfi_indirect i"
proof -
  note ok = file_okD[OF assms(1)]
  show x: "k < 128 \<Longrightarrow> X ! k = bmap_fun i d (k + 15)" for k using assms(2) by (simp add: X_def bmap_fun_def)
  show "length X = 128" "words_ok X" by (simp_all add: X_def words_ok_bytes_words)
  show "j < 128 \<Longrightarrow> k < 128 \<Longrightarrow> X ! j = X ! k \<Longrightarrow> X ! j \<noteq> 0 \<Longrightarrow> j = k" using ok(4)[of "j + 15" "k + 15"] x by simp
  show "k < 128 \<Longrightarrow> X ! k \<noteq> 0 \<Longrightarrow> X ! k \<in> U" using ok(3) bmap_owned[of i d "k + 15"] x by auto
  show "k < 128 \<Longrightarrow> X ! k \<noteq> 0 \<Longrightarrow> X ! k \<noteq> sfi_indirect i" using ok(5)[of "k + 15"] x by simp
qed

lemma indirect_cut:
  assumes "file_ok U i d" "sfi_indirect i \<noteq> 0"
  defines "X \<equiv> bytes_words 128 (d (sfi_indirect i))"
  shows "cutset (bl - 14) 128 X = {bmap_fun i d k |k. \<not> keep_indirect bl k} - {0}"
    "shrunk (keep_indirect bl) i d i (d(sfi_indirect i := words_bytes (cut (bl - 14) 128 X)))"
    "\<not> any_in X 128 (\<lambda>j. j < bl - 14) \<Longrightarrow> shrunk (keep_indirect bl) i d (i\<lparr>sfi_indirect := 0\<rparr>) d"
    "\<not> any_in X 128 (\<lambda>j. bl - 14 \<le> j) \<Longrightarrow> shrunk (keep_indirect bl) i d i d"
proof -
  note x = indirect_list[OF assms(1,2), folded X_def]
  have ok: "inode_ok i" using file_okD(1)[OF assms(1)] .
  have b: "bmap_fun i d k = X ! (k - 15)" if "15 \<le> k" "k < 143" for k using x(1)[of "k - 15"] that by simp
  have z: "bmap_fun i d k = 0" if "143 \<le> k" for k using that bmap_fun_big[of k i d] by simp
  show "cutset (bl - 14) 128 X = {bmap_fun i d k |k. \<not> keep_indirect bl k} - {0}"
  proof (rule set_eqI)
    fix y show "y \<in> cutset (bl - 14) 128 X \<longleftrightarrow> y \<in> {bmap_fun i d k |k. \<not> keep_indirect bl k} - {0}"
    proof
      assume "y \<in> cutset (bl - 14) 128 X"
      then obtain j where "bl - 14 \<le> j" "j < 128" "y = X ! j" "y \<noteq> 0" by (auto simp: cutset_def)
      then show "y \<in> {bmap_fun i d k |k. \<not> keep_indirect bl k} - {0}" using x(1)[of j] by (auto simp: keep_indirect_def intro!: exI[of _ "j + 15"])
    next
      assume "y \<in> {bmap_fun i d k |k. \<not> keep_indirect bl k} - {0}"
      then obtain k where k: "y = bmap_fun i d k" "15 \<le> k" "bl < k" "y \<noteq> 0" by (auto simp: keep_indirect_def)
      then have "k < 143" using z[of k] by (cases "k < 143") auto
      then show "y \<in> cutset (bl - 14) 128 X" using k b[of k] by (auto simp: cutset_def intro!: exI[of _ "k - 15"])
    qed
  qed
  have rt: "bytes_words 128 (words_bytes (cut (bl - 14) 128 X)) = cut (bl - 14) 128 X"
    using bytes_words_bytes[OF words_ok_cut[OF x(3)], of "bl - 14" 128 "[]"] x(2) by simp
  show "shrunk (keep_indirect bl) i d i (d(sfi_indirect i := words_bytes (cut (bl - 14) 128 X)))"
    using assms(2) ok rt x(2) b by (auto simp: shrunk_def keep_indirect_def bmap_fun_def)
  show "shrunk (keep_indirect bl) i d (i\<lparr>sfi_indirect := 0\<rparr>) d" if a: "\<not> any_in X 128 (\<lambda>j. j < bl - 14)"
  proof -
    have "bmap_fun i d k = 0" if "15 \<le> k" "k \<le> bl" for k
    proof (cases "k < 143")
      case True
      then show ?thesis using a b[OF that(1)] that by (auto simp: any_in_def dest!: spec[of _ "k - 15"])
    qed (use z in simp)
    then show ?thesis using ok by (auto simp: shrunk_def keep_indirect_def inode_ok_def) (auto simp: bmap_fun_def)
  qed
  show "shrunk (keep_indirect bl) i d i d" if a: "\<not> any_in X 128 (\<lambda>j. bl - 14 \<le> j)"
  proof -
    have "bmap_fun i d k = 0" if "15 \<le> k" "\<not> k \<le> bl" for k
    proof (cases "k < 143")
      case True
      then show ?thesis using a b[OF that(1)] that by (auto simp: any_in_def dest!: spec[of _ "k - 15"])
    qed (use z in simp)
    then show ?thesis using ok by (auto simp: shrunk_def keep_indirect_def)
  qed
qed

lemma shrunk_trans:
  assumes "shrunk K i d i' d'" "shrunk L i' d' i'' d''"
  shows "shrunk (\<lambda>k. K k \<and> L k) i d i'' d''"
proof -
  note a = shrunkD[OF assms(1)] and b = shrunkD[OF assms(2)]
  have "d'' x = d x" if "x \<noteq> sfi_indirect i \<or> x = 0" for x using a(2) a(3)[OF that] b(3)[of x] that by auto
  then show ?thesis using a(1,2) b(1,2,4) assms unfolding shrunk_def by auto
qed

lemma fcut_trans:
  assumes "fvalid p s" "fcut p K n s t" "fcut p L m t v" "n \<le> 512 * max_fileblocks"
  shows "fcut p (\<lambda>k. K k \<and> L k) m s v"
proof -
  note a = assms(2)[unfolded fcut_def] and b = assms(3)[unfolded fcut_def]
  have vt: "fvalid p t" by (rule fcut_valid[OF assms(1,2,4)])
  have sa: "shrunk K (fino s p) (disk s) (fino t p) (disk t)" and sb: "shrunk L (fino t p) (disk t) (fino v p) (disk v)"
    using a b by simp_all
  have "owned (fino t p) (disk t) \<subseteq> owned (fino s p) (disk s)" "owned (fino v p) (disk v) \<subseteq> owned (fino t p) (disk t)"
    using shrunk_owned[OF fvalidD(2)[OF assms(1)] sa] shrunk_owned[OF fvalidD(2)[OF vt] sb] by auto
  moreover have "usedset t = usedset s - (owned (fino s p) (disk s) - owned (fino t p) (disk t))"
    "usedset v = usedset t - (owned (fino t p) (disk t) - owned (fino v p) (disk v))" using a b by simp_all
  ultimately have "usedset v = usedset s - (owned (fino s p) (disk s) - owned (fino v p) (disk v))" by blast
  then show ?thesis unfolding fcut_def using shrunk_trans[OF sa sb] tstep_trans a b by blast
qed

lemma fcut_none:
  assumes "fvalid p s" "fs_same s t" "\<And>k. \<not> K k \<Longrightarrow> bmap_fun (fino s p) (disk s) k = 0"
  shows "fcut p K (sfi_size (fino s p)) s t"
proof -
  note v = fvalidD[OF assms(1)]
  have e: "fino t p = fino s p" "disk t = disk s" "usedset t = usedset s"
    using assms(2) by (simp_all add: fs_same_def fs_frame_def fino_def usedset_def)
  have "shrunk K (fino s p) (disk s) (fino s p) (disk s)" using assms(3) file_okD(1)[OF v(2)] by (auto simp: shrunk_def)
  then show ?thesis using fs_same_tstep[OF assms(2), of p] assms(1) e by (simp add: fcut_def fvalid_def)
qed

lemma fcut_by:
  assumes "fvalid p s" "tstep p s t" "shrunk K (fino s p) (disk s) (fino t p) (disk t)" "sfi_size (fino t p) = n"
    "usedset t = usedset s - ({bmap_fun (fino s p) (disk s) k |k. \<not> K k} - {0}) -
       (if sfi_indirect (fino t p) = 0 then {sfi_indirect (fino s p)} - {0} else {})"
  shows "fcut p K n s t"
proof -
  note v = fvalidD[OF assms(1)]
  have "sfi_indirect (fino s p) \<noteq> 0 \<Longrightarrow> sfi_indirect (fino s p) \<in> owned (fino s p) (disk s)"
    "\<And>k. bmap_fun (fino s p) (disk s) k \<noteq> 0 \<Longrightarrow> bmap_fun (fino s p) (disk s) k \<in> owned (fino s p) (disk s)"
    "0 \<notin> owned (fino s p) (disk s)"
    using indirect_owned bmap_owned by (blast, blast, simp add: owned_def)
  then have "usedset t = usedset s - (owned (fino s p) (disk s) - owned (fino t p) (disk t))"
    unfolding assms(5) shrunk_owned[OF v(2) assms(3)] by (auto split: if_splits)
  then show ?thesis using assms(2-4) by (simp add: fcut_def)
qed

lemma wp_truncate_direct_cut:
  assumes "fvalid p s"
  shows "wp (sfs_truncate_direct p bl) (\<lambda>_ s'. fcut p (keep_direct bl) (sfi_size (fino s p)) s s') (\<lambda>_ _. False) s"
proof (rule wp_mono[OF wp_truncate_direct[OF assms]])
  let ?i = "fino s p"
  fix a s' assume a: "tstep p s s' \<and> disk s' = disk s \<and> fino s' p = ?i\<lparr>sfi_direct := cut bl 15 (sfi_direct ?i)\<rparr> \<and>
    usedset s' = usedset s - cutset bl 15 (sfi_direct ?i)"
  have k: "bl \<le> j \<and> j < 15 \<longleftrightarrow> \<not> keep_direct bl j" for j by (auto simp: keep_direct_def)
  have b: "sfi_direct ?i ! j = bmap_fun ?i (disk s) j" if "\<not> keep_direct bl j" for j
    using that by (simp add: keep_direct_def bmap_fun_def)
  have "cutset bl 15 (sfi_direct ?i) = {bmap_fun ?i (disk s) k |k. \<not> keep_direct bl k} - {0}"
    unfolding cutset_def conj_assoc[symmetric] k by (rule set_eqI, simp only: mem_Collect_eq Diff_iff singleton_iff) (metis b)
  then show "fcut p (keep_direct bl) (sfi_size ?i) s s'"
    using a direct_shrunk[OF file_okD(1)[OF fvalidD(2)[OF assms]], of bl "disk s"] by (intro fcut_by[OF assms]) simp_all
qed simp

lemma wp_truncate_indirect_cut:
  assumes "fvalid p s"
  shows "wp (sfs_truncate_indirect p bl) (\<lambda>_ s'. fcut p (keep_indirect bl) (sfi_size (fino s p)) s s') (\<lambda>e s'. e = EIO \<and> fs_same s s') s"
proof -
  note v = fvalidD[OF assms]
  obtain sv where sv: "svs s p = Some sv" "sv_i sv = fino s p" using assms by (rule fvalidE)
  let ?i = "fino s p" and ?b = "sfi_indirect (fino s p)"
  have sp: "svs s p \<noteq> None" using sv by simp
  show ?thesis
  proof (cases "bl < 142 \<and> ?b \<noteq> 0")
    case False
    have "bmap_fun ?i (disk s) k = 0" if "\<not> keep_indirect bl k" for k using that False by (auto simp: keep_indirect_def bmap_fun_def)
    then have "fcut p (keep_indirect bl) (sfi_size ?i) s s" using fcut_none[OF assms] fs_same_refl[OF v(1)] by blast
    then show ?thesis using False sv
      by (auto simp: sfs_truncate_indirect_def wp_bind wp_sv_get wp_ret Let_def SFS_NDIRECT_def SFS_DBPERIDB_def)
  next
    case True
    then have b0: "?b \<noteq> 0" by simp
    have bU: "?b \<in> usedset s" using indirect_owned[OF b0] file_okD(3)[OF v(2)] by blast
    define X where "X = bytes_words 128 (disk s ?b)"
    note x = indirect_list[OF v(2) b0, folded X_def] and c = indirect_cut[OF v(2) b0, folded X_def, of bl]
    let ?lo = "bl - 14"
    define R where "R = (\<lambda>(idbuf, hasnonzero, iddirty).
       if \<not> hasnonzero then bind (sfs_bfree ?b) (\<lambda>_. sv_inode p (\<lambda>n. n\<lparr>sfi_indirect := 0\<rparr>))
       else if iddirty then sfs_wblock (words_bytes idbuf) ?b else ret ())"
    let ?Q = "\<lambda>_ s'. fcut p (keep_indirect bl) (sfi_size ?i) s s'" and ?E = "\<lambda>e s'. e = EIO \<and> fs_same s s'"
    have fin: "wp (R (cut ?lo 128 X, any_in X 128 (\<lambda>j. j < ?lo), any_in X 128 (\<lambda>j. ?lo \<le> j))) ?Q ?E t"
      if u: "unmapped (cutset ?lo 128 X) s t" for t
    proof -
      note ut = unmappedD[OF u] and st = unmapped_tstep[OF u sp]
      have bt: "?b \<in> usedset t" using bU ut(5) x(6) by (auto simp: cutset_def)
      consider (none) "\<not> any_in X 128 (\<lambda>j. j < ?lo)" | (clean) "any_in X 128 (\<lambda>j. j < ?lo)" "\<not> any_in X 128 (\<lambda>j. ?lo \<le> j)"
        | (dirty) "any_in X 128 (\<lambda>j. j < ?lo)" "any_in X 128 (\<lambda>j. ?lo \<le> j)" by blast
      then show ?thesis
      proof cases
        case none
        have "wp (bind (sfs_bfree ?b) (\<lambda>_. sv_inode p (\<lambda>n. n\<lparr>sfi_indirect := 0\<rparr>))) ?Q ?E t" unfolding wp_bind
        proof (rule wp_mono[OF wp_sfs_bfree[OF ut(1) bt b0]])
          fix a t' assume f: "fs_freed ?b t t'"
          note f' = unmapped_freed[OF u f]
          show "wp (sv_inode p (\<lambda>n. n\<lparr>sfi_indirect := 0\<rparr>)) ?Q ?E t'"
          proof (rule wp_mono[OF wp_sv_inode_step])
            show "fs_ok t'" "svs t' p \<noteq> None" using unmappedD(1,4)[OF f'] sp by simp_all
            fix a t2 assume "tstep p t' t2 \<and> fino t2 p = (fino t' p)\<lparr>sfi_indirect := 0\<rparr> \<and> disk t2 = disk t' \<and> usedset t2 = usedset t'"
            then show "fcut p (keep_indirect bl) (sfi_size ?i) s t2"
              using tstep_trans[OF unmapped_tstep[OF f' sp]] unmappedD(2,3,5)[OF f'] c(1) c(3)[OF none] b0
              by (intro fcut_by[OF assms]) auto
          qed simp
        qed simp
        then show ?thesis using none by (simp add: R_def)
      next
        case clean
        have "fcut p (keep_indirect bl) (sfi_size ?i) s t" using st c(4)[OF clean(2)] ut(2,3,5) c(1) b0 by (intro fcut_by[OF assms]) auto
        then show ?thesis using clean by (simp add: R_def wp_ret)
      next
        case dirty
        have len: "?b < nblk t" "length (words_bytes (cut ?lo 128 X)) = 512" using bt x(2) by (simp_all add: usedset_def)
        have "wp (sfs_wblock (words_bytes (cut ?lo 128 X)) ?b) ?Q ?E t"
        proof (rule wp_mono[OF wp_sfs_wblock[OF ut(1) len]])
          fix a t' assume w: "fs_wrote ?b (words_bytes (cut ?lo 128 X)) t t'"
          have w': "disk t' = (disk t)(?b := words_bytes (cut ?lo 128 X))" "fino t' p = fino t p" "usedset t' = usedset t"
            using w by (simp_all add: fs_wrote_def fino_def usedset_def fs_frame_def)
          show "fcut p (keep_indirect bl) (sfi_size ?i) s t'"
            using tstep_trans[OF st fs_wrote_tstep[OF w]] sp ut(2,3,4,5) c(1,2) b0 w' by (intro fcut_by[OF assms]) auto
        qed simp
        then show ?thesis using dirty by (simp add: R_def)
      qed
    qed
    have loop: "wp (sfs_truncate_idloop bl [0..<128] X False False) (\<lambda>r. wp (R r) ?Q ?E) ?E t" if st: "fs_same s t" for t
    proof -
      have u: "unmapped (cutset ?lo 0 X) s t" using st by (simp add: unmapped_def fs_same_def usedset_def fs_frame_def)
      have "wp (sfs_truncate_idloop bl [0..<128] (cut ?lo 0 X) (any_in X 0 (\<lambda>j. j < ?lo)) (any_in X 0 (\<lambda>j. ?lo \<le> j)))
        (\<lambda>(buf, h, d) s'. buf = cut ?lo 128 X \<and> h = any_in X 128 (\<lambda>j. j < ?lo) \<and> d = any_in X 128 (\<lambda>j. ?lo \<le> j) \<and>
          unmapped (cutset ?lo 128 X) s s') (\<lambda>_ _. False) t"
        by (rule wp_truncate_idloop[OF x(2) _ _ _ u refl]) (fact x(4), fact x(5), simp)
      then show ?thesis unfolding cut_0 any_in_simps(1)[THEN eq_False[THEN iffD2]]
        by (rule wp_mono) (auto intro: fin)
    qed
    have "wp (bind (sfs_rblock ?b) (\<lambda>data. bind (sfs_truncate_idloop bl [0..<128] (bytes_words 128 data) False False) R)) ?Q ?E s"
      unfolding wp_bind by (rule wp_mono[OF wp_sfs_rblock[OF v(1)]]) (use bU loop in \<open>auto simp: usedset_def X_def\<close>)
    then show ?thesis using True sv
      by (simp add: sfs_truncate_indirect_def wp_bind[of "sv_get p"] wp_sv_get Let_def SFS_NDIRECT_def SFS_DBPERIDB_def R_def
        split_def cong: if_cong)
  qed
qed

text \<open>
  The whole of \<open>sfs_truncate\<close>: the direct blocks at index \<open>blocklen\<close> and above go, and of the others those
  strictly above. When the indirect block cannot be read the direct blocks are gone and the size is the old one.
\<close>

lemma fcut_size:
  assumes "tstep p t t'" "fino t' p = (fino t p)\<lparr>sfi_size := n\<rparr>" "disk t' = disk t" "usedset t' = usedset t"
    "fcut p K m s t" "n < 2 ^ 32"
  shows "fcut p K n s t'"
proof -
  note c = assms(5)[unfolded fcut_def] and e = assms(2-4)
  have "shrunk K (fino s p) (disk s) (fino t' p) (disk t')"
    using c assms(6) unfolding e shrunk_def by (simp add: inode_ok_def)
  then show ?thesis using c tstep_trans[OF _ assms(1)] unfolding fcut_def e by simp
qed

lemma keep_both: "(\<lambda>k. keep_direct bl k \<and> keep_indirect bl k) = keep bl"
  by (auto simp: fun_eq_iff keep_direct_def keep_indirect_def keep_def)

lemma wp_sfs_truncate:
  assumes "fvalid p s"
  defines "bl \<equiv> \<lambda>len. u32 (DIVROUNDUP len 512)"
  shows "wp (sfs_truncate p len) (\<lambda>_ s'. fcut p (keep (bl len)) (u32 len) s s')
    (\<lambda>e s'. e = EIO \<and> fcut p (keep_direct (bl len)) (sfi_size (fino s p)) s s') s"
proof -
  let ?E = "\<lambda>e s'. e = EIO \<and> fcut p (keep_direct (bl len)) (sfi_size (fino s p)) s s'"
  have z: "sfi_size (fino s p) \<le> 512 * max_fileblocks" using file_okD(2)[OF fvalidD(2)[OF assms(1)]] by simp
  have size: "wp (sv_inode p (\<lambda>n. n\<lparr>sfi_size := u32 len\<rparr>)) (\<lambda>_. fcut p (keep (bl len)) (u32 len) s) ?E t"
    if "fcut p (keep (bl len)) m s t" for t m
  proof -
    have "fs_ok t" "svs t p \<noteq> None" using that tstepD(1,2)[of p s t] by (simp_all add: fcut_def)
    then show ?thesis by (rule wp_mono[OF wp_sv_inode_step]) (use fcut_size[OF _ _ _ _ that, of _ "u32 len"] in \<open>auto simp: u32_def\<close>)
  qed
  have ind: "wp (sfs_truncate_indirect p (bl len)) (\<lambda>_. wp (sv_inode p (\<lambda>n. n\<lparr>sfi_size := u32 len\<rparr>)) (\<lambda>_. fcut p (keep (bl len)) (u32 len) s) ?E) ?E t"
    if c: "fcut p (keep_direct (bl len)) (sfi_size (fino s p)) s t" for t
  proof (rule wp_mono[OF wp_truncate_indirect_cut[OF fcut_valid(1)[OF assms(1) c z]]])
    fix a t' assume "fcut p (keep_indirect (bl len)) (sfi_size (fino t p)) t t'"
    from fcut_trans[OF assms(1) c this z] show "wp (sv_inode p (\<lambda>n. n\<lparr>sfi_size := u32 len\<rparr>)) (\<lambda>_. fcut p (keep (bl len)) (u32 len) s) ?E t'"
      unfolding keep_both by (rule size)
  next
    fix e t' assume e: "e = EIO \<and> fs_same t t'"
    have "fcut p (keep_direct (bl len)) (sfi_size (fino s p)) s t'"
      using fcut_trans[OF assms(1) c fcut_none[OF fcut_valid(1)[OF assms(1) c z], of t' "\<lambda>_. True"] z] e c by (simp add: fcut_def)
    then show "?E e t'" using e by simp
  qed
  have e: "u32 (DIVROUNDUP len 512) = bl len" by (simp add: bl_def)
  show ?thesis unfolding sfs_truncate_def Let_def wp_bind SFS_BLOCKSIZE_def of_nat_numeral e
    by (rule wp_mono[OF wp_truncate_direct_cut[OF assms(1)] ind]) simp_all
qed

end
