(* ===== verification/Sfs_Ops_Claims.thy ===== *)
theory Sfs_Ops_Claims
  imports Sfs_Claims Sfs_Trunc
begin

text \<open>
  What SFS promises of directories and of truncation, and what goes wrong at the limits of a file.
\<close>

section \<open>Directories\<close>

lemma ex_dents: "dents ex_fs 0 = [ex_entry]"
proof -
  have "fslice ex_fs 0 0 64 = take 64 (fslice ex_fs 0 0 512)" using fslice_in_block[of 0 64 ex_fs 0] by simp
  also have "\<dots> = dir_bytes ex_entry"
    using file_block[OF ex_valid(1), of 0] by (simp add: ex_bmap ex_medium_def dir_bytes_def ex_entry_def)
  finally show ?thesis by (simp add: dents_def bytes_dir_bytes[OF ex_formats(4)])
qed

lemma ex_dinv: "dinv 0 ex_fs"
  by (simp add: dinv_def dvalid_def ex_valid ex_dents dnames_def)

lemma ex_dmap: "dmap (dents ex_fs 0) = [[97] \<mapsto> 3]"
proof -
  have "dlive ex_entry" "sfd_ino ex_entry = 3" by (simp_all add: dlive_def ex_entry_def sfs_consts)
  moreover have "(97 # replicate 59 0)[59 := 0] = 97 # 0 # replicate 58 (0 :: byte)"
    by (rule nth_equalityI) (auto simp: nth_list_update nth_Cons')
  then have "dname ex_entry = [97]" by (simp add: dname_def ex_entry_def sfs_consts cstr_def)
  ultimately show ?thesis by (simp add: ex_dents dmap_def)
qed



section \<open>Truncation\<close>

lemma blocklen:
  assumes "0 \<le> len" "len \<le> 2 ^ 30"
  shows "u32 (DIVROUNDUP len 512) = nat ((len + 511) div 512)"
proof -
  have "s32 (len + 511) = len + 511" using assms by (simp add: s32_def)
  moreover have "0 \<le> (len + 511) div 512" "(len + 511) div 512 < 2 ^ 32" using assms by auto
  ultimately show ?thesis using assms by (simp add: DIVROUNDUP_def cdiv_def u32_def algebra_simps)
qed

lemma fcut_other:
  assumes "fvalid p s" "fvalid q s" "p \<noteq> q" "separate p q s" "fcut p K n s s'"
  shows "fino s' q = fino s q" "fcont s' q = fcont s q" "fvalid q s'"
proof -
  note v = fvalidD[OF assms(2)] and c = assms(5)[unfolded fcut_def]
  have sh: "shrunk K (fino s p) (disk s) (fino s' p) (disk s')" using c by simp
  show f: "fino s' q = fino s q" using c assms(3) by (simp add: fino_def tstep_def)
  have d: "disk s' b = disk s b" if "b \<in> owned (fino s q) (disk s)" for b
    using shrunk_disk[OF sh, of b] that assms(4) by (auto simp: separate_def)
  note di = disk_irrelevant[OF v(2) d]
  show "fcont s' q = fcont s q" by (simp add: fcont_def f di)
  have "owned (fino s q) (disk s) \<subseteq> usedset s'" using file_okD(3)[OF v(2)] c assms(4) by (auto simp: separate_def)
  then have "file_ok (usedset s') (fino s' q) (disk s')" using di(2,4) f by (simp add: file_ok_def)
  moreover have "svs s' q \<noteq> None" using assms(2,3) c by (auto simp: fvalid_def tstep_def)
  ultimately show "fvalid q s'" using c tstepD(1)[of p s s'] by (simp add: fvalid_def)
qed




definition ex_big :: sfs_inode where
  "ex_big = ex_file\<lparr>sfi_size := 8192, sfi_direct := replicate 15 0, sfi_indirect := 4\<rparr>"

definition ex_words :: "nat list" where "ex_words = 5 # replicate 127 0"

definition ex_fs2 :: sfs_fs where
  "ex_fs2 = ex_fs\<lparr>sfs_device := ex_device\<lparr>medium := ex_medium(4 := words_bytes ex_words)\<rparr>,
     svs := (svs ex_fs)(1 \<mapsto> \<lparr>sv_v = ex_vnode Sfs_fileops 1, sv_i = ex_big, sv_ino = 3, sv_dirty = False\<rparr>)\<rparr>"

lemma ex_fs2_simps:
  "fino ex_fs2 1 = ex_big" "sfs_freemap ex_fs2 = ex_map" "sfs_sb ex_fs2 = ex_super" "usedset ex_fs2 = {..<7}"
  "disk ex_fs2 = ex_medium(4 := words_bytes ex_words)" "svs ex_fs2 1 \<noteq> None"
  using ex_usedset by (simp_all add: ex_fs2_def fino_def usedset_def)

lemma ex_big_bmap: "bmap_fun ex_big (disk ex_fs2) k = (if k = 15 then 5 else 0)"
proof -
  have "bytes_words 128 (words_bytes ex_words) = ex_words"
    using bytes_words_bytes[of ex_words "[]"] by (simp add: words_ok_def ex_words_def)
  moreover have "sfi_direct ex_big = replicate 15 0" "sfi_indirect ex_big = 4" by (simp_all add: ex_big_def)
  ultimately show ?thesis by (auto simp: bmap_fun_def ex_fs2_simps ex_words_def nth_Cons')
qed

lemma ex_big_valid: "fvalid 1 ex_fs2"
proof -
  have "lhd_inv (sfs_device ex_fs2)"
    by (simp add: lhd_inv_def ex_fs2_def ex_device_def ex_card_ok ex_medium_length ex_words_def)
  moreover have "bitmap_inv ex_map" by (simp add: bitmap_inv_def)
  ultimately have "fs_ok ex_fs2"
    by (simp add: fs_ok_def ex_card_ok ex_map_used ex_fs2_simps) (simp add: ex_fs2_def ex_card_ok)
  moreover have "inode_ok ex_big" using ex_formats(3) by (simp add: inode_ok_def ex_big_def words_ok_def)
  moreover have "owned ex_big (disk ex_fs2) = {4, 5}" unfolding owned_def ex_big_bmap by (auto simp: ex_big_def split: if_splits)
  ultimately show ?thesis unfolding fvalid_def file_ok_def ex_fs2_simps(1,4) ex_big_bmap
    using ex_fs2_simps(6) by (auto simp: ex_big_def split: if_splits)
qed


section \<open>Writing past the largest file\<close>



end
