(* ===== verification/Kheap_Model.thy ===== *)
theory Kheap_Model
  imports Thread_System C_Arith
begin

text \<open>
  Kernel memory: physical pages (\<open>kern/arch/mips/mips/ram.c\<close>, and \<open>getppages\<close>, \<open>alloc_kpages\<close> and
  \<open>free_kpages\<close> of \<open>dumbvm.c\<close>) and the subpage allocator behind \<open>kmalloc\<close> and \<open>kfree\<close>
  (\<open>kern/lib/kheap.c\<close>).

  Addresses are naturals below \<open>2 ^ 32\<close> and their arithmetic wraps around. The free lists live inside the pages they
  describe, so memory is part of the state: one 32-bit value for every aligned address. A pointer to a
  \<open>struct pageref\<close> is an index into the table \<open>pagerefs\<close>. The loops over linked lists
  carry as fuel one more than the number of entries of that table; a list that is longer has a cycle.
\<close>

unbundle bit_operations_syntax

section \<open>State\<close>

definition PAGE_SIZE :: nat where "PAGE_SIZE = 4096"
definition PAGE_FRAME :: nat where "PAGE_FRAME = 0xfffff000"
definition MIPS_KSEG0 :: nat where "MIPS_KSEG0 = 0x80000000"
definition MIPS_KSEG1 :: nat where "MIPS_KSEG1 = 0xa0000000"

definition PADDR_TO_KVADDR :: "nat \<Rightarrow> nat" where "PADDR_TO_KVADDR p = u32 (int p + int MIPS_KSEG0)"

record pageref =
  next_samesize :: "nat option"
  next_all :: "nat option"
  pageaddr_and_blocktype :: nat
  freelist_offset :: nat
  nfree :: nat

record addrspace =
  as_vbase1 :: nat
  as_pbase1 :: nat
  as_npages1 :: nat
  as_vbase2 :: nat
  as_pbase2 :: nat
  as_npages2 :: nat
  as_stackpbase :: nat

record kmach =
  mts :: tsys
  firstpaddr :: nat
  lastpaddr :: nat
  mwords :: "nat \<Rightarrow> nat"
  pagerefs :: "nat \<Rightarrow> pageref"
  pagerefs_inuse :: "32 word list"
  sizebases :: "nat option list"
  allbase :: "nat option"
  tlb :: "(nat \<times> nat) list"
  aspaces :: "nat \<Rightarrow> addrspace option"

definition on_mts :: "('a, tsys) kmon \<Rightarrow> ('a, kmach) kmon" where
  "on_mts = zoom mts (\<lambda>t. mts_update (\<lambda>_. t))"

text \<open>The processor traps an unaligned access; the kernel's own memory is in the segment \<open>kseg0\<close>.\<close>

definition kaddr_ok :: "nat \<Rightarrow> bool" where
  "kaddr_ok a \<longleftrightarrow> MIPS_KSEG0 \<le> a \<and> a < MIPS_KSEG1 \<and> a mod 4 = 0"

definition mload :: "nat \<Rightarrow> (nat, kmach) kmon" where
  "mload a = (if kaddr_ok a then gets (\<lambda>s. mwords s a) else panic ''address error'')"

definition mstore :: "nat \<Rightarrow> nat \<Rightarrow> (unit, kmach) kmon" where
  "mstore a v = (if kaddr_ok a then modify (\<lambda>s. s\<lparr>mwords := (mwords s)(a := v)\<rparr>) else panic ''address error'')"

section \<open>Physical pages\<close>

definition ram_bootstrap :: "nat \<Rightarrow> nat \<Rightarrow> (unit, kmach) kmon" where
  "ram_bootstrap ramsize firstfree = modify (\<lambda>s. s\<lparr>
     lastpaddr := (if ramsize > 508 * 1024 * 1024 then 508 * 1024 * 1024 else ramsize),
     firstpaddr := u32 (int firstfree - int MIPS_KSEG0)\<rparr>)"

definition ram_stealmem :: "nat \<Rightarrow> (nat, kmach) kmon" where
  "ram_stealmem npages = (\<lambda>s.
     let size = u32 (int npages * int PAGE_SIZE) in
     if u32 (int (firstpaddr s) + int size) > lastpaddr s then Ok 0 s
     else Ok (firstpaddr s) (s\<lparr>firstpaddr := u32 (int (firstpaddr s) + int size)\<rparr>))"

definition ram_getsize :: "(nat \<times> nat, kmach) kmon" where
  "ram_getsize = (\<lambda>s. Ok (firstpaddr s, lastpaddr s) (s\<lparr>firstpaddr := 0, lastpaddr := 0\<rparr>))"

definition getppages :: "nat \<Rightarrow> (nat, kmach) kmon" where
  "getppages npages =
     bind (on_mts splhigh) (\<lambda>spl.
     bind (ram_stealmem npages) (\<lambda>addr.
     bind (on_mts (splx spl)) (\<lambda>_. ret addr)))"

definition alloc_kpages :: "nat \<Rightarrow> (nat, kmach) kmon" where
  "alloc_kpages npages = bind (getppages npages) (\<lambda>pa. if pa = 0 then ret 0 else ret (PADDR_TO_KVADDR pa))"

definition free_kpages :: "nat \<Rightarrow> (unit, kmach) kmon" where
  "free_kpages a = ret ()"

section \<open>Page records\<close>

definition NSIZES :: nat where "NSIZES = 8"
definition sizes :: "nat list" where "sizes = [16, 32, 64, 128, 256, 512, 1024, 2048]"
definition LARGEST_SUBPAGE_SIZE :: nat where "LARGEST_SUBPAGE_SIZE = 2048"
definition INVALID_OFFSET :: nat where "INVALID_OFFSET = 0xffff"
definition NPAGEREFS :: nat where "NPAGEREFS = 256"
definition INUSE_WORDS :: nat where "INUSE_WORDS = NPAGEREFS div 32"

definition PR_PAGEADDR :: "pageref \<Rightarrow> nat" where
  "PR_PAGEADDR pr = pageaddr_and_blocktype pr AND PAGE_FRAME"

definition PR_BLOCKTYPE :: "pageref \<Rightarrow> nat" where
  "PR_BLOCKTYPE pr = pageaddr_and_blocktype pr AND (0xffffffff - PAGE_FRAME)"

definition MKPAB :: "nat \<Rightarrow> nat \<Rightarrow> nat" where
  "MKPAB pa blk = (pa AND PAGE_FRAME) OR (blk AND (0xffffffff - PAGE_FRAME))"

definition pr_get :: "nat \<Rightarrow> (pageref, kmach) kmon" where
  "pr_get p = gets (\<lambda>s. pagerefs s p)"

definition pr_put :: "nat \<Rightarrow> (pageref \<Rightarrow> pageref) \<Rightarrow> (unit, kmach) kmon" where
  "pr_put p f = modify (\<lambda>s. s\<lparr>pagerefs := (pagerefs s)(p := f (pagerefs s p))\<rparr>)"

text \<open>
  The inner loop of \<open>allocpageref\<close> shifts \<open>k\<close> left until it is zero, that is, through the 32 bits of the word.
\<close>

definition allocpageref_word :: "nat \<Rightarrow> (nat option, kmach) kmon" where
  "allocpageref_word i =
     bind (gets (\<lambda>s. pagerefs_inuse s ! i)) (\<lambda>w.
     if w = 0xffffffff then ret None
     else case find (\<lambda>j. w AND push_bit j 1 = 0) [0..<32] of
         Some j \<Rightarrow> bind (modify (\<lambda>s. s\<lparr>pagerefs_inuse := (pagerefs_inuse s)[i := w OR push_bit j 1]\<rparr>)) (\<lambda>_.
                   ret (Some (i * 32 + j)))
       | None \<Rightarrow> panic ''0'')"

definition allocpageref :: "(nat option, kmach) kmon" where
  "allocpageref = first_some [0..<INUSE_WORDS] allocpageref_word"

definition freepageref :: "nat \<Rightarrow> (unit, kmach) kmon" where
  "freepageref p =
     bind (assertk (p < NPAGEREFS) ''j < NPAGEREFS'') (\<lambda>_.
     bind (gets (\<lambda>s. pagerefs_inuse s ! (p div 32))) (\<lambda>w.
     let k = push_bit (p mod 32) 1 in
     bind (assertk (w AND k \<noteq> 0) ''(pagerefs_inuse[i] & k) != 0'') (\<lambda>_.
     modify (\<lambda>s. s\<lparr>pagerefs_inuse := (pagerefs_inuse s)[p div 32 := w AND NOT k]\<rparr>))))"

text \<open>The variable of type \<open>struct pageref **\<close> in \<open>remove_lists\<close>.\<close>

datatype link = SizeBase nat | NextSame nat | AllBase | NextAll nat

fun link_get :: "link \<Rightarrow> kmach \<Rightarrow> nat option" where
  "link_get (SizeBase t) s = sizebases s ! t"
| "link_get (NextSame p) s = next_samesize (pagerefs s p)"
| "link_get AllBase s = allbase s"
| "link_get (NextAll p) s = next_all (pagerefs s p)"

fun link_put :: "link \<Rightarrow> nat option \<Rightarrow> (unit, kmach) kmon" where
  "link_put (SizeBase t) q = modify (\<lambda>s. s\<lparr>sizebases := (sizebases s)[t := q]\<rparr>)"
| "link_put (NextSame p) q = pr_put p (next_samesize_update (\<lambda>_. q))"
| "link_put AllBase q = modify (\<lambda>s. s\<lparr>allbase := q\<rparr>)"
| "link_put (NextAll p) q = pr_put p (next_all_update (\<lambda>_. q))"

fun link_of :: "link \<Rightarrow> nat \<Rightarrow> link" where
  "link_of (SizeBase t) p = NextSame p"
| "link_of (NextSame q) p = NextSame p"
| "link_of AllBase p = NextAll p"
| "link_of (NextAll q) p = NextAll p"

primrec remove_loop :: "nat \<Rightarrow> link \<Rightarrow> nat \<Rightarrow> (unit, kmach) kmon" where
  "remove_loop 0 guy pr = panic ''cycle in a list of pages''"
| "remove_loop (Suc n) guy pr = bind (gets (link_get guy)) (\<lambda>g.
     case g of None \<Rightarrow> ret ()
     | Some q \<Rightarrow> if q = pr then bind (gets (link_get (link_of guy pr))) (link_put guy)
                else remove_loop n (link_of guy q) pr)"

definition remove_lists :: "nat \<Rightarrow> nat \<Rightarrow> (unit, kmach) kmon" where
  "remove_lists pr blktype =
     bind (assertk (blktype < NSIZES) ''blktype>=0 && blktype<NSIZES'') (\<lambda>_.
     bind (remove_loop (Suc NPAGEREFS) (SizeBase blktype) pr) (\<lambda>_.
     remove_loop (Suc NPAGEREFS) AllBase pr))"

section \<open>The subpage allocator\<close>

definition fill_deadbeef :: "nat \<Rightarrow> nat \<Rightarrow> (unit, kmach) kmon" where
  "fill_deadbeef vptr len = foreach [0..<len div 4] (\<lambda>i. mstore (u32 (int vptr + 4 * int i)) 0xdeadbeef)"

definition blocktype :: "nat \<Rightarrow> (nat, kmach) kmon" where
  "blocktype sz = (case find (\<lambda>i. sz \<le> sizes ! i) [0..<NSIZES] of
       Some i \<Rightarrow> ret i
     | None \<Rightarrow> panic ''Subpage allocator cannot handle allocation of size'')"

text \<open>The search of \<open>subpage_kmalloc\<close> for a page with a free block.\<close>

primrec find_free :: "nat \<Rightarrow> nat \<Rightarrow> nat option \<Rightarrow> (nat option, kmach) kmon" where
  "find_free 0 blktype pr = panic ''cycle in a list of pages''"
| "find_free (Suc n) blktype pr = (case pr of None \<Rightarrow> ret None
     | Some p \<Rightarrow> bind (pr_get p) (\<lambda>r.
         bind (assertk (PR_BLOCKTYPE r = blktype) ''PR_BLOCKTYPE(pr) == blktype'') (\<lambda>_.
         if nfree r > 0 then ret (Some p) else find_free n blktype (next_samesize r))))"

text \<open>From the label \<open>doalloc\<close> on.\<close>

definition doalloc :: "nat \<Rightarrow> int \<Rightarrow> (nat, kmach) kmon" where
  "doalloc pr spl =
     bind (pr_get pr) (\<lambda>r.
     bind (assertk (freelist_offset r < PAGE_SIZE) ''pr->freelist_offset < PAGE_SIZE'') (\<lambda>_.
     let prpage = PR_PAGEADDR r; retptr = u32 (int prpage + int (freelist_offset r)); n = u16 (int (nfree r) - 1) in
     bind (mload retptr) (\<lambda>fl.
     bind (pr_put pr (nfree_update (\<lambda>_. n))) (\<lambda>_.
     bind (if fl \<noteq> NULL
       then bind (assertk (n > 0) ''pr->nfree > 0'') (\<lambda>_.
            bind (assertk (u32 (int fl - int prpage) < PAGE_SIZE) ''fla - prpage < PAGE_SIZE'') (\<lambda>_.
            pr_put pr (freelist_offset_update (\<lambda>_. u16 (int fl - int prpage)))))
       else bind (assertk (n = 0) ''pr->nfree == 0'') (\<lambda>_.
            pr_put pr (freelist_offset_update (\<lambda>_. INVALID_OFFSET)))) (\<lambda>_.
     bind (on_mts (splx spl)) (\<lambda>_. ret retptr))))))"

text \<open>The part of \<open>subpage_kmalloc\<close> that turns a fresh page into a list of free blocks.\<close>

definition new_page :: "nat \<Rightarrow> nat \<Rightarrow> nat \<Rightarrow> (unit, kmach) kmon" where
  "new_page pr prpage blktype =
     (let sz = sizes ! blktype; n = u16 (int (PAGE_SIZE div sz)); fl = u32 (int prpage + (int n - 1) * int sz) in
     bind (pr_put pr (pageaddr_and_blocktype_update (\<lambda>_. MKPAB prpage blktype))) (\<lambda>_.
     bind (pr_put pr (nfree_update (\<lambda>_. n))) (\<lambda>_.
     bind (mstore prpage NULL) (\<lambda>_.
     bind (foreach [1..<n] (\<lambda>i.
       bind (mstore (u32 (int prpage + int i * int sz)) (u32 (int prpage + (int i - 1) * int sz))) (\<lambda>_.
       assertk (u32 (int prpage + int i * int sz) \<noteq> u32 (int prpage + (int i - 1) * int sz)) ''fl != fl->next''))) (\<lambda>_.
     bind (pr_put pr (freelist_offset_update (\<lambda>_. u16 (int fl - int prpage)))) (\<lambda>_.
     bind (assertk (u16 (int fl - int prpage) = (n - 1) * sz) ''pr->freelist_offset == (pr->nfree-1)*sizes[blktype]'') (\<lambda>_.
     bind (gets (\<lambda>s. sizebases s ! blktype)) (\<lambda>b.
     bind (pr_put pr (next_samesize_update (\<lambda>_. b))) (\<lambda>_.
     bind (modify (\<lambda>s. s\<lparr>sizebases := (sizebases s)[blktype := Some pr]\<rparr>)) (\<lambda>_.
     bind (gets allbase) (\<lambda>a.
     bind (pr_put pr (next_all_update (\<lambda>_. a))) (\<lambda>_.
     modify (\<lambda>s. s\<lparr>allbase := Some pr\<rparr>)))))))))))))"

definition subpage_kmalloc :: "nat \<Rightarrow> (nat, kmach) kmon" where
  "subpage_kmalloc sz =
     bind (blocktype sz) (\<lambda>blktype.
     bind (on_mts splhigh) (\<lambda>spl.
     bind (gets (\<lambda>s. sizebases s ! blktype)) (\<lambda>b.
     bind (find_free (Suc NPAGEREFS) blktype b) (\<lambda>r.
     case r of Some pr \<Rightarrow> doalloc pr spl
     | None \<Rightarrow> bind allocpageref (\<lambda>p.
        case p of None \<Rightarrow> bind (on_mts (splx spl)) (\<lambda>_. ret NULL)
        | Some pr \<Rightarrow> bind (alloc_kpages 1) (\<lambda>prpage.
            if prpage = 0 then bind (freepageref pr) (\<lambda>_. bind (on_mts (splx spl)) (\<lambda>_. ret NULL))
            else bind (new_page pr prpage blktype) (\<lambda>_. doalloc pr spl)))))))"

text \<open>The search of \<open>subpage_kfree\<close> for the page of a block.\<close>

primrec find_page :: "nat \<Rightarrow> nat option \<Rightarrow> nat \<Rightarrow> (nat option, kmach) kmon" where
  "find_page 0 pr ptraddr = panic ''cycle in a list of pages''"
| "find_page (Suc n) pr ptraddr = (case pr of None \<Rightarrow> ret None
     | Some p \<Rightarrow> bind (pr_get p) (\<lambda>r.
         bind (assertk (PR_BLOCKTYPE r < NSIZES) ''blktype>=0 && blktype<NSIZES'') (\<lambda>_.
         if ptraddr \<ge> PR_PAGEADDR r \<and> ptraddr < u32 (int (PR_PAGEADDR r) + int PAGE_SIZE) then ret (Some p)
         else find_page n (next_all r) ptraddr)))"

text \<open>\<open>True\<close> is the return value \<open>-1\<close>: not a block of the subpage allocator.\<close>

definition subpage_kfree :: "nat \<Rightarrow> (bool, kmach) kmon" where
  "subpage_kfree ptraddr =
     bind (on_mts splhigh) (\<lambda>spl.
     bind (gets allbase) (\<lambda>a.
     bind (find_page (Suc NPAGEREFS) a ptraddr) (\<lambda>p.
     case p of None \<Rightarrow> bind (on_mts (splx spl)) (\<lambda>_. ret True)
     | Some pr \<Rightarrow> bind (pr_get pr) (\<lambda>r.
        let prpage = PR_PAGEADDR r; blktype = PR_BLOCKTYPE r; offset = u32 (int ptraddr - int prpage) in
        bind (assertk (\<not> (offset \<ge> PAGE_SIZE \<or> offset mod (sizes ! blktype) \<noteq> 0)) ''kfree: subpage free of invalid addr'') (\<lambda>_.
        bind (fill_deadbeef ptraddr (sizes ! blktype)) (\<lambda>_.
        bind (if freelist_offset r = INVALID_OFFSET then mstore (u32 (int prpage + int offset)) NULL
              else mstore (u32 (int prpage + int offset)) (u32 (int prpage + int (freelist_offset r)))) (\<lambda>_.
        let n = u16 (int (nfree r) + 1) in
        bind (pr_put pr (freelist_offset_update (\<lambda>_. u16 (int offset)))) (\<lambda>_.
        bind (pr_put pr (nfree_update (\<lambda>_. n))) (\<lambda>_.
        bind (assertk (n \<le> PAGE_SIZE div (sizes ! blktype)) ''pr->nfree <= PAGE_SIZE / sizes[blktype]'') (\<lambda>_.
        bind (if n = PAGE_SIZE div (sizes ! blktype)
              then bind (remove_lists pr blktype) (\<lambda>_. bind (free_kpages prpage) (\<lambda>_. freepageref pr))
              else ret ()) (\<lambda>_.
        bind (on_mts (splx spl)) (\<lambda>_. ret False))))))))))))"

definition kmalloc :: "nat \<Rightarrow> (nat, kmach) kmon" where
  "kmalloc sz =
     (if sz \<ge> LARGEST_SUBPAGE_SIZE
      then alloc_kpages (u32 (int sz + int PAGE_SIZE - 1) div PAGE_SIZE)
      else subpage_kmalloc sz)"

definition kfree :: "nat \<Rightarrow> (unit, kmach) kmon" where
  "kfree ptr =
     (if ptr = NULL then ret ()
      else bind (subpage_kfree ptr) (\<lambda>r.
        if r then bind (assertk (ptr mod PAGE_SIZE = 0) ''(vaddr_t)ptr%PAGE_SIZE==0'') (\<lambda>_. free_kpages ptr)
        else ret ()))"


end
