(* ===== verification/Vm_Model.thy ===== *)
theory Vm_Model
  imports Kheap_Model
begin

text \<open>
  Address spaces and page faults (\<open>kern/arch/mips/mips/dumbvm.c\<close>): every address space has two regions and a stack, each backed by one run
  of physical pages, and a fault loads a translation into the first free entry of the TLB. An address space is
  known by the address \<open>kmalloc\<close> returned for its structure. \<open>TLB_Read\<close> and \<open>TLB_Write\<close> access
  the 64 entries of the processor by index.
\<close>

definition NUM_TLB :: nat where "NUM_TLB = 64"
definition TLBLO_DIRTY :: nat where "TLBLO_DIRTY = 0x400"
definition TLBLO_VALID :: nat where "TLBLO_VALID = 0x200"
definition TLBHI_INVALID :: "nat \<Rightarrow> nat" where "TLBHI_INVALID entryno = u32 (int (push_bit 12 (0x80000 + entryno)))"
definition TLBLO_INVALID :: nat where "TLBLO_INVALID = 0"
definition DUMBVM_STACKPAGES :: nat where "DUMBVM_STACKPAGES = 12"
definition USERSTACK :: nat where "USERSTACK = MIPS_KSEG0"

datatype faulttype = VM_FAULT_READ | VM_FAULT_WRITE | VM_FAULT_READONLY | Fault_Other

definition TLB_Read :: "nat \<Rightarrow> (nat \<times> nat, kmach) kmon" where
  "TLB_Read i = gets (\<lambda>s. tlb s ! i)"

definition TLB_Write :: "nat \<Rightarrow> nat \<Rightarrow> nat \<Rightarrow> (unit, kmach) kmon" where
  "TLB_Write ehi elo i = modify (\<lambda>s. s\<lparr>tlb := (tlb s)[i := (ehi, elo)]\<rparr>)"

definition as_get :: "nat \<Rightarrow> (addrspace, kmach) kmon" where
  "as_get a s = (case aspaces s a of None \<Rightarrow> Panic ''dangling addrspace pointer'' | Some x \<Rightarrow> Ok x s)"

definition as_put :: "nat \<Rightarrow> (addrspace \<Rightarrow> addrspace) \<Rightarrow> (unit, kmach) kmon" where
  "as_put a f = bind (as_get a) (\<lambda>x. modify (\<lambda>s. s\<lparr>aspaces := (aspaces s)(a \<mapsto> f x)\<rparr>))"

definition cur_as :: "(nat option, kmach) kmon" where
  "cur_as = on_mts (bind cur (\<lambda>c. bind (t_get c) (\<lambda>x. ret (t_vmspace x))))"

section \<open>Page faults\<close>

definition as_assert :: "addrspace \<Rightarrow> (unit, kmach) kmon" where
  "as_assert x =
     bind (assertk (as_vbase1 x \<noteq> 0) ''as->as_vbase1 != 0'') (\<lambda>_.
     bind (assertk (as_pbase1 x \<noteq> 0) ''as->as_pbase1 != 0'') (\<lambda>_.
     bind (assertk (as_npages1 x \<noteq> 0) ''as->as_npages1 != 0'') (\<lambda>_.
     bind (assertk (as_vbase2 x \<noteq> 0) ''as->as_vbase2 != 0'') (\<lambda>_.
     bind (assertk (as_pbase2 x \<noteq> 0) ''as->as_pbase2 != 0'') (\<lambda>_.
     bind (assertk (as_npages2 x \<noteq> 0) ''as->as_npages2 != 0'') (\<lambda>_.
     bind (assertk (as_stackpbase x \<noteq> 0) ''as->as_stackpbase != 0'') (\<lambda>_.
     bind (assertk (as_vbase1 x AND PAGE_FRAME = as_vbase1 x) ''(as->as_vbase1 & PAGE_FRAME) == as->as_vbase1'') (\<lambda>_.
     bind (assertk (as_pbase1 x AND PAGE_FRAME = as_pbase1 x) ''(as->as_pbase1 & PAGE_FRAME) == as->as_pbase1'') (\<lambda>_.
     bind (assertk (as_vbase2 x AND PAGE_FRAME = as_vbase2 x) ''(as->as_vbase2 & PAGE_FRAME) == as->as_vbase2'') (\<lambda>_.
     bind (assertk (as_pbase2 x AND PAGE_FRAME = as_pbase2 x) ''(as->as_pbase2 & PAGE_FRAME) == as->as_pbase2'') (\<lambda>_.
     assertk (as_stackpbase x AND PAGE_FRAME = as_stackpbase x) ''(as->as_stackpbase & PAGE_FRAME) == as->as_stackpbase'')))))))))))"

text \<open>The physical page of a user page, \<open>None\<close> where \<open>vm_fault\<close> returns \<open>EFAULT\<close>.\<close>

definition fault_paddr :: "addrspace \<Rightarrow> nat \<Rightarrow> nat option" where
  "fault_paddr x faultaddress =
     (let vbase1 = as_vbase1 x; vtop1 = u32 (int vbase1 + int (as_npages1 x) * int PAGE_SIZE);
          vbase2 = as_vbase2 x; vtop2 = u32 (int vbase2 + int (as_npages2 x) * int PAGE_SIZE);
          stackbase = USERSTACK - DUMBVM_STACKPAGES * PAGE_SIZE; stacktop = USERSTACK in
      if faultaddress \<ge> vbase1 \<and> faultaddress < vtop1 then Some (u32 (int (faultaddress - vbase1) + int (as_pbase1 x)))
      else if faultaddress \<ge> vbase2 \<and> faultaddress < vtop2 then Some (u32 (int (faultaddress - vbase2) + int (as_pbase2 x)))
      else if faultaddress \<ge> stackbase \<and> faultaddress < stacktop then Some (u32 (int (faultaddress - stackbase) + int (as_stackpbase x)))
      else None)"

definition tlb_load :: "nat \<Rightarrow> nat \<Rightarrow> nat \<Rightarrow> (unit option, kmach) kmon" where
  "tlb_load faultaddress paddr i = bind (TLB_Read i) (\<lambda>(ehi, elo).
     if elo AND TLBLO_VALID \<noteq> 0 then ret None
     else bind (TLB_Write faultaddress (paddr OR TLBLO_DIRTY OR TLBLO_VALID) i) (\<lambda>_. ret (Some ())))"

definition vm_fault :: "faulttype \<Rightarrow> nat \<Rightarrow> (unit, kmach) kmon" where
  "vm_fault faulttype faultaddr =
     bind (on_mts splhigh) (\<lambda>spl.
     let faultaddress = faultaddr AND PAGE_FRAME in
     if faulttype = VM_FAULT_READONLY then panic ''dumbvm: got VM_FAULT_READONLY''
     else if faulttype = Fault_Other then bind (on_mts (splx spl)) (\<lambda>_. fail EINVAL)
     else bind cur_as (\<lambda>a. case a of None \<Rightarrow> fail EFAULT
     | Some a \<Rightarrow> bind (as_get a) (\<lambda>x. bind (as_assert x) (\<lambda>_.
        case fault_paddr x faultaddress of
          None \<Rightarrow> bind (on_mts (splx spl)) (\<lambda>_. fail EFAULT)
        | Some paddr \<Rightarrow> bind (assertk (paddr AND PAGE_FRAME = paddr) ''(paddr & PAGE_FRAME)==paddr'') (\<lambda>_.
            bind (first_some [0..<NUM_TLB] (tlb_load faultaddress paddr)) (\<lambda>r.
            bind (on_mts (splx spl)) (\<lambda>_. case r of Some _ \<Rightarrow> ret () | None \<Rightarrow> fail EFAULT)))))))"

section \<open>Address spaces\<close>

definition as_create :: "(nat option, kmach) kmon" where
  "as_create = bind (kmalloc 28) (\<lambda>a. if a = NULL then ret None
     else bind (modify (\<lambda>s. s\<lparr>aspaces := (aspaces s)(a \<mapsto> \<lparr>as_vbase1 = 0, as_pbase1 = 0, as_npages1 = 0,
            as_vbase2 = 0, as_pbase2 = 0, as_npages2 = 0, as_stackpbase = 0\<rparr>)\<rparr>)) (\<lambda>_. ret (Some a)))"

definition as_destroy :: "nat \<Rightarrow> (unit, kmach) kmon" where
  "as_destroy a = bind (kfree a) (\<lambda>_. modify (\<lambda>s. s\<lparr>aspaces := (aspaces s)(a := None)\<rparr>))"

definition as_activate :: "(unit, kmach) kmon" where
  "as_activate = bind (on_mts splhigh) (\<lambda>spl.
     bind (foreach [0..<NUM_TLB] (\<lambda>i. TLB_Write (TLBHI_INVALID i) TLBLO_INVALID i)) (\<lambda>_.
     bind (on_mts (splx spl)) (\<lambda>_. ret ())))"

definition as_define_region :: "nat \<Rightarrow> nat \<Rightarrow> nat \<Rightarrow> (unit, kmach) kmon" where
  "as_define_region a vaddr sz =
     (let sz1 = u32 (int sz + int (vaddr AND (0xffffffff - PAGE_FRAME))); va = vaddr AND PAGE_FRAME;
          sz2 = u32 (int sz1 + int PAGE_SIZE - 1) AND PAGE_FRAME; npages = sz2 div PAGE_SIZE in
      bind (as_get a) (\<lambda>x.
      if as_vbase1 x = 0 then as_put a (\<lambda>x. x\<lparr>as_vbase1 := va, as_npages1 := npages\<rparr>)
      else if as_vbase2 x = 0 then as_put a (\<lambda>x. x\<lparr>as_vbase2 := va, as_npages2 := npages\<rparr>)
      else fail EUNIMP))"

definition as_prepare_load :: "nat \<Rightarrow> (unit, kmach) kmon" where
  "as_prepare_load a =
     bind (as_get a) (\<lambda>x.
     bind (assertk (as_pbase1 x = 0) ''as->as_pbase1 == 0'') (\<lambda>_.
     bind (assertk (as_pbase2 x = 0) ''as->as_pbase2 == 0'') (\<lambda>_.
     bind (assertk (as_stackpbase x = 0) ''as->as_stackpbase == 0'') (\<lambda>_.
     bind (getppages (as_npages1 x)) (\<lambda>p1. bind (as_put a (as_pbase1_update (\<lambda>_. p1))) (\<lambda>_.
     if p1 = 0 then fail ENOMEM
     else bind (getppages (as_npages2 x)) (\<lambda>p2. bind (as_put a (as_pbase2_update (\<lambda>_. p2))) (\<lambda>_.
     if p2 = 0 then fail ENOMEM
     else bind (getppages DUMBVM_STACKPAGES) (\<lambda>p3. bind (as_put a (as_stackpbase_update (\<lambda>_. p3))) (\<lambda>_.
     if p3 = 0 then fail ENOMEM else ret ()))))))))))"

definition as_complete_load :: "nat \<Rightarrow> (unit, kmach) kmon" where
  "as_complete_load a = ret ()"

definition as_define_stack :: "nat \<Rightarrow> (nat, kmach) kmon" where
  "as_define_stack a = bind (as_get a) (\<lambda>x.
     bind (assertk (as_stackpbase x \<noteq> 0) ''as->as_stackpbase != 0'') (\<lambda>_. ret USERSTACK))"

text \<open>\<open>memmove\<close> between whole pages of kernel memory.\<close>

definition page_move :: "nat \<Rightarrow> nat \<Rightarrow> nat \<Rightarrow> (unit, kmach) kmon" where
  "page_move dst src n =
     (if n = 0 \<or> kaddr_ok dst \<and> kaddr_ok src \<and> dst + n \<le> MIPS_KSEG1 \<and> src + n \<le> MIPS_KSEG1
      then modify (\<lambda>s. s\<lparr>mwords := \<lambda>x. if dst \<le> x \<and> x < dst + n then mwords s (src + (x - dst)) else mwords s x\<rparr>)
      else panic ''address error'')"

definition as_copy :: "nat \<Rightarrow> (nat, kmach) kmon" where
  "as_copy old =
     bind as_create (\<lambda>r. case r of None \<Rightarrow> fail ENOMEM
     | Some new \<Rightarrow>
        bind (as_get old) (\<lambda>x.
        bind (as_put new (\<lambda>y. y\<lparr>as_vbase1 := as_vbase1 x, as_npages1 := as_npages1 x,
            as_vbase2 := as_vbase2 x, as_npages2 := as_npages2 x\<rparr>)) (\<lambda>_.
        bind (attempt (as_prepare_load new)) (\<lambda>e. case e of
          Inl _ \<Rightarrow> bind (as_destroy new) (\<lambda>_. fail ENOMEM)
        | Inr _ \<Rightarrow>
            bind (as_get new) (\<lambda>y.
            bind (assertk (as_pbase1 y \<noteq> 0) ''new->as_pbase1 != 0'') (\<lambda>_.
            bind (assertk (as_pbase2 y \<noteq> 0) ''new->as_pbase2 != 0'') (\<lambda>_.
            bind (assertk (as_stackpbase y \<noteq> 0) ''new->as_stackpbase != 0'') (\<lambda>_.
            bind (page_move (PADDR_TO_KVADDR (as_pbase1 y)) (PADDR_TO_KVADDR (as_pbase1 x)) (u32 (int (as_npages1 x) * int PAGE_SIZE))) (\<lambda>_.
            bind (page_move (PADDR_TO_KVADDR (as_pbase2 y)) (PADDR_TO_KVADDR (as_pbase2 x)) (u32 (int (as_npages2 x) * int PAGE_SIZE))) (\<lambda>_.
            bind (page_move (PADDR_TO_KVADDR (as_stackpbase y)) (PADDR_TO_KVADDR (as_stackpbase x)) (DUMBVM_STACKPAGES * PAGE_SIZE)) (\<lambda>_.
            ret new)))))))))))"

end
