(* ===== verification/Kheap_Props.thy ===== *)
theory Kheap_Props
  imports Kheap_Model
begin

text \<open>
  The invariant of the kernel heap, and that \<open>kmalloc\<close>, \<open>kfree\<close> and the writes of their callers keep it.
\<close>

section \<open>Page records as numbers\<close>

lemma low_bits: "a AND (0xffffffff - PAGE_FRAME) = a mod 4096"
proof -
  have "0xffffffff - PAGE_FRAME = mask 12" by (simp add: PAGE_FRAME_def mask_eq_exp_minus_1)
  then show ?thesis by (simp flip: take_bit_eq_mask add: take_bit_eq_mod)
qed

lemma page_bits: "a < 2 ^ 32 \<Longrightarrow> a AND PAGE_FRAME = a - a mod 4096"
proof -
  assume a: "a < 2 ^ 32"
  have f: "PAGE_FRAME = push_bit 12 (mask 20)" by (simp add: PAGE_FRAME_def mask_eq_exp_minus_1 push_bit_eq_mult)
  have t: "take_bit 32 a = a" using a by (simp add: take_bit_eq_mod)
  have "a AND PAGE_FRAME = push_bit 12 (drop_bit 12 a)"
  proof (rule bit_eqI)
    fix n
    have "bit a n \<Longrightarrow> n < 32" using t by (metis bit_take_bit_iff)
    then show "bit (a AND PAGE_FRAME) n \<longleftrightarrow> bit (push_bit 12 (drop_bit 12 a)) n"
      by (auto simp: f bit_simps)
  qed
  also have "\<dots> = a - a mod 4096" by (simp add: push_bit_eq_mult drop_bit_eq_div minus_mod_eq_div_mult)
  finally show ?thesis .
qed

lemma MKPAB_eq:
  assumes "pa mod 4096 = 0" "pa < 2 ^ 32" "blk < 4096"
  shows "MKPAB pa blk = pa + blk"
proof -
  have e: "pa = push_bit 12 (pa div 4096)" using assms(1) by (auto simp: push_bit_eq_mult)
  have b: "blk = take_bit 12 blk" using assms(3) by (simp add: take_bit_eq_mod)
  have "pa AND blk = 0" by (rule bit_eqI, subst e, subst b) (auto simp: bit_simps)
  then have "pa OR blk = pa + blk" by (simp add: disjunctive_add_eq_or)
  then show ?thesis using assms by (simp add: MKPAB_def low_bits page_bits)
qed

lemma PR_PAGEADDR_eq: "pageaddr_and_blocktype r = pa + blk \<Longrightarrow> pa mod 4096 = 0 \<Longrightarrow> blk < 4096 \<Longrightarrow> pa + blk < 2 ^ 32 \<Longrightarrow> PR_PAGEADDR r = pa"
  by (simp add: PR_PAGEADDR_def page_bits mod_add_left_eq[symmetric])

lemma PR_BLOCKTYPE_eq: "pageaddr_and_blocktype r = pa + blk \<Longrightarrow> pa mod 4096 = 0 \<Longrightarrow> blk < 4096 \<Longrightarrow> PR_BLOCKTYPE r = blk"
  by (simp add: PR_BLOCKTYPE_def low_bits mod_add_left_eq[symmetric])

section \<open>Block sizes\<close>

abbreviation bsize :: "nat \<Rightarrow> nat" where "bsize t \<equiv> sizes ! t"

definition nblocks :: "nat \<Rightarrow> nat" where "nblocks t = PAGE_SIZE div bsize t"

lemma less_8_cases: "t < 8 \<Longrightarrow> t = 0 \<or> t = 1 \<or> t = 2 \<or> t = 3 \<or> t = 4 \<or> t = 5 \<or> t = 6 \<or> (t :: nat) = 7"
  by linarith

lemma bsize_facts:
  assumes "t < 8"
  shows "16 \<le> bsize t" "bsize t \<le> 2048" "bsize t * nblocks t = 4096" "2 \<le> nblocks t" "nblocks t \<le> 256"
    "bsize t mod 16 = 0" "PAGE_SIZE div bsize t = nblocks t"
  using less_8_cases[OF assms] by (auto simp: sizes_def nblocks_def PAGE_SIZE_def)

lemma bsize_mod_4 [simp]: "t < 8 \<Longrightarrow> bsize t mod 4 = 0"
  using less_8_cases[of t] by (auto simp: sizes_def)

definition blocks :: "nat \<Rightarrow> nat \<Rightarrow> nat set" where
  "blocks pg t = (\<lambda>k. pg + k * bsize t) ` {..<nblocks t}"

lemma blocks_bounds:
  assumes "x \<in> blocks pg t" "t < 8"
  shows "pg \<le> x" "x + bsize t \<le> pg + 4096" "(x - pg) mod bsize t = 0"
proof -
  obtain k where k: "x = pg + k * bsize t" "k < nblocks t" using assms(1) by (auto simp: blocks_def)
  have "(k + 1) * bsize t \<le> nblocks t * bsize t" by (rule mult_le_mono1) (use k(2) in simp)
  then show "pg \<le> x" "x + bsize t \<le> pg + 4096" "(x - pg) mod bsize t = 0"
    using bsize_facts(3)[OF assms(2)] k(1) by (simp_all add: algebra_simps)
qed

lemma blocksI:
  assumes "t < 8" "pg \<le> x" "x < pg + 4096" "(x - pg) mod bsize t = 0"
  shows "x \<in> blocks pg t"
proof -
  let ?k = "(x - pg) div bsize t"
  have "?k * bsize t = x - pg" using assms(4) div_mult_mod_eq[of "x - pg" "bsize t"] by simp
  then have e: "x = pg + ?k * bsize t" using assms(2) by simp
  have "?k * bsize t < nblocks t * bsize t" using e assms(3) bsize_facts(3)[OF assms(1)] by (simp add: mult.commute)
  then show ?thesis using e by (auto simp: blocks_def)
qed

lemma blocks_apart:
  assumes "x \<in> blocks pg t" "y \<in> blocks pg t" "x \<noteq> y"
  shows "x + bsize t \<le> y \<or> y + bsize t \<le> x"
proof -
  obtain j k where jk: "x = pg + j * bsize t" "y = pg + k * bsize t" using assms(1,2) by (auto simp: blocks_def)
  have step: "a < b \<Longrightarrow> a * bsize t + bsize t \<le> b * bsize t" for a b
    using mult_le_mono1[of "Suc a" b "bsize t"] by simp
  show ?thesis using step[of j k] step[of k j] jk assms(3) by (cases j k rule: linorder_cases) auto
qed

lemma card_blocks: "t < 8 \<Longrightarrow> card (blocks pg t) = nblocks t"
  unfolding blocks_def using bsize_facts(1)[of t] by (subst card_image) (auto simp: inj_on_def)

lemma finite_blocks [simp]: "finite (blocks pg t)" by (simp add: blocks_def)

section \<open>Linked lists\<close>

primrec chain :: "('p \<Rightarrow> 'p option) \<Rightarrow> 'p option \<Rightarrow> 'p list \<Rightarrow> bool" where
  "chain f p [] \<longleftrightarrow> p = None"
| "chain f p (x # xs) \<longleftrightarrow> p = Some x \<and> chain f (f x) xs"

primrec fchain :: "(nat \<Rightarrow> nat) \<Rightarrow> nat \<Rightarrow> nat list \<Rightarrow> bool" where
  "fchain m a [] \<longleftrightarrow> a = NULL"
| "fchain m a (x # xs) \<longleftrightarrow> a = x \<and> fchain m (m x) xs"

lemma chain_cong: "(\<And>x. x \<in> set xs \<Longrightarrow> f x = g x) \<Longrightarrow> chain f p xs = chain g p xs"
  by (induction xs arbitrary: p) auto

lemma fchain_cong: "(\<And>x. x \<in> set xs \<Longrightarrow> f x = g x) \<Longrightarrow> fchain f p xs = fchain g p xs"
  by (induction xs arbitrary: p) auto

lemma fchain_upd [simp]: "a \<notin> set xs \<Longrightarrow> fchain (m(a := v)) p xs = fchain m p xs"
  by (rule fchain_cong) auto

lemma chain_unique: "chain f p xs \<Longrightarrow> chain f p ys \<Longrightarrow> xs = ys"
proof (induction xs arbitrary: p ys)
  case Nil
  then show ?case by (cases ys) auto
next
  case (Cons x xs)
  then show ?case by (cases ys) auto
qed

section \<open>The invariant\<close>

abbreviation pgaddr :: "kmach \<Rightarrow> nat \<Rightarrow> nat" where "pgaddr s p \<equiv> PR_PAGEADDR (pagerefs s p)"
abbreviation btype :: "kmach \<Rightarrow> nat \<Rightarrow> nat" where "btype s p \<equiv> PR_BLOCKTYPE (pagerefs s p)"

definition ram_ok :: "kmach \<Rightarrow> bool" where
  "ram_ok s \<longleftrightarrow> firstpaddr s mod 4096 = 0 \<and> 0 < firstpaddr s \<and> firstpaddr s \<le> lastpaddr s \<and> lastpaddr s \<le> 508 * 1024 * 1024"

definition inuse :: "kmach \<Rightarrow> nat set" where
  "inuse s = {p. p < 256 \<and> bit (pagerefs_inuse s ! (p div 32)) (p mod 32)}"

text \<open>Memory that was handed out, as kernel addresses.\<close>

definition in_ram :: "kmach \<Rightarrow> nat \<Rightarrow> nat \<Rightarrow> bool" where
  "in_ram s a n \<longleftrightarrow> MIPS_KSEG0 < a \<and> a + n \<le> MIPS_KSEG0 + firstpaddr s"

definition apart :: "nat \<Rightarrow> nat \<Rightarrow> nat \<Rightarrow> nat \<Rightarrow> bool" where
  "apart a n b m \<longleftrightarrow> a + n \<le> b \<or> b + m \<le> a"

text \<open>The free list of a page.\<close>

definition page_ok :: "(nat \<Rightarrow> nat) \<Rightarrow> pageref \<Rightarrow> nat list \<Rightarrow> bool" where
  "page_ok m r fl \<longleftrightarrow> pageaddr_and_blocktype r < 2 ^ 32 \<and> PR_PAGEADDR r mod 4096 = 0 \<and> PR_BLOCKTYPE r < 8 \<and>
     (case fl of [] \<Rightarrow> freelist_offset r = INVALID_OFFSET | x # xs \<Rightarrow> freelist_offset r = x - PR_PAGEADDR r \<and> fchain m (m x) xs) \<and>
     distinct fl \<and> set fl \<subseteq> blocks (PR_PAGEADDR r) (PR_BLOCKTYPE r) \<and> nfree r = length fl"

definition npg :: "nat \<Rightarrow> nat" where "npg sz = (sz + 4095) div 4096"

definition bt :: "nat \<Rightarrow> nat" where
  "bt sz = (case find (\<lambda>i. sz \<le> sizes ! i) [0..<NSIZES] of Some i \<Rightarrow> i | None \<Rightarrow> 0)"

text \<open>
  The memory that a caller of \<open>kmalloc(sz)\<close> gets. \<open>live\<close> maps the address of every block that is
  allocated to the size that was asked for.
\<close>

definition extent :: "nat \<Rightarrow> nat" where
  "extent sz = (if sz \<ge> 2048 then npg sz * 4096 else bsize (bt sz))"

definition regions_ok :: "kmach \<Rightarrow> nat list \<Rightarrow> (nat \<Rightarrow> nat option) \<Rightarrow> bool" where
  "regions_ok s all live \<longleftrightarrow>
     (\<forall>p \<in> set all. in_ram s (pgaddr s p) 4096) \<and>
     (\<forall>p \<in> set all. \<forall>q \<in> set all. p \<noteq> q \<longrightarrow> apart (pgaddr s p) 4096 (pgaddr s q) 4096) \<and>
     (\<forall>a sz. live a = Some sz \<longrightarrow> 2048 \<le> sz \<longrightarrow> a mod 4096 = 0 \<and> in_ram s a (npg sz * 4096) \<and>
        (\<forall>p \<in> set all. apart a (npg sz * 4096) (pgaddr s p) 4096)) \<and>
     (\<forall>a sz b sz'. live a = Some sz \<longrightarrow> 2048 \<le> sz \<longrightarrow> live b = Some sz' \<longrightarrow> 2048 \<le> sz' \<longrightarrow> a \<noteq> b \<longrightarrow>
        apart a (npg sz * 4096) b (npg sz' * 4096))"

definition live_ok :: "kmach \<Rightarrow> nat list \<Rightarrow> (nat \<Rightarrow> nat list) \<Rightarrow> (nat \<Rightarrow> nat option) \<Rightarrow> bool" where
  "live_ok s all fl live \<longleftrightarrow>
     (\<forall>a sz. live a = Some sz \<longrightarrow> sz < 2048 \<longrightarrow>
        (\<exists>p \<in> set all. btype s p = bt sz \<and> a \<in> blocks (pgaddr s p) (btype s p) - set (fl p))) \<and>
     (\<forall>p \<in> set all. \<forall>a \<in> blocks (pgaddr s p) (btype s p) - set (fl p). \<exists>sz < 2048. live a = Some sz)"

definition lists_ok :: "kmach \<Rightarrow> nat list \<Rightarrow> bool" where
  "lists_ok s all \<longleftrightarrow> length (pagerefs_inuse s) = 8 \<and> length (sizebases s) = 8 \<and>
     chain (\<lambda>p. next_all (pagerefs s p)) (allbase s) all \<and> distinct all \<and> set all \<subseteq> inuse s \<and>
     (\<forall>t < 8. chain (\<lambda>p. next_samesize (pagerefs s p)) (sizebases s ! t) (filter (\<lambda>p. btype s p = t) all))"

definition hinv0 :: "kmach \<Rightarrow> nat list \<Rightarrow> (nat \<Rightarrow> nat list) \<Rightarrow> (nat \<Rightarrow> nat option) \<Rightarrow> bool" where
  "hinv0 s all fl live \<longleftrightarrow> ram_ok s \<and> lists_ok s all \<and> inuse s = set all \<and>
     (\<forall>p \<in> set all. page_ok (mwords s) (pagerefs s p) (fl p)) \<and> regions_ok s all live \<and> live_ok s all fl live"

text \<open>A page all of whose blocks are free is given back at once.\<close>

definition hinv :: "kmach \<Rightarrow> (nat \<Rightarrow> nat option) \<Rightarrow> bool" where
  "hinv s live \<longleftrightarrow> (\<exists>all fl. hinv0 s all fl live \<and> (\<forall>p \<in> set all. length (fl p) < nblocks (btype s p)))"

lemma hinv0_mts [simp]: "hinv0 (s\<lparr>mts := t\<rparr>) = hinv0 s"
  by (simp add: hinv0_def fun_eq_iff ram_ok_def lists_ok_def inuse_def regions_ok_def in_ram_def live_ok_def)

lemma hinv_mts [simp]: "hinv (s\<lparr>mts := t\<rparr>) = hinv s"
  by (simp add: hinv_def fun_eq_iff)

text \<open>Allocated blocks do not overlap.\<close>

lemma bt_facts: "sz < 2048 \<Longrightarrow> bt sz < 8 \<and> sz \<le> bsize (bt sz) \<and> blocktype sz = ret (bt sz)"
  by (auto simp: bt_def blocktype_def sizes_def NSIZES_def upt_rec)

lemma live_small:
  assumes "live_ok s all fl live" "live x = Some z" "z < 2048"
  obtains p where "p \<in> set all" "btype s p = bt z" "extent z = bsize (btype s p)" "x \<in> blocks (pgaddr s p) (btype s p)"
    "x \<notin> set (fl p)" "btype s p < 8" "z \<le> bsize (btype s p)"
proof -
  have "\<exists>p \<in> set all. btype s p = bt z \<and> x \<in> blocks (pgaddr s p) (btype s p) - set (fl p)"
    using assms unfolding live_ok_def by blast
  then show thesis using that bt_facts[OF assms(3)] assms(3) by (auto simp: extent_def)
qed

lemma hinv0_apart:
  assumes "hinv0 s all fl live" "live a = Some sz" "live b = Some sz'" "a \<noteq> b"
  shows "apart a (extent sz) b (extent sz')"
proof -
  have r: "regions_ok s all live" and l: "live_ok s all fl live" using assms(1) by (simp_all add: hinv0_def)
  consider "2048 \<le> sz" "2048 \<le> sz'" | "2048 \<le> sz" "sz' < 2048" | "sz < 2048" "2048 \<le> sz'" | "sz < 2048" "sz' < 2048" by linarith
  then show ?thesis
  proof cases
    case 1
    then show ?thesis using r assms(2-4) by (auto simp: regions_ok_def extent_def)
  next
    case 2
    obtain p where p: "p \<in> set all" "extent sz' = bsize (btype s p)" "b \<in> blocks (pgaddr s p) (btype s p)" "btype s p < 8"
      by (rule live_small[OF l assms(3) 2(2)]) blast
    have "apart a (npg sz * 4096) (pgaddr s p) 4096" using r 2(1) assms(2) p(1) by (auto simp: regions_ok_def)
    then show ?thesis using blocks_bounds[OF p(3,4)] p(2) 2(1) by (auto simp: apart_def extent_def)
  next
    case 3
    obtain p where p: "p \<in> set all" "extent sz = bsize (btype s p)" "a \<in> blocks (pgaddr s p) (btype s p)" "btype s p < 8"
      by (rule live_small[OF l assms(2) 3(1)]) blast
    have "apart b (npg sz' * 4096) (pgaddr s p) 4096" using r 3(2) assms(3) p(1) by (auto simp: regions_ok_def)
    then show ?thesis using blocks_bounds[OF p(3,4)] p(2) 3(2) by (auto simp: apart_def extent_def)
  next
    case 4
    obtain p where p: "p \<in> set all" "extent sz = bsize (btype s p)" "a \<in> blocks (pgaddr s p) (btype s p)" "btype s p < 8"
      by (rule live_small[OF l assms(2) 4(1)]) blast
    obtain q where q: "q \<in> set all" "extent sz' = bsize (btype s q)" "b \<in> blocks (pgaddr s q) (btype s q)" "btype s q < 8"
      by (rule live_small[OF l assms(3) 4(2)]) blast
    show ?thesis
    proof (cases "p = q")
      case True
      then show ?thesis using blocks_apart[OF p(3) _ assms(4)] q(3) p(2) q(2) by (simp add: apart_def)
    next
      case False
      then have "apart (pgaddr s p) 4096 (pgaddr s q) 4096" using r p(1) q(1) by (auto simp: regions_ok_def)
      then show ?thesis using blocks_bounds[OF p(3,4)] blocks_bounds[OF q(3,4)] p(2) q(2) by (auto simp: apart_def)
    qed
  qed
qed

lemma dvd_page: "(a :: nat) mod 4096 = 0 \<Longrightarrow> k dvd 4096 \<Longrightarrow> k dvd a"
  using dvd_trans[of k 4096 a] by (simp add: dvd_eq_mod_eq_0)

lemma hinv0_in_ram:
  assumes "hinv0 s all fl live" "live a = Some sz"
  shows "in_ram s a (extent sz)" "a mod 8 = 0" "sz \<le> extent sz"
proof -
  have r: "regions_ok s all live" and l: "live_ok s all fl live" using assms(1) by (simp_all add: hinv0_def)
  have "in_ram s a (extent sz) \<and> a mod 8 = 0 \<and> sz \<le> extent sz"
  proof (cases "2048 \<le> sz")
    case True
    have "sz \<le> (sz + 4095) div 4096 * 4096" by linarith
    moreover have "a mod 8 = 0" if "a mod 4096 = 0" using dvd_page[OF that, of 8] by (simp add: dvd_eq_mod_eq_0)
    ultimately show ?thesis using r assms(2) True by (auto simp: regions_ok_def extent_def npg_def)
  next
    case False
    then have "sz < 2048" by simp
    then obtain p where p: "p \<in> set all" "btype s p = bt sz" "a \<in> blocks (pgaddr s p) (btype s p)"
      and t: "btype s p < 8" "sz \<le> bsize (btype s p)"
      by (rule live_small[OF l assms(2)]) blast
    have ir: "in_ram s (pgaddr s p) 4096" using r p(1) by (simp add: regions_ok_def)
    obtain k where k: "a = pgaddr s p + k * bsize (btype s p)" using p(3) by (auto simp: blocks_def)
    have "pgaddr s p mod 4096 = 0" using assms(1) p(1) by (simp add: hinv0_def page_ok_def)
    then have "8 dvd pgaddr s p" by (rule dvd_page) simp
    moreover have "8 dvd bsize (btype s p)" using less_8_cases[OF t(1)] by (auto simp: sizes_def)
    ultimately have "a mod 8 = 0" using k by (simp flip: dvd_eq_mod_eq_0)
    then show ?thesis using ir blocks_bounds[OF p(3) t(1)] t p(2) False by (auto simp: in_ram_def extent_def)
  qed
  then show "in_ram s a (extent sz)" "a mod 8 = 0" "sz \<le> extent sz" by blast+
qed

end
