(* ===== verification/Kheap_Steps.thy ===== *)
theory Kheap_Steps
  imports Kheap_Props
begin

text \<open>
  What the parts of \<open>kmalloc\<close> and \<open>kfree\<close> do in a state that satisfies the invariant of the heap.
\<close>

section \<open>Interrupt level and pages\<close>

definition spl_set :: "int \<Rightarrow> tsys \<Rightarrow> tsys" where
  "spl_set n t = t\<lparr>iec := (if n > 0 then False else if n = 0 then True else iec t), curspl := n\<rparr>"

lemma curspl_spl_set [simp]: "curspl (spl_set n t) = n" by (simp add: spl_set_def)

lemma on_mts_splx [simp]: "on_mts (splx n) s = Ok (curspl (mts s)) (s\<lparr>mts := spl_set n (mts s)\<rparr>)"
  by (simp add: on_mts_def zoom_def splx_def spl_set_def)

lemma on_mts_splhigh [simp]: "on_mts splhigh s = Ok (curspl (mts s)) (s\<lparr>mts := spl_set SPL_HIGH (mts s)\<rparr>)"
  by (simp add: splhigh_def)

lemma bind_mts_splx [simp]: "bind (on_mts (splx n)) f s = f (curspl (mts s)) (s\<lparr>mts := spl_set n (mts s)\<rparr>)"
  and bind_splhigh [simp]: "bind (on_mts splhigh) f s = f (curspl (mts s)) (s\<lparr>mts := spl_set SPL_HIGH (mts s)\<rparr>)"
  by (simp_all add: bind_def)

lemma bind_pr [simp]: "bind (pr_get p) f s = f (pagerefs s p) s"
  "bind (pr_put p g) h s = h () (s\<lparr>pagerefs := (pagerefs s)(p := g (pagerefs s p))\<rparr>)"
  by (simp_all add: pr_get_def pr_put_def)

lemma bind_mem: "kaddr_ok a \<Longrightarrow> bind (mload a) f s = f (mwords s a) s"
  "kaddr_ok a \<Longrightarrow> bind (mstore a v) h s = h () (s\<lparr>mwords := (mwords s)(a := v)\<rparr>)"
  "kaddr_ok a \<Longrightarrow> mstore a v s = Ok () (s\<lparr>mwords := (mwords s)(a := v)\<rparr>)"
  by (simp_all add: mload_def mstore_def)

lemma u32_of_nat: "n < 2 ^ 32 \<Longrightarrow> x = int n \<Longrightarrow> u32 x = n" by simp

lemma ram_stealmem_run:
  assumes "ram_ok s" "n * 4096 < 2 ^ 31"
  shows "ram_stealmem n s = (if firstpaddr s + n * 4096 > lastpaddr s then Ok 0 s
     else Ok (firstpaddr s) (s\<lparr>firstpaddr := firstpaddr s + n * 4096\<rparr>))"
proof -
  have e: "u32 (int n * int PAGE_SIZE) = n * 4096" by (rule u32_of_nat) (use assms(2) in \<open>simp_all add: PAGE_SIZE_def\<close>)
  have b: "firstpaddr s + n * 4096 < 2 ^ 32" using assms by (simp add: ram_ok_def)
  have f: "u32 (int (firstpaddr s) + int (n * 4096)) = firstpaddr s + n * 4096" by (rule u32_of_nat) (use b in simp_all)
  show ?thesis unfolding ram_stealmem_def Let_def e f by simp
qed

lemma getppages_run:
  assumes "ram_ok s" "n * 4096 < 2 ^ 31"
  obtains t where "curspl t = curspl (mts s)"
    "getppages n s = (if firstpaddr s + n * 4096 > lastpaddr s then Ok 0 (s\<lparr>mts := t\<rparr>)
       else Ok (firstpaddr s) (s\<lparr>mts := t, firstpaddr := firstpaddr s + n * 4096\<rparr>))"
proof -
  let ?t = "spl_set (curspl (mts s)) (spl_set SPL_HIGH (mts s))"
  have r: "ram_ok (s\<lparr>mts := spl_set SPL_HIGH (mts s)\<rparr>)" using assms(1) by (simp add: ram_ok_def)
  have c: "s\<lparr>mts := u, firstpaddr := f\<rparr>\<lparr>mts := v\<rparr> = s\<lparr>mts := v, firstpaddr := f\<rparr>" for u v f by (cases s) simp
  have "getppages n s = (if firstpaddr s + n * 4096 > lastpaddr s then Ok 0 (s\<lparr>mts := ?t\<rparr>)
       else Ok (firstpaddr s) (s\<lparr>mts := ?t, firstpaddr := firstpaddr s + n * 4096\<rparr>))"
    unfolding getppages_def by (simp add: bind_def[of "ram_stealmem n"] ram_stealmem_run[OF r assms(2)] c)
  then show thesis by (intro that[of ?t]) simp_all
qed

lemma alloc_kpages_run:
  assumes "ram_ok s" "n * 4096 < 2 ^ 31"
  obtains t where "curspl t = curspl (mts s)"
    "alloc_kpages n s = (if firstpaddr s + n * 4096 > lastpaddr s then Ok 0 (s\<lparr>mts := t\<rparr>)
       else Ok (MIPS_KSEG0 + firstpaddr s) (s\<lparr>mts := t, firstpaddr := firstpaddr s + n * 4096\<rparr>))"
proof -
  obtain t where t: "curspl t = curspl (mts s)"
    "getppages n s = (if firstpaddr s + n * 4096 > lastpaddr s then Ok 0 (s\<lparr>mts := t\<rparr>)
       else Ok (firstpaddr s) (s\<lparr>mts := t, firstpaddr := firstpaddr s + n * 4096\<rparr>))"
    by (rule getppages_run[OF assms])
  have k: "PADDR_TO_KVADDR (firstpaddr s) = MIPS_KSEG0 + firstpaddr s"
    unfolding PADDR_TO_KVADDR_def by (rule u32_of_nat) (use assms(1) in \<open>simp_all add: ram_ok_def MIPS_KSEG0_def\<close>)
  have "firstpaddr s \<noteq> 0" using assms(1) by (simp add: ram_ok_def)
  then have "alloc_kpages n s = (if firstpaddr s + n * 4096 > lastpaddr s then Ok 0 (s\<lparr>mts := t\<rparr>)
       else Ok (MIPS_KSEG0 + firstpaddr s) (s\<lparr>mts := t, firstpaddr := firstpaddr s + n * 4096\<rparr>))"
    unfolding alloc_kpages_def bind_def t(2) by (simp add: k)
  then show thesis using that t(1) by blast
qed

section \<open>Searches\<close>

lemma find_free_run:
  assumes "chain (\<lambda>p. next_samesize (pagerefs s p)) pr ps" "length ps < fuel" "\<forall>p \<in> set ps. btype s p = t"
  shows "find_free fuel t pr s = Ok (find (\<lambda>p. nfree (pagerefs s p) > 0) ps) s"
  using assms
proof (induction ps arbitrary: pr fuel)
  case Nil
  then show ?case by (cases fuel) simp_all
next
  case (Cons p ps)
  then obtain n where n: "fuel = Suc n" "length ps < n" by (cases fuel) auto
  show ?case using Cons.IH[of "next_samesize (pagerefs s p)" n] Cons.prems n by simp
qed

lemma find_page_run:
  assumes "chain (\<lambda>p. next_all (pagerefs s p)) pr ps" "length ps < fuel" "\<forall>p \<in> set ps. btype s p < 8 \<and> pgaddr s p + 4096 < 2 ^ 32"
  shows "find_page fuel pr a s = Ok (find (\<lambda>p. pgaddr s p \<le> a \<and> a < pgaddr s p + 4096) ps) s"
  using assms
proof (induction ps arbitrary: pr fuel)
  case Nil
  then show ?case by (cases fuel) simp_all
next
  case (Cons p ps)
  then obtain n where n: "fuel = Suc n" "length ps < n" by (cases fuel) auto
  have e: "u32 (int (pgaddr s p) + int PAGE_SIZE) = pgaddr s p + 4096" by (rule u32_of_nat) (use Cons.prems(3) in \<open>simp_all add: PAGE_SIZE_def\<close>)
  show ?case using Cons.IH[of "next_all (pagerefs s p)" n] Cons.prems n
    by (simp add: e NSIZES_def)
qed

section \<open>The table of page records\<close>

lemma word_not_full: "w \<noteq> 0xffffffff \<Longrightarrow> \<exists>j < 32. \<not> bit (w :: 32 word) j"
proof (rule ccontr)
  assume "w \<noteq> 0xffffffff" "\<not> (\<exists>j < 32. \<not> bit w j)"
  then have "w = -1" by (intro bit_word_eqI) auto
  then show False using \<open>w \<noteq> 0xffffffff\<close> by simp
qed

lemma and_bit_0: "(w AND push_bit j 1 = 0) = (\<not> bit w j)" if "j < 32" for w :: "32 word"
  using that by (simp add: push_bit_of_1 and_exp_eq_0_iff_not_bit)

lemma inuse_set:
  assumes "length (pagerefs_inuse s) = 8" "p < 256" "w = pagerefs_inuse s ! (p div 32)"
  shows "inuse (s\<lparr>pagerefs_inuse := (pagerefs_inuse s)[p div 32 := w OR push_bit (p mod 32) 1]\<rparr>) = insert p (inuse s)"
    "inuse (s\<lparr>pagerefs_inuse := (pagerefs_inuse s)[p div 32 := w AND NOT (push_bit (p mod 32) 1)]\<rparr>) = inuse s - {p}"
proof -
  have d: "q div 32 = p div 32 \<Longrightarrow> q mod 32 = p mod 32 \<Longrightarrow> q = p" for q by (metis div_mult_mod_eq)
  have l: "q div 32 < 8" if "q < 256" for q :: nat using that by linarith
  have b: "bit (2 ^ (p mod 32) :: 32 word) (q mod 32) \<longleftrightarrow> q mod 32 = p mod 32" for q :: nat
    by (auto simp: bit_simps)
  show "inuse (s\<lparr>pagerefs_inuse := (pagerefs_inuse s)[p div 32 := w OR push_bit (p mod 32) 1]\<rparr>) = insert p (inuse s)"
    using assms d l by (auto simp: inuse_def nth_list_update bit_or_iff b)
  show "inuse (s\<lparr>pagerefs_inuse := (pagerefs_inuse s)[p div 32 := w AND NOT (push_bit (p mod 32) 1)]\<rparr>) = inuse s - {p}"
    using assms d l by (auto simp: inuse_def nth_list_update bit_and_iff bit_not_iff b)
qed

lemma allocpageref_run:
  assumes "length (pagerefs_inuse s) = 8"
  obtains "allocpageref s = Ok None s" "inuse s = {..<256}"
  | p l where "allocpageref s = Ok (Some p) (s\<lparr>pagerefs_inuse := l\<rparr>)" "p < 256" "p \<notin> inuse s"
    "inuse (s\<lparr>pagerefs_inuse := l\<rparr>) = insert p (inuse s)" "length l = 8"
proof -
  have "first_some xs allocpageref_word s = Ok None s \<and> (\<forall>i \<in> set xs. pagerefs_inuse s ! i = 0xffffffff) \<or> (\<exists>p l. first_some xs allocpageref_word s = Ok (Some p) (s\<lparr>pagerefs_inuse := l\<rparr>) \<and> p < 256 \<and> p \<notin> inuse s \<and>
    inuse (s\<lparr>pagerefs_inuse := l\<rparr>) = insert p (inuse s) \<and> length l = 8)" if "set xs \<subseteq> {..<8}" for xs
    using that
  proof (induction xs)
    case (Cons i xs)
    let ?w = "pagerefs_inuse s ! i"
    show ?case
    proof (cases "?w = 0xffffffff")
      case True
      then have "allocpageref_word i s = Ok None s" by (simp add: allocpageref_word_def)
      then show ?thesis using Cons True by (simp add: bind_def[of "allocpageref_word i"])
    next
      case False
      then obtain j where j: "find (\<lambda>j. ?w AND push_bit j 1 = 0) [0..<32] = Some j"
        using word_not_full[of ?w] and_bit_0 by (cases "find (\<lambda>j. ?w AND push_bit j 1 = 0) [0..<32]") (auto simp: find_None_iff)
      then have jj: "j < 32" "\<not> bit ?w j" using and_bit_0[of j ?w] by (auto simp: find_Some_iff)
      have i: "i < 8" using Cons.prems by simp
      let ?p = "i * 32 + j"
      have p: "?p div 32 = i" "?p mod 32 = j" "?p < 256" using jj(1) i by auto
      have "allocpageref_word i s = Ok (Some ?p) (s\<lparr>pagerefs_inuse := (pagerefs_inuse s)[i := ?w OR push_bit j 1]\<rparr>)" using False j by (simp add: allocpageref_word_def)
      moreover have "?p \<notin> inuse s" using p(1,2) jj(2) by (simp add: inuse_def)
      ultimately show ?thesis using inuse_set(1)[OF assms p(3), unfolded p(1,2), OF refl] p(3) assms
        by (intro disjI2 exI[of _ ?p] exI[of _ "(pagerefs_inuse s)[i := ?w OR push_bit j 1]"]) (simp add: bind_def[of "allocpageref_word i"])
    qed
  qed simp
  note all = this[of "[0..<INUSE_WORDS]", folded allocpageref_def]
  have "set [0..<INUSE_WORDS] \<subseteq> {..<8}" by (auto simp: INUSE_WORDS_def NPAGEREFS_def)
  note r = all[OF this]
  have "inuse s = {..<256}" if w: "\<forall>i \<in> set [0..<INUSE_WORDS]. pagerefs_inuse s ! i = 0xffffffff"
  proof -
    have "bit (pagerefs_inuse s ! (p div 32)) (p mod 32)" if "p < 256" for p
    proof -
      have "pagerefs_inuse s ! (p div 32) = - 1" using w that by (simp add: INUSE_WORDS_def NPAGEREFS_def)
      then show ?thesis by simp
    qed
    then show ?thesis by (auto simp: inuse_def)
  qed
  then show thesis using r that by blast
qed

lemma freepageref_run:
  assumes "length (pagerefs_inuse s) = 8" "p \<in> inuse s"
  obtains l where "freepageref p s = Ok () (s\<lparr>pagerefs_inuse := l\<rparr>)" "inuse (s\<lparr>pagerefs_inuse := l\<rparr>) = inuse s - {p}" "length l = 8"
proof -
  have p: "p < 256" "bit (pagerefs_inuse s ! (p div 32)) (p mod 32)" using assms(2) by (simp_all add: inuse_def)
  have "p mod 32 < 32" by simp
  then have "freepageref p s = Ok () (s\<lparr>pagerefs_inuse := (pagerefs_inuse s)[p div 32 := pagerefs_inuse s ! (p div 32) AND NOT (push_bit (p mod 32) 1)]\<rparr>)"
    using p and_bit_0[of "p mod 32" "pagerefs_inuse s ! (p div 32)"] by (simp add: freepageref_def NPAGEREFS_def Let_def)
  then show thesis using that inuse_set(2)[OF assms(1) p(1) refl] assms(1) by simp
qed

section \<open>Taking a block from a page\<close>

lemma page_okD:
  assumes "page_ok m r fl"
  shows "pageaddr_and_blocktype r < 2 ^ 32" "PR_PAGEADDR r mod 4096 = 0" "PR_BLOCKTYPE r < 8" "distinct fl"
    "set fl \<subseteq> blocks (PR_PAGEADDR r) (PR_BLOCKTYPE r)" "nfree r = length fl"
    "fl = [] \<Longrightarrow> freelist_offset r = INVALID_OFFSET"
    "fl = x # xs \<Longrightarrow> freelist_offset r = x - PR_PAGEADDR r \<and> fchain m (m x) xs"
  using assms by (auto simp: page_ok_def)

lemma length_fl: "page_ok m r fl \<Longrightarrow> length fl \<le> nblocks (PR_BLOCKTYPE r)"
  using card_mono[OF finite_blocks page_okD(5)[of m r fl]] distinct_card[of fl] page_okD(4)[of m r fl] card_blocks page_okD(3)[of m r fl]
  by fastforce

text \<open>Every address of a page of the heap can be used.\<close>

lemma page_addr:
  assumes "ram_ok s" "in_ram s pg 4096" "pg mod 4096 = 0" "pg \<le> x" "x < pg + 4096"
  shows "x < 2 ^ 32" "x mod 4 = 0 \<Longrightarrow> kaddr_ok x" "pg + 4096 < 2 ^ 32" "x \<noteq> NULL"
  using assms by (auto simp: ram_ok_def in_ram_def kaddr_ok_def MIPS_KSEG0_def MIPS_KSEG1_def)

lemma block_aligned:
  assumes "x \<in> blocks pg t" "t < 8" "pg mod 4096 = 0"
  shows "x mod 4 = 0"
proof -
  obtain k where k: "x = pg + k * bsize t" using assms(1) by (auto simp: blocks_def)
  have "4 dvd pg" by (rule dvd_page[OF assms(3)]) simp
  moreover have "4 dvd bsize t" using bsize_mod_4[OF assms(2)] by (simp only: dvd_eq_mod_eq_0)
  ultimately have "4 dvd x" using k by simp
  then show ?thesis by (simp only: dvd_eq_mod_eq_0)
qed

definition took :: "pageref \<Rightarrow> nat list \<Rightarrow> pageref" where
  "took r xs = r\<lparr>nfree := length xs, freelist_offset := (case xs of [] \<Rightarrow> INVALID_OFFSET | y # _ \<Rightarrow> y - PR_PAGEADDR r)\<rparr>"

lemma took_simps [simp]:
  "next_all (took r xs) = next_all r" "next_samesize (took r xs) = next_samesize r"
  "pageaddr_and_blocktype (took r xs) = pageaddr_and_blocktype r" "PR_PAGEADDR (took r xs) = PR_PAGEADDR r" "PR_BLOCKTYPE (took r xs) = PR_BLOCKTYPE r"
  by (simp_all add: took_def PR_PAGEADDR_def PR_BLOCKTYPE_def)

lemma page_ok_took: "page_ok m r (x # xs) \<Longrightarrow> page_ok m (took r xs) xs"
  by (cases xs) (auto simp: page_ok_def, auto simp: took_def)

lemma doalloc_run:
  assumes "page_ok (mwords s) (pagerefs s p) (x # xs)" "ram_ok s" "in_ram s (pgaddr s p) 4096"
  shows "doalloc p spl s = Ok x (s\<lparr>mts := spl_set spl (mts s), pagerefs := (pagerefs s)(p := took (pagerefs s p) xs)\<rparr>)"
proof -
  let ?r = "pagerefs s p" and ?pg = "pgaddr s p"
  note d = page_okD[OF assms(1)]
  have b: "x \<in> blocks ?pg (btype s p)" using d(5) by simp
  note bb = blocks_bounds[OF b d(3)]
  have x: "freelist_offset ?r = x - ?pg" "fchain (mwords s) (mwords s x) xs" using d(8)[OF refl] by simp_all
  have lt: "x < ?pg + 4096" using bb(2) bsize_facts(1)[OF d(3)] by linarith
  note pa = page_addr[OF assms(2,3) d(2) bb(1) lt]
  have ok: "kaddr_ok x" using pa(2) block_aligned[OF b d(3) d(2)] by simp
  have off: "freelist_offset ?r < PAGE_SIZE" using x(1) lt bb(1) by (simp add: PAGE_SIZE_def)
  have ptr: "u32 (int ?pg + int (freelist_offset ?r)) = x" by (rule u32_of_nat) (use pa(1) x(1) bb(1) in auto)
  have lx: "Suc (length xs) \<le> 256" using length_fl[OF assms(1)] bsize_facts(5)[OF d(3)] by simp
  have n: "u16 (int (nfree ?r) - 1) = length xs" using d(6) lx by (simp add: u16_def)
  have c: "s\<lparr>pagerefs := f, mts := t\<rparr> = s\<lparr>mts := t, pagerefs := f\<rparr>" for f t by (cases s) simp
  show ?thesis
  proof (cases xs)
    case Nil
    then have "mwords s x = NULL" using x(2) by simp
    then show ?thesis using off ok Nil n
      by (simp add: doalloc_def Let_def ptr bind_mem c took_def bind_assoc)
  next
    case (Cons y ys)
    have y: "y \<in> blocks ?pg (btype s p)" using d(5) Cons by simp
    note yb = blocks_bounds[OF y d(3)]
    have ylt: "y < ?pg + 4096" using yb(2) bsize_facts(1)[OF d(3)] by linarith
    note ya = page_addr[OF assms(2,3) d(2) yb(1) ylt]
    have m: "mwords s x = y" using x(2) Cons by simp
    have yo: "u32 (int y - int ?pg) = y - ?pg" "u16 (int y - int ?pg) = y - ?pg"
      using yb(1) ylt ya(1) by (simp_all add: u16_def flip: of_nat_diff zmod_int)
    have "y - ?pg < 4096" using ylt yb(1) by simp
    then show ?thesis using off ok n m yo ya(4) Cons
      by (simp add: doalloc_def Let_def ptr bind_mem c took_def bind_assoc PAGE_SIZE_def)
  qed
qed

section \<open>Writing to memory\<close>

lemma fill_deadbeef_run:
  assumes "\<And>i. i < len div 4 \<Longrightarrow> kaddr_ok (a + 4 * i)" "a + len < 2 ^ 32"
  shows "fill_deadbeef a len s = Ok () (s\<lparr>mwords := \<lambda>x. if x \<in> (\<lambda>i. a + 4 * i) ` {..<len div 4} then 0xdeadbeef else mwords s x\<rparr>)"
proof -
  have "foreach [0..<n] (\<lambda>i. mstore (u32 (int a + 4 * int i)) 0xdeadbeef) s =
      Ok () (s\<lparr>mwords := \<lambda>x. if x \<in> (\<lambda>i. a + 4 * i) ` {..<n} then 0xdeadbeef else mwords s x\<rparr>)" if "n \<le> len div 4" for n
    using that
  proof (induction n)
    case (Suc n)
    have "4 * n < len" using Suc.prems by linarith
    then have u: "u32 (int a + 4 * int n) = a + 4 * n" by (intro u32_of_nat) (use assms(2) in auto)
    have f: "(\<lambda>x. if x \<in> (\<lambda>i. a + 4 * i) ` {..<n} then 0xdeadbeef else mwords s x)(a + 4 * n := 0xdeadbeef) =
        (\<lambda>x. if x \<in> (\<lambda>i. a + 4 * i) ` {..<Suc n} then 0xdeadbeef else mwords s x)"
      by (auto simp: fun_eq_iff lessThan_Suc)
    show ?case using Suc.IH Suc.prems assms(1)[of n] by (simp add: foreach_append bind_def[of "foreach xs g" for xs g] u mstore_def f)
  qed simp
  then show ?thesis by (simp add: fill_deadbeef_def)
qed

section \<open>A fresh page\<close>

definition block_list :: "nat \<Rightarrow> nat \<Rightarrow> nat \<Rightarrow> nat list" where
  "block_list pg sz k = rev (map (\<lambda>i. pg + i * sz) [0..<k])"

lemma block_list_Suc: "block_list pg sz (Suc k) = (pg + k * sz) # block_list pg sz k"
  by (simp add: block_list_def)

lemma set_block_list: "set (block_list pg (bsize t) (nblocks t)) = blocks pg t"
  by (auto simp: block_list_def blocks_def)

lemma distinct_block_list: "0 < sz \<Longrightarrow> distinct (block_list pg sz k)"
  by (auto simp: block_list_def distinct_map inj_on_def)

lemma length_block_list [simp]: "length (block_list pg sz k) = k"
  by (simp add: block_list_def)

lemma new_page_loop:
  assumes "ram_ok s" "in_ram s pg 4096" "pg mod 4096 = 0" "t < 8" "1 \<le> k" "k \<le> nblocks t" "mwords s pg = NULL"
  shows "\<exists>m. foreach [1..<k] (\<lambda>i.
       bind (mstore (u32 (int pg + int i * int (bsize t))) (u32 (int pg + (int i - 1) * int (bsize t)))) (\<lambda>_.
       assertk (u32 (int pg + int i * int (bsize t)) \<noteq> u32 (int pg + (int i - 1) * int (bsize t))) ''fl != fl->next'')) s =
       Ok () (s\<lparr>mwords := m\<rparr>) \<and> fchain m (pg + (k - 1) * bsize t) (block_list pg (bsize t) k) \<and> (\<forall>x. x \<notin> {pg..<pg + 4096} \<longrightarrow> m x = mwords s x)"
    (is "\<exists>m. foreach _ ?f s = _ \<and> _")
  using assms(5,6)
proof (induction k rule: dec_induct)
  case base
  show ?case using assms(7) by (intro exI[of _ "mwords s"]) (simp add: block_list_def)
next
  case (step k)
  then obtain m where m: "foreach [1..<k] ?f s = Ok () (s\<lparr>mwords := m\<rparr>)" "fchain m (pg + (k - 1) * bsize t) (block_list pg (bsize t) k)"
    "\<forall>x. x \<notin> {pg..<pg + 4096} \<longrightarrow> m x = mwords s x" by auto
  let ?x = "pg + k * bsize t" and ?y = "pg + (k - 1) * bsize t"
  have in_pg: "pg + j * bsize t \<in> blocks pg t" if "j \<le> k" for j using that step.prems by (auto simp: blocks_def)
  have lt: "pg + j * bsize t < pg + 4096" if "j \<le> k" for j
    using blocks_bounds(2)[OF in_pg[OF that] assms(4)] bsize_facts(1)[OF assms(4)] by linarith
  note ax = page_addr[OF assms(1-3) _ lt[of k]] and ay = page_addr[OF assms(1-3) _ lt[of "k - 1"]]
  have ux: "u32 (int pg + int k * int (bsize t)) = ?x" by (rule u32_of_nat) (use ax(1) in auto)
  have uy: "u32 (int pg + (int k - 1) * int (bsize t)) = ?y"
    by (rule u32_of_nat) (use ay(1) step.hyps in \<open>auto simp: of_nat_diff\<close>)
  have ok: "kaddr_ok ?x" by (rule ax(2)) (use block_aligned[OF in_pg assms(4,3)] in auto)
  have ne: "?x \<noteq> ?y" using step.hyps bsize_facts(1)[OF assms(4)] by simp
  let ?m = "m(?x := ?y)"
  have fresh: "?x \<notin> set (block_list pg (bsize t) k)" using bsize_facts(1)[OF assms(4)] by (auto simp: block_list_def)
  have "fchain ?m ?y (block_list pg (bsize t) k)" using m(2) fresh by simp
  then have fc: "fchain ?m ?x (block_list pg (bsize t) (Suc k))" by (simp add: block_list_Suc)
  have run: "foreach [1..<Suc k] ?f s = Ok () (s\<lparr>mwords := ?m\<rparr>)"
    using step.hyps m(1) ok ne by (simp add: foreach_append bind_def[of "foreach xs g" for xs g] ux uy bind_mem)
  have fr: "\<forall>x. x \<notin> {pg..<pg + 4096} \<longrightarrow> ?m x = mwords s x" using m(3) lt[of k] by auto
  have fc': "fchain ?m (pg + (Suc k - 1) * bsize t) (block_list pg (bsize t) (Suc k))" using fc by (simp only: diff_Suc_1)
  show ?case by (rule exI[of _ ?m], intro conjI) (rule run fc' fr)+
qed

lemma new_page_run:
  assumes "ram_ok s" "in_ram s pg 4096" "pg mod 4096 = 0" "t < 8"
  obtains m r where "new_page p pg t s = Ok () (s\<lparr>mwords := m, pagerefs := (pagerefs s)(p := r),
      sizebases := (sizebases s)[t := Some p], allbase := Some p\<rparr>)"
    "page_ok m r (block_list pg (bsize t) (nblocks t))" "PR_PAGEADDR r = pg" "PR_BLOCKTYPE r = t"
    "next_samesize r = sizebases s ! t" "next_all r = allbase s" "\<forall>x. x \<notin> {pg..<pg + 4096} \<longrightarrow> m x = mwords s x"
proof -
  let ?n = "nblocks t" and ?sz = "bsize t"
  note f = bsize_facts[OF assms(4)]
  have n: "u16 (int (PAGE_SIZE div ?sz)) = ?n" using f(5,7) by simp
  let ?r0 = "(pagerefs s p)\<lparr>pageaddr_and_blocktype := MKPAB pg t, nfree := ?n\<rparr>"
  let ?s1 = "s\<lparr>pagerefs := (pagerefs s)(p := ?r0), mwords := (mwords s)(pg := NULL)\<rparr>"
  have pre: "ram_ok ?s1" "in_ram ?s1 pg 4096" "1 \<le> ?n" "mwords ?s1 pg = NULL" using assms(1,2) f(4) by (simp_all add: ram_ok_def in_ram_def)
  obtain m where m: "foreach [1..<?n] (\<lambda>i.
       bind (mstore (u32 (int pg + int i * int ?sz)) (u32 (int pg + (int i - 1) * int ?sz))) (\<lambda>_.
       assertk (u32 (int pg + int i * int ?sz) \<noteq> u32 (int pg + (int i - 1) * int ?sz)) ''fl != fl->next'')) ?s1 =
       Ok () (?s1\<lparr>mwords := m\<rparr>)" "fchain m (pg + (?n - 1) * ?sz) (block_list pg ?sz ?n)" "\<forall>x. x \<notin> {pg..<pg + 4096} \<longrightarrow> m x = mwords ?s1 x"
    using new_page_loop[OF pre(1,2) assms(3,4) pre(3) order_refl pre(4)] by blast
  have top: "(?n - 1) * ?sz + ?sz = 4096" using f(3,4) by (simp add: algebra_simps mult_eq_if)
  note pa = page_addr[OF assms(1-3), of "pg + (?n - 1) * ?sz"] page_addr[OF assms(1-3), of pg]
  have fl: "u32 (int pg + (int ?n - 1) * int ?sz) = pg + (?n - 1) * ?sz"
    by (rule u32_of_nat) (use pa(1) top f(1,4) in \<open>auto simp: of_nat_diff\<close>)
  have "(?n - 1) * ?sz \<le> 4096" using top by linarith
  then have "(?n - 1) * ?sz < 2 ^ 16" by simp
  then have off: "u16 (int (pg + (?n - 1) * ?sz) - int pg) = (?n - 1) * ?sz" by (simp del: of_nat_mult)
  have ok: "kaddr_ok pg" by (rule pa(6)) (use dvd_page[OF assms(3), of 4] in \<open>auto simp: dvd_eq_mod_eq_0\<close>)
  define r where "r = ?r0\<lparr>freelist_offset := (?n - 1) * ?sz, next_samesize := sizebases s ! t, next_all := allbase s\<rparr>"
  have c: "s\<lparr>pagerefs := f, mwords := g\<rparr>\<lparr>mwords := m\<rparr>\<lparr>pagerefs := h, sizebases := x, allbase := y\<rparr> =
      s\<lparr>mwords := m, pagerefs := h, sizebases := x, allbase := y\<rparr>" for f g m h x y by (cases s) simp
  have pg32: "pg < 2 ^ 32" "pg + t < 2 ^ 32" using pa(7) assms(4) by auto
  have pab: "pageaddr_and_blocktype r = pg + t" using MKPAB_eq[OF assms(3) pg32(1), of t] assms(4) by (simp add: r_def)
  have pt: "PR_PAGEADDR r = pg" "PR_BLOCKTYPE r = t"
    using PR_PAGEADDR_eq[OF pab assms(3) _ pg32(2)] PR_BLOCKTYPE_eq[OF pab assms(3)] assms(4) by auto
  have "block_list pg ?sz ?n = (pg + (?n - 1) * ?sz) # block_list pg ?sz (?n - 1)"
    using block_list_Suc[of pg ?sz "?n - 1"] f(4) by simp
  then have "page_ok m r (block_list pg ?sz ?n)"
    unfolding page_ok_def using pt pab pg32(2) assms(3,4) m(2) distinct_block_list[of ?sz pg ?n] set_block_list[of pg t] f(1,4)
    by (simp add: r_def)
  moreover have "new_page p pg t s = Ok () (s\<lparr>mwords := m, pagerefs := (pagerefs s)(p := r),
      sizebases := (sizebases s)[t := Some p], allbase := Some p\<rparr>)"
    unfolding new_page_def Let_def n fl off
    using ok by (simp add: bind_mem bind_def[of "foreach xs g" for xs g] m(1)[simplified] c r_def)
  ultimately show thesis using that pt m(3) by (simp add: r_def)
qed

end
