(* ===== verification/Kheap_Inv.thy ===== *)
theory Kheap_Inv
  imports Kheap_Steps
begin

text \<open>
  Taking a block from a page, giving it back and giving up a page keep the invariant of the heap.
\<close>

section \<open>Unlinking a page\<close>

lemma link_of_link_of [simp]: "link_of (link_of g q) p = link_of g p"
  by (cases g) simp_all

definition pred_link :: "link \<Rightarrow> nat list \<Rightarrow> link" where
  "pred_link g ys = (if ys = [] then g else link_of g (last ys))"

lemma remove_loop_run:
  assumes "chain (\<lambda>q. link_get (link_of g q) s) (link_get g s) (ys @ p # zs)" "p \<notin> set ys" "length ys < fuel"
  shows "remove_loop fuel g p s = link_put (pred_link g ys) (link_get (link_of g p) s) s"
  using assms
proof (induction ys arbitrary: g fuel)
  case Nil
  then show ?case by (cases fuel) (simp_all add: pred_link_def)
next
  case (Cons y ys)
  then obtain n where n: "fuel = Suc n" "length ys < n" by (cases fuel) auto
  have "remove_loop n (link_of g y) p s = link_put (pred_link (link_of g y) ys) (link_get (link_of g p) s) s"
    using Cons.IH[of "link_of g y" n] Cons.prems n by simp
  moreover have "pred_link (link_of g y) ys = pred_link g (y # ys)" by (simp add: pred_link_def)
  ultimately show ?case using Cons.prems n by simp
qed

lemma chain_remove:
  assumes "chain f a (ys @ p # zs)" "distinct (ys @ p # zs)"
  shows "ys = [] \<Longrightarrow> chain f (f p) zs" "ys \<noteq> [] \<Longrightarrow> chain (f(last ys := f p)) a (ys @ zs)"
proof -
  show "ys = [] \<Longrightarrow> chain f (f p) zs" using assms(1) by simp
  show "chain (f(last ys := f p)) a (ys @ zs)" if "ys \<noteq> []"
    using assms that
  proof (induction ys arbitrary: a)
    case (Cons y ys)
    show ?case
    proof (cases ys)
      case Nil
      have "chain (f(y := f p)) (f p) zs = chain f (f p) zs" by (rule chain_cong) (use Cons.prems Nil in auto)
      then show ?thesis using Cons.prems Nil by (simp del: fun_upd_apply) (simp add: fun_upd_same)
    next
      case (Cons z zs')
      then have "last ys \<noteq> y" using Cons.prems(2) last_in_set[of ys] by auto
      then show ?thesis using Cons.IH Cons.prems Cons by simp
    qed
  qed simp
qed

text \<open>Page records that agree but for their links.\<close>

definition same_data :: "kmach \<Rightarrow> kmach \<Rightarrow> bool" where
  "same_data s s' \<longleftrightarrow> (\<forall>q. pageaddr_and_blocktype (pagerefs s' q) = pageaddr_and_blocktype (pagerefs s q) \<and>
     freelist_offset (pagerefs s' q) = freelist_offset (pagerefs s q) \<and> nfree (pagerefs s' q) = nfree (pagerefs s q)) \<and>
     mts s' = mts s \<and> firstpaddr s' = firstpaddr s \<and> lastpaddr s' = lastpaddr s \<and> mwords s' = mwords s \<and>
     pagerefs_inuse s' = pagerefs_inuse s \<and> tlb s' = tlb s \<and> aspaces s' = aspaces s"

lemma same_dataD:
  assumes "same_data s s'"
  shows "pgaddr s' q = pgaddr s q" "btype s' q = btype s q" "inuse s' = inuse s" "ram_ok s' = ram_ok s" "in_ram s' a n = in_ram s a n"
    "page_ok m (pagerefs s' q) fl = page_ok m (pagerefs s q) fl"
  using assms by (auto simp: same_data_def PR_PAGEADDR_def PR_BLOCKTYPE_def inuse_def ram_ok_def in_ram_def page_ok_def split: list.splits)

lemma same_data_trans: "same_data s s' \<Longrightarrow> same_data s' s'' \<Longrightarrow> same_data s s''"
  by (simp add: same_data_def)

lemma remove_samesize:
  assumes "chain (\<lambda>q. next_samesize (pagerefs s q)) (sizebases s ! t) (ys @ p # zs)" "distinct (ys @ p # zs)" "length ys < fuel"
    "t < length (sizebases s)"
  obtains s' where "remove_loop fuel (SizeBase t) p s = Ok () s'" "same_data s s'" "allbase s' = allbase s"
    "\<And>q. next_all (pagerefs s' q) = next_all (pagerefs s q)" "length (sizebases s') = length (sizebases s)"
    "\<And>t'. t' \<noteq> t \<Longrightarrow> sizebases s' ! t' = sizebases s ! t'"
    "\<And>q. q \<notin> set ys \<Longrightarrow> next_samesize (pagerefs s' q) = next_samesize (pagerefs s q)"
    "chain (\<lambda>q. next_samesize (pagerefs s' q)) (sizebases s' ! t) (ys @ zs)"
proof -
  let ?f = "\<lambda>q. next_samesize (pagerefs s q)"
  have r: "remove_loop fuel (SizeBase t) p s = link_put (pred_link (SizeBase t) ys) (?f p) s"
    using remove_loop_run[of "SizeBase t" s ys p zs fuel] assms by simp
  note c = chain_remove[OF assms(1,2)]
  show thesis
  proof (cases "ys = []")
    case True
    let ?s = "s\<lparr>sizebases := (sizebases s)[t := ?f p]\<rparr>"
    show thesis by (rule that[of ?s]) (use r c(1) True assms(4) in \<open>simp_all add: pred_link_def same_data_def\<close>)
  next
    case False
    let ?l = "last ys"
    let ?s = "s\<lparr>pagerefs := (pagerefs s)(?l := (pagerefs s ?l)\<lparr>next_samesize := ?f p\<rparr>)\<rparr>"
    have e: "(\<lambda>q. next_samesize (pagerefs ?s q)) = ?f(?l := ?f p)" by (simp add: fun_eq_iff)
    have l: "?l \<in> set ys" using False by simp
    show thesis
      by (rule that[of ?s]; (unfold e)?) (use r c(2)[OF False] False l in \<open>auto simp: pred_link_def pr_put_def same_data_def\<close>)
  qed
qed

lemma remove_all:
  assumes "chain (\<lambda>q. next_all (pagerefs s q)) (allbase s) (ys @ p # zs)" "distinct (ys @ p # zs)" "length ys < fuel"
  obtains s' where "remove_loop fuel AllBase p s = Ok () s'" "same_data s s'" "sizebases s' = sizebases s"
    "\<And>q. next_samesize (pagerefs s' q) = next_samesize (pagerefs s q)"
    "chain (\<lambda>q. next_all (pagerefs s' q)) (allbase s') (ys @ zs)"
proof -
  let ?f = "\<lambda>q. next_all (pagerefs s q)"
  have r: "remove_loop fuel AllBase p s = link_put (pred_link AllBase ys) (?f p) s"
    using remove_loop_run[of AllBase s ys p zs fuel] assms by simp
  note c = chain_remove[OF assms(1,2)]
  show thesis
  proof (cases "ys = []")
    case True
    let ?s = "s\<lparr>allbase := ?f p\<rparr>"
    show thesis by (rule that[of ?s]) (use r c(1) True in \<open>simp_all add: pred_link_def same_data_def\<close>)
  next
    case False
    let ?l = "last ys"
    let ?s = "s\<lparr>pagerefs := (pagerefs s)(?l := (pagerefs s ?l)\<lparr>next_all := ?f p\<rparr>)\<rparr>"
    have e: "(\<lambda>q. next_all (pagerefs ?s q)) = ?f(?l := ?f p)" by (simp add: fun_eq_iff)
    show thesis
      by (rule that[of ?s]; (unfold e)?) (use r c(2)[OF False] False in \<open>auto simp: pred_link_def pr_put_def same_data_def\<close>)
  qed
qed

lemma lists_length:
  assumes "lists_ok s all"
  shows "length all \<le> 256"
proof -
  have "set all \<subseteq> {..<256}" "distinct all" using assms by (auto simp: lists_ok_def inuse_def)
  then show ?thesis using card_mono[of "{..<256}" "set all"] distinct_card[of all] by simp
qed

lemma remove_lists_run:
  assumes "lists_ok s all" "p \<in> set all" "btype s p < 8"
  obtains s' where "remove_lists p (btype s p) s = Ok () s'" "same_data s s'" "lists_ok s' (remove1 p all)"
proof -
  let ?t = "btype s p"
  obtain ys zs where all: "all = ys @ p # zs" "p \<notin> set ys" using split_list_first[OF assms(2)] by blast
  let ?F = "\<lambda>t. filter (\<lambda>q. btype s q = t)"
  have d: "distinct all" and ca: "chain (\<lambda>q. next_all (pagerefs s q)) (allbase s) all"
    and cs: "\<And>t. t < 8 \<Longrightarrow> chain (\<lambda>q. next_samesize (pagerefs s q)) (sizebases s ! t) (?F t all)"
    and len: "length (sizebases s) = 8" "length (pagerefs_inuse s) = 8" "set all \<subseteq> inuse s"
    using assms(1) by (auto simp: lists_ok_def)
  have fa: "?F ?t all = ?F ?t ys @ p # ?F ?t zs" by (simp add: all(1))
  have c1: "chain (\<lambda>q. next_samesize (pagerefs s q)) (sizebases s ! ?t) (?F ?t ys @ p # ?F ?t zs)" using cs[OF assms(3)] fa by simp
  have d1: "distinct (?F ?t ys @ p # ?F ?t zs)" using distinct_filter[OF d] fa by metis
  have ll: "length ys < Suc NPAGEREFS" using lists_length[OF assms(1)] all(1) by (simp add: NPAGEREFS_def)
  then have l1: "length (?F ?t ys) < Suc NPAGEREFS" using length_filter_le[of "\<lambda>q. btype s q = ?t" ys] by linarith
  have tl: "?t < length (sizebases s)" using assms(3) len by simp
  obtain s1 where s1: "remove_loop (Suc NPAGEREFS) (SizeBase ?t) p s = Ok () s1" "same_data s s1" "allbase s1 = allbase s"
    "\<And>q. next_all (pagerefs s1 q) = next_all (pagerefs s q)" "length (sizebases s1) = length (sizebases s)"
    "\<And>t'. t' \<noteq> ?t \<Longrightarrow> sizebases s1 ! t' = sizebases s ! t'"
    "\<And>q. q \<notin> set (?F ?t ys) \<Longrightarrow> next_samesize (pagerefs s1 q) = next_samesize (pagerefs s q)"
    "chain (\<lambda>q. next_samesize (pagerefs s1 q)) (sizebases s1 ! ?t) (?F ?t ys @ ?F ?t zs)"
    by (rule remove_samesize[OF c1 d1 l1 tl]) blast
  have c2: "chain (\<lambda>q. next_all (pagerefs s1 q)) (allbase s1) (ys @ p # zs)" using ca all(1) s1(3,4) by simp
  have d2: "distinct (ys @ p # zs)" using d all(1) by simp
  obtain s2 where s2: "remove_loop (Suc NPAGEREFS) AllBase p s1 = Ok () s2" "same_data s1 s2" "sizebases s2 = sizebases s1"
    "\<And>q. next_samesize (pagerefs s2 q) = next_samesize (pagerefs s1 q)"
    "chain (\<lambda>q. next_all (pagerefs s2 q)) (allbase s2) (ys @ zs)"
    by (rule remove_all[OF c2 d2 ll]) blast
  have sd: "same_data s s2" by (rule same_data_trans[OF s1(2) s2(2)])
  have rm: "remove1 p all = ys @ zs" using all by (simp add: remove1_append)
  have "chain (\<lambda>q. next_samesize (pagerefs s2 q)) (sizebases s2 ! t) (?F t (ys @ zs))" if "t < 8" for t
  proof (cases "t = ?t")
    case True
    then show ?thesis using s1(8) s2(3,4) by simp
  next
    case False
    have "?F t (ys @ zs) = ?F t all" using False all(1) by auto
    moreover have "chain (\<lambda>q. next_samesize (pagerefs s2 q)) (sizebases s2 ! t) (?F t all) =
      chain (\<lambda>q. next_samesize (pagerefs s q)) (sizebases s2 ! t) (?F t all)"
      by (rule chain_cong) (use s1(7) s2(4) False in auto)
    ultimately show ?thesis using cs[OF that] s2(3) s1(6)[OF False] by simp
  qed
  then have "lists_ok s2 (remove1 p all)"
    unfolding lists_ok_def rm same_dataD[OF sd] using s2(3,5) s1(5) len d sd all(1) by (auto simp: same_data_def)
  moreover have "remove_lists p ?t s = Ok () s2" using assms(3) s1(1) s2(1) by (simp add: remove_lists_def NSIZES_def bind_def)
  ultimately show thesis using that sd by blast
qed

section \<open>Changes that keep the invariant\<close>

lemma hinv0D:
  assumes "hinv0 s all fl live"
  shows "ram_ok s" "lists_ok s all" "inuse s = set all" "\<And>p. p \<in> set all \<Longrightarrow> page_ok (mwords s) (pagerefs s p) (fl p)"
    "regions_ok s all live" "live_ok s all fl live" "\<And>p. p \<in> set all \<Longrightarrow> in_ram s (pgaddr s p) 4096"
    "\<And>p q. p \<in> set all \<Longrightarrow> q \<in> set all \<Longrightarrow> p \<noteq> q \<Longrightarrow> apart (pgaddr s p) 4096 (pgaddr s q) 4096"
    "\<And>p. p \<in> set all \<Longrightarrow> btype s p < 8"
  using assms by (auto simp: hinv0_def regions_ok_def page_ok_def)

lemma big_apart:
  assumes "hinv0 s all fl live" "live a = Some z" "2048 \<le> z" "p \<in> set all"
  shows "apart a (npg z * 4096) (pgaddr s p) 4096" "0 < npg z"
  using hinv0D(5)[OF assms(1)] assms(2-4) by (auto simp: regions_ok_def npg_def)

lemma block_in_page:
  assumes "hinv0 s all fl live" "p \<in> set all" "x \<in> blocks (pgaddr s p) (btype s p)"
  shows "pgaddr s p \<le> x" "x + bsize (btype s p) \<le> pgaddr s p + 4096" "x < pgaddr s p + 4096" "live x = Some z \<Longrightarrow> z < 2048"
    "q \<in> set all \<Longrightarrow> x \<in> blocks (pgaddr s q) (btype s q) \<Longrightarrow> q = p"
proof -
  note t = hinv0D(9)[OF assms(1,2)]
  note b = blocks_bounds[OF assms(3) t]
  show le: "pgaddr s p \<le> x" "x + bsize (btype s p) \<le> pgaddr s p + 4096" by (rule b)+
  then show lt: "x < pgaddr s p + 4096" using bsize_facts(1)[OF t] by linarith
  show "live x = Some z \<Longrightarrow> z < 2048"
  proof (rule ccontr)
    assume "live x = Some z" "\<not> z < 2048"
    then have "apart x (npg z * 4096) (pgaddr s p) 4096" "0 < npg z" using big_apart[OF assms(1) _ _ assms(2)] by auto
    then show False using le lt by (auto simp: apart_def)
  qed
  show "q = p" if "q \<in> set all" "x \<in> blocks (pgaddr s q) (btype s q)"
  proof (rule ccontr)
    assume "q \<noteq> p"
    then have "apart (pgaddr s q) 4096 (pgaddr s p) 4096" using hinv0D(8)[OF assms(1)] that(1) assms(2) by blast
    moreover have "pgaddr s q \<le> x" "x < pgaddr s q + 4096"
      using blocks_bounds[OF that(2) hinv0D(9)[OF assms(1) that(1)]] bsize_facts(1)[OF hinv0D(9)[OF assms(1) that(1)]] by linarith+
    ultimately show False using le lt by (auto simp: apart_def)
  qed
qed

lemma hinv0_page:
  assumes "hinv0 s all fl live" "p \<in> set all" "page_ok m r xs"
    "pageaddr_and_blocktype r = pageaddr_and_blocktype (pagerefs s p)" "next_all r = next_all (pagerefs s p)"
    "next_samesize r = next_samesize (pagerefs s p)"
    "\<And>q x. q \<in> set all \<Longrightarrow> q \<noteq> p \<Longrightarrow> x \<in> set (fl q) \<Longrightarrow> m x = mwords s x"
    "\<And>a z. 2048 \<le> z \<Longrightarrow> (live' a = Some z) = (live a = Some z)" "live_ok s all (fl(p := xs)) live'"
  shows "hinv0 (s\<lparr>mwords := m, pagerefs := (pagerefs s)(p := r)\<rparr>) all (fl(p := xs)) live'"
proof -
  let ?s = "s\<lparr>mwords := m, pagerefs := (pagerefs s)(p := r)\<rparr>"
  note d = hinv0D[OF assms(1)]
  have eq: "pgaddr ?s q = pgaddr s q" "btype ?s q = btype s q" for q
    using assms(4) by (simp_all add: PR_PAGEADDR_def PR_BLOCKTYPE_def)
  have nx: "(\<lambda>q. next_all (pagerefs ?s q)) = (\<lambda>q. next_all (pagerefs s q))"
    "(\<lambda>q. next_samesize (pagerefs ?s q)) = (\<lambda>q. next_samesize (pagerefs s q))" using assms(5,6) by auto
  have "inuse ?s = inuse s" by (simp add: inuse_def)
  then have "lists_ok ?s all" using d(2) unfolding lists_ok_def eq nx by simp
  moreover have "regions_ok ?s all live'" using d(5) assms(8) unfolding regions_ok_def eq in_ram_def by auto
  moreover have "live_ok ?s all (fl(p := xs)) live'" using assms(9) unfolding live_ok_def eq .
  moreover have "page_ok (mwords ?s) (pagerefs ?s q) ((fl(p := xs)) q)" if "q \<in> set all" for q
  proof (cases "q = p")
    case False
    have m: "m x = mwords s x" if "x \<in> set (fl q)" for x using assms(7)[OF \<open>q \<in> set all\<close> False that] .
    then have "fchain m a ys = fchain (mwords s) a ys" if "set ys \<subseteq> set (fl q)" for a ys by (rule fchain_cong) (use that in auto)
    then have "page_ok m (pagerefs s q) (fl q)" using d(4)[OF that] m unfolding page_ok_def by (cases "fl q") auto
    then show ?thesis using False by simp
  qed (use assms(3) in simp)
  ultimately show ?thesis using d(1,3) \<open>inuse ?s = inuse s\<close> by (simp add: hinv0_def ram_ok_def)
qed

lemma hinv0_take:
  assumes "hinv0 s all fl live" "p \<in> set all" "fl p = x # xs" "btype s p = bt sz" "sz < 2048"
  shows "hinv0 (s\<lparr>pagerefs := (pagerefs s)(p := took (pagerefs s p) xs)\<rparr>) all (fl(p := xs)) (live(x \<mapsto> sz))" "live x = None"
proof -
  note d = hinv0D[OF assms(1)]
  have po: "page_ok (mwords s) (pagerefs s p) (x # xs)" using d(4)[OF assms(2)] assms(3) by simp
  have x: "x \<in> blocks (pgaddr s p) (btype s p)" "x \<notin> set xs" using page_okD(4,5)[OF po] by auto
  note b = block_in_page[OF assms(1,2) x(1)]
  show n: "live x = None"
  proof (cases "live x")
    case (Some z)
    then obtain q where "q \<in> set all" "x \<in> blocks (pgaddr s q) (btype s q)" "x \<notin> set (fl q)"
      by (rule live_small[OF d(6) _ b(4)[OF Some]]) blast
    then show ?thesis using b(5) assms(3) by auto
  qed
  have "live_ok s all (fl(p := xs)) (live(x \<mapsto> sz))"
    unfolding live_ok_def
  proof (intro conjI allI impI ballI)
    fix a z assume h: "(live(x \<mapsto> sz)) a = Some z" "z < 2048"
    show "\<exists>q \<in> set all. btype s q = bt z \<and> a \<in> blocks (pgaddr s q) (btype s q) - set ((fl(p := xs)) q)"
    proof (cases "a = x")
      case True
      then show ?thesis using h assms(2,4) x by (intro bexI[of _ p]) auto
    next
      case False
      then have "live a = Some z" using h by simp
      then obtain q where "q \<in> set all" "btype s q = bt z" "a \<in> blocks (pgaddr s q) (btype s q)" "a \<notin> set (fl q)"
        by (rule live_small[OF d(6) _ h(2)]) blast
      then show ?thesis using assms(3) by (intro bexI[of _ q]) auto
    qed
  next
    fix q a assume q: "q \<in> set all" and a: "a \<in> blocks (pgaddr s q) (btype s q) - set ((fl(p := xs)) q)"
    show "\<exists>z < 2048. (live(x \<mapsto> sz)) a = Some z"
    proof (cases "a = x")
      case False
      then have "a \<in> blocks (pgaddr s q) (btype s q) - set (fl q)" using a assms(3) by (auto split: if_splits)
      then show ?thesis using d(6) q False by (auto simp: live_ok_def)
    qed (use assms(5) in auto)
  qed
  then have "hinv0 (s\<lparr>mwords := mwords s, pagerefs := (pagerefs s)(p := took (pagerefs s p) xs)\<rparr>) all (fl(p := xs)) (live(x \<mapsto> sz))"
    using n assms(5) by (intro hinv0_page[OF assms(1,2) page_ok_took[OF po]]) auto
  then show "hinv0 (s\<lparr>pagerefs := (pagerefs s)(p := took (pagerefs s p) xs)\<rparr>) all (fl(p := xs)) (live(x \<mapsto> sz))" by simp
qed

text \<open>What lies in allocated blocks is left alone.\<close>

definition keeps :: "(nat \<Rightarrow> nat option) \<Rightarrow> kmach \<Rightarrow> kmach \<Rightarrow> bool" where
  "keeps live s s' \<longleftrightarrow> (\<forall>a z y. live a = Some z \<longrightarrow> a \<le> y \<longrightarrow> y < a + extent z \<longrightarrow> mwords s' y = mwords s y)"

definition given :: "pageref \<Rightarrow> nat \<Rightarrow> nat list \<Rightarrow> pageref" where
  "given r x fl = r\<lparr>freelist_offset := x - PR_PAGEADDR r, nfree := Suc (length fl)\<rparr>"

lemma given_simps [simp]:
  "next_all (given r x fl) = next_all r" "next_samesize (given r x fl) = next_samesize r"
  "pageaddr_and_blocktype (given r x fl) = pageaddr_and_blocktype r" "PR_PAGEADDR (given r x fl) = PR_PAGEADDR r" "PR_BLOCKTYPE (given r x fl) = PR_BLOCKTYPE r"
  by (simp_all add: given_def PR_PAGEADDR_def PR_BLOCKTYPE_def)

lemma hinv0_give:
  assumes "hinv0 s all fl live" "p \<in> set all" "x \<in> blocks (pgaddr s p) (btype s p)" "x \<notin> set (fl p)"
    "m x = (case fl p of [] \<Rightarrow> NULL | y # _ \<Rightarrow> y)" "\<And>y. y \<notin> {x..<x + bsize (btype s p)} \<Longrightarrow> m y = mwords s y"
  shows "hinv0 (s\<lparr>mwords := m, pagerefs := (pagerefs s)(p := given (pagerefs s p) x (fl p))\<rparr>) all (fl(p := x # fl p)) (live(x := None))"
proof -
  note d = hinv0D[OF assms(1)]
  note po = d(4)[OF assms(2)]
  note b = block_in_page[OF assms(1-3)]
  have other: "m y = mwords s y" if "q \<in> set all" "y \<in> set (fl q)" for q y
  proof -
    have y: "y \<in> blocks (pgaddr s q) (btype s q)" using page_okD(5)[OF d(4)[OF that(1)]] that(2) by auto
    have "y \<notin> {x..<x + bsize (btype s p)}"
    proof (cases "q = p")
      case True
      then have "x \<noteq> y" using assms(4) that(2) by auto
      then show ?thesis using blocks_apart[OF assms(3), of y] y True bsize_facts(1)[OF d(9)[OF assms(2)]] by auto
    next
      case False
      then have "apart (pgaddr s q) 4096 (pgaddr s p) 4096" using d(8) that(1) assms(2) by blast
      then show ?thesis using b(1,2) block_in_page(1,3)[OF assms(1) that(1) y] by (auto simp: apart_def)
    qed
    then show ?thesis by (rule assms(6))
  qed
  have fc: "fchain m a ys = fchain (mwords s) a ys" if "set ys \<subseteq> set (fl p)" for a ys
    by (rule fchain_cong) (use that other[OF assms(2)] in auto)
  have "fchain m (m x) (fl p)"
    using po fc other[OF assms(2)] assms(5) by (cases "fl p") (auto simp: page_ok_def)
  then have pk: "page_ok m (given (pagerefs s p) x (fl p)) (x # fl p)"
    using po assms(3,4) by (simp add: page_ok_def) (simp add: given_def)
  have "live_ok s all (fl(p := x # fl p)) (live(x := None))"
    unfolding live_ok_def
  proof (intro conjI allI impI ballI)
    fix a z assume h: "(live(x := None)) a = Some z" "z < 2048"
    then have a: "live a = Some z" "a \<noteq> x" by (auto split: if_splits)
    then obtain q where "q \<in> set all" "btype s q = bt z" "a \<in> blocks (pgaddr s q) (btype s q)" "a \<notin> set (fl q)"
      using live_small[OF d(6) _ h(2)] by blast
    then show "\<exists>q \<in> set all. btype s q = bt z \<and> a \<in> blocks (pgaddr s q) (btype s q) - set ((fl(p := x # fl p)) q)"
      using a(2) by (intro bexI[of _ q]) auto
  next
    fix q a assume q: "q \<in> set all" and a: "a \<in> blocks (pgaddr s q) (btype s q) - set ((fl(p := x # fl p)) q)"
    have "a \<noteq> x" using a b(5)[OF q] by auto
    moreover have "a \<in> blocks (pgaddr s q) (btype s q) - set (fl q)" using a by (auto split: if_splits)
    ultimately show "\<exists>z < 2048. (live(x := None)) a = Some z" using d(6) q by (auto simp: live_ok_def)
  qed
  then show ?thesis using b(4) other by (intro hinv0_page[OF assms(1,2) pk]) auto
qed

lemma hinv0_release:
  assumes "hinv0 s all fl live" "p \<in> set all" "length (fl p) = nblocks (btype s p)" "same_data s s1" "lists_ok s1 (remove1 p all)"
    "inuse s' = inuse s1 - {p}" "s' = s1\<lparr>pagerefs_inuse := l\<rparr>" "length l = 8"
  shows "hinv0 s' (remove1 p all) fl live"
proof -
  note d = hinv0D[OF assms(1)] and sd = same_dataD[OF assms(4)]
  have eq: "pgaddr s' q = pgaddr s q" "btype s' q = btype s q" "in_ram s' a n = in_ram s a n" "ram_ok s' = ram_ok s" "mwords s' = mwords s" for q a n
    using sd assms(4,7) by (simp_all add: in_ram_def ram_ok_def same_data_def)
  have dist: "distinct all" "set (remove1 p all) = set all - {p}" using d(2) by (auto simp: lists_ok_def)
  have iu: "inuse s' = set (remove1 p all)" using assms(6) sd(3) d(3) dist by simp
  have "card (set (fl p)) = card (blocks (pgaddr s p) (btype s p))"
    using card_blocks[OF d(9)[OF assms(2)]] distinct_card[OF page_okD(4)[OF d(4)[OF assms(2)]]] assms(3) by simp
  then have full: "set (fl p) = blocks (pgaddr s p) (btype s p)"
    using card_subset_eq[OF finite_blocks page_okD(5)[OF d(4)[OF assms(2)]]] by simp
  have "live_ok s (remove1 p all) fl live"
    unfolding live_ok_def dist(2)
  proof (intro conjI allI impI ballI)
    fix a z assume h: "live a = Some z" "z < 2048"
    then obtain q where "q \<in> set all" "btype s q = bt z" "a \<in> blocks (pgaddr s q) (btype s q)" "a \<notin> set (fl q)"
      using live_small[OF d(6)] by blast
    then show "\<exists>q \<in> set all - {p}. btype s q = bt z \<and> a \<in> blocks (pgaddr s q) (btype s q) - set (fl q)" using full by auto
  qed (use d(6) in \<open>auto simp: live_ok_def\<close>)
  then have "live_ok s' (remove1 p all) fl live" unfolding live_ok_def eq .
  moreover have "regions_ok s' (remove1 p all) live" using d(5) unfolding regions_ok_def eq dist(2) by auto
  moreover have "lists_ok s' (remove1 p all)" using assms(5,7,8) iu by (simp add: lists_ok_def)
  moreover have "page_ok (mwords s') (pagerefs s' q) (fl q)" if "q \<in> set (remove1 p all)" for q
    using d(4)[of q] that dist(2) sd(6)[of "mwords s" q] eq(5) assms(7) by simp
  ultimately show ?thesis using d(1) eq(4) iu by (simp add: hinv0_def)
qed

lemma deadbeef_range:
  assumes "y \<in> (\<lambda>i. x + 4 * i) ` {..<(n :: nat) div 4}" shows "y \<in> {x..<x + n}"
proof -
  obtain i where i: "y = x + 4 * i" "i < n div 4" using assms by auto
  have "4 * i < n" using i(2) by linarith
  then show ?thesis using i(1) by simp
qed

lemma find_page_unique:
  assumes "p \<in> set ps" "P p" "\<And>q. q \<in> set ps \<Longrightarrow> P q \<Longrightarrow> q = p"
  shows "find P ps = Some p"
proof -
  obtain q where q: "find P ps = Some q" using assms(1,2) by (cases "find P ps") (auto simp: find_None_iff)
  then have "q \<in> set ps" "P q" by (auto simp: find_Some_iff)
  then show ?thesis using assms(3) q by simp
qed

end
