(* ===== verification/Kheap_Claims.thy ===== *)
theory Kheap_Claims
  imports Kheap_Inv
begin

text \<open>
  The kernel heap as its callers see it: \<open>kmalloc\<close> and \<open>kfree\<close> keep the invariant, so blocks
  that are allocated at the same time never overlap, and what goes wrong when a request is so large that its size wraps
  around.
\<close>

section \<open>kfree\<close>

text \<open>Everything but the heap itself.\<close>

definition rest_same :: "kmach \<Rightarrow> kmach \<Rightarrow> bool" where
  "rest_same s s' \<longleftrightarrow> curspl (mts s') = curspl (mts s) \<and> lastpaddr s' = lastpaddr s \<and> firstpaddr s \<le> firstpaddr s' \<and> tlb s' = tlb s \<and> aspaces s' = aspaces s"

lemma kfree_block:
  assumes "hinv0 s all fl live" "live x = Some z" "z < 2048"
  obtains p m s2 where "p \<in> set all" "x \<in> blocks (pgaddr s p) (btype s p)" "x \<notin> set (fl p)"
    "s2 = s\<lparr>mts := spl_set SPL_HIGH (mts s)\<rparr>\<lparr>mwords := m, pagerefs := (pagerefs s)(p := given (pagerefs s p) x (fl p))\<rparr>"
    "hinv0 s2 all (fl(p := x # fl p)) (live(x := None))" "keeps (live(x := None)) s s2"
    "subpage_kfree x s = bind (if Suc (length (fl p)) = nblocks (btype s p)
        then bind (remove_lists p (btype s p)) (\<lambda>_. bind (free_kpages (pgaddr s p)) (\<lambda>_. freepageref p))
        else ret ()) (\<lambda>_. bind (on_mts (splx (curspl (mts s)))) (\<lambda>_. ret False)) s2"
proof -
  let ?s = "s\<lparr>mts := spl_set SPL_HIGH (mts s)\<rparr>"
  have h1: "hinv0 ?s all fl live" using assms(1) by simp
  note d = hinv0D[OF assms(1)]
  obtain p where p: "p \<in> set all" "btype s p = bt z" "extent z = bsize (btype s p)" "x \<in> blocks (pgaddr s p) (btype s p)" "x \<notin> set (fl p)" "btype s p < 8"
    by (rule live_small[OF d(6) assms(2,3)])
  let ?r = "pagerefs s p" and ?pg = "pgaddr s p" and ?t = "btype s p"
  note b = block_in_page[OF assms(1) p(1,4)] and po = d(4)[OF p(1)]
  note al = page_okD(2)[OF po]
  note pa = page_addr[OF d(1) d(7)[OF p(1)] al b(1,3)]
  have x4: "x mod 4 = 0" by (rule block_aligned[OF p(4,6) al])
  have pg32: "btype s q < 8 \<and> pgaddr s q + 4096 < 2 ^ 32" if "q \<in> set all" for q
    using page_addr(3)[OF d(1) d(7)[OF that] page_okD(2)[OF d(4)[OF that]], of "pgaddr s q"] d(9)[OF that] by simp
  have "find_page (Suc NPAGEREFS) (allbase ?s) x ?s = Ok (find (\<lambda>q. pgaddr ?s q \<le> x \<and> x < pgaddr ?s q + 4096) all) ?s"
    by (rule find_page_run) (use d(2) lists_length[OF d(2)] pg32 in \<open>auto simp: lists_ok_def NPAGEREFS_def\<close>)
  moreover have "find (\<lambda>q. pgaddr ?s q \<le> x \<and> x < pgaddr ?s q + 4096) all = Some p"
    by (rule find_page_unique[OF p(1)]) (use b(1,3) d(8)[OF p(1)] in \<open>auto simp: apart_def\<close>, fastforce)
  ultimately have fp: "find_page (Suc NPAGEREFS) (allbase s) x ?s = Ok (Some p) ?s" by simp
  have off: "u32 (int x - int ?pg) = x - ?pg" "x - ?pg < 4096" "(x - ?pg) mod bsize ?t = 0"
    using b(1,3) pa(1) blocks_bounds(3)[OF p(4,6)] by auto
  have ks: "kaddr_ok (x + 4 * i)" if "i < bsize ?t div 4" for i
  proof -
    have "x + 4 * i < ?pg + 4096" using that b(2) by linarith
    then show ?thesis using page_addr(2)[OF d(1) d(7)[OF p(1)] al, of "x + 4 * i"] b(1) x4 by simp
  qed
  define m1 where "m1 = (\<lambda>y. if y \<in> (\<lambda>i. x + 4 * i) ` {..<bsize ?t div 4} then 0xdeadbeef else mwords s y)"
  have e: "(\<lambda>y. if y \<in> (\<lambda>i. x + 4 * i) ` {..<bsize ?t div 4} then 0xdeadbeef else mwords ?s y) = m1" by (simp add: m1_def fun_eq_iff)
  have xb: "x + bsize ?t < 2 ^ 32" using b(2) pg32[OF p(1)] by linarith
  have fd: "fill_deadbeef x (bsize ?t) ?s = Ok () (?s\<lparr>mwords := m1\<rparr>)"
    using fill_deadbeef_run[of "bsize ?t" x ?s, OF ks xb, unfolded e] by simp
  let ?v = "case fl p of [] \<Rightarrow> NULL | y # _ \<Rightarrow> y"
  let ?m = "m1(x := ?v)"
  have ux: "u32 (int ?pg + int (x - ?pg)) = x" by (rule u32_of_nat) (use pa(1) b(1) in auto)
  have v: "(if freelist_offset ?r = INVALID_OFFSET then NULL else u32 (int ?pg + int (freelist_offset ?r))) = ?v"
  proof (cases "fl p")
    case Nil
    then show ?thesis using page_okD(7)[OF po] by simp
  next
    case (Cons y ys)
    then have y: "y \<in> blocks ?pg ?t" "freelist_offset ?r = y - ?pg" using page_okD(5,8)[OF po] by auto
    note yb = block_in_page[OF assms(1) p(1) y(1)]
    have "y < 2 ^ 32" using page_addr(1)[OF d(1) d(7)[OF p(1)] al yb(1,3)] .
    then have "u32 (int ?pg + int (y - ?pg)) = y" by (intro u32_of_nat) (use yb(1) in auto)
    moreover have "y - ?pg \<noteq> 65535" using yb(1,3) by linarith
    ultimately show ?thesis using Cons y(2) by (simp add: INVALID_OFFSET_def)
  qed
  have ok: "kaddr_ok x" using pa(2) x4 by simp
  have len: "Suc (length (fl p)) \<le> nblocks ?t"
  proof -
    have "distinct (x # fl p)" "set (x # fl p) \<subseteq> blocks ?pg ?t" using page_okD(4,5)[OF po] p(4,5) by auto
    then have "card (set (x # fl p)) \<le> nblocks ?t" using card_mono[OF finite_blocks] card_blocks[OF p(6)] by metis
    then show ?thesis using distinct_card[of "x # fl p"] \<open>distinct (x # fl p)\<close> by simp
  qed
  have n: "u16 (int (nfree ?r) + 1) = Suc (length (fl p))" "u16 (int (x - ?pg)) = x - ?pg"
    using page_okD(6)[OF po] len bsize_facts(5)[OF p(6)] off(2) u16_id[of "Suc (length (fl p))"] by (simp_all add: algebra_simps)
  let ?s2 = "?s\<lparr>mwords := ?m, pagerefs := (pagerefs s)(p := given ?r x (fl p))\<rparr>"
  have out: "?m y = mwords s y" if "y \<notin> {x..<x + bsize ?t}" for y
    using that deadbeef_range[of y x "bsize ?t"] bsize_facts(1)[OF p(6)] by (auto simp: m1_def)
  have h2: "hinv0 ?s2 all (fl(p := x # fl p)) (live(x := None))"
    using hinv0_give[OF h1 p(1), of x ?m] p(4,5) out by simp
  have "keeps (live(x := None)) s ?s2"
    unfolding keeps_def
  proof (intro allI impI)
    fix a w y assume "(live(x := None)) a = Some w" "a \<le> y" "y < a + extent w"
    moreover from this(1) have "live a = Some w" "a \<noteq> x" by (auto split: if_splits)
    ultimately have "y \<notin> {x..<x + bsize ?t}" using hinv0_apart[OF assms(1), of a w x z] assms(2) p(3) by (auto simp: apart_def)
    then show "mwords ?s2 y = mwords s y" using out by simp
  qed
  moreover have "subpage_kfree x s = bind (if Suc (length (fl p)) = nblocks ?t
        then bind (remove_lists p ?t) (\<lambda>_. bind (free_kpages ?pg) (\<lambda>_. freepageref p))
        else ret ()) (\<lambda>_. bind (on_mts (splx (curspl (mts s)))) (\<lambda>_. ret False)) ?s2"
  proof -
    have tail: "bind (if freelist_offset ?r = INVALID_OFFSET then mstore (u32 (int ?pg + int (x - ?pg))) NULL
          else mstore (u32 (int ?pg + int (x - ?pg))) (u32 (int ?pg + int (freelist_offset ?r)))) f (?s\<lparr>mwords := m1\<rparr>)
        = f () (?s\<lparr>mwords := ?m\<rparr>)" for f :: "unit \<Rightarrow> (bool, kmach) kmon"
      using v ok by (cases "freelist_offset ?r = INVALID_OFFSET") (simp_all add: ux bind_mem del: of_nat_diff)
    show ?thesis unfolding subpage_kfree_def
      using off len bsize_facts(7)[OF p(6)]
      by (simp add: Let_def bind_Ok[of "find_page (Suc NPAGEREFS) (allbase s) x" ?s, OF fp] bind_Ok[of "fill_deadbeef x (bsize ?t)" ?s, OF fd] n tail given_def PAGE_SIZE_def del: bind_if of_nat_diff find_page.simps split del: if_split cong: if_cong)
  qed
  ultimately show thesis using that p(1,4,5) h2 by blast
qed

lemma hinvI: "hinv0 s all fl live \<Longrightarrow> \<forall>p \<in> set all. length (fl p) < nblocks (btype s p) \<Longrightarrow> hinv s live"
  unfolding hinv_def by blast

lemma keeps_trans: "keeps live s s' \<Longrightarrow> mwords s'' = mwords s' \<Longrightarrow> keeps live s s''"
  by (simp add: keeps_def)

lemma kfree_small:
  assumes "hinv s live" "live x = Some z" "z < 2048"
  obtains s' where "subpage_kfree x s = Ok False s'" "hinv s' (live(x := None))" "keeps (live(x := None)) s s'" "rest_same s s'"
proof -
  obtain all fl where h: "hinv0 s all fl live" "\<And>p. p \<in> set all \<Longrightarrow> length (fl p) < nblocks (btype s p)" using assms(1) by (auto simp: hinv_def)
  obtain p m s2 where p: "p \<in> set all" "x \<in> blocks (pgaddr s p) (btype s p)" "x \<notin> set (fl p)"
    and s2: "s2 = s\<lparr>mts := spl_set SPL_HIGH (mts s)\<rparr>\<lparr>mwords := m, pagerefs := (pagerefs s)(p := given (pagerefs s p) x (fl p))\<rparr>"
    and h2: "hinv0 s2 all (fl(p := x # fl p)) (live(x := None))" "keeps (live(x := None)) s s2"
    and run: "subpage_kfree x s = bind (if Suc (length (fl p)) = nblocks (btype s p)
        then bind (remove_lists p (btype s p)) (\<lambda>_. bind (free_kpages (pgaddr s p)) (\<lambda>_. freepageref p))
        else ret ()) (\<lambda>_. bind (on_mts (splx (curspl (mts s)))) (\<lambda>_. ret False)) s2"
    by (rule kfree_block[OF h(1) assms(2,3)]) blast
  have bt2: "btype s2 q = btype s q" for q by (simp add: s2)
  show thesis
  proof (cases "Suc (length (fl p)) = nblocks (btype s p)")
    case False
    let ?s = "s2\<lparr>mts := spl_set (curspl (mts s)) (mts s2)\<rparr>"
    have r: "subpage_kfree x s = Ok False ?s" using run False by simp
    have "\<forall>q \<in> set all. length ((fl(p := x # fl p)) q) < nblocks (btype s2 q)" using h(2) bt2 False by (auto simp: Suc_lessI)
    then have "hinv ?s (live(x := None))" using hinvI[OF h2(1)] by simp
    moreover have "keeps (live(x := None)) s ?s" by (rule keeps_trans[OF h2(2)]) simp
    moreover have "rest_same s ?s" by (simp add: rest_same_def s2)
    ultimately show thesis using that r by blast
  next
    case True
    note d2 = hinv0D[OF h2(1)]
    obtain s3 where s3: "remove_lists p (btype s2 p) s2 = Ok () s3" "same_data s2 s3" "lists_ok s3 (remove1 p all)"
      by (rule remove_lists_run[OF d2(2) p(1) d2(9)[OF p(1)]])
    have iu: "p \<in> inuse s3" "length (pagerefs_inuse s3) = 8" using d2(3) p(1) same_dataD(3)[OF s3(2)] s3(3) by (auto simp: lists_ok_def)
    obtain l where l: "freepageref p s3 = Ok () (s3\<lparr>pagerefs_inuse := l\<rparr>)" "inuse (s3\<lparr>pagerefs_inuse := l\<rparr>) = inuse s3 - {p}" "length l = 8"
      by (rule freepageref_run[OF iu(2,1)])
    let ?s4 = "s3\<lparr>pagerefs_inuse := l\<rparr>"
    let ?s = "?s4\<lparr>mts := spl_set (curspl (mts s)) (mts s3)\<rparr>"
    have "hinv0 ?s4 (remove1 p all) (fl(p := x # fl p)) (live(x := None))"
      by (rule hinv0_release[OF h2(1) p(1) _ s3(2,3) l(2) refl l(3)]) (use True bt2 in simp)
    moreover have "\<forall>q \<in> set (remove1 p all). length ((fl(p := x # fl p)) q) < nblocks (btype ?s4 q)"
      using h(2) bt2 same_dataD(2)[OF s3(2)] d2(2) by (auto simp: lists_ok_def)
    ultimately have hi: "hinv ?s (live(x := None))" using hinvI by simp
    have "subpage_kfree x s = Ok False ?s"
      using run True
      by (simp add: bind_assoc free_kpages_def bind_Ok[of "remove_lists p (btype s p)" s2, OF s3(1)[unfolded bt2]] bind_Ok[of "freepageref p" s3, OF l(1)])
    moreover have "keeps (live(x := None)) s ?s" by (rule keeps_trans[OF h2(2)]) (use s3(2) in \<open>simp add: same_data_def\<close>)
    moreover have "rest_same s ?s" using s3(2) by (simp add: rest_same_def s2 same_data_def)
    ultimately show thesis using that hi by blast
  qed
qed

lemma hinv0_forget:
  assumes "hinv0 s all fl live" "live x = Some z" "2048 \<le> z"
  shows "hinv0 s all fl (live(x := None))"
proof -
  note d = hinv0D[OF assms(1)]
  have "live_ok s all fl (live(x := None))"
    unfolding live_ok_def
  proof (intro conjI allI impI ballI)
    fix q a assume h: "q \<in> set all" "a \<in> blocks (pgaddr s q) (btype s q) - set (fl q)"
    then have "a \<noteq> x" using block_in_page(4)[OF assms(1) h(1), of x z] assms(2,3) by auto
    then show "\<exists>w < 2048. (live(x := None)) a = Some w" using d(6) h by (auto simp: live_ok_def)
  qed (use d(6) in \<open>auto simp: live_ok_def split: if_splits\<close>)
  moreover have "regions_ok s all (live(x := None))" using d(5) unfolding regions_ok_def by (auto split: if_splits)
  ultimately show ?thesis using assms(1) by (simp add: hinv0_def)
qed

lemma kfree_law:
  assumes "hinv s live" "live x = Some z"
  obtains s' where "kfree x s = Ok () s'" "hinv s' (live(x := None))" "keeps (live(x := None)) s s'" "rest_same s s'"
proof (cases "z < 2048")
  case True
  obtain all fl where h: "hinv0 s all fl live" using assms(1) by (auto simp: hinv_def)
  have x: "x \<noteq> NULL" using hinv0_in_ram(1)[OF h assms(2)] by (auto simp: in_ram_def)
  obtain s' where s': "subpage_kfree x s = Ok False s'" "hinv s' (live(x := None))" "keeps (live(x := None)) s s'" "rest_same s s'"
    by (rule kfree_small[OF assms True])
  have "kfree x s = Ok () s'" using x s'(1) by (simp add: kfree_def bind_def)
  then show thesis using that s' by blast
next
  case False
  then have big: "2048 \<le> z" by simp
  obtain all fl where h: "hinv0 s all fl live" "\<forall>p \<in> set all. length (fl p) < nblocks (btype s p)" using assms(1) by (auto simp: hinv_def)
  note d = hinv0D[OF h(1)]
  have x: "x \<noteq> NULL" "x mod 4096 = 0"
    using hinv0_in_ram(1)[OF h(1) assms(2)] d(5) assms(2) big unfolding in_ram_def regions_ok_def by (linarith, blast)
  let ?s = "s\<lparr>mts := spl_set SPL_HIGH (mts s)\<rparr>"
  have pg32: "btype s q < 8 \<and> pgaddr s q + 4096 < 2 ^ 32" if "q \<in> set all" for q
    using page_addr(3)[OF d(1) d(7)[OF that] page_okD(2)[OF d(4)[OF that]], of "pgaddr s q"] d(9)[OF that] by simp
  have "find_page (Suc NPAGEREFS) (allbase ?s) x ?s = Ok (find (\<lambda>q. pgaddr ?s q \<le> x \<and> x < pgaddr ?s q + 4096) all) ?s"
    by (rule find_page_run) (use d(2) lists_length[OF d(2)] pg32 in \<open>auto simp: lists_ok_def NPAGEREFS_def\<close>)
  moreover have "find (\<lambda>q. pgaddr ?s q \<le> x \<and> x < pgaddr ?s q + 4096) all = None"
    using big_apart[OF h(1) assms(2) big] by (fastforce simp: find_None_iff apart_def)
  ultimately have fp: "find_page (Suc NPAGEREFS) (allbase s) x ?s = Ok None ?s" by simp
  let ?s' = "s\<lparr>mts := spl_set (curspl (mts s)) (spl_set SPL_HIGH (mts s))\<rparr>"
  have "subpage_kfree x s = Ok True ?s'"
    by (simp add: subpage_kfree_def bind_Ok[of "find_page (Suc NPAGEREFS) (allbase s) x" ?s, OF fp] del: find_page.simps)
  then have "kfree x s = Ok () ?s'" using x by (simp add: kfree_def bind_def[of "subpage_kfree x"] PAGE_SIZE_def free_kpages_def)
  moreover have "hinv ?s' (live(x := None))" using hinvI[OF hinv0_forget[OF h(1) assms(2) big] h(2)] by simp
  ultimately show thesis using that[of ?s'] by (simp add: keeps_def rest_same_def)
qed

section \<open>kmalloc\<close>

lemma hinv0_new:
  assumes "hinv0 s all fl live" "p \<notin> set all" "p < 256" "t < 8" "pg = MIPS_KSEG0 + firstpaddr s" "firstpaddr s + 4096 \<le> lastpaddr s"
    and s': "s' = s\<lparr>firstpaddr := firstpaddr s + 4096, pagerefs_inuse := l, mwords := m, pagerefs := (pagerefs s)(p := r),
      sizebases := (sizebases s)[t := Some p], allbase := Some p\<rparr>"
    and "inuse s' = insert p (inuse s)" "length l = 8"
    "page_ok m r (block_list pg (bsize t) (nblocks t))" "PR_PAGEADDR r = pg" "PR_BLOCKTYPE r = t"
    "next_samesize r = sizebases s ! t" "next_all r = allbase s" "\<forall>x. x \<notin> {pg..<pg + 4096} \<longrightarrow> m x = mwords s x"
  shows "hinv0 s' (p # all) (fl(p := block_list pg (bsize t) (nblocks t))) live" "keeps live s s'"
proof -
  note d = hinv0D[OF assms(1)]
  have old: "pagerefs s' q = pagerefs s q" if "q \<in> set all" for q using that assms(2) s' by auto
  have new: "pagerefs s' p = r" "mwords s' = m" using s' by simp_all
  have base: "sizebases s' = (sizebases s)[t := Some p]" "allbase s' = Some p" "pagerefs_inuse s' = l" using s' by simp_all
  have l: "distinct all" "length (sizebases s) = 8" using d(2) by (auto simp: lists_ok_def)
  have ram: "ram_ok s'" using d(1) assms(6) s' by (simp add: ram_ok_def mod_add_left_eq[symmetric])
  have in_ram: "in_ram s a n \<Longrightarrow> in_ram s' a n" "in_ram s a n \<Longrightarrow> apart a n pg 4096" for a n
    using s' assms(5) by (auto simp: in_ram_def apart_def)
  have pgr: "in_ram s' pg 4096" using s' assms(5) d(1) by (simp add: in_ram_def ram_ok_def)
  have iu: "inuse s' = set (p # all)" using assms(8) d(3) by simp
  have c1: "chain (\<lambda>q. next_all (pagerefs s' q)) (allbase s) all = chain (\<lambda>q. next_all (pagerefs s q)) (allbase s) all"
    by (rule chain_cong) (use old in simp)
  have fe: "filter (\<lambda>q. btype s' q = t') all = filter (\<lambda>q. btype s q = t') all" for t'
    by (rule filter_cong) (use old in auto)
  have c2: "chain (\<lambda>q. next_samesize (pagerefs s' q)) a (filter (\<lambda>q. btype s q = t') all) =
      chain (\<lambda>q. next_samesize (pagerefs s q)) a (filter (\<lambda>q. btype s q = t') all)" for a t'
    by (rule chain_cong) (use old in auto)
  have "chain (\<lambda>q. next_samesize (pagerefs s' q)) (sizebases s' ! t') (filter (\<lambda>q. btype s' q = t') (p # all))" if "t' < 8" for t'
    using d(2) that l(2) assms(4,12,13) new(1) by (simp add: fe c2 base lists_ok_def nth_list_update)
  then have ls: "lists_ok s' (p # all)" using d(2) c1 iu assms(2,9,14) l new(1) base by (simp add: lists_ok_def)
  have pages: "page_ok (mwords s') (pagerefs s' q) ((fl(p := block_list pg (bsize t) (nblocks t))) q)" if "q \<in> set (p # all)" for q
  proof (cases "q = p")
    case False
    then have q: "q \<in> set all" using that by simp
    have m: "m x = mwords s x" if "x \<in> set (fl q)" for x
    proof -
      have x: "x \<in> blocks (pgaddr s q) (btype s q)" using page_okD(5)[OF d(4)[OF q]] that by auto
      have "x < pg" using block_in_page(3)[OF assms(1) q x] d(7)[OF q] assms(5) by (simp add: in_ram_def)
      then show ?thesis using assms(15) by simp
    qed
    have "fchain m a ys = fchain (mwords s) a ys" if "set ys \<subseteq> set (fl q)" for a ys by (rule fchain_cong) (use m that in auto)
    then have "page_ok m (pagerefs s q) (fl q)" using d(4)[OF q] m unfolding page_ok_def by (cases "fl q") auto
    then show ?thesis using False old[OF q] new by simp
  qed (use assms(10) new in simp)
  have ap: "apart (pgaddr s q) 4096 pg 4096" "apart pg 4096 (pgaddr s q) 4096" if "q \<in> set all" for q
    using in_ram(2)[OF d(7)[OF that]] by (auto simp: apart_def)
  have reg: "regions_ok s' (p # all) live"
    using d(5) in_ram pgr old new assms(11) ap unfolding regions_ok_def by auto
  have lv: "live_ok s' (p # all) (fl(p := block_list pg (bsize t) (nblocks t))) live"
    unfolding live_ok_def
  proof (intro conjI allI impI ballI)
    fix a z assume h: "live a = Some z" "z < 2048"
    then obtain q where "q \<in> set all" "btype s q = bt z" "a \<in> blocks (pgaddr s q) (btype s q)" "a \<notin> set (fl q)"
      using live_small[OF d(6)] by blast
    then show "\<exists>q \<in> set (p # all). btype s' q = bt z \<and> a \<in> blocks (pgaddr s' q) (btype s' q) - set ((fl(p := block_list pg (bsize t) (nblocks t))) q)"
      using old assms(2) by (intro bexI[of _ q]) auto
  next
    fix q a assume "q \<in> set (p # all)" "a \<in> blocks (pgaddr s' q) (btype s' q) - set ((fl(p := block_list pg (bsize t) (nblocks t))) q)"
    then show "\<exists>z < 2048. live a = Some z"
      using d(6) old new assms(11,12) set_block_list[of pg t] by (cases "q = p") (auto simp: live_ok_def)
  qed
  show "hinv0 s' (p # all) (fl(p := block_list pg (bsize t) (nblocks t))) live" using ram ls iu pages reg lv by (simp add: hinv0_def)
  show "keeps live s s'"
    unfolding keeps_def
  proof (intro allI impI)
    fix a z y assume "live a = Some z" "a \<le> y" "y < a + extent z"
    then have "y < pg" using hinv0_in_ram(1)[OF assms(1)] assms(5) by (fastforce simp: in_ram_def)
    then show "mwords s' y = mwords s y" using assms(15) new by simp
  qed
qed

lemma hinv0_inuse:
  assumes "hinv0 s all fl live" "inuse (s\<lparr>pagerefs_inuse := l\<rparr>) = inuse s" "length l = 8"
  shows "hinv0 (s\<lparr>pagerefs_inuse := l\<rparr>) all fl live"
  using assms by (simp add: hinv0_def lists_ok_def ram_ok_def regions_ok_def live_ok_def in_ram_def)

text \<open>A request is served, refused for lack of memory, or refused for lack of page records.\<close>

definition refused :: "kmach \<Rightarrow> nat \<Rightarrow> bool" where
  "refused s sz \<longleftrightarrow> lastpaddr s < firstpaddr s + sz + 4096 \<or> sz < 2048 \<and> inuse s = {..<256}"

definition served :: "kmach \<Rightarrow> (nat \<Rightarrow> nat option) \<Rightarrow> nat \<Rightarrow> nat \<Rightarrow> kmach \<Rightarrow> bool" where
  "served s live sz ptr s' \<longleftrightarrow> keeps live s s' \<and> rest_same s s' \<and> firstpaddr s' \<le> firstpaddr s + sz + 4096 \<and>
     (if ptr = NULL then hinv s' live \<and> refused s sz else live ptr = None \<and> hinv s' (live(ptr \<mapsto> sz)))"

lemma doalloc_served:
  assumes "hinv0 s all fl live" "p \<in> set all" "fl p = x # xs" "btype s p = bt sz" "sz < 2048"
    "\<forall>q \<in> set all. length ((fl(p := xs)) q) < nblocks (btype s q)" "keeps live s0 s" "rest_same (s0\<lparr>mts := spl_set spl (mts s0)\<rparr>) (s\<lparr>mts := spl_set spl (mts s)\<rparr>)"
    "spl = curspl (mts s0)" "firstpaddr s \<le> firstpaddr s0 + sz + 4096"
  shows "\<exists>s'. doalloc p spl s = Ok x s' \<and> served s0 live sz x s'"
proof -
  note d = hinv0D[OF assms(1)]
  have po: "page_ok (mwords s) (pagerefs s p) (x # xs)" using d(4)[OF assms(2)] assms(3) by simp
  let ?s1 = "s\<lparr>pagerefs := (pagerefs s)(p := took (pagerefs s p) xs)\<rparr>"
  let ?s' = "s\<lparr>mts := spl_set spl (mts s), pagerefs := (pagerefs s)(p := took (pagerefs s p) xs)\<rparr>"
  have c: "?s' = ?s1\<lparr>mts := spl_set spl (mts s)\<rparr>" by (cases s) simp
  note h = hinv0_take[OF assms(1-5)]
  have "\<forall>q \<in> set all. length ((fl(p := xs)) q) < nblocks (btype ?s1 q)" using assms(6) by auto
  then have hi: "hinv ?s' (live(x \<mapsto> sz))" unfolding c using hinvI[OF h(1)] by simp
  have xb: "x \<in> blocks (pgaddr s p) (btype s p)" using page_okD(5)[OF po] by simp
  note b = block_in_page[OF assms(1,2) xb]
  have "x \<noteq> NULL" by (rule page_addr(4)[OF d(1) d(7)[OF assms(2)] page_okD(2)[OF po] b(1,3)])
  moreover have "keeps live s0 ?s'" using assms(7) by (simp add: keeps_def)
  moreover have "rest_same s0 ?s'" using assms(8,9) by (simp add: rest_same_def)
  ultimately have "served s0 live sz x ?s'" using h(2) hi assms(10) by (simp add: served_def)
  then show ?thesis using doalloc_run[OF po d(1) d(7)[OF assms(2)], of spl] by blast
qed

lemma kseg0_pos: "MIPS_KSEG0 \<noteq> 0" by (simp add: MIPS_KSEG0_def)

lemma subpage_kmalloc_law:
  assumes "hinv s live" "sz < 2048"
  shows "\<exists>ptr s'. subpage_kmalloc sz s = Ok ptr s' \<and> served s live sz ptr s'"
proof -
  obtain all fl where h: "hinv0 s all fl live" "\<forall>p \<in> set all. length (fl p) < nblocks (btype s p)" using assms(1) by (auto simp: hinv_def)
  let ?t = "bt sz" and ?spl = "curspl (mts s)"
  have t: "?t < 8" "blocktype sz = ret ?t" using bt_facts[OF assms(2)] by auto
  let ?s = "s\<lparr>mts := spl_set SPL_HIGH (mts s)\<rparr>"
  have h1: "hinv0 ?s all fl live" using h(1) by simp
  note d = hinv0D[OF h1]
  let ?ps = "filter (\<lambda>p. btype s p = ?t) all"
  have lp: "length ?ps < Suc NPAGEREFS"
    using le_trans[OF length_filter_le lists_length[OF d(2)], of "\<lambda>p. btype s p = ?t"] by (simp add: NPAGEREFS_def)
  have ff: "find_free (Suc NPAGEREFS) ?t (sizebases s ! ?t) ?s = Ok (find (\<lambda>p. nfree (pagerefs ?s p) > 0) ?ps) ?s"
    by (rule find_free_run[OF _ lp]) (use d(2) t(1) in \<open>auto simp: lists_ok_def\<close>)
  have run: "subpage_kmalloc sz s = (case find (\<lambda>p. nfree (pagerefs ?s p) > 0) ?ps of Some pr \<Rightarrow> doalloc pr ?spl
     | None \<Rightarrow> bind allocpageref (\<lambda>p.
        case p of None \<Rightarrow> bind (on_mts (splx ?spl)) (\<lambda>_. ret NULL)
        | Some pr \<Rightarrow> bind (alloc_kpages 1) (\<lambda>prpage.
            if prpage = 0 then bind (freepageref pr) (\<lambda>_. bind (on_mts (splx ?spl)) (\<lambda>_. ret NULL))
            else bind (new_page pr prpage ?t) (\<lambda>_. doalloc pr ?spl)))) ?s"
    by (simp add: subpage_kmalloc_def t(2) bind_Ok[of "find_free (Suc NPAGEREFS) ?t (sizebases s ! ?t)" ?s, OF ff] del: find_free.simps One_nat_def)
  show ?thesis
  proof (cases "find (\<lambda>p. nfree (pagerefs ?s p) > 0) ?ps")
    case (Some p)
    then have p: "p \<in> set all" "btype s p = ?t" "nfree (pagerefs s p) > 0" by (auto simp: find_Some_iff in_set_conv_nth[of _ "?ps", symmetric] dest!: nth_mem[of _ ?ps])
    obtain x xs where x: "fl p = x # xs" using page_okD(6)[OF d(4)[OF p(1)]] p(3) by (cases "fl p") auto
    have "length xs < nblocks (btype s p)" using bspec[OF h(2) p(1)] x by simp
    then have len: "\<forall>q \<in> set all. length ((fl(p := xs)) q) < nblocks (btype s q)" using h(2) by auto
    have "\<exists>s'. doalloc p ?spl ?s = Ok x s' \<and> served s live sz x s'"
      by (rule doalloc_served[OF h1 p(1) x _ assms(2)]) (use p(2) len in \<open>auto simp: keeps_def rest_same_def\<close>)
    then show ?thesis using run Some by auto
  next
    case None
    have l8: "length (pagerefs_inuse ?s) = 8" using d(2) by (simp add: lists_ok_def)
    show ?thesis
    proof (rule allocpageref_run[OF l8])
      assume a: "allocpageref ?s = Ok None ?s" "inuse ?s = {..<256}"
      have "refused s sz" using a(2) assms(2) by (simp add: refused_def inuse_def)
      let ?s' = "?s\<lparr>mts := spl_set ?spl (spl_set SPL_HIGH (mts s))\<rparr>"
      have "subpage_kmalloc sz s = Ok NULL ?s'" using run None by (simp add: bind_Ok[of allocpageref ?s, OF a(1)])
      moreover have "hinv ?s' live" using assms(1) by simp
      ultimately show ?thesis using \<open>refused s sz\<close> by (intro exI[of _ NULL] exI[of _ ?s']) (simp add: served_def keeps_def rest_same_def)
    next
      fix p l assume a: "allocpageref ?s = Ok (Some p) (?s\<lparr>pagerefs_inuse := l\<rparr>)" "p < 256" "p \<notin> inuse ?s"
        "inuse (?s\<lparr>pagerefs_inuse := l\<rparr>) = insert p (inuse ?s)" "length l = 8"
      let ?s2 = "?s\<lparr>pagerefs_inuse := l\<rparr>"
      have r2: "ram_ok ?s2" using d(1) by (simp add: ram_ok_def)
      obtain u where u: "curspl u = curspl (mts ?s2)" "alloc_kpages 1 ?s2 = (if firstpaddr ?s2 + 1 * 4096 > lastpaddr ?s2 then Ok 0 (?s2\<lparr>mts := u\<rparr>)
         else Ok (MIPS_KSEG0 + firstpaddr ?s2) (?s2\<lparr>mts := u, firstpaddr := firstpaddr ?s2 + 1 * 4096\<rparr>))"
        by (rule alloc_kpages_run[OF r2, of 1]) (simp_all del: One_nat_def)
      show ?thesis
      proof (cases "firstpaddr s + 4096 > lastpaddr s")
        case True
        then have k: "alloc_kpages 1 ?s2 = Ok 0 (?s2\<lparr>mts := u\<rparr>)" using u(2) by simp
        let ?s3 = "?s2\<lparr>mts := u\<rparr>"
        have "length (pagerefs_inuse ?s3) = 8" "p \<in> inuse ?s3" using a(4,5) by (simp_all add: inuse_def)
        then obtain l' where l': "freepageref p ?s3 = Ok () (?s3\<lparr>pagerefs_inuse := l'\<rparr>)" "inuse (?s3\<lparr>pagerefs_inuse := l'\<rparr>) = inuse ?s3 - {p}" "length l' = 8"
          by (rule freepageref_run)
        let ?s4 = "?s3\<lparr>pagerefs_inuse := l', mts := spl_set ?spl u\<rparr>"
        have "inuse (s\<lparr>pagerefs_inuse := l'\<rparr>) = inuse s" using l'(2) a(3,4) by (simp add: inuse_def)
        then have "hinv0 (s\<lparr>pagerefs_inuse := l'\<rparr>) all fl live" by (rule hinv0_inuse[OF h(1) _ l'(3)])
        then have "hinv (s\<lparr>pagerefs_inuse := l'\<rparr>) live" by (rule hinvI) (use h(2) in simp)
        moreover have "?s4 = s\<lparr>pagerefs_inuse := l'\<rparr>\<lparr>mts := spl_set ?spl u\<rparr>" by (cases s) simp
        ultimately have "hinv ?s4 live" by simp
        moreover have "subpage_kmalloc sz s = Ok NULL ?s4"
          using run None l'(1) by (simp add: bind_Ok[of allocpageref ?s, OF a(1)] bind_Ok[of "alloc_kpages 1" ?s2, OF k] bind_def[of "freepageref p"] del: One_nat_def)
        ultimately show ?thesis using True by (intro exI[of _ NULL] exI[of _ ?s4]) (simp add: served_def keeps_def rest_same_def refused_def)
      next
        case False
        let ?pg = "MIPS_KSEG0 + firstpaddr s"
        have k: "alloc_kpages 1 ?s2 = Ok ?pg (?s2\<lparr>mts := u, firstpaddr := firstpaddr s + 4096\<rparr>)" using u(2) False by simp
        let ?s3 = "?s2\<lparr>mts := u, firstpaddr := firstpaddr s + 4096\<rparr>"
        have al: "?pg mod 4096 = 0" using d(1) by (simp add: ram_ok_def MIPS_KSEG0_def mod_add_right_eq[symmetric])
        have rm: "ram_ok ?s3" "in_ram ?s3 ?pg 4096" using d(1) False by (auto simp: ram_ok_def in_ram_def mod_add_left_eq[symmetric])
        obtain m r where n: "new_page p ?pg ?t ?s3 = Ok () (?s3\<lparr>mwords := m, pagerefs := (pagerefs ?s3)(p := r),
            sizebases := (sizebases ?s3)[?t := Some p], allbase := Some p\<rparr>)"
          "page_ok m r (block_list ?pg (bsize ?t) (nblocks ?t))" "PR_PAGEADDR r = ?pg" "PR_BLOCKTYPE r = ?t"
          "next_samesize r = sizebases ?s3 ! ?t" "next_all r = allbase ?s3" "\<forall>x. x \<notin> {?pg..<?pg + 4096} \<longrightarrow> m x = mwords ?s3 x"
          by (rule new_page_run[OF rm al t(1)])
        let ?s4 = "?s3\<lparr>mwords := m, pagerefs := (pagerefs ?s3)(p := r), sizebases := (sizebases ?s3)[?t := Some p], allbase := Some p\<rparr>"
        have h0: "hinv0 (s\<lparr>mts := u\<rparr>) all fl live" using h(1) by simp
        have iu: "inuse ?s4 = insert p (inuse (s\<lparr>mts := u\<rparr>))" using a(4) by (simp add: inuse_def)
        have pn: "p \<notin> set all" using a(3) d(3) by simp
        have s4: "?s4 = (s\<lparr>mts := u\<rparr>)\<lparr>firstpaddr := firstpaddr (s\<lparr>mts := u\<rparr>) + 4096, pagerefs_inuse := l, mwords := m, pagerefs := (pagerefs (s\<lparr>mts := u\<rparr>))(p := r),
            sizebases := (sizebases (s\<lparr>mts := u\<rparr>))[?t := Some p], allbase := Some p\<rparr>" by (cases s) simp
        note hn = hinv0_new[OF h0 pn a(2) t(1) _ _ s4 iu a(5) n(2-4)]
        have h4: "hinv0 ?s4 (p # all) (fl(p := block_list ?pg (bsize ?t) (nblocks ?t))) live" "keeps live (s\<lparr>mts := u\<rparr>) ?s4"
          by (rule hn; use n(5-7) False in simp)+
        have k4: "keeps live s ?s4" using h4(2) by (simp add: keeps_def)
        have bl: "block_list ?pg (bsize ?t) (nblocks ?t) = (?pg + (nblocks ?t - 1) * bsize ?t) # block_list ?pg (bsize ?t) (nblocks ?t - 1)"
          using block_list_Suc[of ?pg "bsize ?t" "nblocks ?t - 1"] bsize_facts(4)[OF t(1)] by simp
        have "\<exists>s'. doalloc p ?spl ?s4 = Ok (?pg + (nblocks ?t - 1) * bsize ?t) s' \<and> served s live sz (?pg + (nblocks ?t - 1) * bsize ?t) s'"
          by (rule doalloc_served[OF h4(1) _ _ _ assms(2) _ k4, of p _ "block_list ?pg (bsize ?t) (nblocks ?t - 1)"])
            (use bl n(4) h(2) pn bsize_facts(4)[OF t(1)] in \<open>auto simp: rest_same_def\<close>)
        moreover have "subpage_kmalloc sz s = doalloc p ?spl ?s4"
          using run None n(1) by (simp add: bind_Ok[of allocpageref ?s, OF a(1)] bind_Ok[of "alloc_kpages 1" ?s2, OF k] bind_def[of "new_page p ?pg ?t"] kseg0_pos del: One_nat_def)
        ultimately show ?thesis by auto
      qed
    qed
  qed
qed

lemma hinv0_big:
  assumes "hinv0 s all fl live" "2048 \<le> sz" "firstpaddr s + npg sz * 4096 \<le> lastpaddr s" "pg = MIPS_KSEG0 + firstpaddr s"
    "s' = s\<lparr>firstpaddr := firstpaddr s + npg sz * 4096\<rparr>"
  shows "hinv0 s' all fl (live(pg \<mapsto> sz))" "live pg = None"
proof -
  note d = hinv0D[OF assms(1)]
  have n: "0 < npg sz" using assms(2) by (simp add: npg_def)
  show none: "live pg = None"
  proof (cases "live pg")
    case (Some z)
    have "0 < extent z" using bt_facts[of z] bsize_facts(1)[of "bt z"] by (cases "2048 \<le> z") (auto simp: extent_def npg_def)
    then show ?thesis using hinv0_in_ram(1)[OF assms(1) Some] assms(4) by (simp add: in_ram_def)
  qed
  have in_ram: "in_ram s a k \<Longrightarrow> in_ram s' a k" "in_ram s a k \<Longrightarrow> apart a k pg j" "in_ram s a k \<Longrightarrow> apart pg j a k" for a k j
    using assms(4,5) by (auto simp: in_ram_def apart_def)
  have eq: "pagerefs s' = pagerefs s" "mwords s' = mwords s" "inuse s' = inuse s" "lists_ok s' = lists_ok s" "live_ok s' = live_ok s"
    using assms(5) by (simp_all add: inuse_def lists_ok_def live_ok_def fun_eq_iff)
  have fp: "0 < firstpaddr s" "firstpaddr s mod 4096 = 0" using d(1) by (simp_all add: ram_ok_def)
  have ram: "ram_ok s'" using d(1) assms(3,5) by (simp add: ram_ok_def mod_add_left_eq[symmetric])
  have pgr: "in_ram s' pg (npg sz * 4096)" "pg mod 4096 = 0"
    using assms(4,5) fp by (simp_all add: in_ram_def MIPS_KSEG0_def mod_add_right_eq[symmetric])
  have reg: "regions_ok s' all (live(pg \<mapsto> sz))"
    unfolding regions_ok_def
  proof (intro conjI allI ballI impI)
    fix p assume "p \<in> set all" then show "in_ram s' (pgaddr s' p) 4096" using d(7) in_ram(1) eq(1) by simp
  next
    fix p q assume "p \<in> set all" "q \<in> set all" "p \<noteq> q" then show "apart (pgaddr s' p) 4096 (pgaddr s' q) 4096" using d(8) eq(1) by simp
  next
    fix a z assume h: "(live(pg \<mapsto> sz)) a = Some z" "2048 \<le> z"
    have "a mod 4096 = 0 \<and> in_ram s' a (npg z * 4096) \<and> (\<forall>p \<in> set all. apart a (npg z * 4096) (pgaddr s' p) 4096)"
      using h pgr d(5) in_ram d(7) eq(1) by (cases "a = pg") (auto simp: regions_ok_def)
    then show "a mod 4096 = 0" "in_ram s' a (npg z * 4096)" "\<And>p. p \<in> set all \<Longrightarrow> apart a (npg z * 4096) (pgaddr s' p) 4096" by auto
  next
    fix a z b w assume h: "(live(pg \<mapsto> sz)) a = Some z" "2048 \<le> z" "(live(pg \<mapsto> sz)) b = Some w" "2048 \<le> w" "a \<noteq> b"
    have old: "in_ram s c (npg y * 4096)" if "live c = Some y" "2048 \<le> y" for c y using d(5) that by (auto simp: regions_ok_def)
    show "apart a (npg z * 4096) b (npg w * 4096)"
      using h in_ram(2,3) old d(5) by (cases "a = pg"; cases "b = pg") (auto simp: regions_ok_def)
  qed
  have "live_ok s all fl (live(pg \<mapsto> sz))"
    unfolding live_ok_def
  proof (intro conjI allI impI ballI)
    fix a z assume "(live(pg \<mapsto> sz)) a = Some z" "z < 2048"
    then show "\<exists>p \<in> set all. btype s p = bt z \<and> a \<in> blocks (pgaddr s p) (btype s p) - set (fl p)"
      using d(6) assms(2) by (auto simp: live_ok_def split: if_splits)
  next
    fix p a assume h: "p \<in> set all" "a \<in> blocks (pgaddr s p) (btype s p) - set (fl p)"
    then have "a < pgaddr s p + 4096" using block_in_page(3)[OF assms(1) h(1)] by blast
    then have "a \<noteq> pg" using d(7)[OF h(1)] assms(4) by (simp add: in_ram_def)
    then show "\<exists>z < 2048. (live(pg \<mapsto> sz)) a = Some z" using d(6) h by (auto simp: live_ok_def)
  qed
  then show "hinv0 s' all fl (live(pg \<mapsto> sz))" using ram reg d(2-4) eq by (simp add: hinv0_def)
qed

text \<open>Requests below this bound do not make the computation of the number of pages wrap around.\<close>

abbreviation kmalloc_max :: nat where "kmalloc_max \<equiv> 2 ^ 30"

lemma kmalloc_law:
  assumes "hinv s live" "sz < kmalloc_max"
  shows "\<exists>ptr s'. kmalloc sz s = Ok ptr s' \<and> served s live sz ptr s'"
proof (cases "sz < 2048")
  case True
  then show ?thesis using subpage_kmalloc_law[OF assms(1) True] by (simp add: kmalloc_def LARGEST_SUBPAGE_SIZE_def)
next
  case False
  obtain all fl where h: "hinv0 s all fl live" "\<forall>p \<in> set all. length (fl p) < nblocks (btype s p)" using assms(1) by (auto simp: hinv_def)
  have "u32 (int sz + int PAGE_SIZE - 1) = sz + 4095" by (rule u32_of_nat) (use assms(2) in \<open>simp_all add: PAGE_SIZE_def\<close>)
  then have k: "kmalloc sz = alloc_kpages (npg sz)" using False by (simp add: kmalloc_def LARGEST_SUBPAGE_SIZE_def npg_def PAGE_SIZE_def)
  have "npg sz * 4096 \<le> sz + 4095" by (simp add: npg_def)
  then have lt: "npg sz * 4096 < 2 ^ 31" using assms(2) by simp
  obtain t where t: "curspl t = curspl (mts s)"
    "alloc_kpages (npg sz) s = (if firstpaddr s + npg sz * 4096 > lastpaddr s then Ok 0 (s\<lparr>mts := t\<rparr>)
       else Ok (MIPS_KSEG0 + firstpaddr s) (s\<lparr>mts := t, firstpaddr := firstpaddr s + npg sz * 4096\<rparr>))"
    by (rule alloc_kpages_run[OF hinv0D(1)[OF h(1)] lt])
  show ?thesis
  proof (cases "firstpaddr s + npg sz * 4096 > lastpaddr s")
    case True
    then have "refused s sz" using \<open>npg sz * 4096 \<le> sz + 4095\<close> by (simp add: refused_def)
    then show ?thesis using True k t assms(1) by (intro exI[of _ NULL] exI[of _ "s\<lparr>mts := t\<rparr>"]) (simp add: served_def keeps_def rest_same_def)
  next
    case False
    let ?sm = "s\<lparr>mts := t\<rparr>" and ?pg = "MIPS_KSEG0 + firstpaddr s"
    let ?s = "?sm\<lparr>firstpaddr := firstpaddr s + npg sz * 4096\<rparr>"
    have h0: "hinv0 ?sm all fl live" using h(1) by simp
    have "hinv0 ?s all fl (live(?pg \<mapsto> sz))" "live ?pg = None"
      by (rule hinv0_big[OF h0, of sz]; use False \<open>\<not> sz < 2048\<close> in simp)+
    then have "served s live sz ?pg ?s"
      using \<open>npg sz * 4096 \<le> sz + 4095\<close> hinvI[of ?s all fl "live(?pg \<mapsto> sz)"] h(2) t(1) kseg0_pos by (simp add: served_def keeps_def rest_same_def)
    then show ?thesis using k t(2) False by (intro exI[of _ ?pg] exI[of _ ?s]) simp
  qed
qed

text \<open>Callers write to the blocks they have: an allocated block has nothing in common with the free lists.\<close>

lemma block_not_free:
  assumes "hinv0 s all fl live" "live a = Some z" "a \<le> y" "y < a + extent z" "q \<in> set all" "x \<in> set (fl q)"
  shows "y \<noteq> x"
proof -
  note d = hinv0D[OF assms(1)] and q = assms(5) and x = assms(6)
  have xb: "x \<in> blocks (pgaddr s q) (btype s q)" using page_okD(5)[OF d(4)[OF q]] x by auto
  note b = block_in_page[OF assms(1) q xb]
  show ?thesis
  proof (cases "z < 2048")
    case True
    obtain p where p: "p \<in> set all" "extent z = bsize (btype s p)" "a \<in> blocks (pgaddr s p) (btype s p)" "a \<notin> set (fl p)"
      by (rule live_small[OF d(6) assms(2) True]) blast
    show ?thesis
    proof (cases "p = q")
      case True
      then have "a \<noteq> x" using p(4) x by auto
      then show ?thesis using blocks_apart[OF p(3), of x] xb True p(2) assms(3,4) bsize_facts(1)[OF d(9)[OF q]] by auto
    next
      case False
      then have "apart (pgaddr s p) 4096 (pgaddr s q) 4096" using d(8) p(1) q by blast
      then show ?thesis using b(1,3) block_in_page(1,2)[OF assms(1) p(1,3)] p(2) assms(3,4) by (auto simp: apart_def)
    qed
  next
    case False
    then have "apart a (npg z * 4096) (pgaddr s q) 4096" using big_apart(1)[OF assms(1,2) _ q] by simp
    then show ?thesis using b(1,3) assms(3,4) False by (auto simp: apart_def extent_def)
  qed
qed

lemma page_ok_cong: "(\<And>x. x \<in> set fl \<Longrightarrow> m x = m' x) \<Longrightarrow> page_ok m r fl = page_ok m' r fl"
  by (cases fl) (auto simp: page_ok_def fchain_cong[of _ m m'])

lemma hinv_memory:
  assumes "hinv s live" "\<And>y. m y \<noteq> mwords s y \<Longrightarrow> \<exists>a z. live a = Some z \<and> a \<le> y \<and> y < a + extent z"
  shows "hinv (s\<lparr>mwords := m\<rparr>) live"
proof -
  obtain all fl where h: "hinv0 s all fl live" "\<forall>p \<in> set all. length (fl p) < nblocks (btype s p)" using assms(1) by (auto simp: hinv_def)
  have "page_ok m (pagerefs s q) (fl q)" if q: "q \<in> set all" for q
  proof -
    have "mwords s x = m x" if x: "x \<in> set (fl q)" for x using assms(2)[of x] block_not_free[OF h(1) _ _ _ q x] by fastforce
    then show ?thesis using hinv0D(4)[OF h(1) q] page_ok_cong[of "fl q" "mwords s" m] by blast
  qed
  then have "hinv0 (s\<lparr>mwords := m\<rparr>) all fl live"
    using h(1) by (simp add: hinv0_def ram_ok_def lists_ok_def inuse_def regions_ok_def in_ram_def live_ok_def)
  then show ?thesis by (rule hinvI) (use h(2) in simp)
qed

lemma hinv_client:
  assumes "hinv s live" "live a = Some z" "a \<le> y" "y < a + extent z"
  shows "hinv (s\<lparr>mwords := (mwords s)(y := v)\<rparr>) live"
  by (rule hinv_memory[OF assms(1)]) (use assms(2-4) in \<open>auto split: if_splits\<close>)

section \<open>The contract of the heap\<close>

text \<open>
  What the users of a heap rely on: an allocation hands out a block that nobody has or refuses, a block can be given back, and neither
  touches the blocks of others; and the owner of a block may write to it.
\<close>

locale block_heap =
  fixes inv :: "'s \<Rightarrow> (nat \<Rightarrow> nat option) \<Rightarrow> bool"
    and alloc :: "nat \<Rightarrow> ('s \<Rightarrow> (nat, 's) outcome)"
    and release :: "nat \<Rightarrow> ('s \<Rightarrow> (unit, 's) outcome)"
    and peek :: "'s \<Rightarrow> nat \<Rightarrow> nat"
    and poke :: "nat \<Rightarrow> nat \<Rightarrow> 's \<Rightarrow> 's"
    and limit :: nat
    and full :: "'s \<Rightarrow> nat \<Rightarrow> bool"
  assumes alloc_law: "inv s live \<Longrightarrow> sz < limit \<Longrightarrow> \<exists>a s'. alloc sz s = Ok a s' \<and>
      (if a = 0 then inv s' live \<and> full s sz else live a = None \<and> inv s' (live(a \<mapsto> sz))) \<and>
      (\<forall>b z y. live b = Some z \<longrightarrow> b \<le> y \<longrightarrow> y < b + z \<longrightarrow> peek s' y = peek s y)"
    and release_law: "inv s live \<Longrightarrow> live a = Some w \<Longrightarrow> \<exists>s'. release a s = Ok () s' \<and> inv s' (live(a := None)) \<and>
      (\<forall>b z y. live b = Some z \<longrightarrow> b \<noteq> a \<longrightarrow> b \<le> y \<longrightarrow> y < b + z \<longrightarrow> peek s' y = peek s y)"
    and poke_law: "inv s live \<Longrightarrow> live a = Some z \<Longrightarrow> a \<le> y \<Longrightarrow> y < a + z \<Longrightarrow> inv (poke y v s) live"
    and apart_law: "inv s live \<Longrightarrow> live a = Some w \<Longrightarrow> live b = Some z \<Longrightarrow> a \<noteq> b \<Longrightarrow> a + w \<le> b \<or> b + z \<le> a"
begin

lemma alloc_separate:
  assumes "inv s live" "sz < limit" "alloc sz s = Ok a s'" "a \<noteq> 0" "live b = Some z"
  shows "a + sz \<le> b \<or> b + z \<le> a"
proof -
  from alloc_law[OF assms(1,2)] assms(3,4) have "live a = None" "inv s' (live(a \<mapsto> sz))" by auto
  with apart_law[of s' "live(a \<mapsto> sz)" a sz b z] assms(5) show ?thesis by (cases "a = b") auto
qed

lemma alloc_step:
  assumes "inv s live" "sz < limit" "alloc sz s = Ok a s'"
  shows "inv s' (if a = 0 then live else live(a \<mapsto> sz))"
  using alloc_law[OF assms(1,2)] assms(3) by (auto split: if_splits)

lemma release_step:
  assumes "inv s live" "live a = Some w" "release a s = Ok () s'"
  shows "inv s' (live(a := None))"
  using release_law[OF assms(1,2)] assms(3) by auto

end

lemma keepsD: "keeps live s s' \<Longrightarrow> live b = Some z \<Longrightarrow> b \<le> y \<Longrightarrow> y < b + extent z \<Longrightarrow> mwords s' y = mwords s y"
  unfolding keeps_def by blast

lemma extent_mono: "hinv s live \<Longrightarrow> live b = Some z \<Longrightarrow> z \<le> extent z"
  by (auto simp: hinv_def dest: hinv0_in_ram(3))

interpretation kh: block_heap hinv kmalloc kfree mwords "\<lambda>y v s. s\<lparr>mwords := (mwords s)(y := v)\<rparr>" kmalloc_max refused
proof (unfold_locales, goal_cases)
  case (1 s live sz)
  from kmalloc_law[OF this] obtain a s' where a: "kmalloc sz s = Ok a s'" "served s live sz a s'" by blast
  have "mwords s' y = mwords s y" if "live b = Some z" "b \<le> y" "y < b + z" for b z y
    using keepsD[of live s s', OF _ that(1,2)] a(2) that(3) extent_mono[OF 1(1) that(1)] by (simp add: served_def)
  then show ?case using a by (auto simp: served_def)
next
  case (2 s live a w)
  then obtain s' where s': "kfree a s = Ok () s'" "hinv s' (live(a := None))" "keeps (live(a := None)) s s'" by (rule kfree_law)
  have "mwords s' y = mwords s y" if "live b = Some z" "b \<noteq> a" "b \<le> y" "y < b + z" for b z y
    using keepsD[OF s'(3) _ that(3), of z] that extent_mono[OF 2(1) that(1)] by simp
  then show ?case using s' by blast
next
  case (3 s live a z y v)
  then show ?case using hinv_client[OF 3(1,2,3)] extent_mono[OF 3(1,2)] by simp
next
  case (4 s live a w b z)
  then show ?case using extent_mono[OF 4(1,2)] extent_mono[OF 4(1,3)] by (auto simp: hinv_def apart_def dest!: hinv0_apart[of s _ _ live a w b z])
qed

section \<open>Runs\<close>

text \<open>
  The machine when the heap is first used: no page record is in use, and the first free page follows the kernel. Then
  any sequence of calls and writes: requests of less than a gigabyte, \<open>kfree\<close> of blocks that are allocated, and writes inside
  allocated blocks.
\<close>

definition hboot :: "kmach \<Rightarrow> bool" where
  "hboot s \<longleftrightarrow> ram_ok s \<and> pagerefs_inuse s = replicate 8 0 \<and> sizebases s = replicate 8 None \<and> allbase s = None"

inductive heap_run :: "kmach \<Rightarrow> (nat \<Rightarrow> nat option) \<Rightarrow> bool" where
  heap_boot: "hboot s \<Longrightarrow> heap_run s Map.empty"
| heap_alloc: "heap_run s live \<Longrightarrow> sz < 2 ^ 30 \<Longrightarrow> kmalloc sz s = Ok a s' \<Longrightarrow> heap_run s' (if a = 0 then live else live(a \<mapsto> sz))"
| heap_free: "heap_run s live \<Longrightarrow> live a = Some w \<Longrightarrow> kfree a s = Ok () s' \<Longrightarrow> heap_run s' (live(a := None))"
| heap_write: "heap_run s live \<Longrightarrow> live a = Some z \<Longrightarrow> a \<le> y \<Longrightarrow> y < a + z \<Longrightarrow> heap_run (s\<lparr>mwords := (mwords s)(y := v)\<rparr>) live"

lemma hboot_hinv:
  assumes "hboot s" shows "hinv s Map.empty"
proof -
  have iu: "inuse s = {}" using assms by (auto simp: hboot_def inuse_def)
  have "hinv0 s [] (\<lambda>_. []) Map.empty"
    using assms iu by (auto simp: hinv0_def hboot_def lists_ok_def regions_ok_def live_ok_def)
  then show ?thesis by (rule hinvI) simp
qed

lemma heap_run_hinv: "heap_run s live \<Longrightarrow> hinv s live"
proof (induction rule: heap_run.induct)
  case (heap_alloc s live sz a s')
  then show ?case using kh.alloc_step by blast
next
  case (heap_free s live a w s')
  then show ?case using kh.release_step by blast
next
  case (heap_write s live a z y v)
  then show ?case using kh.poke_law by blast
qed (rule hboot_hinv)

lemma heap_run_place:
  assumes "heap_run s live" "live a = Some z"
  shows "a mod 8 = 0 \<and> MIPS_KSEG0 < a \<and> a + z \<le> MIPS_KSEG0 + lastpaddr s"
proof -
  obtain all fl where h: "hinv0 s all fl live" using heap_run_hinv[OF assms(1)] by (auto simp: hinv_def)
  have "firstpaddr s \<le> lastpaddr s" using hinv0D(1)[OF h] by (simp add: ram_ok_def)
  then show ?thesis using hinv0_in_ram[OF h assms(2)] by (simp add: in_ram_def)
qed

lemma heap_run_kmalloc:
  assumes "heap_run s live" "sz < 2 ^ 30"
  shows "\<exists>a s'. kmalloc sz s = Ok a s' \<and> (a = 0 \<longrightarrow> refused s sz) \<and> (\<forall>b z. live b = Some z \<longrightarrow>
     (a \<noteq> 0 \<longrightarrow> a + sz \<le> b \<or> b + z \<le> a) \<and> (\<forall>y. b \<le> y \<and> y < b + z \<longrightarrow> mwords s' y = mwords s y))"
proof -
  note h = heap_run_hinv[OF assms(1)]
  from kh.alloc_law[OF h assms(2)] obtain a s' where a: "kmalloc sz s = Ok a s'" "a = 0 \<longrightarrow> refused s sz"
    "\<And>b z y. live b = Some z \<Longrightarrow> b \<le> y \<Longrightarrow> y < b + z \<Longrightarrow> mwords s' y = mwords s y" by (auto split: if_splits)
  with kh.alloc_separate[OF h assms(2) a(1)] show ?thesis by blast
qed

text \<open>
  C30: Blocks never overlap. Whatever blocks are allocated, freed and written to since boot: allocated blocks are aligned to eight bytes, lie in
  the memory of the machine and are disjoint; \<open>kmalloc\<close> of less than a gigabyte and \<open>kfree\<close> of an allocated block fail no assertion; \<open>kmalloc\<close> returns
  a block that is disjoint from all allocated ones, and NULL only if memory has run out (up to a page) or, for a block smaller than half a page, if all 256 page records are in use; and neither changes what is in the blocks of others.
\<close>

theorem kmalloc_blocks_disjoint:
  assumes "heap_run s live"
  shows "(\<forall>a z. live a = Some z \<longrightarrow> a mod 8 = 0 \<and> MIPS_KSEG0 < a \<and> a + z \<le> MIPS_KSEG0 + lastpaddr s) \<and>
    (\<forall>a w b z. live a = Some w \<and> live b = Some z \<and> a \<noteq> b \<longrightarrow> a + w \<le> b \<or> b + z \<le> a) \<and>
    (\<forall>sz < 2 ^ 30. \<exists>a s'. kmalloc sz s = Ok a s' \<and>
       (a = 0 \<longrightarrow> lastpaddr s < firstpaddr s + sz + 4096 \<or> sz < 2048 \<and> inuse s = {..<256}) \<and> (\<forall>b z. live b = Some z \<longrightarrow>
       (a \<noteq> 0 \<longrightarrow> a + sz \<le> b \<or> b + z \<le> a) \<and> (\<forall>y. b \<le> y \<and> y < b + z \<longrightarrow> mwords s' y = mwords s y))) \<and>
    (\<forall>a w. live a = Some w \<longrightarrow> (\<exists>s'. kfree a s = Ok () s' \<and>
       (\<forall>b z y. live b = Some z \<and> b \<noteq> a \<and> b \<le> y \<and> y < b + z \<longrightarrow> mwords s' y = mwords s y)))"
proof (intro conjI allI impI)
  fix a w assume "live a = Some w"
  from kh.release_law[OF heap_run_hinv[OF assms] this]
  show "\<exists>s'. kfree a s = Ok () s' \<and> (\<forall>b z y. live b = Some z \<and> b \<noteq> a \<and> b \<le> y \<and> y < b + z \<longrightarrow> mwords s' y = mwords s y)" by blast
qed (use heap_run_place[OF assms] heap_run_kmalloc[OF assms, unfolded refused_def] kh.apart_law[OF heap_run_hinv[OF assms]] in blast)+

text \<open>A machine with sixteen pages of kernel and a megabyte of memory.\<close>

definition kmach0 :: kmach where
  "kmach0 = \<lparr>mts = tsys0, firstpaddr = 65536, lastpaddr = 1048576, mwords = \<lambda>_. 0,
     pagerefs = \<lambda>_. \<lparr>next_samesize = None, next_all = None, pageaddr_and_blocktype = 0, freelist_offset = 0, nfree = 0\<rparr>,
     pagerefs_inuse = replicate 8 0, sizebases = replicate 8 None, allbase = None, tlb = replicate 64 (0, 0), aspaces = Map.empty\<rparr>"

lemma kmach0_ram [simp]: "firstpaddr kmach0 = 65536" "lastpaddr kmach0 = 1048576"
  by (simp_all add: kmach0_def)

lemma kmach0_boot: "hboot kmach0"
  by (simp add: hboot_def kmach0_def ram_ok_def)

lemma kmach0_alloc:
  assumes "2048 \<le> sz" "sz < 2 ^ 16"
  obtains s where "kmalloc sz kmach0 = Ok 0x80010000 s" "firstpaddr s = 65536 + npg sz * 4096" "lastpaddr s = 1048576" "inuse s = {}"
proof -
  have n: "npg sz * 4096 \<le> sz + 4095" by (simp add: npg_def)
  have r: "ram_ok kmach0" "npg sz * 4096 < 2 ^ 31" using n assms(2) by (simp_all add: ram_ok_def)
  obtain t where t: "alloc_kpages (npg sz) kmach0 = (if firstpaddr kmach0 + npg sz * 4096 > lastpaddr kmach0 then Ok 0 (kmach0\<lparr>mts := t\<rparr>)
     else Ok (MIPS_KSEG0 + firstpaddr kmach0) (kmach0\<lparr>mts := t, firstpaddr := firstpaddr kmach0 + npg sz * 4096\<rparr>))"
    by (rule alloc_kpages_run[OF r])
  have "u32 (int sz + int PAGE_SIZE - 1) = sz + 4095" by (rule u32_of_nat) (use assms(2) in \<open>simp_all add: PAGE_SIZE_def\<close>)
  then have "kmalloc sz = alloc_kpages (npg sz)" using assms(1) by (simp add: kmalloc_def LARGEST_SUBPAGE_SIZE_def npg_def PAGE_SIZE_def)
  moreover have "\<not> lastpaddr kmach0 < firstpaddr kmach0 + npg sz * 4096" using n assms(2) by simp
  ultimately show thesis using t by (intro that[of "kmach0\<lparr>mts := t, firstpaddr := 65536 + npg sz * 4096\<rparr>"]) (simp_all add: MIPS_KSEG0_def inuse_def kmach0_def)
qed

theorem kmalloc_blocks_disjoint_witness:
  "\<exists>s a s'. kmalloc 5000 kmach0 = Ok 0x80010000 s \<and> kmalloc 100 s = Ok a s' \<and> a \<noteq> 0 \<and> (a + 100 \<le> 0x80010000 \<or> 0x80010000 + 5000 \<le> a)"
proof -
  obtain s where s: "kmalloc 5000 kmach0 = Ok 0x80010000 s" "firstpaddr s = 65536 + npg 5000 * 4096" "lastpaddr s = 1048576" "inuse s = {}"
    by (rule kmach0_alloc[of 5000]) simp_all
  have "heap_run s (Map.empty(0x80010000 \<mapsto> 5000))" using heap_alloc[OF heap_boot[OF kmach0_boot] _ s(1)] by simp
  note c = kmalloc_blocks_disjoint[OF this, THEN conjunct2, THEN conjunct2, THEN conjunct1, THEN spec, of 100]
  then obtain a s' where a: "kmalloc 100 s = Ok a s'" "a = 0 \<longrightarrow> lastpaddr s < firstpaddr s + 100 + 4096 \<or> inuse s = {..<256}"
      "\<forall>b z. (Map.empty(0x80010000 \<mapsto> 5000)) b = Some z \<longrightarrow> (a \<noteq> 0 \<longrightarrow> a + 100 \<le> b \<or> b + z \<le> a) \<and> (\<forall>y. b \<le> y \<and> y < b + z \<longrightarrow> mwords s' y = mwords s y)"
    by auto
  have "(0 :: nat) \<in> {..<256}" by simp
  then have "inuse s \<noteq> {..<256}" unfolding s(4) by (metis empty_iff)
  then have "a \<noteq> 0" using a(2) s(2,3) by (simp add: npg_def)
  moreover have "a \<noteq> 0 \<longrightarrow> a + 100 \<le> 0x80010000 \<or> 0x80010000 + 5000 \<le> a" using a(3)[THEN spec, of "0x80010000", THEN spec, of 5000] by simp
  ultimately show ?thesis using s(1) a(1) by blast
qed

section \<open>Requests that wrap around\<close>

text \<open>
  C31: A request of nearly four gigabytes is not refused. Its size in bytes is added to the address of the first free page modulo \<open>2 ^ 32\<close>, which moves
  that address back by a page: \<open>kmalloc\<close> returns a block, and the next request for a page is served with the last page that was handed out before,
  which is still in use.
\<close>

theorem kmalloc_huge_request_reuses_page:
  assumes "heap_run s live" "live a = Some 4096" "a + 4096 = MIPS_KSEG0 + firstpaddr s" "4096 < firstpaddr s"
  shows "\<exists>s1 s2. kmalloc (2 ^ 32 - 4096) s = Ok (MIPS_KSEG0 + firstpaddr s) s1 \<and> kmalloc 4096 s1 = Ok a s2"
proof -
  obtain all fl where "hinv0 s all fl live" using heap_run_hinv[OF assms(1)] by (auto simp: hinv_def)
  then have r: "ram_ok s" by (rule hinv0D)
  let ?f = "firstpaddr s"
  have f: "?f < 2 ^ 29" "?f \<le> lastpaddr s" "?f mod 4096 = 0" using r by (simp_all add: ram_ok_def)
  have n1: "u32 (int (2 ^ 32 - 4096) + int PAGE_SIZE - 1) div PAGE_SIZE = 2 ^ 20 - 1" by (simp add: u32_def PAGE_SIZE_def)
  have sz: "u32 (int (2 ^ 20 - 1) * int PAGE_SIZE) = 2 ^ 32 - 4096" by (simp add: u32_def PAGE_SIZE_def)
  have e: "int ?f + int (2 ^ 32 - 4096) = (int ?f - 4096) + 2 ^ 32" by simp
  have "(int ?f - 4096) mod 2 ^ 32 = int ?f - 4096" by (rule mod_pos_pos_trivial) (use f(1) assms(4) in simp_all)
  then have w: "u32 (int ?f + int (2 ^ 32 - 4096)) = ?f - 4096" unfolding u32_def e mod_add_self2 by simp
  let ?t = "spl_set (curspl (mts s)) (spl_set SPL_HIGH (mts s))"
  let ?s1 = "s\<lparr>mts := ?t, firstpaddr := ?f - 4096\<rparr>"
  have kv: "PADDR_TO_KVADDR ?f = MIPS_KSEG0 + ?f" unfolding PADDR_TO_KVADDR_def by (rule u32_of_nat) (use f(1) in \<open>simp_all add: MIPS_KSEG0_def\<close>)
  have c: "s\<lparr>mts := u, firstpaddr := g\<rparr>\<lparr>mts := v\<rparr> = s\<lparr>mts := v, firstpaddr := g\<rparr>" for u v g by (cases s) simp
  have k: "kmalloc (2 ^ 32 - 4096) = alloc_kpages (2 ^ 20 - 1)" unfolding kmalloc_def n1 by (simp add: LARGEST_SUBPAGE_SIZE_def)
  have st: "ram_stealmem (2 ^ 20 - 1) x = Ok ?f (x\<lparr>firstpaddr := ?f - 4096\<rparr>)" if "firstpaddr x = ?f" "lastpaddr x = lastpaddr s" for x
  proof -
    have "\<not> ?f - 4096 > lastpaddr s" using f(2) by linarith
    then show ?thesis unfolding ram_stealmem_def Let_def sz that w by (rule if_not_P)
  qed
  have "getppages (2 ^ 20 - 1) s = Ok ?f ?s1"
    unfolding getppages_def by (simp add: bind_def[of "ram_stealmem n" for n] st[simplified] c)
  then have k1: "kmalloc (2 ^ 32 - 4096) s = Ok (MIPS_KSEG0 + ?f) ?s1"
    unfolding k alloc_kpages_def bind_def using assms(4) kv by simp
  have "4096 dvd ?f" using f(3) by (simp add: dvd_eq_mod_eq_0)
  then have "(?f - 4096) mod 4096 = 0" using assms(4) by (simp add: dvd_eq_mod_eq_0[symmetric] dvd_diff_nat)
  moreover have "?f - 4096 \<le> lastpaddr s" using f(2) by linarith
  ultimately have r1: "ram_ok ?s1" using r assms(4) by (simp add: ram_ok_def)
  obtain t2 where t2: "alloc_kpages 1 ?s1 = (if firstpaddr ?s1 + 1 * 4096 > lastpaddr ?s1 then Ok 0 (?s1\<lparr>mts := t2\<rparr>)
      else Ok (MIPS_KSEG0 + firstpaddr ?s1) (?s1\<lparr>mts := t2, firstpaddr := firstpaddr ?s1 + 1 * 4096\<rparr>))"
    by (rule alloc_kpages_run[OF r1, of 1]) (simp_all del: One_nat_def)
  have k2: "kmalloc 4096 = alloc_kpages 1" by (simp add: kmalloc_def LARGEST_SUBPAGE_SIZE_def PAGE_SIZE_def u32_def)
  have "kmalloc 4096 ?s1 = Ok a (?s1\<lparr>mts := t2, firstpaddr := ?f\<rparr>)" unfolding k2 t2 using f(2) assms(3,4) by simp
  with k1 show ?thesis by blast
qed

theorem kmalloc_huge_request_reuses_page_witness:
  "\<exists>s s1 s2. kmalloc 4096 kmach0 = Ok 0x80010000 s \<and> kmalloc (2 ^ 32 - 4096) s = Ok 0x80011000 s1 \<and> kmalloc 4096 s1 = Ok 0x80010000 s2"
proof -
  obtain s where s: "kmalloc 4096 kmach0 = Ok 0x80010000 s" "firstpaddr s = 65536 + npg 4096 * 4096" by (rule kmach0_alloc[of 4096]) simp_all
  have r: "heap_run s (Map.empty(0x80010000 \<mapsto> 4096))" using heap_alloc[OF heap_boot[OF kmach0_boot] _ s(1)] by simp
  have f: "firstpaddr s = 69632" using s(2) by (simp add: npg_def)
  from kmalloc_huge_request_reuses_page[OF r, of "0x80010000"] s(1) f show ?thesis by (auto simp: MIPS_KSEG0_def)
qed

end
