(* ===== verification/Vm_Props.thy ===== *)
theory Vm_Props
  imports Vm_Model Kheap_Claims
begin

text \<open>
  The invariant of address spaces: every run of pages of an address space is a block of its own among the blocks of
  the kernel heap, and valid entries of the TLB point into the pages of the address space that was
  activated last. Then what each operation of \<open>dumbvm.c\<close> does in a state that satisfies it.
\<close>

section \<open>Invariant\<close>

text \<open>The runs of pages of an address space: physical address and number of pages.\<close>

definition as_run :: "addrspace \<Rightarrow> nat \<Rightarrow> nat \<times> nat" where
  "as_run x i = (if i = 0 then (as_pbase1 x, as_npages1 x) else if i = 1 then (as_pbase2 x, as_npages2 x) else (as_stackpbase x, DUMBVM_STACKPAGES))"

definition as_mem :: "addrspace \<Rightarrow> nat set" where
  "as_mem x = {p. \<exists>i < 3. fst (as_run x i) \<noteq> 0 \<and> fst (as_run x i) \<le> p \<and> p < fst (as_run x i) + snd (as_run x i) * 4096}"

definition unloaded :: "addrspace \<Rightarrow> bool" where
  "unloaded x \<longleftrightarrow> as_pbase1 x = 0 \<and> as_pbase2 x = 0 \<and> as_stackpbase x = 0"

text \<open>
  \<open>R\<close> holds the blocks that belong to the address spaces, \<open>own\<close> says which run of which address space begins at an address.
\<close>

definition run_ok :: "(nat \<Rightarrow> nat option) \<Rightarrow> (nat \<Rightarrow> (nat \<times> nat) option) \<Rightarrow> nat \<Rightarrow> nat \<Rightarrow> nat \<times> nat \<Rightarrow> bool" where
  "run_ok R own a i r \<longleftrightarrow> snd r * 4096 < 2 ^ 31 \<and> fst r mod 4096 = 0 \<and> fst r < 2 ^ 29 \<and>
     (fst r \<noteq> 0 \<longrightarrow> 0 < snd r \<longrightarrow> R (MIPS_KSEG0 + fst r) = Some (snd r * 4096) \<and> own (fst r) = Some (a, i))"

definition as_ok :: "(nat \<Rightarrow> nat option) \<Rightarrow> (nat \<Rightarrow> (nat \<times> nat) option) \<Rightarrow> nat \<Rightarrow> addrspace \<Rightarrow> bool" where
  "as_ok R own a x \<longleftrightarrow> R a = Some 28 \<and>
     as_vbase1 x mod 4096 = 0 \<and> as_vbase1 x < 2 ^ 32 \<and> as_vbase2 x mod 4096 = 0 \<and> as_vbase2 x < 2 ^ 32 \<and>
     (\<forall>i < 3. run_ok R own a i (as_run x i))"

definition tlb_valid :: "nat \<times> nat \<Rightarrow> bool" where
  "tlb_valid e \<longleftrightarrow> snd e AND TLBLO_VALID \<noteq> 0"

definition tlb_page :: "nat \<times> nat \<Rightarrow> nat" where
  "tlb_page e = snd e AND PAGE_FRAME"

definition entry_ok :: "addrspace \<Rightarrow> nat \<times> nat \<Rightarrow> bool" where
  "entry_ok x e \<longleftrightarrow> fault_paddr x (fst e) = Some (tlb_page e) \<and> fst e mod 4096 = 0 \<and> fst e < 2 ^ 32 \<and>
     (\<forall>k < 4096. tlb_page e + k \<in> as_mem x)"

definition tlb_ok :: "kmach \<Rightarrow> nat option \<Rightarrow> bool" where
  "tlb_ok s act \<longleftrightarrow> length (tlb s) = 64 \<and>
     (\<forall>a e. act = Some a \<longrightarrow> e \<in> set (tlb s) \<longrightarrow> tlb_valid e \<longrightarrow> (\<exists>x. aspaces s a = Some x \<and> entry_ok x e))"

definition vinv0 :: "(nat \<Rightarrow> nat option) \<Rightarrow> (nat \<Rightarrow> (nat \<times> nat) option) \<Rightarrow> kmach \<Rightarrow> (nat \<Rightarrow> nat option) \<Rightarrow> nat option \<Rightarrow> bool" where
  "vinv0 R own s live act \<longleftrightarrow> hinv s (live ++ R) \<and> dom live \<inter> dom R = {} \<and> (\<forall>a x. aspaces s a = Some x \<longrightarrow> as_ok R own a x) \<and> tlb_ok s act"

definition vinv :: "kmach \<Rightarrow> (nat \<Rightarrow> nat option) \<Rightarrow> nat option \<Rightarrow> bool" where
  "vinv s live act \<longleftrightarrow> (\<exists>R own. vinv0 R own s live act)"

lemma as_run_simps [simp]:
  "as_run x 0 = (as_pbase1 x, as_npages1 x)" "as_run x (Suc 0) = (as_pbase2 x, as_npages2 x)" "as_run x 2 = (as_stackpbase x, 12)"
  by (simp_all add: as_run_def DUMBVM_STACKPAGES_def)

lemma all_less_3: "(\<forall>i < 3. Q i) = (Q 0 \<and> Q (Suc 0) \<and> Q (2 :: nat))"
  by (auto simp: numeral_3_eq_3 numeral_2_eq_2 less_Suc_eq)

lemma ex_less_3: "(\<exists>i < 3. Q i) = (Q 0 \<or> Q (Suc 0) \<or> Q (2 :: nat))"
  by (auto simp: numeral_3_eq_3 numeral_2_eq_2 less_Suc_eq)

lemma as_mem_unloaded: "unloaded x \<Longrightarrow> as_mem x = {}"
  by (auto simp: as_mem_def unloaded_def ex_less_3)

lemma tlb_ok_unloaded:
  assumes "tlb_ok s (Some a)" "aspaces s a = Some x" "unloaded x" "e \<in> set (tlb s)"
  shows "\<not> tlb_valid e"
proof
  assume "tlb_valid e"
  then have "entry_ok x e" using assms by (cases e) (auto simp: tlb_ok_def)
  then have "tlb_page e + 0 \<in> as_mem x" unfolding entry_ok_def by (metis zero_less_numeral)
  then show False using as_mem_unloaded[OF assms(3)] by simp
qed

lemma hinv_ram: "hinv s live \<Longrightarrow> ram_ok s"
  by (auto simp: hinv_def dest: hinv0D(1))

lemma hinv_cong: "hinv (s\<lparr>tlb := t\<rparr>) live = hinv s live" "hinv (s\<lparr>aspaces := f\<rparr>) live = hinv s live"
  by (simp_all add: hinv_def hinv0_def ram_ok_def lists_ok_def inuse_def regions_ok_def in_ram_def live_ok_def)

lemma hinv_block:
  assumes "hinv s G" "G a = Some z"
  shows "MIPS_KSEG0 < a" "a + z \<le> MIPS_KSEG0 + firstpaddr s"
proof -
  obtain all fl where h: "hinv0 s all fl G" using assms(1) by (auto simp: hinv_def)
  show "MIPS_KSEG0 < a" "a + z \<le> MIPS_KSEG0 + firstpaddr s" using hinv0_in_ram[OF h assms(2)] by (simp_all add: in_ram_def)
qed

section \<open>Pages for an address space\<close>

definition G_add :: "(nat \<Rightarrow> nat option) \<Rightarrow> nat \<Rightarrow> nat \<Rightarrow> (nat \<Rightarrow> nat option)" where
  "G_add G p n = (if p = 0 \<or> n = 0 then G else G(MIPS_KSEG0 + p \<mapsto> n * 4096))"

lemma getppages_law:
  assumes "hinv s G" "n * 4096 < 2 ^ 31"
  obtains p f t where "getppages n s = Ok p (s\<lparr>mts := t, firstpaddr := f\<rparr>)" "hinv (s\<lparr>mts := t, firstpaddr := f\<rparr>) (G_add G p n)"
    "p mod 4096 = 0" "p < 2 ^ 29" "p = 0 \<or> n = 0 \<or> G (MIPS_KSEG0 + p) = None" "curspl t = curspl (mts s)"
    "p = 0 \<longrightarrow> lastpaddr s < firstpaddr s + n * 4096" "f \<le> firstpaddr s + n * 4096"
proof -
  obtain all fl where h: "hinv0 s all fl G" "\<forall>p \<in> set all. length (fl p) < nblocks (btype s p)" using assms(1) by (auto simp: hinv_def)
  note r = hinv0D(1)[OF h(1)]
  obtain t where t: "curspl t = curspl (mts s)"
    "getppages n s = (if firstpaddr s + n * 4096 > lastpaddr s then Ok 0 (s\<lparr>mts := t\<rparr>)
       else Ok (firstpaddr s) (s\<lparr>mts := t, firstpaddr := firstpaddr s + n * 4096\<rparr>))"
    by (rule getppages_run[OF r assms(2)])
  have id: "s\<lparr>mts := t, firstpaddr := firstpaddr s\<rparr> = s\<lparr>mts := t\<rparr>" by (cases s) simp
  have f: "firstpaddr s mod 4096 = 0" "firstpaddr s < 2 ^ 29" "firstpaddr s \<noteq> 0" using r by (simp_all add: ram_ok_def)
  show thesis
  proof (cases "firstpaddr s + n * 4096 > lastpaddr s \<or> n = 0")
    case True
    show thesis
    proof (rule that[of "if n = 0 \<and> firstpaddr s \<le> lastpaddr s then firstpaddr s else 0" "firstpaddr s" t])
      show "getppages n s = Ok (if n = 0 \<and> firstpaddr s \<le> lastpaddr s then firstpaddr s else 0) (s\<lparr>mts := t, firstpaddr := firstpaddr s\<rparr>)"
        using t(2) True id by auto
    qed (use assms(1) f id t(1) True r in \<open>auto simp: G_add_def ram_ok_def\<close>)
  next
    case False
    have np: "npg (n * 4096) = n" by (simp add: npg_def)
    let ?sm = "s\<lparr>mts := t\<rparr>"
    have h0: "hinv0 ?sm all fl G" using h(1) by simp
    have big: "hinv0 (?sm\<lparr>firstpaddr := firstpaddr s + n * 4096\<rparr>) all fl (G(MIPS_KSEG0 + firstpaddr s \<mapsto> n * 4096))" "G (MIPS_KSEG0 + firstpaddr s) = None"
      by (rule hinv0_big[OF h0, of "n * 4096"]; use False np in simp)+
    show thesis
      by (rule that[of "firstpaddr s" "firstpaddr s + n * 4096" t])
        (use t False f big(2) hinvI[OF big(1)] h(2) in \<open>auto simp: G_add_def\<close>)
  qed
qed

text \<open>A run of pages is handed to an address space.\<close>

definition set_run :: "nat \<Rightarrow> nat \<Rightarrow> addrspace \<Rightarrow> addrspace" where
  "set_run i p = (if i = 0 then as_pbase1_update (\<lambda>_. p) else if i = 1 then as_pbase2_update (\<lambda>_. p) else as_stackpbase_update (\<lambda>_. p))"

lemma as_run_set_run: "i < 3 \<Longrightarrow> j < 3 \<Longrightarrow> as_run (set_run i p x) j = (if j = i then (p, snd (as_run x i)) else as_run x j)"
  by (auto simp: as_run_def set_run_def)

lemma set_run_simps [simp]:
  "as_vbase1 (set_run i p x) = as_vbase1 x" "as_vbase2 (set_run i p x) = as_vbase2 x"
  "as_npages1 (set_run i p x) = as_npages1 x" "as_npages2 (set_run i p x) = as_npages2 x"
  by (simp_all add: set_run_def)

lemma as_ok_mono:
  assumes "as_ok R own a x" "R \<subseteq>\<^sub>m R'" "\<And>p. R (MIPS_KSEG0 + p) \<noteq> None \<Longrightarrow> own' p = own p"
  shows "as_ok R' own' a x"
proof -
  have "R' b = Some z" if "R b = Some z" for b z using assms(2) that by (auto simp: map_le_def dom_def)
  then show ?thesis using assms(1,3) unfolding as_ok_def run_ok_def by auto
qed

text \<open>No translation of the address space is loaded.\<close>

definition quiet_tlb :: "kmach \<Rightarrow> nat option \<Rightarrow> nat \<Rightarrow> bool" where
  "quiet_tlb s act a \<longleftrightarrow> (act = Some a \<longrightarrow> (\<forall>e \<in> set (tlb s). \<not> tlb_valid e))"

lemma quiet_unloaded: "vinv0 R own s live act \<Longrightarrow> aspaces s a = Some x \<Longrightarrow> unloaded x \<Longrightarrow> quiet_tlb s act a"
  using tlb_ok_unloaded[of s a x] by (auto simp: quiet_tlb_def vinv0_def)

lemma tlb_ok_quiet:
  assumes "tlb_ok s act" "quiet_tlb s act a" "tlb s' = tlb s" "\<And>b. b \<noteq> a \<Longrightarrow> aspaces s' b = aspaces s b"
  shows "tlb_ok s' act"
proof (cases "act = Some a")
  case True
  then show ?thesis using assms(1-3) by (auto simp: tlb_ok_def quiet_tlb_def)
next
  case False
  then show ?thesis using assms(1,3,4) by (auto simp: tlb_ok_def)
qed

lemma vinv0D:
  assumes "vinv0 R own s live act"
  shows "hinv s (live ++ R)" "dom live \<inter> dom R = {}" "\<And>a x. aspaces s a = Some x \<Longrightarrow> as_ok R own a x" "tlb_ok s act"
  using assms by (simp_all add: vinv0_def)

lemma as_okD:
  assumes "as_ok R own a x"
  shows "R a = Some 28" "i < 3 \<Longrightarrow> snd (as_run x i) * 4096 < 2 ^ 31" "i < 3 \<Longrightarrow> fst (as_run x i) < 2 ^ 29"
    "i < 3 \<Longrightarrow> fst (as_run x i) mod 4096 = 0"
    "i < 3 \<Longrightarrow> fst (as_run x i) \<noteq> 0 \<Longrightarrow> 0 < snd (as_run x i) \<Longrightarrow>
       R (MIPS_KSEG0 + fst (as_run x i)) = Some (snd (as_run x i) * 4096) \<and> own (fst (as_run x i)) = Some (a, i)"
  using assms unfolding as_ok_def run_ok_def by blast+

lemma add_run_ok:
  assumes "as_ok R own a x" "i < 3" "fst (as_run x i) = 0" "p mod 4096 = 0" "p < 2 ^ 29"
    "p \<noteq> 0 \<Longrightarrow> 0 < snd (as_run x i) \<Longrightarrow> R (MIPS_KSEG0 + p) = None"
    "R' = G_add R p (snd (as_run x i))" "own' = (if p = 0 \<or> snd (as_run x i) = 0 then own else own(p \<mapsto> (a, i)))"
  shows "as_ok R' own' a (set_run i p x)" "R \<subseteq>\<^sub>m R'" "R (MIPS_KSEG0 + q) \<noteq> None \<Longrightarrow> own' q = own q"
proof -
  show le: "R \<subseteq>\<^sub>m R'" using assms(6) by (auto simp: assms(7) G_add_def map_le_def)
  show own: "own' q = own q" if "R (MIPS_KSEG0 + q) \<noteq> None" for q using assms(6,8) that by auto
  have "as_ok R' own' a x" by (rule as_ok_mono[OF assms(1) le own])
  then show "as_ok R' own' a (set_run i p x)"
    unfolding as_ok_def run_ok_def using assms(2,4,5,7,8) by (auto simp: as_run_set_run G_add_def split: if_splits)
qed

lemma prepare_step:
  assumes "vinv0 R own s live act" "aspaces s a = Some x" "i < 3" "fst (as_run x i) = 0" "quiet_tlb s act a"
  obtains p f t R' own' where "getppages (snd (as_run x i)) s = Ok p (s\<lparr>mts := t, firstpaddr := f\<rparr>)"
    "vinv0 R' own' (s\<lparr>mts := t, firstpaddr := f, aspaces := (aspaces s)(a \<mapsto> set_run i p x)\<rparr>) live act"
    "curspl t = curspl (mts s)" "R \<subseteq>\<^sub>m R'"
    "p = 0 \<longrightarrow> lastpaddr s < firstpaddr s + snd (as_run x i) * 4096" "f \<le> firstpaddr s + snd (as_run x i) * 4096"
proof -
  note d = vinv0D[OF assms(1)]
  note x = d(3)[OF assms(2)]
  let ?n = "snd (as_run x i)"
  obtain p f t where g: "getppages ?n s = Ok p (s\<lparr>mts := t, firstpaddr := f\<rparr>)" "hinv (s\<lparr>mts := t, firstpaddr := f\<rparr>) (G_add (live ++ R) p ?n)"
    "p mod 4096 = 0" "p < 2 ^ 29" "p = 0 \<or> ?n = 0 \<or> (live ++ R) (MIPS_KSEG0 + p) = None" "curspl t = curspl (mts s)"
    "p = 0 \<longrightarrow> lastpaddr s < firstpaddr s + ?n * 4096" "f \<le> firstpaddr s + ?n * 4096"
    by (rule getppages_law[OF d(1) as_okD(2)[OF x assms(3)]])
  let ?R = "G_add R p ?n" and ?own = "if p = 0 \<or> ?n = 0 then own else own(p \<mapsto> (a, i))"
  let ?s = "s\<lparr>mts := t, firstpaddr := f, aspaces := (aspaces s)(a \<mapsto> set_run i p x)\<rparr>"
  have none: "R (MIPS_KSEG0 + p) = None" "live (MIPS_KSEG0 + p) = None" if "p \<noteq> 0" "0 < ?n" using g(5) that by auto
  have r: "as_ok ?R ?own a (set_run i p x)" "R \<subseteq>\<^sub>m ?R" "\<And>q. R (MIPS_KSEG0 + q) \<noteq> None \<Longrightarrow> ?own q = own q"
    by (rule add_run_ok[OF x assms(3,4) g(3,4) none(1) refl refl]; assumption)+
  have G: "G_add (live ++ R) p ?n = live ++ ?R" by (simp add: G_add_def)
  have "vinv0 ?R ?own ?s live act"
    unfolding vinv0_def
  proof (intro conjI allI impI)
    show "hinv ?s (live ++ ?R)" using g(2) G by (simp add: hinv_cong)
    show "dom live \<inter> dom ?R = {}" using d(2) none(2) by (auto simp: G_add_def split: if_splits)
    show "tlb_ok ?s act" by (rule tlb_ok_quiet[OF d(4) assms(5)]) simp_all
    show "as_ok ?R ?own b y" if "aspaces ?s b = Some y" for b y
      using that r(1) as_ok_mono[OF d(3)[of b y] r(2,3)] by (cases "b = a") auto
  qed
  then show thesis using that g(1,6-8) r(2) by blast
qed

section \<open>Operations on address spaces\<close>

lemma bind_as_get: "aspaces s a = Some x \<Longrightarrow> bind (as_get a) f s = f x s"
  by (simp add: bind_def as_get_def)

lemma bind_as_put: "aspaces s a = Some x \<Longrightarrow> bind (as_put a g) f s = f () (s\<lparr>aspaces := (aspaces s)(a \<mapsto> g x)\<rparr>)"
  "aspaces s a = Some x \<Longrightarrow> as_put a g s = Ok () (s\<lparr>aspaces := (aspaces s)(a \<mapsto> g x)\<rparr>)"
  by (simp_all add: as_put_def bind_assoc bind_as_get)

text \<open>What most operations leave alone.\<close>

definition vsame :: "kmach \<Rightarrow> kmach \<Rightarrow> bool" where
  "vsame s s' \<longleftrightarrow> mwords s' = mwords s \<and> tlb s' = tlb s \<and> curspl (mts s') = curspl (mts s) \<and> lastpaddr s' = lastpaddr s"

lemma vsame_trans: "vsame s s' \<Longrightarrow> vsame s' s'' \<Longrightarrow> vsame s s''"
  by (simp add: vsame_def)

lemma load_step:
  assumes "vinv0 R own s live act" "aspaces s a = Some x" "i < 3" "fst (as_run x i) = 0" "quiet_tlb s act a"
  obtains p s1 R' own' where
    "\<forall>k. bind (getppages (snd (as_run x i))) (\<lambda>p. bind (as_put a (set_run i p)) (\<lambda>_. k p)) s = (k p s1 :: ('a, kmach) outcome)"
    "vinv0 R' own' s1 live act" "R \<subseteq>\<^sub>m R'" "aspaces s1 = (aspaces s)(a \<mapsto> set_run i p x)" "vsame s s1" "quiet_tlb s1 act a"
    "(p = 0 \<longrightarrow> lastpaddr s < firstpaddr s + snd (as_run x i) * 4096) \<and> firstpaddr s1 \<le> firstpaddr s + snd (as_run x i) * 4096"
proof -
  obtain p f t R' own' where g: "getppages (snd (as_run x i)) s = Ok p (s\<lparr>mts := t, firstpaddr := f\<rparr>)"
    "vinv0 R' own' (s\<lparr>mts := t, firstpaddr := f, aspaces := (aspaces s)(a \<mapsto> set_run i p x)\<rparr>) live act"
    "curspl t = curspl (mts s)" "R \<subseteq>\<^sub>m R'"
    "p = 0 \<longrightarrow> lastpaddr s < firstpaddr s + snd (as_run x i) * 4096" "f \<le> firstpaddr s + snd (as_run x i) * 4096"
    by (rule prepare_step[OF assms])
  let ?s = "s\<lparr>mts := t, firstpaddr := f, aspaces := (aspaces s)(a \<mapsto> set_run i p x)\<rparr>"
  have "bind (getppages (snd (as_run x i))) (\<lambda>p. bind (as_put a (set_run i p)) (\<lambda>_. k p)) s = k p ?s" for k :: "nat \<Rightarrow> ('a, kmach) kmon"
    by (subst bind_Ok[of "getppages (snd (as_run x i))" s, OF g(1)]) (simp add: bind_as_put assms(2))
  then show thesis using that[of p ?s R' own'] g(2-6) assms(5) by (simp add: vsame_def quiet_tlb_def)
qed

definition loaded :: "addrspace \<Rightarrow> bool" where
  "loaded x \<longleftrightarrow> as_pbase1 x \<noteq> 0 \<and> as_pbase2 x \<noteq> 0 \<and> as_stackpbase x \<noteq> 0"

definition same_layout :: "addrspace \<Rightarrow> addrspace \<Rightarrow> bool" where
  "same_layout x y \<longleftrightarrow> as_vbase1 y = as_vbase1 x \<and> as_npages1 y = as_npages1 x \<and> as_vbase2 y = as_vbase2 x \<and> as_npages2 y = as_npages2 x"

lemma as_prepare_load_alt:
  "as_prepare_load a = bind (as_get a) (\<lambda>x.
     bind (assertk (as_pbase1 x = 0) ''as->as_pbase1 == 0'') (\<lambda>_.
     bind (assertk (as_pbase2 x = 0) ''as->as_pbase2 == 0'') (\<lambda>_.
     bind (assertk (as_stackpbase x = 0) ''as->as_stackpbase == 0'') (\<lambda>_.
     bind (getppages (snd (as_run x 0))) (\<lambda>p1. bind (as_put a (set_run 0 p1)) (\<lambda>_.
     if p1 = 0 then fail ENOMEM
     else bind (getppages (snd (as_run x 1))) (\<lambda>p2. bind (as_put a (set_run 1 p2)) (\<lambda>_.
     if p2 = 0 then fail ENOMEM
     else bind (getppages (snd (as_run x 2))) (\<lambda>p3. bind (as_put a (set_run 2 p3)) (\<lambda>_.
     if p3 = 0 then fail ENOMEM else ret ()))))))))))"
  by (simp add: as_prepare_load_def set_run_def DUMBVM_STACKPAGES_def cong: if_cong)

lemma as_prepare_load_law:
  assumes "vinv0 R own s live act" "aspaces s a = Some x" "unloaded x"
  obtains R' own' s' y where "as_prepare_load a s = (if loaded y then Ok () s' else Err ENOMEM s')"
    "vinv0 R' own' s' live act" "R \<subseteq>\<^sub>m R'" "aspaces s' = (aspaces s)(a \<mapsto> y)" "vsame s s'" "same_layout x y"
    "loaded y \<or> lastpaddr s < firstpaddr s + (as_npages1 x + as_npages2 x + 12) * 4096" "firstpaddr s' \<le> firstpaddr s + (as_npages1 x + as_npages2 x + 12) * 4096"
proof -
  note q = quiet_unloaded[OF assms]
  have lt: "0 < (3 :: nat)" "1 < (3 :: nat)" "2 < (3 :: nat)" and r0: "fst (as_run x 0) = 0" using assms(3) by (simp_all add: unloaded_def)
  obtain p1 s1 R1 own1 where 1: "\<forall>k. bind (getppages (snd (as_run x 0))) (\<lambda>p. bind (as_put a (set_run 0 p)) (\<lambda>_. k p)) s = (k p1 s1 :: (unit, kmach) outcome)"
    "vinv0 R1 own1 s1 live act" "R \<subseteq>\<^sub>m R1" "aspaces s1 = (aspaces s)(a \<mapsto> set_run 0 p1 x)" "vsame s s1" "quiet_tlb s1 act a"
    "(p1 = 0 \<longrightarrow> lastpaddr s < firstpaddr s + snd (as_run x 0) * 4096) \<and> firstpaddr s1 \<le> firstpaddr s + snd (as_run x 0) * 4096"
    by (rule load_step[OF assms(1,2) lt(1) r0 q])
  let ?x1 = "set_run 0 p1 x"
  have r1: "aspaces s1 a = Some ?x1" "fst (as_run ?x1 1) = 0" "snd (as_run ?x1 1) = snd (as_run x 1)"
    using 1(4) assms(3) by (simp_all add: set_run_def unloaded_def)
  obtain p2 s2 R2 own2 where 2: "\<forall>k. bind (getppages (snd (as_run x 1))) (\<lambda>p. bind (as_put a (set_run 1 p)) (\<lambda>_. k p)) s1 = (k p2 s2 :: (unit, kmach) outcome)"
    "vinv0 R2 own2 s2 live act" "R1 \<subseteq>\<^sub>m R2" "aspaces s2 = (aspaces s1)(a \<mapsto> set_run 1 p2 ?x1)" "vsame s1 s2" "quiet_tlb s2 act a"
    "(p2 = 0 \<longrightarrow> lastpaddr s1 < firstpaddr s1 + snd (as_run x 1) * 4096) \<and> firstpaddr s2 \<le> firstpaddr s1 + snd (as_run x 1) * 4096"
    by (rule load_step[OF 1(2) r1(1) lt(2) r1(2) 1(6), unfolded r1(3)])
  let ?x2 = "set_run 1 p2 ?x1"
  have r2: "aspaces s2 a = Some ?x2" "fst (as_run ?x2 2) = 0" "snd (as_run ?x2 2) = snd (as_run x 2)"
    using 2(4) assms(3) by (simp_all add: set_run_def unloaded_def)
  obtain p3 s3 R3 own3 where 3: "\<forall>k. bind (getppages (snd (as_run x 2))) (\<lambda>p. bind (as_put a (set_run 2 p)) (\<lambda>_. k p)) s2 = (k p3 s3 :: (unit, kmach) outcome)"
    "vinv0 R3 own3 s3 live act" "R2 \<subseteq>\<^sub>m R3" "aspaces s3 = (aspaces s2)(a \<mapsto> set_run 2 p3 ?x2)" "vsame s2 s3" "quiet_tlb s3 act a"
    "(p3 = 0 \<longrightarrow> lastpaddr s2 < firstpaddr s2 + snd (as_run x 2) * 4096) \<and> firstpaddr s3 \<le> firstpaddr s2 + snd (as_run x 2) * 4096"
    by (rule load_step[OF 2(2) r2(1) lt(3) r2(2) 2(6), unfolded r2(3)])
  have run: "as_prepare_load a s = (if p1 = 0 then Err ENOMEM s1 else if p2 = 0 then Err ENOMEM s2 else if p3 = 0 then Err ENOMEM s3 else Ok () s3)"
    unfolding as_prepare_load_alt bind_as_get[OF assms(2)] using assms(3)
    by (simp add: unloaded_def 1(1) 2(1) 3(1) del: as_run_simps One_nat_def)
  have l: "loaded (set_run 2 p3 ?x2) = (p1 \<noteq> 0 \<and> p2 \<noteq> 0 \<and> p3 \<noteq> 0)" "\<not> loaded ?x1" "\<not> loaded ?x2"
    using assms(3) by (simp_all add: loaded_def set_run_def unloaded_def)
  have sl: "same_layout x ?x1" "same_layout x ?x2" "same_layout x (set_run 2 p3 ?x2)" by (simp_all add: same_layout_def)
  note vs = 1(5) vsame_trans[OF 1(5) 2(5)] vsame_trans[OF vsame_trans[OF 1(5) 2(5)] 3(5)]
  note le = 1(3) map_le_trans[OF 1(3) 2(3)] map_le_trans[OF map_le_trans[OF 1(3) 2(3)] 3(3)]
  have full: "p1 \<noteq> 0 \<and> p2 \<noteq> 0 \<and> p3 \<noteq> 0 \<or> lastpaddr s < firstpaddr s + (as_npages1 x + as_npages2 x + 12) * 4096"
    using 1(7) 2(7) 3(7) 1(5) 2(5) by (auto simp: vsame_def)
  have fp: "firstpaddr s1 \<le> firstpaddr s + (as_npages1 x + as_npages2 x + 12) * 4096" "firstpaddr s2 \<le> firstpaddr s + (as_npages1 x + as_npages2 x + 12) * 4096"
    "firstpaddr s3 \<le> firstpaddr s + (as_npages1 x + as_npages2 x + 12) * 4096" using 1(7) 2(7) 3(7) by auto
  consider "p1 = 0" | "p1 \<noteq> 0" "p2 = 0" | "p1 \<noteq> 0" "p2 \<noteq> 0" by blast
  then show thesis
  proof cases
    case 1
    show thesis by (rule that[of ?x1 s1 R1 own1]) (use 1 full fp run l sl vs le \<open>vinv0 R1 own1 s1 live act\<close> \<open>aspaces s1 = _\<close> in simp_all)
  next
    case 2
    show thesis by (rule that[of ?x2 s2 R2 own2]) (use 2 full fp run l sl vs le \<open>vinv0 R2 own2 s2 live act\<close> \<open>aspaces s1 = _\<close> \<open>aspaces s2 = _\<close> in simp_all)
  next
    case 3
    show thesis by (rule that[of "set_run 2 p3 ?x2" s3 R3 own3])
      (use 3 full fp run l sl vs le \<open>vinv0 R3 own3 s3 live act\<close> \<open>aspaces s1 = _\<close> \<open>aspaces s2 = _\<close> \<open>aspaces s3 = _\<close> in simp_all)
  qed
qed

end
