(* ===== verification/Vm_Steps.thy ===== *)
theory Vm_Steps
  imports Vm_Props
begin

text \<open>
  What \<open>as_create\<close>, \<open>as_destroy\<close>, \<open>as_define_region\<close>, \<open>as_activate\<close>, \<open>vm_fault\<close> and \<open>as_copy\<close> do in
  a state that satisfies the invariant, and that they keep it.
\<close>

section \<open>Creating and destroying\<close>

definition as_empty :: addrspace where
  "as_empty = \<lparr>as_vbase1 = 0, as_pbase1 = 0, as_npages1 = 0, as_vbase2 = 0, as_pbase2 = 0, as_npages2 = 0, as_stackpbase = 0\<rparr>"

lemma unloaded_empty [simp]: "unloaded as_empty" by (simp add: unloaded_def as_empty_def)

lemma quiet_absent: "vinv0 R own s live act \<Longrightarrow> aspaces s a = None \<Longrightarrow> quiet_tlb s act a"
  by (auto simp: vinv0_def tlb_ok_def quiet_tlb_def)

lemma vinv0_live:
  assumes "vinv0 R own s live act" "live a = Some z"
  shows "(live ++ R) a = Some z" "R a = None"
  using vinv0D(2)[OF assms(1)] assms(2) by (auto simp: map_add_def dom_def disjoint_iff split: option.splits)

lemma vinv0_space:
  assumes "vinv0 R own s live act" "aspaces s a = Some x"
  shows "(live ++ R) a = Some 28" "live a = None"
proof -
  have "R a = Some 28" using vinv0D(3)[OF assms(1)] as_okD(1) assms(2) by blast
  then show "(live ++ R) a = Some 28" "live a = None" using vinv0D(2)[OF assms(1)] by (auto simp: disjoint_iff)
qed

lemma vinv0_kmalloc:
  assumes "vinv0 R own s live act" "sz < 2 ^ 30"
  obtains a s' where "kmalloc sz s = Ok a s'" "served s (live ++ R) sz a s'" "tlb s' = tlb s" "aspaces s' = aspaces s"
    "curspl (mts s') = curspl (mts s)" "a = 0 \<or> live a = None \<and> R a = None \<and> aspaces s a = None" "keeps (live ++ R) s s'"
    "a = 0 \<longrightarrow> refused s sz" "firstpaddr s' \<le> firstpaddr s + sz + 4096" "lastpaddr s' = lastpaddr s"
proof -
  from kmalloc_law[OF vinv0D(1)[OF assms(1)] assms(2)] obtain a s' where a: "kmalloc sz s = Ok a s'" "served s (live ++ R) sz a s'" by blast
  have "a = 0 \<or> live a = None \<and> R a = None" using a(2) by (auto simp: served_def split: if_splits)
  moreover have "R b \<noteq> None" if "aspaces s b = Some x" for b x using vinv0D(3)[OF assms(1) that] as_okD(1) by force
  ultimately show thesis using that[OF a] a(2) by (cases "aspaces s a") (auto simp: served_def rest_same_def)
qed

lemma as_create_law:
  assumes "vinv0 R own s live act"
  obtains s' where "as_create s = Ok None s'" "vinv0 R own s' live act" "refused s 28"
  | a s' where "as_create s = Ok (Some a) s'" "vinv0 (R(a \<mapsto> 28)) own s' live act" "aspaces s' = (aspaces s)(a \<mapsto> as_empty)" "aspaces s a = None"
    "keeps (live ++ R) s s'" "tlb s' = tlb s" "R a = None" "live a = None"
    "firstpaddr s' \<le> firstpaddr s + 4124" "lastpaddr s' = lastpaddr s"
proof -
  note d = vinv0D[OF assms]
  obtain a s' where k: "kmalloc 28 s = Ok a s'" "served s (live ++ R) 28 a s'" "tlb s' = tlb s" "aspaces s' = aspaces s"
    "curspl (mts s') = curspl (mts s)" "a = 0 \<or> live a = None \<and> R a = None \<and> aspaces s a = None" "keeps (live ++ R) s s'"
    "a = 0 \<longrightarrow> refused s 28" "firstpaddr s' \<le> firstpaddr s + 28 + 4096" "lastpaddr s' = lastpaddr s"
    by (rule vinv0_kmalloc[OF assms, of 28]) simp_all
  show thesis
  proof (cases "a = 0")
    case True
    then have "vinv0 R own s' live act" using k d by (simp add: served_def vinv0_def tlb_ok_def)
    then show thesis using that(1)[of s'] k(1,8) True unfolding as_create_def by (simp add: bind_Ok[of "kmalloc 28" s, OF k(1)])
  next
    case False
    let ?s = "s'\<lparr>aspaces := (aspaces s')(a \<mapsto> as_empty)\<rparr>"
    have none: "live a = None" "R a = None" "aspaces s a = None" using k(6) False by auto
    have run: "as_create s = Ok (Some a) ?s" unfolding as_create_def using False by (simp add: bind_Ok[of "kmalloc 28" s, OF k(1)] as_empty_def)
    have "as_ok (R(a \<mapsto> 28)) own b y" if "aspaces s b = Some y" for b y
      by (rule as_ok_mono[OF d(3)[OF that]]) (use none in \<open>auto simp: map_le_def\<close>)
    moreover have "as_ok (R(a \<mapsto> 28)) own a as_empty" unfolding as_ok_def all_less_3 by (simp add: run_ok_def as_empty_def)
    ultimately have as: "\<forall>b y. aspaces ?s b = Some y \<longrightarrow> as_ok (R(a \<mapsto> 28)) own b y" using k(4) by simp
    have "hinv ?s (live ++ R(a \<mapsto> 28))" using k(2) False by (simp add: served_def hinv_cong)
    moreover have "tlb_ok ?s act" by (rule tlb_ok_quiet[OF d(4) quiet_absent[OF assms none(3)]]) (use k(3,4) in simp_all)
    moreover have "dom live \<inter> dom (R(a \<mapsto> 28)) = {}" using d(2) none(1) by auto
    ultimately have "vinv0 (R(a \<mapsto> 28)) own ?s live act" using as unfolding vinv0_def by blast
    then show thesis using that(2)[OF run] none k(3,4,7,9,10) by (simp add: keeps_def)
  qed
qed

lemma as_destroy_law:
  assumes "vinv0 R own s live act" "aspaces s a = Some x"
  obtains s' where "as_destroy a s = Ok () s'" "vinv0 (R(a := None)) own s' live (if act = Some a then None else act)" "tlb s' = tlb s"
proof -
  note d = vinv0D[OF assms(1)]
  note sp = vinv0_space[OF assms]
  obtain s1 where k: "kfree a s = Ok () s1" "hinv s1 ((live ++ R)(a := None))" "rest_same s s1" by (rule kfree_law[OF d(1) sp(1)]) blast
  let ?s = "s1\<lparr>aspaces := (aspaces s1)(a := None)\<rparr>" and ?R = "R(a := None)"
  have "as_ok ?R own b y" if b: "aspaces s b = Some y" "b \<noteq> a" for b y
  proof -
    have "R a = Some 28" using as_okD(1)[OF d(3)[OF assms(2)]] .
    moreover have "n * 4096 \<noteq> (28 :: nat)" for n by (cases n) simp_all
    ultimately have "MIPS_KSEG0 + p \<noteq> a" if "R (MIPS_KSEG0 + p) = Some (n * 4096)" for p n using that by (metis option.inject)
    then show ?thesis using d(3)[OF b(1)] b(2) unfolding as_ok_def run_ok_def by auto
  qed
  then have as: "\<forall>b y. aspaces ?s b = Some y \<longrightarrow> as_ok ?R own b y" using k(3) by (simp add: rest_same_def)
  have "(live ++ R)(a := None) = live ++ ?R" using sp(2) by (auto simp: fun_eq_iff map_add_def split: option.splits)
  then have "hinv ?s (live ++ ?R)" using k(2) by (simp add: hinv_cong)
  moreover have "tlb_ok ?s (if act = Some a then None else act)" using d(4) k(3) by (auto simp: tlb_ok_def rest_same_def)
  moreover have "dom live \<inter> dom ?R = {}" using d(2) by auto
  ultimately have "vinv0 ?R own ?s live (if act = Some a then None else act)" using as unfolding vinv0_def by blast
  then show thesis using that[of ?s] k(3) unfolding as_destroy_def by (simp add: bind_Ok[of "kfree a" s, OF k(1)] rest_same_def)
qed

section \<open>Regions\<close>

lemma as_put_unloaded:
  assumes "vinv0 R own s live act" "aspaces s a = Some x" "unloaded x" "unloaded y" "as_ok R own a y"
  shows "vinv0 R own (s\<lparr>aspaces := (aspaces s)(a \<mapsto> y)\<rparr>) live act"
proof -
  note d = vinv0D[OF assms(1)]
  have "tlb_ok (s\<lparr>aspaces := (aspaces s)(a \<mapsto> y)\<rparr>) act" by (rule tlb_ok_quiet[OF d(4) quiet_unloaded[OF assms(1-3)]]) simp_all
  then show ?thesis using d assms(5) by (auto simp: vinv0_def hinv_cong)
qed

lemma as_define_region_run:
  assumes "aspaces s a = Some x" "vaddr < 2 ^ 32" "sz + vaddr mod 4096 + 4095 < 2 ^ 32" "va = vaddr - vaddr mod 4096" "n = npg (sz + vaddr mod 4096)"
  shows "as_define_region a vaddr sz s =
      (if as_vbase1 x = 0 then Ok () (s\<lparr>aspaces := (aspaces s)(a \<mapsto> x\<lparr>as_vbase1 := va, as_npages1 := n\<rparr>)\<rparr>)
       else if as_vbase2 x = 0 then Ok () (s\<lparr>aspaces := (aspaces s)(a \<mapsto> x\<lparr>as_vbase2 := va, as_npages2 := n\<rparr>)\<rparr>)
       else Err EUNIMP s)"
proof -
  have 1: "u32 (int sz + int (vaddr AND (0xffffffff - PAGE_FRAME))) = sz + vaddr mod 4096"
    unfolding low_bits by (rule u32_of_nat) (use assms(3) in simp_all)
  have 2: "u32 (int (sz + vaddr mod 4096) + int PAGE_SIZE - 1) = sz + vaddr mod 4096 + 4095"
    by (rule u32_of_nat) (use assms(3) in \<open>simp_all add: PAGE_SIZE_def\<close>)
  have 3: "((sz + vaddr mod 4096 + 4095) AND PAGE_FRAME) div PAGE_SIZE = n"
    unfolding page_bits[OF assms(3)] PAGE_SIZE_def assms(5) npg_def by (metis minus_mod_eq_div_mult nonzero_mult_div_cancel_right zero_neq_numeral)
  have 4: "vaddr AND PAGE_FRAME = va" unfolding assms(4) by (rule page_bits[OF assms(2)])
  show ?thesis unfolding as_define_region_def Let_def 1 2 3 4 bind_as_get[OF assms(1)] by (simp add: bind_as_put[OF assms(1)])
qed

lemma as_define_region_law:
  assumes "vinv0 R own s live act" "aspaces s a = Some x" "unloaded x" "vaddr < 2 ^ 32" "sz < 2 ^ 30"
  obtains y r where "as_define_region a vaddr sz s = r" "r = Ok () (s\<lparr>aspaces := (aspaces s)(a \<mapsto> y)\<rparr>) \<or> r = Err EUNIMP s"
    "vinv0 R own (s\<lparr>aspaces := (aspaces s)(a \<mapsto> y)\<rparr>) live act"
proof -
  let ?va = "vaddr - vaddr mod 4096" and ?n = "npg (sz + vaddr mod 4096)"
  have m: "vaddr mod 4096 < 4096" by simp
  have b: "sz + vaddr mod 4096 + 4095 < 2 ^ 32" using m assms(5) by simp
  note run = as_define_region_run[OF assms(2,4) b refl refl]
  have "?n * 4096 \<le> sz + vaddr mod 4096 + 4095" by (simp add: npg_def)
  then have n: "?n * 4096 < 2 ^ 31" using m assms(5) by simp
  have va: "?va mod 4096 = 0" "?va < 2 ^ 32" using assms(4) by (simp add: minus_mod_eq_mult_div) (use assms(4) in linarith)
  note x = vinv0D(3)[OF assms(1,2)]
  have ok: "as_ok R own a (x\<lparr>as_vbase1 := ?va, as_npages1 := ?n\<rparr>)" "as_ok R own a (x\<lparr>as_vbase2 := ?va, as_npages2 := ?n\<rparr>)"
    using x n va assms(3) unfolding as_ok_def all_less_3 by (simp_all add: run_ok_def unloaded_def)
  have un: "unloaded (x\<lparr>as_vbase1 := ?va, as_npages1 := ?n\<rparr>)" "unloaded (x\<lparr>as_vbase2 := ?va, as_npages2 := ?n\<rparr>)"
    using assms(3) by (simp_all add: unloaded_def)
  note p = as_put_unloaded[OF assms(1-3) un(1) ok(1)] as_put_unloaded[OF assms(1-3) un(2) ok(2)]
  have id: "vinv0 R own (s\<lparr>aspaces := (aspaces s)(a \<mapsto> x)\<rparr>) live act" by (rule as_put_unloaded[OF assms(1-3,3) x])
  show thesis using run that[of _ "x\<lparr>as_vbase1 := ?va, as_npages1 := ?n\<rparr>"] that[of _ "x\<lparr>as_vbase2 := ?va, as_npages2 := ?n\<rparr>"] that[of _ x] p id
    by presburger
qed

section \<open>The TLB\<close>

lemma TLB_Write_run: "TLB_Write h l i s = Ok () (s\<lparr>tlb := (tlb s)[i := (h, l)]\<rparr>)"
  by (simp add: TLB_Write_def)

lemma invalidate_run:
  "n \<le> length (tlb s) \<Longrightarrow> foreach [0..<n] (\<lambda>i. TLB_Write (TLBHI_INVALID i) TLBLO_INVALID i) s =
     Ok () (s\<lparr>tlb := map (\<lambda>i. (TLBHI_INVALID i, 0)) [0..<n] @ drop n (tlb s)\<rparr>)"
proof (induction n)
  case (Suc n)
  let ?t = "map (\<lambda>i. (TLBHI_INVALID i, 0 :: nat)) [0..<n]"
  have l: "(?t @ drop n (tlb s))[n := (TLBHI_INVALID n, 0)] = ?t @ (TLBHI_INVALID n, 0) # drop (Suc n) (tlb s)"
    using Suc.prems by (simp add: list_update_append Cons_nth_drop_Suc[symmetric])
  have f: "foreach [0..<n] (\<lambda>i. TLB_Write (TLBHI_INVALID i) TLBLO_INVALID i) s = Ok () (s\<lparr>tlb := ?t @ drop n (tlb s)\<rparr>)" using Suc by simp
  have r: "foreach [0..<Suc n] (\<lambda>i. TLB_Write (TLBHI_INVALID i) TLBLO_INVALID i) s = TLB_Write (TLBHI_INVALID n) 0 n (s\<lparr>tlb := ?t @ drop n (tlb s)\<rparr>)"
    by (simp add: foreach_append bind_Ok[of "foreach [0..<n] (\<lambda>i. TLB_Write (TLBHI_INVALID i) TLBLO_INVALID i)" s, OF f]) (simp add: TLBLO_INVALID_def)
  show ?case unfolding r by (simp add: TLB_Write_run l)
qed (cases s, simp)

lemma as_activate_run:
  assumes "length (tlb s) = 64"
  obtains t where "as_activate s = Ok () (s\<lparr>mts := t, tlb := map (\<lambda>i. (TLBHI_INVALID i, 0)) [0..<64]\<rparr>)" "curspl t = curspl (mts s)"
proof -
  let ?s = "s\<lparr>mts := spl_set SPL_HIGH (mts s)\<rparr>" and ?t = "spl_set (curspl (mts s)) (spl_set SPL_HIGH (mts s))"
  have f: "foreach [0..<NUM_TLB] (\<lambda>i. TLB_Write (TLBHI_INVALID i) TLBLO_INVALID i) ?s = Ok () (?s\<lparr>tlb := map (\<lambda>i. (TLBHI_INVALID i, 0)) [0..<64]\<rparr>)"
    using invalidate_run[of 64 ?s] assms by (simp add: NUM_TLB_def del: upt_rec_numeral)
  have c: "s\<lparr>mts := u, tlb := f\<rparr>\<lparr>mts := v\<rparr> = s\<lparr>mts := v, tlb := f\<rparr>" for u v f by (cases s) simp
  have "as_activate s = Ok () (s\<lparr>mts := ?t, tlb := map (\<lambda>i. (TLBHI_INVALID i, 0)) [0..<64]\<rparr>)"
    unfolding as_activate_def bind_splhigh by (simp add: bind_Ok[of "foreach [0..<NUM_TLB] f" ?s for f, OF f] c del: upt_rec_numeral)
  then show thesis by (intro that[of ?t]) simp_all
qed

lemma find_entry:
  "first_some is (tlb_load fa pa) s = (case find (\<lambda>i. \<not> tlb_valid (tlb s ! i)) is of None \<Rightarrow> Ok None s
     | Some i \<Rightarrow> Ok (Some ()) (s\<lparr>tlb := (tlb s)[i := (fa, pa OR TLBLO_DIRTY OR TLBLO_VALID)]\<rparr>))"
proof (induction "is")
  case (Cons i "is")
  have "tlb_load fa pa i s = (if tlb_valid (tlb s ! i) then Ok None s
      else Ok (Some ()) (s\<lparr>tlb := (tlb s)[i := (fa, pa OR TLBLO_DIRTY OR TLBLO_VALID)]\<rparr>))"
    by (simp add: tlb_load_def TLB_Read_def TLB_Write_def tlb_valid_def split: prod.splits)
  then show ?case using Cons by (simp add: bind_def[of "tlb_load fa pa i"])
qed simp

lemma page_or: "p mod 4096 = 0 \<Longrightarrow> p < 2 ^ 32 \<Longrightarrow> p OR TLBLO_DIRTY OR TLBLO_VALID = p + 0x600"
proof -
  assume p: "p mod 4096 = 0" "p < 2 ^ 32"
  have "MKPAB p 0x600 = p + 0x600" by (rule MKPAB_eq) (use p in simp_all)
  moreover have "MKPAB p 0x600 = p OR 0x600" unfolding MKPAB_def low_bits page_bits[OF p(2)] using p(1) by simp
  moreover have "p OR TLBLO_DIRTY OR TLBLO_VALID = p OR 0x600" by (simp add: TLBLO_DIRTY_def TLBLO_VALID_def or.assoc)
  ultimately show ?thesis by simp
qed

lemma tlb_page_entry: "p mod 4096 = 0 \<Longrightarrow> p < 2 ^ 31 \<Longrightarrow> tlb_page (fa, p + 0x600) = p"
  by (simp add: tlb_page_def page_bits mod_add_left_eq[symmetric])

lemma tlb_valid_entry: "p mod 4096 = 0 \<Longrightarrow> p < 2 ^ 32 \<Longrightarrow> tlb_valid (fa, p + 0x600)"
proof -
  assume p: "p mod 4096 = 0" "p < 2 ^ 32"
  have "(p OR TLBLO_DIRTY OR TLBLO_VALID) AND TLBLO_VALID = TLBLO_VALID" by (rule bit_eqI) (auto simp: bit_simps)
  then show ?thesis unfolding page_or[OF p] tlb_valid_def by (simp add: TLBLO_VALID_def)
qed

section \<open>Page faults\<close>

definition defined_as :: "addrspace \<Rightarrow> bool" where
  "defined_as x \<longleftrightarrow> as_vbase1 x \<noteq> 0 \<and> as_npages1 x \<noteq> 0 \<and> as_vbase2 x \<noteq> 0 \<and> as_npages2 x \<noteq> 0"

lemma aligned_frame: "a mod 4096 = 0 \<Longrightarrow> a < 2 ^ 32 \<Longrightarrow> a AND PAGE_FRAME = a"
  by (simp add: page_bits)

lemma assert_panic: "(P \<Longrightarrow> \<exists>m. f () s = Panic m) \<Longrightarrow> \<exists>m. bind (assertk P p) f s = Panic m"
  by (cases P) (simp_all add: assertk_def)

lemma as_assert_run:
  assumes "as_ok R own a x"
  shows "as_assert x s = Ok () s \<and> defined_as x \<and> loaded x \<or> (\<exists>m. as_assert x s = Panic m) \<and> \<not> (defined_as x \<and> loaded x)"
proof (cases "defined_as x \<and> loaded x")
  case True
  have v: "as_vbase1 x AND PAGE_FRAME = as_vbase1 x" "as_vbase2 x AND PAGE_FRAME = as_vbase2 x"
    by (rule aligned_frame; use assms in \<open>simp add: as_ok_def\<close>)+
  have run: "fst (as_run x i) AND PAGE_FRAME = fst (as_run x i)" if "i < 3" for i
    by (rule aligned_frame[OF as_okD(4)[OF assms that]]) (use as_okD(3)[OF assms that] in simp)
  have p: "as_pbase1 x AND PAGE_FRAME = as_pbase1 x" "as_pbase2 x AND PAGE_FRAME = as_pbase2 x" "as_stackpbase x AND PAGE_FRAME = as_stackpbase x"
    using run[of 0] run[of 1] run[of 2] by simp_all
  have "as_assert x s = Ok () s" unfolding as_assert_def v p using True by (simp add: defined_as_def loaded_def)
  then show ?thesis using True by simp
next
  case False
  have "\<exists>m. as_assert x s = Panic m" unfolding as_assert_def
    by ((rule assert_panic)+, insert False, simp add: defined_as_def loaded_def)
  then show ?thesis using False by blast
qed

lemma region_hit:
  assumes "v mod 4096 = 0" "v < 2 ^ 32" "n * 4096 < 2 ^ 31" "q mod 4096 = 0" "q < 2 ^ 29" "fa mod 4096 = 0" "v \<le> fa" "fa < u32 (int v + int n * int PAGE_SIZE)"
  shows "u32 (int (fa - v) + int q) = q + (fa - v)" "fa - v + 4096 \<le> n * 4096" "(q + (fa - v)) mod 4096 = 0"
proof -
  have b: "v + n * 4096 < 2 ^ 32"
  proof (rule ccontr)
    assume h: "\<not> v + n * 4096 < 2 ^ 32"
    have "int v + int n * int PAGE_SIZE = int (v + n * 4096 - 2 ^ 32) + 2 ^ 32" using h by (simp add: PAGE_SIZE_def)
    then have "u32 (int v + int n * int PAGE_SIZE) = u32 (int (v + n * 4096 - 2 ^ 32))" by (simp add: u32_def)
    also have "\<dots> = v + n * 4096 - 2 ^ 32" by (rule u32_of_nat) (use assms(2,3) in simp_all)
    finally show False using assms(2,3,7,8) by simp
  qed
  have "u32 (int v + int n * int PAGE_SIZE) = v + n * 4096" by (rule u32_of_nat) (use b in \<open>simp_all add: PAGE_SIZE_def\<close>)
  then have lt: "fa - v < n * 4096" using assms(7,8) by simp
  have "4096 dvd fa - v" by (rule dvd_diff_nat) (use assms(1,6) in \<open>simp_all add: dvd_eq_mod_eq_0\<close>)
  then obtain k where k: "fa - v = 4096 * k" by (rule dvdE)
  then have "k < n" using lt by simp
  then show "fa - v + 4096 \<le> n * 4096" using k by simp
  show "u32 (int (fa - v) + int q) = q + (fa - v)" by (rule u32_of_nat) (use lt assms(3,5) in simp_all)
  show "(q + (fa - v)) mod 4096 = 0" using k assms(4) by simp
qed

lemma as_mem_run: "i < 3 \<Longrightarrow> fst (as_run x i) \<noteq> 0 \<Longrightarrow> off + 4096 \<le> snd (as_run x i) * 4096 \<Longrightarrow> k < 4096 \<Longrightarrow> fst (as_run x i) + off + k \<in> as_mem x"
  unfolding as_mem_def by (rule CollectI, rule exI[of _ i]) simp

lemma region_hit_run:
  assumes "as_ok R own a x" "i < 3" "fst (as_run x i) \<noteq> 0" "v mod 4096 = 0" "v < 2 ^ 32" "fa mod 4096 = 0" "v \<le> fa"
    "fa < u32 (int v + int (snd (as_run x i)) * int PAGE_SIZE)" "u32 (int (fa - v) + int (fst (as_run x i))) = p"
  shows "p mod 4096 = 0 \<and> p < 2 ^ 31 + 2 ^ 29 \<and> p = fst (as_run x i) + (fa - v) \<and> fa - v + 4096 \<le> snd (as_run x i) * 4096 \<and> (\<forall>k < 4096. p + k \<in> as_mem x)"
proof -
  note h = region_hit[OF assms(4,5) as_okD(2)[OF assms(1,2)] as_okD(4,3)[OF assms(1,2)] assms(6-8)]
  have p: "p = fst (as_run x i) + (fa - v)" using h(1) assms(9) by simp
  have b: "snd (as_run x i) * 4096 < 2 ^ 31" "fst (as_run x i) < 2 ^ 29" using as_okD(2,3)[OF assms(1,2)] by simp_all
  have "p < 2 ^ 31 + 2 ^ 29" using p b h(2) by linarith
  then show ?thesis using h p as_mem_run[OF assms(2,3) h(2)] by simp
qed

lemma stack_hit:
  assumes "USERSTACK - DUMBVM_STACKPAGES * PAGE_SIZE \<le> fa" "fa < USERSTACK"
  shows "fa < u32 (int (USERSTACK - DUMBVM_STACKPAGES * PAGE_SIZE) + int (snd (as_run x 2)) * int PAGE_SIZE)"
  using assms by (simp add: USERSTACK_def MIPS_KSEG0_def PAGE_SIZE_def DUMBVM_STACKPAGES_def u32_def)

lemma fault_paddr_ok:
  assumes "as_ok R own a x" "loaded x" "fa mod 4096 = 0" "fault_paddr x fa = Some p"
  shows "p mod 4096 = 0 \<and> p < 2 ^ 31 + 2 ^ 29 \<and> (\<forall>k < 4096. p + k \<in> as_mem x)"
proof -
  have v: "as_vbase1 x mod 4096 = 0" "as_vbase1 x < 2 ^ 32" "as_vbase2 x mod 4096 = 0" "as_vbase2 x < 2 ^ 32" using assms(1) by (simp_all add: as_ok_def)
  have l: "fst (as_run x 0) \<noteq> 0" "fst (as_run x 1) \<noteq> 0" "fst (as_run x 2) \<noteq> 0" using assms(2) by (simp_all add: loaded_def)
  have lt: "0 < (3 :: nat)" "1 < (3 :: nat)" "2 < (3 :: nat)" by simp_all
  have st: "(USERSTACK - DUMBVM_STACKPAGES * PAGE_SIZE) mod 4096 = 0" "USERSTACK - DUMBVM_STACKPAGES * PAGE_SIZE < 2 ^ 32"
    by (simp_all add: USERSTACK_def MIPS_KSEG0_def PAGE_SIZE_def DUMBVM_STACKPAGES_def)
  note hit = region_hit_run[OF assms(1) lt(1) l(1) v(1,2) assms(3)] region_hit_run[OF assms(1) lt(2) l(2) v(3,4) assms(3)]
    region_hit_run[OF assms(1) lt(3) l(3) st assms(3) _ stack_hit]
  let ?st = "USERSTACK - DUMBVM_STACKPAGES * PAGE_SIZE"
  consider (one) "as_vbase1 x \<le> fa" "fa < u32 (int (as_vbase1 x) + int (as_npages1 x) * int PAGE_SIZE)" "u32 (int (fa - as_vbase1 x) + int (as_pbase1 x)) = p"
    | (two) "as_vbase2 x \<le> fa" "fa < u32 (int (as_vbase2 x) + int (as_npages2 x) * int PAGE_SIZE)" "u32 (int (fa - as_vbase2 x) + int (as_pbase2 x)) = p"
    | (stack) "?st \<le> fa" "fa < USERSTACK" "u32 (int (fa - ?st) + int (as_stackpbase x)) = p"
    using assms(4) unfolding fault_paddr_def Let_def by (metis option.inject option.distinct(1))
  then show ?thesis
  proof cases
    case one
    show ?thesis using hit(1)[of p, unfolded as_run_simps fst_conv snd_conv, OF one] by blast
  next
    case two
    show ?thesis using hit(2)[of p, unfolded One_nat_def as_run_simps fst_conv snd_conv, OF two] by blast
  next
    case stack
    show ?thesis using hit(3)[of p, unfolded as_run_simps fst_conv snd_conv, OF stack(1,1,2,3)] by blast
  qed
qed

end
