(* ===== verification/Vm_Copy.thy ===== *)
theory Vm_Copy
  imports Vm_Steps
begin

text \<open>
  Page faults and copies of address spaces: \<open>vm_fault\<close> loads the translation of the faulting page or refuses,
  and \<open>as_copy\<close> yields an address space of the same layout with the same contents in pages of its own.
\<close>

section \<open>Page faults\<close>

lemma cur_as_spl: "cur_as s = Ok r s \<Longrightarrow> cur_as (s\<lparr>mts := spl_set n (mts s)\<rparr>) = Ok r (s\<lparr>mts := spl_set n (mts s)\<rparr>)"
  by (auto simp: cur_as_def on_mts_def zoom_def bind_def cur_def t_get_def spl_set_def split: option.splits outcome.splits)

lemma vm_fault_none:
  assumes "ft = VM_FAULT_READ \<or> ft = VM_FAULT_WRITE" "cur_as s = Ok None s"
  shows "vm_fault ft va s = Err EFAULT (s\<lparr>mts := spl_set SPL_HIGH (mts s)\<rparr>)"
  using assms(1) by (auto simp: vm_fault_def Let_def bind_Ok[of cur_as "s\<lparr>mts := spl_set SPL_HIGH (mts s)\<rparr>", OF cur_as_spl[OF assms(2)]])

definition first_invalid :: "kmach \<Rightarrow> nat option" where
  "first_invalid s = find (\<lambda>i. \<not> tlb_valid (tlb s ! i)) [0..<64]"

lemma vm_fault_run:
  assumes "ft = VM_FAULT_READ \<or> ft = VM_FAULT_WRITE" "cur_as s = Ok (Some a) s" "aspaces s a = Some x" "as_ok R own a x" "defined_as x" "loaded x" "va < 2 ^ 32"
  obtains t where "curspl t = curspl (mts s)" "vm_fault ft va s = (case fault_paddr x (va - va mod 4096) of None \<Rightarrow> Err EFAULT (s\<lparr>mts := t\<rparr>)
    | Some p \<Rightarrow> (case first_invalid s of None \<Rightarrow> Err EFAULT (s\<lparr>mts := t\<rparr>)
       | Some i \<Rightarrow> Ok () (s\<lparr>mts := t, tlb := (tlb s)[i := (va - va mod 4096, p + 0x600)]\<rparr>)))"
proof -
  let ?s = "s\<lparr>mts := spl_set SPL_HIGH (mts s)\<rparr>" and ?fa = "va - va mod 4096" and ?t = "spl_set (curspl (mts s)) (spl_set SPL_HIGH (mts s))"
  have fa: "?fa mod 4096 = 0" by (simp add: minus_mod_eq_mult_div)
  have c: "s\<lparr>mts := u, tlb := f\<rparr>\<lparr>mts := v\<rparr> = s\<lparr>mts := v, tlb := f\<rparr>" for u v f by (cases s) simp
  have asrt: "as_assert x ?s = Ok () ?s" using as_assert_run[OF assms(4), of ?s] assms(5,6) by blast
  have "vm_fault ft va s = (case fault_paddr x ?fa of None \<Rightarrow> Err EFAULT (s\<lparr>mts := ?t\<rparr>)
    | Some p \<Rightarrow> (case first_invalid s of None \<Rightarrow> Err EFAULT (s\<lparr>mts := ?t\<rparr>)
       | Some i \<Rightarrow> Ok () (s\<lparr>mts := ?t, tlb := (tlb s)[i := (?fa, p + 0x600)]\<rparr>)))"
  proof -
    have 1: "vm_fault ft va s = (case fault_paddr x ?fa of None \<Rightarrow> Err EFAULT (s\<lparr>mts := ?t\<rparr>)
        | Some p \<Rightarrow> bind (assertk (p AND PAGE_FRAME = p) ''(paddr & PAGE_FRAME)==paddr'') (\<lambda>_.
            bind (first_some [0..<NUM_TLB] (tlb_load ?fa p)) (\<lambda>r.
            bind (on_mts (splx (curspl (mts s)))) (\<lambda>_. case r of Some _ \<Rightarrow> ret () | None \<Rightarrow> fail EFAULT))) ?s)"
      using assms(1) by (auto simp: vm_fault_def Let_def page_bits[OF assms(7)] bind_Ok[of cur_as ?s, OF cur_as_spl[OF assms(2)]]
          bind_as_get assms(3) bind_Ok[of "as_assert x" ?s, OF asrt] split: option.splits)
    show ?thesis
    proof (cases "fault_paddr x ?fa")
      case None
      then show ?thesis using 1 by simp
    next
      case (Some p)
      have p: "p mod 4096 = 0" "p < 2 ^ 32" using fault_paddr_ok[OF assms(4,6) fa Some] by simp_all
      show ?thesis unfolding 1 Some
        by (simp add: aligned_frame[OF p] bind_def[of "first_some xs f" for xs f] find_entry page_or[OF p] first_invalid_def NUM_TLB_def c
            del: upt_rec_numeral split: option.splits)
    qed
  qed
  then show thesis by (intro that[of ?t]) simp_all
qed

lemma first_invalid_less: "first_invalid s = Some i \<Longrightarrow> i < 64 \<and> \<not> tlb_valid (tlb s ! i) \<and> (\<forall>j < i. tlb_valid (tlb s ! j))"
  by (auto simp: first_invalid_def find_Some_iff)

lemma tlb_okD: "tlb_ok s (Some a) \<Longrightarrow> e \<in> set (tlb s) \<Longrightarrow> tlb_valid e \<Longrightarrow> \<exists>x. aspaces s a = Some x \<and> entry_ok x e"
  unfolding tlb_ok_def by blast

lemma tlb_ok_load:
  assumes "vinv0 R own s live (Some a)" "aspaces s a = Some x" "loaded x" "va < 2 ^ 32" "fault_paddr x (va - va mod 4096) = Some p"
  shows "vinv0 R own (s\<lparr>mts := t, tlb := (tlb s)[i := (va - va mod 4096, p + 0x600)]\<rparr>) live (Some a)"
proof -
  note d = vinv0D[OF assms(1)]
  let ?fa = "va - va mod 4096" and ?s = "s\<lparr>mts := t, tlb := (tlb s)[i := (va - va mod 4096, p + 0x600)]\<rparr>"
  have fa: "?fa mod 4096 = 0" "?fa < 2 ^ 32" using assms(4) by (simp add: minus_mod_eq_mult_div) (use assms(4) in linarith)
  note p = fault_paddr_ok[OF d(3)[OF assms(2)] assms(3) fa(1) assms(5)]
  have "tlb_page (?fa, p + 0x600) = p" unfolding tlb_page_def snd_conv by (subst page_bits) (use p in \<open>simp_all add: mod_add_left_eq[symmetric]\<close>)
  then have e: "entry_ok x (?fa, p + 0x600)" using p fa assms(5) by (simp add: entry_ok_def)
  have "tlb_ok ?s (Some a)"
    unfolding tlb_ok_def
  proof (intro conjI allI impI)
    show "length (tlb ?s) = 64" using d(4) by (simp add: tlb_ok_def)
    fix b e' assume h: "Some a = Some b" "e' \<in> set (tlb ?s)" "tlb_valid e'"
    then have "e' = (?fa, p + 0x600) \<or> e' \<in> set (tlb s)" using set_update_subset_insert[of "tlb s" i "(?fa, p + 0x600)"] by auto
    then show "\<exists>x. aspaces ?s b = Some x \<and> entry_ok x e'"
    proof
      assume "e' \<in> set (tlb s)"
      then show ?thesis using tlb_okD[OF d(4)] h by simp
    qed (use e assms(2) h in simp)
  qed
  then show ?thesis using d by (simp add: vinv0_def hinv_cong)
qed

section \<open>User memory\<close>

text \<open>Memory of an address space may change in any way.\<close>

lemma vinv0_memory:
  assumes "vinv0 R own s live act" "aspaces s a = Some x" "\<And>y. m y \<noteq> mwords s y \<Longrightarrow> \<exists>p \<in> as_mem x. y = MIPS_KSEG0 + p"
  shows "vinv0 R own (s\<lparr>mwords := m\<rparr>) live act"
proof -
  note d = vinv0D[OF assms(1)]
  have "\<exists>b z. (live ++ R) b = Some z \<and> b \<le> y \<and> y < b + extent z" if y: "m y \<noteq> mwords s y" for y
  proof -
    obtain i p where p: "i < 3" "fst (as_run x i) \<noteq> 0" "fst (as_run x i) \<le> p" "p < fst (as_run x i) + snd (as_run x i) * 4096" "y = MIPS_KSEG0 + p"
      using assms(3)[OF y] by (auto simp: as_mem_def)
    then have "0 < snd (as_run x i)" by (cases "snd (as_run x i)") auto
    then have r: "R (MIPS_KSEG0 + fst (as_run x i)) = Some (snd (as_run x i) * 4096)" using as_okD(5)[OF d(3)[OF assms(2)] p(1,2)] by simp
    moreover have "extent (snd (as_run x i) * 4096) = snd (as_run x i) * 4096" using \<open>0 < snd (as_run x i)\<close> by (simp add: extent_def npg_def)
    ultimately show ?thesis using p by (intro exI[of _ "MIPS_KSEG0 + fst (as_run x i)"] exI[of _ "snd (as_run x i) * 4096"]) simp
  qed
  then have "hinv (s\<lparr>mwords := m\<rparr>) (live ++ R)" by (rule hinv_memory[OF d(1)])
  then show ?thesis using d by (simp add: vinv0_def tlb_ok_def)
qed

section \<open>Copies\<close>

definition moved :: "nat \<Rightarrow> nat \<Rightarrow> nat \<Rightarrow> (nat \<Rightarrow> nat) \<Rightarrow> (nat \<Rightarrow> nat)" where
  "moved dst src n m = (\<lambda>z. if dst \<le> z \<and> z < dst + n then m (src + (z - dst)) else m z)"

lemma moved_in: "k < n \<Longrightarrow> moved dst src n m (dst + k) = m (src + k)"
  by (simp add: moved_def)

lemma moved_out: "\<not> (dst \<le> z \<and> z < dst + n) \<Longrightarrow> moved dst src n m z = m z"
  by (auto simp: moved_def)

lemma page_move_run:
  assumes "dst mod 4096 = 0" "src mod 4096 = 0" "MIPS_KSEG0 \<le> dst" "MIPS_KSEG0 \<le> src" "dst + n \<le> MIPS_KSEG1" "src + n \<le> MIPS_KSEG1"
  shows "bind (page_move dst src n) f s = f () (s\<lparr>mwords := moved dst src n (mwords s)\<rparr>)"
proof (cases "n = 0")
  case True
  have "s\<lparr>mwords := \<lambda>z. mwords s z\<rparr> = s" by (cases s) simp
  then show ?thesis using True by (simp add: page_move_def moved_def)
next
  case False
  have "4 dvd dst" "4 dvd src" using assms(1,2) by (auto intro: dvd_page)
  then have "kaddr_ok dst" "kaddr_ok src" using False assms(3-6) by (auto simp: kaddr_ok_def)
  then show ?thesis using assms(5,6) by (simp add: page_move_def moved_def)
qed

lemma moved3:
  assumes "m' = moved (dst 2) (src 2) (n 2) (moved (dst 1) (src 1) (n 1) (moved (dst 0) (src 0) (n 0) m))"
  shows "(\<And>i. i < (3 :: nat) \<Longrightarrow> \<not> (dst i \<le> z \<and> z < dst i + n i)) \<Longrightarrow> m' z = m z"
    "(\<And>i j. i < 3 \<Longrightarrow> j < 3 \<Longrightarrow> i \<noteq> j \<Longrightarrow> 0 < n i \<Longrightarrow> 0 < n j \<Longrightarrow> apart (dst i) (n i) (dst j) (n j)) \<Longrightarrow>
     (\<And>i j. i < 3 \<Longrightarrow> j < 3 \<Longrightarrow> 0 < n i \<Longrightarrow> 0 < n j \<Longrightarrow> apart (dst i) (n i) (src j) (n j)) \<Longrightarrow> i < 3 \<Longrightarrow> k < n i \<Longrightarrow> m' (dst i + k) = m (src i + k)"
proof -
  have lt: "(0 :: nat) < 3" "(1 :: nat) < 3" "(2 :: nat) < 3" by simp_all
  show "m' z = m z" if h: "\<And>i. i < (3 :: nat) \<Longrightarrow> \<not> (dst i \<le> z \<and> z < dst i + n i)"
    using h[OF lt(1)] h[OF lt(2)] h[OF lt(3)] by (simp only: assms moved_out not_False_eq_True)
  assume d: "\<And>i j. i < 3 \<Longrightarrow> j < 3 \<Longrightarrow> i \<noteq> j \<Longrightarrow> 0 < n i \<Longrightarrow> 0 < n j \<Longrightarrow> apart (dst i) (n i) (dst j) (n j)"
    and s: "\<And>i j. i < 3 \<Longrightarrow> j < 3 \<Longrightarrow> 0 < n i \<Longrightarrow> 0 < n j \<Longrightarrow> apart (dst i) (n i) (src j) (n j)" and i: "i < 3" and k: "k < n i"
  have out1: "\<not> (dst j \<le> dst i + k \<and> dst i + k < dst j + n j)" if "j < 3" "j \<noteq> i" for j
    using d[OF that(1) i that(2)] k by (cases "n j") (auto simp: apart_def)
  have out2: "\<not> (dst j \<le> src i + k \<and> src i + k < dst j + n j)" if "j < 3" for j
    using s[OF that i] k by (cases "n j") (auto simp: apart_def)
  from i consider "i = 0" | "i = 1" | "i = 2" by linarith
  then show "m' (dst i + k) = m (src i + k)"
  proof cases
    case 1
    have "m' (dst 0 + k) = moved (dst 0) (src 0) (n 0) m (dst 0 + k)"
      unfolding assms using out1[OF lt(2)] out1[OF lt(3)] 1 by (simp only: moved_out zero_neq_one zero_neq_numeral not_False_eq_True)
    then show ?thesis using 1 k by (simp add: moved_in)
  next
    case 2
    have "m' (dst 1 + k) = moved (dst 1) (src 1) (n 1) (moved (dst 0) (src 0) (n 0) m) (dst 1 + k)"
      unfolding assms using out1[OF lt(3)] 2 by (intro moved_out) simp
    then show ?thesis using out2[OF lt(1)] 2 k by (simp add: moved_in moved_out)
  next
    case 3
    have "m' (dst 2 + k) = moved (dst 1) (src 1) (n 1) (moved (dst 0) (src 0) (n 0) m) (src 2 + k)"
      unfolding assms using 3 k by (intro moved_in) simp
    then show ?thesis using out2[OF lt(1)] out2[OF lt(2)] 3 by (simp add: moved_out)
  qed
qed

text \<open>Where runs lie: in memory, aligned, and apart from each other.\<close>

lemma run_place:
  assumes "vinv0 R own s live act" "aspaces s a = Some x" "i < 3"
  shows "(MIPS_KSEG0 + fst (as_run x i)) mod 4096 = 0" "fst (as_run x i) + snd (as_run x i) * 4096 \<le> 2 ^ 29 \<or> fst (as_run x i) = 0 \<or> snd (as_run x i) = 0"
    "PADDR_TO_KVADDR (fst (as_run x i)) = MIPS_KSEG0 + fst (as_run x i)"
proof -
  note d = vinv0D[OF assms(1)]
  note o = as_okD[OF d(3)[OF assms(2)]]
  show "(MIPS_KSEG0 + fst (as_run x i)) mod 4096 = 0" using o(4)[OF assms(3)] by (simp add: MIPS_KSEG0_def mod_add_right_eq[symmetric])
  show "PADDR_TO_KVADDR (fst (as_run x i)) = MIPS_KSEG0 + fst (as_run x i)"
    unfolding PADDR_TO_KVADDR_def by (rule u32_of_nat) (use o(3)[OF assms(3)] in \<open>simp_all add: MIPS_KSEG0_def\<close>)
  show "fst (as_run x i) + snd (as_run x i) * 4096 \<le> 2 ^ 29 \<or> fst (as_run x i) = 0 \<or> snd (as_run x i) = 0"
  proof (cases "fst (as_run x i) = 0 \<or> snd (as_run x i) = 0")
    case False
    then have "(live ++ R) (MIPS_KSEG0 + fst (as_run x i)) = Some (snd (as_run x i) * 4096)" using o(5)[OF assms(3)] by simp
    from hinv_block(2)[OF d(1) this] hinv_ram[OF d(1)] show ?thesis by (simp add: ram_ok_def)
  qed simp
qed

lemma runs_apart:
  assumes "vinv0 R own s live act" "aspaces s a = Some x" "aspaces s b = Some y" "i < 3" "j < 3" "(a, i) \<noteq> (b, j)"
    "fst (as_run x i) \<noteq> 0" "fst (as_run y j) \<noteq> 0" "0 < snd (as_run x i)" "0 < snd (as_run y j)"
  shows "apart (MIPS_KSEG0 + fst (as_run x i)) (snd (as_run x i) * 4096) (MIPS_KSEG0 + fst (as_run y j)) (snd (as_run y j) * 4096)"
proof -
  note d = vinv0D[OF assms(1)]
  note o = as_okD(5)[OF d(3)[OF assms(2)] assms(4,7,9)] as_okD(5)[OF d(3)[OF assms(3)] assms(5,8,10)]
  then have "fst (as_run x i) \<noteq> fst (as_run y j)" using assms(6) by auto
  then show ?thesis using kh.apart_law[OF d(1), of "MIPS_KSEG0 + fst (as_run x i)" "snd (as_run x i) * 4096" "MIPS_KSEG0 + fst (as_run y j)" "snd (as_run y j) * 4096"] o
    by (simp add: apart_def)
qed

lemma run_apart_block:
  assumes "vinv0 R own s live act" "aspaces s a = Some x" "i < 3" "fst (as_run x i) \<noteq> 0" "0 < snd (as_run x i)" "live c = Some z"
  shows "apart (MIPS_KSEG0 + fst (as_run x i)) (snd (as_run x i) * 4096) c z"
proof -
  note d = vinv0D[OF assms(1)]
  have o: "R (MIPS_KSEG0 + fst (as_run x i)) = Some (snd (as_run x i) * 4096)" using as_okD(5)[OF d(3)[OF assms(2)] assms(3-5)] by simp
  then have "MIPS_KSEG0 + fst (as_run x i) \<noteq> c" using vinv0_live(2)[OF assms(1,6)] by auto
  then show ?thesis using kh.apart_law[OF d(1) _ vinv0_live(1)[OF assms(1,6)], of "MIPS_KSEG0 + fst (as_run x i)"] o by (simp add: apart_def)
qed

lemma run_kept:
  assumes "vinv0 R own s live act" "aspaces s a = Some x" "i < 3" "fst (as_run x i) \<noteq> 0" "k < snd (as_run x i) * 4096" "keeps (live ++ R) s s'"
  shows "mwords s' (MIPS_KSEG0 + fst (as_run x i) + k) = mwords s (MIPS_KSEG0 + fst (as_run x i) + k)"
proof -
  have n: "0 < snd (as_run x i)" using assms(5) by (cases "snd (as_run x i)") auto
  have "(live ++ R) (MIPS_KSEG0 + fst (as_run x i)) = Some (snd (as_run x i) * 4096)" using as_okD(5)[OF vinv0D(3)[OF assms(1,2)] assms(3,4) n] by simp
  moreover have "extent (snd (as_run x i) * 4096) = snd (as_run x i) * 4096" using n by (simp add: extent_def npg_def)
  ultimately show ?thesis using keepsD[OF assms(6), of "MIPS_KSEG0 + fst (as_run x i)"] assms(5) by simp
qed

lemma same_layout_run: "same_layout x y \<Longrightarrow> i < 3 \<Longrightarrow> snd (as_run y i) = snd (as_run x i)"
  by (simp add: as_run_def same_layout_def)

text \<open>The three moves at the end of \<open>as_copy\<close>.\<close>

definition copied :: "addrspace \<Rightarrow> addrspace \<Rightarrow> (nat \<Rightarrow> nat) \<Rightarrow> (nat \<Rightarrow> nat)" where
  "copied x y m = (let dst = \<lambda>i. MIPS_KSEG0 + fst (as_run y i); src = \<lambda>i. MIPS_KSEG0 + fst (as_run x i); n = \<lambda>i. snd (as_run x i) * 4096 in
     moved (dst 2) (src 2) (n 2) (moved (dst 1) (src 1) (n 1) (moved (dst 0) (src 0) (n 0) m)))"

lemma copied_props:
  assumes "vinv0 R own s live act" "aspaces s a = Some x" "aspaces s b = Some y" "a \<noteq> b" "loaded y" "same_layout x y"
  shows "\<forall>p \<in> as_mem y. z \<noteq> MIPS_KSEG0 + p \<Longrightarrow> copied x y m z = m z"
    "loaded x \<Longrightarrow> i < 3 \<Longrightarrow> k < snd (as_run x i) * 4096 \<Longrightarrow> copied x y m (MIPS_KSEG0 + fst (as_run y i) + k) = m (MIPS_KSEG0 + fst (as_run x i) + k)"
proof -
  let ?dst = "\<lambda>i. MIPS_KSEG0 + fst (as_run y i)" and ?src = "\<lambda>i. MIPS_KSEG0 + fst (as_run x i)" and ?n = "\<lambda>i. snd (as_run x i) * 4096"
  have e: "copied x y m = moved (?dst 2) (?src 2) (?n 2) (moved (?dst 1) (?src 1) (?n 1) (moved (?dst 0) (?src 0) (?n 0) m))"
    by (simp only: copied_def Let_def)
  have nz: "fst (as_run w i) \<noteq> 0" if "loaded w" for w i using that by (auto simp: loaded_def as_run_def)
  note sl = same_layout_run[OF assms(6)]
  show "copied x y m z = m z" if h: "\<forall>p \<in> as_mem y. z \<noteq> MIPS_KSEG0 + p"
  proof (rule moved3(1)[OF e])
    fix i :: nat assume i: "i < 3"
    show "\<not> (?dst i \<le> z \<and> z < ?dst i + ?n i)"
    proof
      assume z: "?dst i \<le> z \<and> z < ?dst i + ?n i"
      then have "z - MIPS_KSEG0 \<in> as_mem y" using i sl[OF i] nz[OF assms(5)] by (auto simp: as_mem_def intro!: exI[of _ i])
      moreover have "z = MIPS_KSEG0 + (z - MIPS_KSEG0)" using z by simp
      ultimately show False using h by blast
    qed
  qed
  assume lx: "loaded x" and i: "i < 3" and k: "k < snd (as_run x i) * 4096"
  show "copied x y m (MIPS_KSEG0 + fst (as_run y i) + k) = m (MIPS_KSEG0 + fst (as_run x i) + k)"
    by (rule moved3(2)[OF e _ _ i k])
      (use runs_apart[OF assms(1) assms(3) assms(3) _ _ _ nz[OF assms(5)] nz[OF assms(5)]] runs_apart[OF assms(1) assms(3,2) _ _ _ nz[OF assms(5)] nz[OF lx]] assms(4) sl in auto)
qed

lemma copy_moves:
  assumes "vinv0 R own s live act" "aspaces s a = Some x" "aspaces s b = Some y" "loaded y" "same_layout x y"
  shows "bind (page_move (PADDR_TO_KVADDR (as_pbase1 y)) (PADDR_TO_KVADDR (as_pbase1 x)) (u32 (int (as_npages1 x) * int PAGE_SIZE))) (\<lambda>_.
            bind (page_move (PADDR_TO_KVADDR (as_pbase2 y)) (PADDR_TO_KVADDR (as_pbase2 x)) (u32 (int (as_npages2 x) * int PAGE_SIZE))) (\<lambda>_.
            bind (page_move (PADDR_TO_KVADDR (as_stackpbase y)) (PADDR_TO_KVADDR (as_stackpbase x)) (DUMBVM_STACKPAGES * PAGE_SIZE)) (\<lambda>_.
            ret b))) s = Ok b (s\<lparr>mwords := copied x y (mwords s)\<rparr>)"
proof -
  have lt: "(0 :: nat) < 3" "(1 :: nat) < 3" "(2 :: nat) < 3" by simp_all
  have nz: "fst (as_run y i) \<noteq> 0" for i using assms(4) by (auto simp: loaded_def as_run_def)
  have move: "bind (page_move (PADDR_TO_KVADDR (fst (as_run y i))) (PADDR_TO_KVADDR (fst (as_run x i))) (snd (as_run x i) * 4096)) f s'
      = f () (s'\<lparr>mwords := moved (MIPS_KSEG0 + fst (as_run y i)) (MIPS_KSEG0 + fst (as_run x i)) (snd (as_run x i) * 4096) (mwords s')\<rparr>)"
    if i: "i < 3" for i and f :: "unit \<Rightarrow> (nat, kmach) kmon" and s' :: kmach
  proof -
    note px = run_place[OF assms(1,2) i] and py = run_place[OF assms(1,3) i]
    note ox = as_okD(3)[OF vinv0D(3)[OF assms(1,2)] i] and oy = as_okD(3)[OF vinv0D(3)[OF assms(1,3)] i]
    have b: "fst (as_run y i) + snd (as_run x i) * 4096 \<le> 2 ^ 29" using py(2) nz oy same_layout_run[OF assms(5) i] by auto
    have c: "fst (as_run x i) + snd (as_run x i) * 4096 \<le> 2 ^ 29" using px(2) b ox by auto
    show ?thesis unfolding px(3) py(3)
      by (rule page_move_run[OF py(1) px(1)]) (use b c in \<open>simp_all add: MIPS_KSEG0_def MIPS_KSEG1_def\<close>)
  qed
  have n: "u32 (int (as_npages1 x) * int PAGE_SIZE) = as_npages1 x * 4096" "u32 (int (as_npages2 x) * int PAGE_SIZE) = as_npages2 x * 4096"
    using as_okD(2)[OF vinv0D(3)[OF assms(1,2)] lt(1)] as_okD(2)[OF vinv0D(3)[OF assms(1,2)] lt(2)]
    by (auto intro!: u32_of_nat simp: PAGE_SIZE_def)
  show ?thesis unfolding n
    by (simp add: DUMBVM_STACKPAGES_def PAGE_SIZE_def copied_def move[OF lt(1), simplified] move[OF lt(2), simplified] move[OF lt(3), simplified])
qed

lemma as_copy_law:
  assumes "vinv0 R own s live act" "aspaces s old = Some x"
  obtains R' own' s' where "as_copy old s = Err ENOMEM s'" "vinv0 R' own' s' live act"
    "lastpaddr s < firstpaddr s + 4124 + (as_npages1 x + as_npages2 x + 12) * 4096 \<or> inuse s = {..<256}"
  | R' own' s' new y where "as_copy old s = Ok new s'" "vinv0 R' own' s' live act" "aspaces s' = (aspaces s)(new \<mapsto> y)" "aspaces s new = None"
    "loaded y" "same_layout x y" "tlb s' = tlb s"
    "\<forall>b z q. (live ++ R) b = Some z \<longrightarrow> b \<le> q \<longrightarrow> q < b + extent z \<longrightarrow> (\<forall>p \<in> as_mem y. q \<noteq> MIPS_KSEG0 + p) \<longrightarrow> mwords s' q = mwords s q"
    "loaded x \<longrightarrow> (\<forall>i k. i < 3 \<longrightarrow> k < snd (as_run x i) * 4096 \<longrightarrow> mwords s' (MIPS_KSEG0 + fst (as_run y i) + k) = mwords s (MIPS_KSEG0 + fst (as_run x i) + k))"
proof (rule as_create_law[OF assms(1)])
  fix s' assume "as_create s = Ok None s'" "vinv0 R own s' live act" "refused s 28"
  then show thesis by (intro that(1)) (auto simp: as_copy_def bind_Ok[of as_create s] refused_def)
next
  fix new s1
  assume c: "as_create s = Ok (Some new) s1" "vinv0 (R(new \<mapsto> 28)) own s1 live act" "aspaces s1 = (aspaces s)(new \<mapsto> as_empty)" "aspaces s new = None"
    "keeps (live ++ R) s s1" "tlb s1 = tlb s" "R new = None" "live new = None"
    "firstpaddr s1 \<le> firstpaddr s + 4124" "lastpaddr s1 = lastpaddr s"
  let ?y0 = "as_empty\<lparr>as_vbase1 := as_vbase1 x, as_npages1 := as_npages1 x, as_vbase2 := as_vbase2 x, as_npages2 := as_npages2 x\<rparr>"
  let ?s2 = "s1\<lparr>aspaces := (aspaces s1)(new \<mapsto> ?y0)\<rparr>"
  have ne: "old \<noteq> new" using assms(2) c(4) by auto
  have a1: "aspaces s1 old = Some x" "aspaces s1 new = Some as_empty" using c(3) assms(2) ne by simp_all
  have u: "unloaded ?y0" by (simp add: unloaded_def as_empty_def)
  have "as_ok (R(new \<mapsto> 28)) own new ?y0"
    using vinv0D(3)[OF assms] unfolding as_ok_def all_less_3 by (simp add: run_ok_def as_empty_def)
  then have v2: "vinv0 (R(new \<mapsto> 28)) own ?s2 live act" by (rule as_put_unloaded[OF c(2) a1(2) unloaded_empty u])
  have a2: "aspaces ?s2 new = Some ?y0" by simp
  obtain R3 own3 s3 y where p: "as_prepare_load new ?s2 = (if loaded y then Ok () s3 else Err ENOMEM s3)" "vinv0 R3 own3 s3 live act"
    "aspaces s3 = (aspaces ?s2)(new \<mapsto> y)" "vsame ?s2 s3" "same_layout ?y0 y"
    "loaded y \<or> lastpaddr ?s2 < firstpaddr ?s2 + (as_npages1 ?y0 + as_npages2 ?y0 + 12) * 4096"
    by (rule as_prepare_load_law[OF v2 a2 u]) blast
  have run: "as_copy old s = bind (attempt (as_prepare_load new)) (\<lambda>e. case e of
          Inl _ \<Rightarrow> bind (as_destroy new) (\<lambda>_. fail ENOMEM)
        | Inr _ \<Rightarrow>
            bind (as_get new) (\<lambda>y.
            bind (assertk (as_pbase1 y \<noteq> 0) ''new->as_pbase1 != 0'') (\<lambda>_.
            bind (assertk (as_pbase2 y \<noteq> 0) ''new->as_pbase2 != 0'') (\<lambda>_.
            bind (assertk (as_stackpbase y \<noteq> 0) ''new->as_stackpbase != 0'') (\<lambda>_.
            bind (page_move (PADDR_TO_KVADDR (as_pbase1 y)) (PADDR_TO_KVADDR (as_pbase1 x)) (u32 (int (as_npages1 x) * int PAGE_SIZE))) (\<lambda>_.
            bind (page_move (PADDR_TO_KVADDR (as_pbase2 y)) (PADDR_TO_KVADDR (as_pbase2 x)) (u32 (int (as_npages2 x) * int PAGE_SIZE))) (\<lambda>_.
            bind (page_move (PADDR_TO_KVADDR (as_stackpbase y)) (PADDR_TO_KVADDR (as_stackpbase x)) (DUMBVM_STACKPAGES * PAGE_SIZE)) (\<lambda>_.
            ret new)))))))) ?s2"
    unfolding as_copy_def bind_Ok[of as_create s, OF c(1)] option.case bind_as_get[OF a1(1)] bind_as_put(1)[OF a1(2)] by (rule refl)
  have sl: "same_layout x y" using p(5) by (simp add: same_layout_def)
  have a3: "aspaces s3 old = Some x" "aspaces s3 new = Some y" "aspaces s3 = (aspaces s)(new \<mapsto> y)" using p(3) a1 ne c(3) by simp_all
  have m3: "mwords s3 = mwords s1" "tlb s3 = tlb s" using p(4) c(6) by (simp_all add: vsame_def)
  show thesis
  proof (cases "loaded y")
    case False
    then have p1: "as_prepare_load new ?s2 = Err ENOMEM s3" using p(1) by simp
    obtain s4 where d: "as_destroy new s3 = Ok () s4" "vinv0 (R3(new := None)) own3 s4 live (if act = Some new then None else act)" "tlb s4 = tlb s3"
      by (rule as_destroy_law[OF p(2) a3(2)])
    have "quiet_tlb s4 act new" using quiet_absent[OF assms(1) c(4)] d(3) m3(2) by (simp add: quiet_tlb_def)
    then have "vinv0 (R3(new := None)) own3 s4 live act" using d(2) by (auto simp: vinv0_def tlb_ok_def quiet_tlb_def split: if_splits)
    moreover have att: "attempt (as_prepare_load new) ?s2 = Ok (Inl ENOMEM) s3" using p1 by (simp add: attempt_def)
    have "as_copy old s = Err ENOMEM s4" unfolding run bind_Ok[of "attempt (as_prepare_load new)" ?s2, OF att]
      by (simp add: bind_Ok[of "as_destroy new" s3, OF d(1)])
    moreover have "lastpaddr s < firstpaddr s + 4124 + (as_npages1 x + as_npages2 x + 12) * 4096" using p(6) False c(9,10) by simp
    ultimately show thesis by (intro that(1)) simp_all
  next
    case True
    then have p1: "as_prepare_load new ?s2 = Ok () s3" using p(1) by simp
    let ?s4 = "s3\<lparr>mwords := copied x y (mwords s3)\<rparr>"
    note cp = copied_props[OF p(2) a3(1,2) ne True sl]
    have "vinv0 R3 own3 ?s4 live act" by (rule vinv0_memory[OF p(2) a3(2)]) (use cp(1) in blast)
    moreover have att: "attempt (as_prepare_load new) ?s2 = Ok (Inr ()) s3" using p1 by (simp add: attempt_def)
    have "as_copy old s = Ok new ?s4" unfolding run bind_Ok[of "attempt (as_prepare_load new)" ?s2, OF att] using True
      by (simp add: bind_as_get[OF a3(2)] loaded_def copy_moves[OF p(2) a3(1,2) True sl])
    moreover have "mwords ?s4 q = mwords s q" if "(live ++ R) b = Some z" "b \<le> q" "q < b + extent z" "\<forall>p \<in> as_mem y. q \<noteq> MIPS_KSEG0 + p" for b z q
      using cp(1)[OF that(4)] keepsD[OF c(5) that(1-3)] m3 by simp
    moreover have "mwords ?s4 (MIPS_KSEG0 + fst (as_run y i) + k) = mwords s (MIPS_KSEG0 + fst (as_run x i) + k)" if "loaded x" "i < 3" "k < snd (as_run x i) * 4096" for i k
    proof -
      have "fst (as_run x i) \<noteq> 0" using that(1) by (auto simp: loaded_def as_run_def)
      then show ?thesis using cp(2)[OF that] run_kept[OF assms that(2) _ that(3) c(5)] m3 by simp
    qed
    ultimately show thesis using True sl a3(3) c(4) m3(2) by (intro that(2)[of new ?s4 R3 own3 y]) simp_all
  qed
qed

end
