(* ===== verification/Vm_Claims.thy ===== *)
theory Vm_Claims
  imports Vm_Copy
begin

text \<open>
  Address spaces as the rest of the kernel and user programs see them, in every run of the kernel: programs are
  isolated from each other and from the kernel, a page fault loads exactly the translation of the page,
  and a copy has the same contents.
\<close>

section \<open>Runs\<close>

text \<open>
  From boot: the kernel allocates, frees and writes blocks; address spaces are created, get regions and pages, are copied and destroyed; threads do anything,
  and the address space of the current thread is activated whenever there is a switch to it (\<open>mi_switch\<close>, \<open>mi_threadstart\<close>, \<open>runprogram\<close>);
  the current thread faults, and user code stores through valid entries of the TLB. The third argument is the address space activated last.
\<close>

inductive vm_run :: "kmach \<Rightarrow> (nat \<Rightarrow> nat option) \<Rightarrow> nat option \<Rightarrow> bool" where
  vm_boot: "hboot s \<Longrightarrow> aspaces s = Map.empty \<Longrightarrow> length (tlb s) = 64 \<Longrightarrow> vm_run s Map.empty None"
| vm_kmalloc: "vm_run s live act \<Longrightarrow> sz < 2 ^ 30 \<Longrightarrow> kmalloc sz s = Ok a s' \<Longrightarrow> vm_run s' (if a = 0 then live else live(a \<mapsto> sz)) act"
| vm_kfree: "vm_run s live act \<Longrightarrow> live a = Some w \<Longrightarrow> kfree a s = Ok () s' \<Longrightarrow> vm_run s' (live(a := None)) act"
| vm_write: "vm_run s live act \<Longrightarrow> live a = Some z \<Longrightarrow> a \<le> y \<Longrightarrow> y < a + z \<Longrightarrow> vm_run (s\<lparr>mwords := (mwords s)(y := v)\<rparr>) live act"
| vm_create: "vm_run s live act \<Longrightarrow> as_create s = Ok r s' \<Longrightarrow> vm_run s' live act"
| vm_destroy: "vm_run s live act \<Longrightarrow> aspaces s a = Some x \<Longrightarrow> as_destroy a s = Ok () s' \<Longrightarrow> vm_run s' live (if act = Some a then None else act)"
| vm_define: "vm_run s live act \<Longrightarrow> aspaces s a = Some x \<Longrightarrow> unloaded x \<Longrightarrow> vaddr < 2 ^ 32 \<Longrightarrow> sz < 2 ^ 30 \<Longrightarrow>
    as_define_region a vaddr sz s = Ok () s' \<or> as_define_region a vaddr sz s = Err e s' \<Longrightarrow> vm_run s' live act"
| vm_prepare: "vm_run s live act \<Longrightarrow> aspaces s a = Some x \<Longrightarrow> unloaded x \<Longrightarrow>
    as_prepare_load a s = Ok () s' \<or> as_prepare_load a s = Err e s' \<Longrightarrow> vm_run s' live act"
| vm_copy: "vm_run s live act \<Longrightarrow> aspaces s a = Some x \<Longrightarrow> as_copy a s = Ok new s' \<or> as_copy a s = Err e s' \<Longrightarrow> vm_run s' live act"
| vm_threads: "vm_run s live act \<Longrightarrow> vm_run (s\<lparr>mts := t\<rparr>) live act"
| vm_activate: "vm_run s live act \<Longrightarrow> cur_as s = Ok r s \<Longrightarrow> as_activate s = Ok () s' \<Longrightarrow> vm_run s' live r"
| vm_faults: "vm_run s live act \<Longrightarrow> cur_as s = Ok r s \<Longrightarrow> r = None \<or> r = act \<Longrightarrow> ft = VM_FAULT_READ \<or> ft = VM_FAULT_WRITE \<Longrightarrow> va < 2 ^ 32 \<Longrightarrow>
    vm_fault ft va s = Ok () s' \<or> vm_fault ft va s = Err e s' \<Longrightarrow> vm_run s' live act"
| vm_store: "vm_run s live (Some a) \<Longrightarrow> ent \<in> set (tlb s) \<Longrightarrow> tlb_valid ent \<Longrightarrow> off < 4096 \<Longrightarrow>
    vm_run (s\<lparr>mwords := (mwords s)(MIPS_KSEG0 + tlb_page ent + off := v)\<rparr>) live (Some a)"

lemma vinvI: "vinv0 R own s live act \<Longrightarrow> vinv s live act"
  by (auto simp: vinv_def)

lemma kmalloc_vinv:
  assumes "vinv0 R own s live act" "sz < 2 ^ 30" "kmalloc sz s = Ok a s'"
  shows "vinv s' (if a = 0 then live else live(a \<mapsto> sz)) act"
proof -
  note d = vinv0D[OF assms(1)]
  obtain b t where k: "kmalloc sz s = Ok b t" "served s (live ++ R) sz b t" "tlb t = tlb s" "aspaces t = aspaces s"
    "b = 0 \<or> live b = None \<and> R b = None \<and> aspaces s b = None"
    by (rule vinv0_kmalloc[OF assms(1,2)])
  then have e: "b = a" "t = s'" using assms(3) by simp_all
  have "(live ++ R)(a \<mapsto> sz) = live(a \<mapsto> sz) ++ R" if "a \<noteq> 0" using k(5) e that by (auto simp: fun_eq_iff map_add_def split: option.splits)
  then have "hinv s' ((if a = 0 then live else live(a \<mapsto> sz)) ++ R)" using k(2) e by (auto simp: served_def)
  moreover have "dom (if a = 0 then live else live(a \<mapsto> sz)) \<inter> dom R = {}" using d(2) k(5) e by auto
  moreover have "tlb_ok s' act" using d(4) k(3,4) e by (simp add: tlb_ok_def)
  ultimately have "vinv0 R own s' (if a = 0 then live else live(a \<mapsto> sz)) act" unfolding vinv0_def using d(3) k(4) e by simp
  then show ?thesis by (rule vinvI)
qed

lemma kfree_vinv:
  assumes "vinv0 R own s live act" "live a = Some w" "kfree a s = Ok () s'"
  shows "vinv s' (live(a := None)) act"
proof -
  note d = vinv0D[OF assms(1)] and l = vinv0_live[OF assms(1,2)]
  obtain t where k: "kfree a s = Ok () t" "hinv t ((live ++ R)(a := None))" "rest_same s t" by (rule kfree_law[OF d(1) l(1)]) blast
  then have e: "t = s'" using assms(3) by simp
  have "(live ++ R)(a := None) = live(a := None) ++ R" using l(2) by (auto simp: fun_eq_iff map_add_def split: option.splits)
  then have "vinv0 R own s' (live(a := None)) act" unfolding vinv0_def using d k(2,3) e by (auto simp: rest_same_def tlb_ok_def)
  then show ?thesis by (rule vinvI)
qed

lemma vm_fault_vinv:
  assumes "vinv0 R own s live act" "cur_as s = Ok r s" "r = None \<or> r = act" "ft = VM_FAULT_READ \<or> ft = VM_FAULT_WRITE" "va < 2 ^ 32"
    "vm_fault ft va s = Ok () s' \<or> vm_fault ft va s = Err e s'"
  shows "vinv s' live act"
proof -
  note d = vinv0D[OF assms(1)]
  have mts: "vinv (s\<lparr>mts := t\<rparr>) live act" for t using d by (intro vinvI[of R own]) (simp add: vinv0_def tlb_ok_def)
  show ?thesis
  proof (cases r)
    case None
    then show ?thesis using vm_fault_none[OF assms(4), of s va] assms(2,6) mts by auto
  next
    case (Some a)
    let ?s = "s\<lparr>mts := spl_set SPL_HIGH (mts s)\<rparr>"
    have c: "cur_as ?s = Ok (Some a) ?s" using cur_as_spl[OF assms(2)] Some by simp
    have fault: "vm_fault ft va s = bind (as_get a) (\<lambda>x. bind (as_assert x) (\<lambda>_. k x)) ?s \<Longrightarrow> ?thesis" for k :: "addrspace \<Rightarrow> (unit, kmach) kmon"
    proof -
      assume f: "vm_fault ft va s = bind (as_get a) (\<lambda>x. bind (as_assert x) (\<lambda>_. k x)) ?s"
      obtain x where x: "aspaces s a = Some x" using f assms(6) by (cases "aspaces s a") (auto simp: bind_def as_get_def)
      have ok: "defined_as x" "loaded x" using f assms(6) as_assert_run[OF d(3)[OF x], of ?s] x by (auto simp: bind_def as_get_def)
      obtain t where t: "vm_fault ft va s = (case fault_paddr x (va - va mod 4096) of None \<Rightarrow> Err EFAULT (s\<lparr>mts := t\<rparr>)
        | Some p \<Rightarrow> (case first_invalid s of None \<Rightarrow> Err EFAULT (s\<lparr>mts := t\<rparr>)
           | Some i \<Rightarrow> Ok () (s\<lparr>mts := t, tlb := (tlb s)[i := (va - va mod 4096, p + 0x600)]\<rparr>)))"
        by (rule vm_fault_run[OF assms(4) _ x d(3)[OF x] ok assms(5)]) (use assms(2) Some in auto)
      have act: "act = Some a" using Some assms(3) by auto
      show ?thesis
        using t assms(6) mts vinvI[OF tlb_ok_load[OF assms(1)[unfolded act] x ok(2) assms(5)]] act by (auto split: option.splits)
    qed
    have "vm_fault ft va s = bind cur_as (\<lambda>a. case a of None \<Rightarrow> fail EFAULT
     | Some a \<Rightarrow> bind (as_get a) (\<lambda>x. bind (as_assert x) (\<lambda>_.
        case fault_paddr x (va AND PAGE_FRAME) of
          None \<Rightarrow> bind (on_mts (splx (curspl (mts s)))) (\<lambda>_. fail EFAULT)
        | Some paddr \<Rightarrow> bind (assertk (paddr AND PAGE_FRAME = paddr) ''(paddr & PAGE_FRAME)==paddr'') (\<lambda>_.
            bind (first_some [0..<NUM_TLB] (tlb_load (va AND PAGE_FRAME) paddr)) (\<lambda>r.
            bind (on_mts (splx (curspl (mts s)))) (\<lambda>_. case r of Some _ \<Rightarrow> ret () | None \<Rightarrow> fail EFAULT)))))) ?s"
      using assms(4) unfolding vm_fault_def bind_splhigh Let_def by auto
    then show ?thesis unfolding bind_Ok[of cur_as ?s, OF c] option.case by (rule fault)
  qed
qed

lemma vm_run_vinv: "vm_run s live act \<Longrightarrow> vinv s live act"
proof (induction rule: vm_run.induct)
  case (vm_boot s)
  then have "vinv0 Map.empty (\<lambda>_. None) s Map.empty None" using hboot_hinv[of s] by (simp add: vinv0_def tlb_ok_def)
  then show ?case by (rule vinvI)
next
  case (vm_kmalloc s live act sz a s')
  then obtain R own where v: "vinv0 R own s live act" by (auto simp: vinv_def)
  show ?case by (rule kmalloc_vinv[OF v vm_kmalloc.hyps(2,3)])
next
  case (vm_kfree s live act a w s')
  then obtain R own where v: "vinv0 R own s live act" by (auto simp: vinv_def)
  show ?case by (rule kfree_vinv[OF v vm_kfree.hyps(2,3)])
next
  case (vm_write s live act a z y v)
  then obtain R own where v: "vinv0 R own s live act" by (auto simp: vinv_def)
  note d = vinv0D[OF v]
  have "hinv (s\<lparr>mwords := (mwords s)(y := v)\<rparr>) (live ++ R)" by (rule kh.poke_law[OF d(1) vinv0_live(1)[OF v]]) (use vm_write in simp_all)
  then have "vinv0 R own (s\<lparr>mwords := (mwords s)(y := v)\<rparr>) live act" using d by (simp add: vinv0_def tlb_ok_def)
  then show ?case by (rule vinvI)
next
  case (vm_create s live act r s')
  then obtain R own where v: "vinv0 R own s live act" by (auto simp: vinv_def)
  show ?case by (rule as_create_law[OF v]) (use vm_create.hyps in \<open>auto intro: vinvI\<close>)
next
  case (vm_destroy s live act a x s')
  then obtain R own where v: "vinv0 R own s live act" by (auto simp: vinv_def)
  show ?case by (rule as_destroy_law[OF v vm_destroy.hyps(2)]) (use vm_destroy.hyps(3) in \<open>auto intro: vinvI\<close>)
next
  case (vm_define s live act a x vaddr sz s' e)
  then obtain R own where v: "vinv0 R own s live act" by (auto simp: vinv_def)
  show ?case by (rule as_define_region_law[OF v vm_define.hyps(2-5)]) (use vm_define.hyps(6) v in \<open>auto intro: vinvI\<close>)
next
  case (vm_prepare s live act a x s' e)
  then obtain R own where v: "vinv0 R own s live act" by (auto simp: vinv_def)
  show ?case by (rule as_prepare_load_law[OF v vm_prepare.hyps(2,3)]) (use vm_prepare.hyps(4) in \<open>auto intro: vinvI split: if_splits\<close>)
next
  case (vm_copy s live act a x new s' e)
  then obtain R own where v: "vinv0 R own s live act" by (auto simp: vinv_def)
  show ?case by (rule as_copy_law[OF v vm_copy.hyps(2)]) (use vm_copy.hyps(3) in \<open>auto intro: vinvI\<close>)
next
  case (vm_threads s live act t)
  then show ?case by (auto simp: vinv_def vinv0_def tlb_ok_def)
next
  case (vm_activate s live act r s')
  then obtain R own where v: "vinv0 R own s live act" by (auto simp: vinv_def)
  note d = vinv0D[OF v]
  have l: "length (tlb s) = 64" using d(4) by (simp add: tlb_ok_def)
  obtain t where t: "as_activate s = Ok () (s\<lparr>mts := t, tlb := map (\<lambda>i. (TLBHI_INVALID i, 0)) [0..<64]\<rparr>)" by (rule as_activate_run[OF l])
  have "\<not> tlb_valid (h, 0)" for h by (simp add: tlb_valid_def)
  then have "vinv0 R own (s\<lparr>mts := t, tlb := map (\<lambda>i. (TLBHI_INVALID i, 0)) [0..<64]\<rparr>) live r"
    using d by (auto simp: vinv0_def hinv_cong tlb_ok_def simp del: upt_rec_numeral)
  then show ?case using t vm_activate.hyps(3) by (auto intro: vinvI)
next
  case (vm_faults s live act r ft va s' e)
  then obtain R own where v: "vinv0 R own s live act" by (auto simp: vinv_def)
  show ?case by (rule vm_fault_vinv[OF v vm_faults.hyps(2-6)])
next
  case (vm_store s live a ent off v)
  then obtain R own where i: "vinv0 R own s live (Some a)" by (auto simp: vinv_def)
  obtain x where x: "aspaces s a = Some x" "entry_ok x ent" using tlb_okD[OF vinv0D(4)[OF i] vm_store.hyps(2,3)] by blast
  have "tlb_page ent + off \<in> as_mem x" using x(2) vm_store.hyps(4) by (simp add: entry_ok_def)
  then have "vinv0 R own (s\<lparr>mwords := (mwords s)(MIPS_KSEG0 + tlb_page ent + off := v)\<rparr>) live (Some a)"
    by (intro vinv0_memory[OF i x(1)]) (auto split: if_splits intro!: bexI[of _ "tlb_page ent + off"])
  then show ?case by (rule vinvI)
qed

section \<open>An example\<close>

text \<open>A machine with one running thread, whose address space is \<open>vm\<close>.\<close>

definition one_thread :: "nat option \<Rightarrow> tsys" where
  "one_thread vm = tsys0\<lparr>threads := [1 \<mapsto> \<lparr>t_frame = SwExit, t_ininterrupt = False, t_name = ''a'', t_sleepaddr = 0,
     t_stack = None, t_vmspace = vm, t_cwd = None\<rparr>], nextid := 2, curthread := Some 1, numthreads := 1\<rparr>"

lemma cur_as_one: "mts s = one_thread vm \<Longrightarrow> cur_as s = Ok vm s"
  by (cases s) (simp add: cur_as_def on_mts_def zoom_def bind_def cur_def t_get_def one_thread_def)

lemma kmach0_vm: "vm_run kmach0 Map.empty None"
  by (rule vm_boot[OF kmach0_boot]) (simp_all add: kmach0_def)

text \<open>Every page record in use stands for a page of its own.\<close>

lemma inuse_few:
  assumes "hinv s G" "firstpaddr s < 2 ^ 20"
  shows "inuse s \<noteq> {..<256}"
proof
  assume full: "inuse s = {..<256}"
  obtain all fl where h: "hinv0 s all fl G" using assms(1) by (auto simp: hinv_def)
  note d = hinv0D[OF h]
  let ?f = "\<lambda>p. (pgaddr s p - MIPS_KSEG0) div 4096"
  have pg: "MIPS_KSEG0 < pgaddr s p" "pgaddr s p + 4096 \<le> MIPS_KSEG0 + firstpaddr s" "pgaddr s p = MIPS_KSEG0 + 4096 * ?f p" if p: "p \<in> set all" for p
  proof -
    show "MIPS_KSEG0 < pgaddr s p" "pgaddr s p + 4096 \<le> MIPS_KSEG0 + firstpaddr s" using d(7)[OF p] by (simp_all add: in_ram_def)
    have "4096 dvd pgaddr s p" using page_okD(2)[OF d(4)[OF p]] by (simp add: dvd_eq_mod_eq_0)
    moreover have "4096 dvd MIPS_KSEG0" by (simp add: MIPS_KSEG0_def)
    ultimately have "4096 dvd pgaddr s p - MIPS_KSEG0" by (rule dvd_diff_nat)
    then show "pgaddr s p = MIPS_KSEG0 + 4096 * ?f p" using \<open>MIPS_KSEG0 < pgaddr s p\<close> by simp
  qed
  have inj: "inj_on ?f (set all)"
  proof (rule inj_onI, rule ccontr)
    fix p q assume h: "p \<in> set all" "q \<in> set all" "?f p = ?f q" "p \<noteq> q"
    then have "apart (pgaddr s p) 4096 (pgaddr s q) 4096" using d(8) by blast
    then show False using pg(3)[OF h(1)] pg(3)[OF h(2)] h(3) by (simp add: apart_def)
  qed
  have "?f ` set all \<subseteq> {1..255}"
  proof (rule image_subsetI)
    fix p assume "p \<in> set all"
    from pg[OF this] show "?f p \<in> {1..255}" using assms(2) by auto
  qed
  then have "card (set all) \<le> card {1..255 :: nat}" using card_inj_on_le[OF inj] by blast
  moreover have "card (set all) = 256" using full d(3) by (metis card_lessThan)
  ultimately show False by simp
qed

lemma example_created:
  obtains a s where "vm_run s Map.empty None" "aspaces s a = Some as_empty" "firstpaddr s \<le> 69660" "lastpaddr s = 1048576" "65536 \<le> firstpaddr s"
proof -
  obtain R own where v: "vinv0 R own kmach0 Map.empty None" using vm_run_vinv[OF kmach0_vm] by (auto simp: vinv_def)
  show thesis
  proof (rule as_create_law[OF v])
    assume "refused kmach0 28"
    then show thesis using inuse_few[OF vinv0D(1)[OF v]] by (simp add: refused_def)
  next
    fix a s assume c: "as_create kmach0 = Ok (Some a) s" "aspaces s = (aspaces kmach0)(a \<mapsto> as_empty)" "firstpaddr s \<le> firstpaddr kmach0 + 4124" "lastpaddr s = lastpaddr kmach0"
    have "65536 \<le> firstpaddr s"
    proof (rule vinv0_kmalloc[OF v, of 28])
      fix b t assume k: "kmalloc 28 kmach0 = Ok b t" "served kmach0 (Map.empty ++ R) 28 b t"
      then have "firstpaddr s = firstpaddr t" using c(1) by (auto simp: as_create_def bind_Ok[of "kmalloc 28" kmach0, OF k(1)] split: if_splits)
      then show "65536 \<le> firstpaddr s" using k(2) by (simp add: served_def rest_same_def)
    qed simp
    then show thesis using that[of s a] vm_create[OF kmach0_vm c(1)] c(2-4) by simp
  qed
qed

definition example_space :: "nat \<Rightarrow> nat \<Rightarrow> nat \<Rightarrow> addrspace" where
  "example_space p q st = \<lparr>as_vbase1 = 0x400000, as_pbase1 = p, as_npages1 = 2, as_vbase2 = 0x10000000, as_pbase2 = q, as_npages2 = 1, as_stackpbase = st\<rparr>"

lemma example_loaded:
  obtains a s p q st where "vm_run s Map.empty (Some a)" "cur_as s = Ok (Some a) s" "aspaces s a = Some (example_space p q st)" "loaded (example_space p q st)"
    "first_invalid s = Some 0" "firstpaddr s \<le> 131100" "lastpaddr s = 1048576" "inuse s \<noteq> {..<256}"
proof -
  obtain a s1 where 1: "vm_run s1 Map.empty None" "aspaces s1 a = Some as_empty" "firstpaddr s1 \<le> 69660" "lastpaddr s1 = 1048576" by (rule example_created)
  let ?x2 = "as_empty\<lparr>as_vbase1 := 0x400000, as_npages1 := 2\<rparr>" and ?x3 = "example_space 0 0 0"
  let ?s2 = "s1\<lparr>aspaces := (aspaces s1)(a \<mapsto> ?x2)\<rparr>"
  let ?s3 = "?s2\<lparr>aspaces := (aspaces ?s2)(a \<mapsto> ?x3)\<rparr>"
  have r2: "as_define_region a 0x400000 5000 s1 = Ok () ?s2" by (subst as_define_region_run[OF 1(2)]) (simp_all add: as_empty_def npg_def)
  have v2: "vm_run ?s2 Map.empty None" by (rule vm_define[OF 1(1,2) unloaded_empty, of "0x400000" 5000]) (use r2 in simp_all)
  have a2: "aspaces ?s2 a = Some ?x2" "unloaded ?x2" by (simp_all add: unloaded_def as_empty_def)
  have r3: "as_define_region a 0x10000000 100 ?s2 = Ok () ?s3" by (subst as_define_region_run[OF a2(1)]) (simp_all add: as_empty_def npg_def example_space_def)
  have v3: "vm_run ?s3 Map.empty None" by (rule vm_define[OF v2 a2, of "0x10000000" 100]) (use r3 in simp_all)
  have a3: "aspaces ?s3 a = Some ?x3" "unloaded ?x3" by (simp_all add: unloaded_def example_space_def)
  obtain R own where i3: "vinv0 R own ?s3 Map.empty None" using vm_run_vinv[OF v3] by (auto simp: vinv_def)
  obtain R4 own4 s4 y where 4: "as_prepare_load a ?s3 = (if loaded y then Ok () s4 else Err ENOMEM s4)" "aspaces s4 = (aspaces ?s3)(a \<mapsto> y)" "vsame ?s3 s4" "same_layout ?x3 y"
    "loaded y \<or> lastpaddr ?s3 < firstpaddr ?s3 + (as_npages1 ?x3 + as_npages2 ?x3 + 12) * 4096" "firstpaddr s4 \<le> firstpaddr ?s3 + (as_npages1 ?x3 + as_npages2 ?x3 + 12) * 4096"
    by (rule as_prepare_load_law[OF i3 a3]) blast
  have l: "loaded y" using 4(5) 1(3,4) by (auto simp: example_space_def)
  have v4: "vm_run s4 Map.empty None" by (rule vm_prepare[OF v3 a3, of s4]) (use 4(1) l in simp)
  have y: "y = example_space (as_pbase1 y) (as_pbase2 y) (as_stackpbase y)" using 4(4) by (cases y) (simp add: same_layout_def example_space_def)
  let ?s5 = "s4\<lparr>mts := one_thread (Some a)\<rparr>"
  have c5: "cur_as ?s5 = Ok (Some a) ?s5" by (rule cur_as_one) simp
  note v5 = vm_threads[OF v4, of "one_thread (Some a)"]
  obtain R5 own5 where i5: "vinv0 R5 own5 ?s5 Map.empty None" using vm_run_vinv[OF v5] by (auto simp: vinv_def)
  have len: "length (tlb ?s5) = 64" using vinv0D(4)[OF i5] by (simp add: tlb_ok_def)
  let ?tlb = "map (\<lambda>i. (TLBHI_INVALID i, 0)) [0..<64]"
  obtain t where t: "as_activate ?s5 = Ok () (?s5\<lparr>mts := t, tlb := ?tlb\<rparr>)" by (rule as_activate_run[OF len])
  let ?s6 = "?s5\<lparr>mts := t, tlb := ?tlb\<rparr>"
  note v6 = vm_threads[OF vm_activate[OF v5 c5 t], of "one_thread (Some a)"]
  have "first_invalid (?s6\<lparr>mts := one_thread (Some a)\<rparr>) = Some 0" by (simp add: first_invalid_def upt_conv_Cons[of 0 64] tlb_valid_def del: upt_rec_numeral)
  moreover have "cur_as (?s6\<lparr>mts := one_thread (Some a)\<rparr>) = Ok (Some a) (?s6\<lparr>mts := one_thread (Some a)\<rparr>)" by (rule cur_as_one) simp
  moreover have "inuse (?s6\<lparr>mts := one_thread (Some a)\<rparr>) \<noteq> {..<256}"
  proof -
    obtain R6 own6 where "vinv0 R6 own6 (?s6\<lparr>mts := one_thread (Some a)\<rparr>) Map.empty (Some a)" using vm_run_vinv[OF v6] by (auto simp: vinv_def)
    from inuse_few[OF vinv0D(1)[OF this]] show ?thesis using 4(6) 1(3) by (simp add: example_space_def)
  qed
  ultimately show thesis
    using that[of _ a "as_pbase1 y" "as_pbase2 y" "as_stackpbase y", OF v6] y l 4(2,3,6) 1(3,4) by (simp add: vsame_def example_space_def)
qed

section \<open>Isolation\<close>

lemma as_mem_apart:
  assumes "vinv0 R own s live act" "aspaces s a = Some x" "p \<in> as_mem x"
  shows "aspaces s b = Some y \<Longrightarrow> b \<noteq> a \<Longrightarrow> p \<notin> as_mem y" "live c = Some z \<Longrightarrow> \<not> (c \<le> MIPS_KSEG0 + p \<and> MIPS_KSEG0 + p < c + z)" "p < lastpaddr s"
proof -
  note d = vinv0D[OF assms(1)]
  obtain i where i: "i < 3" "fst (as_run x i) \<noteq> 0" "fst (as_run x i) \<le> p" "p < fst (as_run x i) + snd (as_run x i) * 4096"
    using assms(3) by (auto simp: as_mem_def)
  then have n: "0 < snd (as_run x i)" by (cases "snd (as_run x i)") auto
  show "p \<notin> as_mem y" if b: "aspaces s b = Some y" "b \<noteq> a"
  proof
    assume "p \<in> as_mem y"
    then obtain j where j: "j < 3" "fst (as_run y j) \<noteq> 0" "fst (as_run y j) \<le> p" "p < fst (as_run y j) + snd (as_run y j) * 4096" by (auto simp: as_mem_def)
    then have "0 < snd (as_run y j)" by (cases "snd (as_run y j)") auto
    then show False using runs_apart[OF assms(1,2) b(1) i(1) j(1) _ i(2) j(2) n] b(2) i(3,4) j(3,4) by (auto simp: apart_def)
  qed
  show "\<not> (c \<le> MIPS_KSEG0 + p \<and> MIPS_KSEG0 + p < c + z)" if "live c = Some z"
    using run_apart_block[OF assms(1,2) i(1,2) n that] i(3,4) by (auto simp: apart_def)
  have "(live ++ R) (MIPS_KSEG0 + fst (as_run x i)) = Some (snd (as_run x i) * 4096)" using as_okD(5)[OF d(3)[OF assms(2)] i(1,2) n] by simp
  from hinv_block(2)[OF d(1) this] hinv_ram[OF d(1)] show "p < lastpaddr s" using i(4) by (simp add: ram_ok_def)
qed

text \<open>
  C32: Isolation. In every run of the kernel from boot, in which regions of less than a gigabyte are defined before their pages are allocated: the physical memory of an address space lies inside the
  machine's memory, is disjoint from the memory of every other address space and from every block that \<open>kmalloc\<close> handed out; and every valid entry of
  the TLB maps a page into the memory of the address space that was activated last, at the place where \<open>vm_fault\<close> puts that page. So user
  code reads and writes only its own memory.
\<close>

theorem address_spaces_isolated:
  assumes "vm_run s live act"
  shows "(\<forall>a x p. aspaces s a = Some x \<and> p \<in> as_mem x \<longrightarrow> p < lastpaddr s \<and>
      (\<forall>b y. aspaces s b = Some y \<and> b \<noteq> a \<longrightarrow> p \<notin> as_mem y) \<and>
      (\<forall>c z. live c = Some z \<longrightarrow> \<not> (c \<le> MIPS_KSEG0 + p \<and> MIPS_KSEG0 + p < c + z))) \<and>
    (\<forall>a ehi elo. act = Some a \<and> (ehi, elo) \<in> set (tlb s) \<and> elo AND TLBLO_VALID \<noteq> 0 \<longrightarrow>
      (\<exists>x. aspaces s a = Some x \<and> fault_paddr x ehi = Some (elo AND PAGE_FRAME) \<and> (\<forall>off < 4096. (elo AND PAGE_FRAME) + off \<in> as_mem x)))"
proof -
  obtain R own where v: "vinv0 R own s live act" using vm_run_vinv[OF assms] by (auto simp: vinv_def)
  have "\<exists>x. aspaces s a = Some x \<and> fault_paddr x ehi = Some (elo AND PAGE_FRAME) \<and> (\<forall>off < 4096. (elo AND PAGE_FRAME) + off \<in> as_mem x)"
    if "act = Some a" "(ehi, elo) \<in> set (tlb s)" "elo AND TLBLO_VALID \<noteq> 0" for a ehi elo
    using tlb_okD[of s a "(ehi, elo)"] vinv0D(4)[OF v] that by (auto simp: entry_ok_def tlb_valid_def tlb_page_def)
  then show ?thesis using as_mem_apart[OF v] by blast
qed

theorem address_spaces_isolated_witness:
  "\<exists>s a x s'. aspaces s a = Some x \<and> vm_fault VM_FAULT_READ 0x400123 s = Ok () s' \<and> fst (tlb s' ! 0) = 0x400000 \<and>
     (\<forall>off < 4096. tlb_page (tlb s' ! 0) + off \<in> as_mem x \<and> tlb_page (tlb s' ! 0) + off < lastpaddr s')"
proof -
  obtain a s p q st where e: "vm_run s Map.empty (Some a)" "cur_as s = Ok (Some a) s" "aspaces s a = Some (example_space p q st)" "loaded (example_space p q st)"
    "first_invalid s = Some 0" by (rule example_loaded) blast
  let ?x = "example_space p q st"
  obtain R own where v: "vinv0 R own s Map.empty (Some a)" using vm_run_vinv[OF e(1)] by (auto simp: vinv_def)
  have ok: "as_ok R own a ?x" by (rule vinv0D(3)[OF v e(3)])
  have len: "length (tlb s) = 64" using vinv0D(4)[OF v] by (simp add: tlb_ok_def)
  have df: "defined_as ?x" "(0x400123 :: nat) < 2 ^ 32" by (simp_all add: defined_as_def example_space_def)
  obtain t where "curspl t = curspl (mts s)" and f: "vm_fault VM_FAULT_READ 0x400123 s = (case fault_paddr ?x (0x400123 - 0x400123 mod 4096) of None \<Rightarrow> Err EFAULT (s\<lparr>mts := t\<rparr>)
    | Some p \<Rightarrow> (case first_invalid s of None \<Rightarrow> Err EFAULT (s\<lparr>mts := t\<rparr>)
       | Some i \<Rightarrow> Ok () (s\<lparr>mts := t, tlb := (tlb s)[i := (0x400123 - 0x400123 mod 4096, p + 0x600)]\<rparr>)))"
    by (rule vm_fault_run[OF disjI1[OF refl] e(2,3) ok df(1) e(4) df(2)])
  have fp: "fault_paddr ?x 0x400000 = Some (u32 (int p))" by (simp add: fault_paddr_def example_space_def u32_def PAGE_SIZE_def)
  let ?s' = "s\<lparr>mts := t, tlb := (tlb s)[0 := (0x400000, u32 (int p) + 0x600)]\<rparr>"
  have run: "vm_fault VM_FAULT_READ 0x400123 s = Ok () ?s'" using f fp e(5) by simp
  have "vm_run ?s' Map.empty (Some a)" by (rule vm_faults[OF e(1,2) _ _ _ disjI1[OF run]]) simp_all
  note iso = address_spaces_isolated[OF this]
  note p = fault_paddr_ok[OF ok e(4) _ fp]
  have "tlb ?s' ! 0 = (0x400000, u32 (int p) + 0x600)" using len by simp
  moreover have "(0x400000, u32 (int p) + 0x600) \<in> set (tlb ?s')" using len by (simp add: set_update_memI)
  moreover have "(u32 (int p) + 0x600) AND TLBLO_VALID \<noteq> 0" using tlb_valid_entry[of "u32 (int p)"] p by (simp add: tlb_valid_def)
  moreover have "aspaces ?s' a = Some ?x" using e(3) by simp
  ultimately have "fst (tlb ?s' ! 0) = 0x400000 \<and> (\<forall>off < 4096. tlb_page (tlb ?s' ! 0) + off \<in> as_mem ?x \<and> tlb_page (tlb ?s' ! 0) + off < lastpaddr ?s')"
    using iso unfolding tlb_page_def by fastforce
  then show ?thesis using e(3) run by blast
qed

section \<open>Translation\<close>

text \<open>The mapping that an address space describes, on unbounded addresses: two regions and 48 kilobytes of stack below \<open>USERSTACK\<close>.\<close>

definition as_translate :: "addrspace \<Rightarrow> nat \<Rightarrow> nat option" where
  "as_translate x va =
     (if as_vbase1 x \<le> va \<and> va < as_vbase1 x + as_npages1 x * 4096 then Some (as_pbase1 x + (va - as_vbase1 x))
      else if as_vbase2 x \<le> va \<and> va < as_vbase2 x + as_npages2 x * 4096 then Some (as_pbase2 x + (va - as_vbase2 x))
      else if USERSTACK - 49152 \<le> va \<and> va < USERSTACK then Some (as_stackpbase x + (va - (USERSTACK - 49152)))
      else None)"

definition user_space :: "addrspace \<Rightarrow> bool" where
  "user_space x \<longleftrightarrow> defined_as x \<and> loaded x \<and> as_vbase1 x + as_npages1 x * 4096 \<le> USERSTACK \<and> as_vbase2 x + as_npages2 x * 4096 \<le> USERSTACK"

lemma fault_paddr_translate:
  assumes "as_ok R own a x" "user_space x"
  shows "fault_paddr x va = as_translate x va"
proof -
  have lt: "(0 :: nat) < 3" "(1 :: nat) < 3" "(2 :: nat) < 3" by simp_all
  have n: "as_npages1 x * 4096 < 2 ^ 31" "as_npages2 x * 4096 < 2 ^ 31" "as_pbase1 x < 2 ^ 29" "as_pbase2 x < 2 ^ 29" "as_stackpbase x < 2 ^ 29"
    using as_okD(2,3)[OF assms(1) lt(1)] as_okD(2,3)[OF assms(1) lt(2)] as_okD(3)[OF assms(1) lt(3)] by simp_all
  have us: "USERSTACK = 2 ^ 31" by (simp add: USERSTACK_def MIPS_KSEG0_def)
  have top: "u32 (int (as_vbase1 x) + int (as_npages1 x) * int PAGE_SIZE) = as_vbase1 x + as_npages1 x * 4096"
    "u32 (int (as_vbase2 x) + int (as_npages2 x) * int PAGE_SIZE) = as_vbase2 x + as_npages2 x * 4096"
    by (rule u32_of_nat; use assms(2) us in \<open>simp add: user_space_def PAGE_SIZE_def\<close>)+
  have ad: "u32 (int (va - v) + int q) = q + (va - v)" if "va < 2 ^ 31" "q < 2 ^ 29" for v q :: nat
    by (rule u32_of_nat) (use that in simp_all)
  have st: "USERSTACK - DUMBVM_STACKPAGES * PAGE_SIZE = USERSTACK - 49152" by (simp add: DUMBVM_STACKPAGES_def PAGE_SIZE_def)
  show ?thesis
  proof (cases "va < 2 ^ 31")
    case True
    show ?thesis unfolding fault_paddr_def as_translate_def Let_def top st ad[OF True n(3)] ad[OF True n(4)] ad[OF True n(5)] by (rule refl)
  next
    case False
    then have "\<not> va < as_vbase1 x + as_npages1 x * 4096" "\<not> va < as_vbase2 x + as_npages2 x * 4096" "\<not> va < USERSTACK"
      using assms(2) us by (auto simp: user_space_def)
    then show ?thesis unfolding fault_paddr_def as_translate_def Let_def top st by simp
  qed
qed

text \<open>
  C33: A page fault of a program whose regions lie in user memory fails no assertion. If the address is in a region or in the stack, the translation of its page is put into the first TLB entry that is not
  valid, readable and writable, and nothing else changes; if it is outside, or all 64 entries are valid, the fault is refused with \<open>EFAULT\<close> and nothing changes. The interrupt level is restored.
\<close>

theorem vm_fault_loads_translation:
  assumes "vm_run s live act" "cur_as s = Ok (Some a) s" "aspaces s a = Some x" "user_space x" "va < 2 ^ 32" "ft = VM_FAULT_READ \<or> ft = VM_FAULT_WRITE"
  shows "\<exists>t. curspl t = curspl (mts s) \<and> vm_fault ft va s = (case as_translate x (va div 4096 * 4096) of None \<Rightarrow> Err EFAULT (s\<lparr>mts := t\<rparr>)
    | Some p \<Rightarrow> (case find (\<lambda>i. snd (tlb s ! i) AND TLBLO_VALID = 0) [0..<64] of None \<Rightarrow> Err EFAULT (s\<lparr>mts := t\<rparr>)
       | Some i \<Rightarrow> Ok () (s\<lparr>mts := t, tlb := (tlb s)[i := (va div 4096 * 4096, p + TLBLO_DIRTY + TLBLO_VALID)]\<rparr>)))"
proof -
  obtain R own where v: "vinv0 R own s live act" using vm_run_vinv[OF assms(1)] by (auto simp: vinv_def)
  note x = vinv0D(3)[OF v assms(3)]
  have u: "defined_as x" "loaded x" using assms(4) by (simp_all add: user_space_def)
  obtain t where t: "curspl t = curspl (mts s)" "vm_fault ft va s = (case fault_paddr x (va - va mod 4096) of None \<Rightarrow> Err EFAULT (s\<lparr>mts := t\<rparr>)
    | Some p \<Rightarrow> (case first_invalid s of None \<Rightarrow> Err EFAULT (s\<lparr>mts := t\<rparr>)
       | Some i \<Rightarrow> Ok () (s\<lparr>mts := t, tlb := (tlb s)[i := (va - va mod 4096, p + 0x600)]\<rparr>)))"
    by (rule vm_fault_run[OF assms(6,2,3) x u assms(5)])
  have f: "first_invalid s = find (\<lambda>i. snd (tlb s ! i) AND TLBLO_VALID = 0) [0..<64]" by (simp add: first_invalid_def tlb_valid_def del: upt_rec_numeral)
  have c: "q + 0x600 = q + TLBLO_DIRTY + TLBLO_VALID" for q by (simp add: TLBLO_DIRTY_def TLBLO_VALID_def)
  show ?thesis using t unfolding fault_paddr_translate[OF x assms(4)] f minus_mod_eq_div_mult c by blast
qed

theorem vm_fault_loads_translation_witness:
  "\<exists>s a p q st s'. aspaces s a = Some (example_space p q st) \<and> vm_fault VM_FAULT_WRITE 0x401fff s = Ok () s' \<and> tlb s' ! 0 = (0x401000, p + 0x1600) \<and>
     (\<exists>s''. vm_fault VM_FAULT_WRITE 0x402000 s = Err EFAULT s'')"
proof -
  obtain a s p q st where e: "vm_run s Map.empty (Some a)" "cur_as s = Ok (Some a) s" "aspaces s a = Some (example_space p q st)" "loaded (example_space p q st)"
    "first_invalid s = Some 0" by (rule example_loaded) blast
  let ?x = "example_space p q st"
  have f: "find (\<lambda>i. snd (tlb s ! i) AND TLBLO_VALID = 0) [0..<64] = Some 0" using e(5) by (simp add: first_invalid_def tlb_valid_def del: upt_rec_numeral)
  have us: "USERSTACK = 2 ^ 31" by (simp add: USERSTACK_def MIPS_KSEG0_def)
  have u: "user_space ?x" using e(4) by (simp add: user_space_def defined_as_def example_space_def us)
  obtain R own where v: "vinv0 R own s Map.empty (Some a)" using vm_run_vinv[OF e(1)] by (auto simp: vinv_def)
  have len: "length (tlb s) = 64" using vinv0D(4)[OF v] by (simp add: tlb_ok_def)
  have tr: "as_translate ?x 0x401000 = Some (p + 0x1000)" "as_translate ?x 0x402000 = None"
    by (simp_all add: as_translate_def example_space_def us)
  note th = vm_fault_loads_translation[OF e(1-3) u _ disjI2[OF refl]]
  have c: "p + 0x1000 + TLBLO_DIRTY + TLBLO_VALID = p + 0x1600" by (simp add: TLBLO_DIRTY_def TLBLO_VALID_def)
  have "(0x401fff :: nat) < 2 ^ 32" "(0x401fff :: nat) div 4096 * 4096 = 0x401000" by simp_all
  from th[OF this(1), unfolded this(2) tr(1) f option.case c]
  obtain t where "vm_fault VM_FAULT_WRITE 0x401fff s = Ok () (s\<lparr>mts := t, tlb := (tlb s)[0 := (0x401000, p + 0x1600)]\<rparr>)" by blast
  moreover have "tlb (s\<lparr>mts := t, tlb := (tlb s)[0 := (0x401000, p + 0x1600)]\<rparr>) ! 0 = (0x401000, p + 0x1600)" using len by simp
  moreover obtain t2 where "vm_fault VM_FAULT_WRITE 0x402000 s = Err EFAULT (s\<lparr>mts := t2\<rparr>)" using th[of "0x402000"] tr(2) by auto
  ultimately show ?thesis using e(3) by blast
qed

section \<open>Copies\<close>

lemma translate_copy:
  assumes "same_layout x y"
  shows "as_translate y va = None \<longleftrightarrow> as_translate x va = None"
    "as_translate x va = Some p \<Longrightarrow> \<exists>i < 3. \<exists>k < snd (as_run x i) * 4096. p = fst (as_run x i) + k \<and> as_translate y va = Some (fst (as_run y i) + k)"
proof -
  have e: "as_vbase1 y = as_vbase1 x" "as_npages1 y = as_npages1 x" "as_vbase2 y = as_vbase2 x" "as_npages2 y = as_npages2 x" using assms by (simp_all add: same_layout_def)
  show "as_translate y va = None \<longleftrightarrow> as_translate x va = None" by (simp add: as_translate_def e)
  have us: "USERSTACK = 2 ^ 31" by (simp add: USERSTACK_def MIPS_KSEG0_def)
  show "\<exists>i < 3. \<exists>k < snd (as_run x i) * 4096. p = fst (as_run x i) + k \<and> as_translate y va = Some (fst (as_run y i) + k)" if t: "as_translate x va = Some p"
  proof (cases "as_vbase1 x \<le> va \<and> va < as_vbase1 x + as_npages1 x * 4096")
    case True
    then show ?thesis using t by (intro exI[of _ 0] conjI exI[of _ "va - as_vbase1 x"]) (auto simp: as_translate_def e)
  next
    case n1: False
    show ?thesis
    proof (cases "as_vbase2 x \<le> va \<and> va < as_vbase2 x + as_npages2 x * 4096")
      case True
      then show ?thesis using t n1 by (intro exI[of _ 1] conjI exI[of _ "va - as_vbase2 x"]) (auto simp: as_translate_def e)
    next
      case False
      then show ?thesis using t n1 by (intro exI[of _ 2] conjI exI[of _ "va - (USERSTACK - 49152)"]) (auto simp: as_translate_def e us split: if_splits)
    qed
  qed
qed

lemma translate_mem:
  assumes "loaded x" "as_translate x va = Some p"
  shows "p \<in> as_mem x"
proof -
  have "same_layout x x" by (simp add: same_layout_def)
  then obtain i k where i: "i < 3" "k < snd (as_run x i) * 4096" "p = fst (as_run x i) + k" using translate_copy(2)[OF _ assms(2)] by blast
  moreover have "fst (as_run x i) \<noteq> 0" using assms(1) by (auto simp: loaded_def as_run_def)
  ultimately show ?thesis unfolding as_mem_def by (intro CollectI exI[of _ i]) simp
qed

text \<open>
  C34: \<open>as_copy\<close> of a program that is loaded fails no assertion. It yields a new address space with the same mapped addresses, in which every address has the contents it has in the old one,
  in physical memory that the old one does not have; the old one keeps its memory and contents, and so do all other address spaces and allocated blocks. It fails with \<open>ENOMEM\<close> only if the memory that is left is not enough for the pages
  and a page for the structure, or no page record is left.
\<close>

theorem as_copy_duplicates:
  assumes "vm_run s live act" "aspaces s old = Some x" "loaded x"
  shows "(\<exists>s'. as_copy old s = Err ENOMEM s' \<and>
      (lastpaddr s < firstpaddr s + 4124 + (as_npages1 x + as_npages2 x + 12) * 4096 \<or> inuse s = {..<256})) \<or>
    (\<exists>new s' y. as_copy old s = Ok new s' \<and> aspaces s new = None \<and> aspaces s' = (aspaces s)(new \<mapsto> y) \<and>
      (\<forall>va. as_translate y va = None \<longleftrightarrow> as_translate x va = None) \<and>
      (\<forall>va p. as_translate x va = Some p \<longrightarrow> (\<exists>p'. as_translate y va = Some p' \<and> p' \<notin> as_mem x \<and>
         mwords s' (MIPS_KSEG0 + p') = mwords s (MIPS_KSEG0 + p))) \<and>
      (\<forall>b w p. aspaces s b = Some w \<and> p \<in> as_mem w \<longrightarrow> mwords s' (MIPS_KSEG0 + p) = mwords s (MIPS_KSEG0 + p)) \<and>
      (\<forall>c z q. live c = Some z \<and> c \<le> q \<and> q < c + z \<longrightarrow> mwords s' q = mwords s q))"
proof -
  obtain R own where v: "vinv0 R own s live act" using vm_run_vinv[OF assms(1)] by (auto simp: vinv_def)
  show ?thesis
  proof (rule as_copy_law[OF v assms(2)])
    fix R' own' s' new y
    assume c: "as_copy old s = Ok new s'" "vinv0 R' own' s' live act" "aspaces s' = (aspaces s)(new \<mapsto> y)" "aspaces s new = None" "loaded y" "same_layout x y"
      "\<forall>b z q. (live ++ R) b = Some z \<longrightarrow> b \<le> q \<longrightarrow> q < b + extent z \<longrightarrow> (\<forall>p \<in> as_mem y. q \<noteq> MIPS_KSEG0 + p) \<longrightarrow> mwords s' q = mwords s q"
      "loaded x \<longrightarrow> (\<forall>i k. i < 3 \<longrightarrow> k < snd (as_run x i) * 4096 \<longrightarrow> mwords s' (MIPS_KSEG0 + fst (as_run y i) + k) = mwords s (MIPS_KSEG0 + fst (as_run x i) + k))"
    have y: "aspaces s' new = Some y" using c(3) by simp
    have other: "aspaces s' b = Some w" "b \<noteq> new" if "aspaces s b = Some w" for b w using c(3,4) that by auto
    have kept: "mwords s' q = mwords s q" if "(live ++ R) b = Some z" "b \<le> q" "q < b + extent z" "\<forall>p \<in> as_mem y. q \<noteq> MIPS_KSEG0 + p" for b z q
      using c(7)[THEN spec, of b, THEN spec, of z, THEN spec, of q] that by blast
    have 1: "\<exists>p'. as_translate y va = Some p' \<and> p' \<notin> as_mem x \<and> mwords s' (MIPS_KSEG0 + p') = mwords s (MIPS_KSEG0 + p)"
      if t: "as_translate x va = Some p" for va p
    proof -
      obtain i k where i: "i < 3" "k < snd (as_run x i) * 4096" "p = fst (as_run x i) + k" "as_translate y va = Some (fst (as_run y i) + k)"
        using translate_copy(2)[OF c(6) t] by blast
      have "fst (as_run y i) + k \<notin> as_mem x" using as_mem_apart(1)[OF c(2) y translate_mem[OF c(5) i(4)] other(1)[OF assms(2)]] other(2)[OF assms(2)] by blast
      then show ?thesis using c(8) assms(3) i by (auto simp: add.assoc)
    qed
    have 2: "mwords s' (MIPS_KSEG0 + p) = mwords s (MIPS_KSEG0 + p)" if b: "aspaces s b = Some w" and p: "p \<in> as_mem w" for b w p
    proof -
      obtain i where i: "i < 3" "fst (as_run w i) \<noteq> 0" "fst (as_run w i) \<le> p" "p < fst (as_run w i) + snd (as_run w i) * 4096" using p by (auto simp: as_mem_def)
      then have n: "0 < snd (as_run w i)" by (cases "snd (as_run w i)") auto
      have r: "(live ++ R) (MIPS_KSEG0 + fst (as_run w i)) = Some (snd (as_run w i) * 4096)" using as_okD(5)[OF vinv0D(3)[OF v b] i(1,2) n] by simp
      have "p \<notin> as_mem y" using as_mem_apart(1)[OF c(2) other(1)[OF b] p y] other(2)[OF b] by blast
      then show ?thesis by (intro kept[OF r]) (use i n in \<open>auto simp: extent_def npg_def\<close>)
    qed
    have 3: "mwords s' q = mwords s q" if l: "live b = Some z" "b \<le> q" "q < b + z" for b z q
    proof -
      have "q < b + extent z" using extent_mono[OF vinv0D(1)[OF v] vinv0_live(1)[OF v l(1)]] l(3) by simp
      moreover have "\<forall>p \<in> as_mem y. q \<noteq> MIPS_KSEG0 + p" using as_mem_apart(2)[OF c(2) y _ l(1)] l(2,3) by blast
      ultimately show ?thesis by (intro kept[OF vinv0_live(1)[OF v l(1)] l(2)])
    qed
    show ?thesis using c(1,3,4) translate_copy(1)[OF c(6)] 1 2 3 by blast
  qed blast
qed

theorem as_copy_duplicates_witness:
  "\<exists>s a p q st new s' y p'. aspaces s a = Some (example_space p q st) \<and> as_copy a s = Ok new s' \<and> aspaces s' new = Some y \<and>
     as_translate y 0x10000004 = Some p' \<and> mwords s' (MIPS_KSEG0 + p') = mwords s (MIPS_KSEG0 + q + 4)"
proof -
  obtain a s p q st where e: "vm_run s Map.empty (Some a)" "aspaces s a = Some (example_space p q st)" "loaded (example_space p q st)" "firstpaddr s \<le> 131100" "lastpaddr s = 1048576" "inuse s \<noteq> {..<256}"
    by (rule example_loaded) blast
  let ?x = "example_space p q st"
  have tr: "as_translate ?x 0x10000004 = Some (q + 4)" by (simp add: as_translate_def example_space_def)
  have "\<not> lastpaddr s < firstpaddr s + 4124 + (as_npages1 ?x + as_npages2 ?x + 12) * 4096" using e(4,5) by (simp add: example_space_def)
  then obtain new s' y where c: "as_copy a s = Ok new s'" "aspaces s' = (aspaces s)(new \<mapsto> y)"
    "\<forall>va p. as_translate ?x va = Some p \<longrightarrow> (\<exists>p'. as_translate y va = Some p' \<and> p' \<notin> as_mem ?x \<and> mwords s' (MIPS_KSEG0 + p') = mwords s (MIPS_KSEG0 + p))"
    using as_copy_duplicates[OF e(1,2,3)] e(6) by blast
  then show ?thesis using tr e(2) by (fastforce simp: add.assoc)
qed

section \<open>Failures\<close>

text \<open>
  A page fault while the current thread has no address space is refused with \<open>EFAULT\<close>, but \<open>vm_fault\<close> returns from there without restoring the interrupt level: interrupts stay off after the fault, whatever the level was before.
\<close>

lemma vm_fault_without_space_keeps_interrupts_off:
  assumes "cur_as s = Ok None s" "ft = VM_FAULT_READ \<or> ft = VM_FAULT_WRITE"
  shows "\<exists>s'. vm_fault ft va s = Err EFAULT s' \<and> curspl (mts s') = SPL_HIGH \<and> \<not> iec (mts s')"
  using vm_fault_none[OF assms(2,1)] by (simp add: spl_set_def SPL_HIGH_def)

lemma getppages_wrap:
  assumes "ram_ok s" "n * 4096 = 2 ^ 32 - firstpaddr s + 4096" "4096 \<le> lastpaddr s" "8192 \<le> firstpaddr s"
  obtains t where "getppages n s = Ok (firstpaddr s) (s\<lparr>mts := t, firstpaddr := 4096\<rparr>)"
proof -
  let ?f = "firstpaddr s"
  have f: "?f < 2 ^ 29" using assms(1) by (simp add: ram_ok_def)
  have sz: "u32 (int n * int PAGE_SIZE) = 2 ^ 32 - ?f + 4096"
    by (rule u32_of_nat) (use f assms(4) arg_cong[OF assms(2), of int] in \<open>simp_all add: PAGE_SIZE_def\<close>)
  have "int ?f + int (2 ^ 32 - ?f + 4096) = 4096 + 2 ^ 32" using f by simp
  then have w: "u32 (int ?f + int (2 ^ 32 - ?f + 4096)) = 4096" by (simp add: u32_def)
  have st: "ram_stealmem n x = Ok ?f (x\<lparr>firstpaddr := 4096\<rparr>)" if "firstpaddr x = ?f" "lastpaddr x = lastpaddr s" for x
    unfolding ram_stealmem_def Let_def sz that w using assms(3) by simp
  let ?t = "spl_set (curspl (mts s)) (spl_set SPL_HIGH (mts s))"
  have c: "s\<lparr>mts := u, firstpaddr := g\<rparr>\<lparr>mts := v\<rparr> = s\<lparr>mts := v, firstpaddr := g\<rparr>" for u v g by (cases s) simp
  have "getppages n s = Ok ?f (s\<lparr>mts := ?t, firstpaddr := 4096\<rparr>)"
    unfolding getppages_def by (simp add: bind_def[of "ram_stealmem n"] st c)
  then show thesis by (rule that)
qed

lemma getppages_enough:
  assumes "ram_ok s" "n * 4096 < 2 ^ 31" "firstpaddr s + n * 4096 \<le> lastpaddr s"
  obtains t where "getppages n s = Ok (firstpaddr s) (s\<lparr>mts := t, firstpaddr := firstpaddr s + n * 4096\<rparr>)"
proof -
  obtain t where "getppages n s = (if firstpaddr s + n * 4096 > lastpaddr s then Ok 0 (s\<lparr>mts := t\<rparr>)
       else Ok (firstpaddr s) (s\<lparr>mts := t, firstpaddr := firstpaddr s + n * 4096\<rparr>))"
    by (rule getppages_run[OF assms(1,2)])
  then show thesis using that[of t] assms(3) by simp
qed

lemma as_prepare_load_seq:
  assumes "aspaces s a = Some x" "unloaded x" "getppages (as_npages1 x) s = Ok p1 s1" "p1 \<noteq> 0" "aspaces s1 = aspaces s"
    "s1' = s1\<lparr>aspaces := (aspaces s)(a \<mapsto> x\<lparr>as_pbase1 := p1\<rparr>)\<rparr>" "getppages (as_npages2 x) s1' = Ok p2 s2" "p2 \<noteq> 0" "aspaces s2 = aspaces s1'"
    "s2' = s2\<lparr>aspaces := (aspaces s)(a \<mapsto> x\<lparr>as_pbase1 := p1, as_pbase2 := p2\<rparr>)\<rparr>" "getppages 12 s2' = Ok p3 s3" "p3 \<noteq> 0" "aspaces s3 = aspaces s2'"
  shows "as_prepare_load a s = Ok () (s3\<lparr>aspaces := (aspaces s)(a \<mapsto> x\<lparr>as_pbase1 := p1, as_pbase2 := p2, as_stackpbase := p3\<rparr>)\<rparr>)"
proof -
  have z: "as_pbase1 x = 0" "as_pbase2 x = 0" "as_stackpbase x = 0" using assms(2) by (simp_all add: unloaded_def)
  have a1: "aspaces s1 a = Some x" "aspaces s2 a = Some (x\<lparr>as_pbase1 := p1\<rparr>)" "aspaces s3 a = Some (x\<lparr>as_pbase1 := p1, as_pbase2 := p2\<rparr>)"
    using assms(1,5,6,9,10,13) by simp_all
  have u: "s1\<lparr>aspaces := (aspaces s1)(a \<mapsto> as_pbase1_update (\<lambda>_. p1) x)\<rparr> = s1'" "s2\<lparr>aspaces := (aspaces s2)(a \<mapsto> as_pbase2_update (\<lambda>_. p2) (x\<lparr>as_pbase1 := p1\<rparr>))\<rparr> = s2'"
    using assms(5,6,9,10) by simp_all
  have f: "aspaces s3 = (aspaces s)(a \<mapsto> x\<lparr>as_pbase1 := p1, as_pbase2 := p2\<rparr>)" using assms(10,13) by simp
  show ?thesis unfolding as_prepare_load_def bind_as_get[OF assms(1)] z DUMBVM_STACKPAGES_def
    by (simp add: bind_Ok[of "getppages (as_npages1 x)" s, OF assms(3)] bind_as_put(1)[OF a1(1)] u(1)[simplified] assms(4,8,12)
        bind_Ok[of "getppages (as_npages2 x)" s1', OF assms(7)] bind_as_put(1)[OF a1(2)] u(2)[simplified]
        bind_Ok[of "getppages 12" s2', OF assms(11)] bind_as_put[OF a1(3)] f)
qed

text \<open>
  C35: The size of a region is not checked. If a program asks for a region of \<open>2 ^ 32\<close> bytes less the free memory's first address, plus a page, \<open>as_prepare_load\<close> succeeds, because the address of the first free page
  wraps around; the second region and the stack of the program then are the physical pages from the second on, which hold the kernel.
\<close>

theorem region_size_wraps_around:
  assumes "vm_run s live act" "aspaces s a = Some x" "unloaded x" "as_vbase1 x = 0" "as_vbase2 x = 0" "8192 \<le> firstpaddr s" "57344 \<le> lastpaddr s"
  shows "\<exists>s1 s2 s3 y. as_define_region a 4096 (2 ^ 32 - firstpaddr s + 4096) s = Ok () s1 \<and> as_define_region a 0x10000000 4096 s1 = Ok () s2 \<and>
     as_prepare_load a s2 = Ok () s3 \<and> aspaces s3 a = Some y \<and> as_pbase2 y = 4096 \<and> as_npages2 y = 1 \<and> as_stackpbase y = 8192 \<and> firstpaddr s3 = 57344"
proof -
  obtain R own where v: "vinv0 R own s live act" using vm_run_vinv[OF assms(1)] by (auto simp: vinv_def)
  have r: "ram_ok s" using hinv_ram[OF vinv0D(1)[OF v]] .
  let ?f = "firstpaddr s" and ?sz = "2 ^ 32 - firstpaddr s + 4096"
  have f: "?f < 2 ^ 29" "?f mod 4096 = 0" using r by (simp_all add: ram_ok_def)
  have "4096 dvd ?sz" using f(1) by (intro dvd_add dvd_diff_nat) (use f(2) in \<open>simp_all add: dvd_eq_mod_eq_0\<close>)
  then obtain n where n: "?sz = 4096 * n" by (rule dvdE)
  have np: "npg (?sz + 4096 mod 4096) = n" unfolding n npg_def by simp
  let ?x1 = "x\<lparr>as_vbase1 := 4096, as_npages1 := n\<rparr>"
  let ?s1 = "s\<lparr>aspaces := (aspaces s)(a \<mapsto> ?x1)\<rparr>"
  have 1: "as_define_region a 4096 ?sz s = Ok () ?s1"
    by (subst as_define_region_run[OF assms(2) _ _ refl np[symmetric]]) (use assms(4,6) f(1) in simp_all)
  let ?x2 = "?x1\<lparr>as_vbase2 := 0x10000000, as_npages2 := 1\<rparr>"
  let ?s2 = "s\<lparr>aspaces := (aspaces s)(a \<mapsto> ?x2)\<rparr>"
  have 2: "as_define_region a 0x10000000 4096 ?s1 = Ok () ?s2"
    by (subst as_define_region_run[of ?s1 a ?x1]) (use assms(5) in \<open>simp_all add: npg_def\<close>)
  have r2: "ram_ok ?s2" using r by (simp add: ram_ok_def)
  have g1: "n * 4096 = 2 ^ 32 - firstpaddr ?s2 + 4096" "4096 \<le> lastpaddr ?s2" "8192 \<le> firstpaddr ?s2" using n assms(6,7) by simp_all
  obtain t1 where t1: "getppages n ?s2 = Ok (firstpaddr ?s2) (?s2\<lparr>mts := t1, firstpaddr := 4096\<rparr>)" by (rule getppages_wrap[OF r2 g1])
  let ?s3 = "?s2\<lparr>mts := t1, firstpaddr := 4096\<rparr>\<lparr>aspaces := (aspaces ?s2)(a \<mapsto> ?x2\<lparr>as_pbase1 := ?f\<rparr>)\<rparr>"
  have r3: "ram_ok ?s3" "1 * 4096 < (2 :: nat) ^ 31" "firstpaddr ?s3 + 1 * 4096 \<le> lastpaddr ?s3" using r assms(7) by (simp_all add: ram_ok_def)
  obtain t2 where t2: "getppages 1 ?s3 = Ok (firstpaddr ?s3) (?s3\<lparr>mts := t2, firstpaddr := firstpaddr ?s3 + 1 * 4096\<rparr>)" by (rule getppages_enough[OF r3])
  let ?s4 = "?s3\<lparr>mts := t2, firstpaddr := 8192\<rparr>\<lparr>aspaces := (aspaces ?s2)(a \<mapsto> ?x2\<lparr>as_pbase1 := ?f, as_pbase2 := 4096\<rparr>)\<rparr>"
  have r4: "ram_ok ?s4" "12 * 4096 < (2 :: nat) ^ 31" "firstpaddr ?s4 + 12 * 4096 \<le> lastpaddr ?s4" using r assms(7) by (simp_all add: ram_ok_def)
  obtain t3 where t3: "getppages 12 ?s4 = Ok (firstpaddr ?s4) (?s4\<lparr>mts := t3, firstpaddr := firstpaddr ?s4 + 12 * 4096\<rparr>)" by (rule getppages_enough[OF r4])
  let ?y = "?x2\<lparr>as_pbase1 := ?f, as_pbase2 := 4096, as_stackpbase := 8192\<rparr>"
  let ?s5 = "?s4\<lparr>mts := t3, firstpaddr := 57344\<rparr>\<lparr>aspaces := (aspaces ?s2)(a \<mapsto> ?y)\<rparr>"
  have "as_prepare_load a ?s2 = Ok () ?s5"
    by (rule as_prepare_load_seq[where x = "?x2" and s1' = ?s3 and s2' = ?s4 and ?p1.0 = ?f and ?s1.0 = "?s2\<lparr>mts := t1, firstpaddr := 4096\<rparr>" and ?s2.0 = "?s3\<lparr>mts := t2, firstpaddr := 8192\<rparr>"
          and ?s3.0 = "?s4\<lparr>mts := t3, firstpaddr := 57344\<rparr>"])
      (use t1 t2 t3 assms(3,6) in \<open>simp_all add: unloaded_def\<close>)
  then show ?thesis using 1 2 by (intro exI[of _ ?s1] exI[of _ ?s2] exI[of _ ?s5] exI[of _ ?y]) simp
qed

theorem region_size_wraps_around_witness:
  "\<exists>s a s1 s2 s3 y. as_define_region a 4096 (2 ^ 32 - firstpaddr s + 4096) s = Ok () s1 \<and> as_define_region a 0x10000000 4096 s1 = Ok () s2 \<and>
     as_prepare_load a s2 = Ok () s3 \<and> aspaces s3 a = Some y \<and> 65536 \<le> firstpaddr s \<and> as_pbase2 y + as_npages2 y * 4096 < 65536"
proof -
  obtain a s where e: "vm_run s Map.empty None" "aspaces s a = Some as_empty" "lastpaddr s = 1048576" "65536 \<le> firstpaddr s" by (rule example_created)
  have h: "as_vbase1 as_empty = 0" "as_vbase2 as_empty = 0" "8192 \<le> firstpaddr s" "57344 \<le> lastpaddr s" using e(3,4) by (simp_all add: as_empty_def)
  from region_size_wraps_around[OF e(1,2) unloaded_empty h] obtain s1 s2 s3 y where
    "as_define_region a 4096 (2 ^ 32 - firstpaddr s + 4096) s = Ok () s1" "as_define_region a 0x10000000 4096 s1 = Ok () s2" "as_prepare_load a s2 = Ok () s3"
    "aspaces s3 a = Some y" "as_pbase2 y = 4096" "as_npages2 y = 1" by blast
  moreover from this have "as_pbase2 y + as_npages2 y * 4096 < 65536" by simp
  ultimately show ?thesis using e(4) by blast
qed

end
