(* ===== verification/Spec2Isabelle.thy ===== *)
theory Spec2Isabelle
  imports Kernel_Bitmap Synch_Cv Sfs_Ops_Claims Vm_Claims
begin

text \<open>
  A verification development of the OS/161 kernel in \<open>src/src/kern\<close>: containers, threads and the
  scheduler.
\<close>

end
